(* ===== verification/Prelude.thy ===== *)
theory Prelude
  imports Main "HOL-Library.Word"
begin

text \<open>
  What every component shares: the C vocabulary of the model (size_t, NUL-terminated strings,
  memcpy into an object, snprintf), the control flow of a C function body with early returns, and
  decimal printing with its laws.

  A result of type \<open>'a option\<close> at the outermost level always has one meaning in this
  development: \<open>None\<close> is undefined behaviour (a read or write outside an object, a NULL
  dereference) or a failed assertion. A C pointer argument that the code tests against NULL is an
  option of its own.
\<close>

type_synonym size_t = "64 word"
type_synonym u32 = "32 word"
type_synonym u16 = "16 word"
type_synonym byte = "8 word"

named_theorems csem \<comment> \<open>how the control-flow combinators run\<close>
named_theorems mem_laws \<comment> \<open>what copying into an object leaves there\<close>

subsection \<open>C strings\<close>

definition NUL :: char where
  "NUL = CHR 0x00"

abbreviation crlf :: string where
  "crlf \<equiv> [CHR 0x0D, CHR 0x0A]"

text \<open>The characters a \<open>char *\<close> designates: those before the first NUL of the object.\<close>

definition c_str :: "string \<Rightarrow> string" where
  "c_str m = takeWhile (\<lambda>c. c \<noteq> NUL) m"

definition c_string :: "string \<Rightarrow> bool" where
  "c_string s \<longleftrightarrow> NUL \<notin> set s"

lemma c_str_app_NUL [simp]: "c_string s \<Longrightarrow> c_str (s @ NUL # r) = s"
  by (auto simp: c_str_def c_string_def takeWhile_append2 takeWhile_tail)

lemma c_str_id [simp]: "c_string s \<Longrightarrow> c_str s = s"
  by (auto simp: c_str_def c_string_def takeWhile_eq_all_conv)

lemma c_string_append [simp]: "c_string (a @ b) \<longleftrightarrow> c_string a \<and> c_string b"
  by (auto simp: c_string_def)

lemma c_string_Nil [simp]: "c_string []"
  by (simp add: c_string_def)

lemma c_string_Cons [simp]: "c_string (c # s) \<longleftrightarrow> c \<noteq> NUL \<and> c_string s"
  by (auto simp: c_string_def)

lemma c_str_c_string [simp]: "c_string (c_str m)"
  by (auto simp: c_str_def c_string_def dest: set_takeWhileD)

text \<open>
  \<open>snprintf (buf, n, ...)\<close> with the formatted text \<open>t\<close>: what it stores and the
  \<open>int\<close> it returns, which is negative when the length does not fit an \<open>int\<close>.
\<close>

definition snprintf_store :: "nat \<Rightarrow> string \<Rightarrow> string" where
  "snprintf_store n t = (if n = 0 then [] else take (n - 1) t @ [NUL])"

definition snprintf_ret :: "string \<Rightarrow> int" where
  "snprintf_ret t = (if length t < 2 ^ 31 then int (length t) else -1)"

lemma snprintf_fits:
  "(snprintf_ret t < 0 \<or> int n \<le> snprintf_ret t) \<longleftrightarrow> \<not> length t < n" if "n < 2 ^ 31"
  using that by (auto simp: snprintf_ret_def)

lemma snprintf_store_fits: "length t < n \<Longrightarrow> snprintf_store n t = t @ [NUL]"
  by (auto simp: snprintf_store_def)

lemma length_snprintf_store: "length (snprintf_store n t) \<le> n"
  by (auto simp: snprintf_store_def)

subsection \<open>size_t\<close>

lemma unat_size_of_nat: "n < 2 ^ 64 \<Longrightarrow> unat (of_nat n :: size_t) = n"
  by (simp add: unat_of_nat)

lemma unat_size_below: "n < unat (w :: size_t) \<Longrightarrow> unat (of_nat n :: size_t) = n"
  using unsigned_less [of w, where 'a = nat] by (intro unat_size_of_nat) simp

lemma unat_size_add:
  "unat a + unat b < 2 ^ 64 \<Longrightarrow> unat (a + b :: size_t) = unat a + unat b"
  by (simp add: unat_word_ariths)

subsection \<open>memcpy into an object\<close>

text \<open>
  \<open>write_at off xs m\<close> copies \<open>xs\<close> to offset \<open>off\<close> of the object \<open>m\<close>;
  \<open>read_n n m\<close> reads the first \<open>n\<close> elements. Both are undefined out of range.
\<close>

definition write_at :: "nat \<Rightarrow> 'a list \<Rightarrow> 'a list \<Rightarrow> 'a list option" where
  "write_at off xs m =
     (if off + length xs \<le> length m
      then Some (take off m @ xs @ drop (off + length xs) m) else None)"

definition read_n :: "nat \<Rightarrow> 'a list \<Rightarrow> 'a list option" where
  "read_n n m = (if n \<le> length m then Some (take n m) else None)"

lemma write_at_Some_iff [mem_laws]:
  "write_at off xs m = Some m' \<longleftrightarrow>
     off + length xs \<le> length m \<and> m' = take off m @ xs @ drop (off + length xs) m"
  by (auto simp: write_at_def)

lemma write_at_defined [mem_laws]:
  "off + length xs \<le> length m \<Longrightarrow>
     write_at off xs m = Some (take off m @ xs @ drop (off + length xs) m)"
  by (simp add: write_at_def)

lemma write_at_length: "write_at off xs m = Some m' \<Longrightarrow> length m' = length m"
  by (auto simp: write_at_Some_iff)

lemma write_at_take:
  "write_at off xs m = Some m' \<Longrightarrow> take (off + length xs) m' = take off m @ xs"
  by (auto simp: write_at_Some_iff)

subsection \<open>Runs\<close>

text \<open>One step after the other; an undefined step makes the whole run undefined.\<close>

fun run_all :: "('a \<Rightarrow> 's \<Rightarrow> 's option) \<Rightarrow> 'a list \<Rightarrow> 's \<Rightarrow> 's option" where
  "run_all f [] s = Some s"
| "run_all f (x # xs) s = Option.bind (f x s) (run_all f xs)"

lemma run_all_append:
  "run_all f (xs @ ys) s = Option.bind (run_all f xs s) (run_all f ys)"
  by (induction xs arbitrary: s) (auto split: bind_split)

lemma run_all_invariant:
  assumes "\<And>x s s'. x \<in> set xs \<Longrightarrow> P s \<Longrightarrow> f x s = Some s' \<Longrightarrow> P s'"
  shows "P s \<Longrightarrow> run_all f xs s = Some s' \<Longrightarrow> P s'"
  using assms
proof (induction xs arbitrary: s)
  case Nil
  then show ?case by simp
next
  case (Cons x xs)
  from Cons.prems(2) obtain s1 where "f x s = Some s1" "run_all f xs s1 = Some s'"
    by (auto split: bind_splits)
  with Cons.prems show ?case by (intro Cons.IH [of s1]) auto
qed

subsection \<open>Function bodies with early returns\<close>

text \<open>
  One statement of a body from the state \<open>s\<close>: \<open>None\<close> is undefined behaviour,
  \<open>Inl (r, s)\<close> has returned \<open>r\<close>, \<open>Inr s\<close> goes on with the next statement.
\<close>

type_synonym ('r, 's) cstep = "(('r \<times> 's) + 's) option"

definition creturn :: "'r \<Rightarrow> 's \<Rightarrow> ('r, 's) cstep" where
  "creturn r s = Some (Inl (r, s))"

definition cnext :: "'s \<Rightarrow> ('r, 's) cstep" where
  "cnext s = Some (Inr s)"

fun cthen :: "('r, 's) cstep \<Rightarrow> ('s \<Rightarrow> ('r, 's) cstep) \<Rightarrow> ('r, 's) cstep" where
  "cthen None f = None"
| "cthen (Some (Inl rs)) f = Some (Inl rs)"
| "cthen (Some (Inr s)) f = f s"

text \<open>A statement that cannot return: \<open>None\<close> is undefined.\<close>

definition cstmt :: "'s option \<Rightarrow> ('r, 's) cstep" where
  "cstmt m = map_option Inr m"

text \<open>The whole body: falling off its last statement returns \<open>r\<close>.\<close>

fun crun :: "'r \<Rightarrow> ('r, 's) cstep \<Rightarrow> ('r \<times> 's) option" where
  "crun r None = None"
| "crun r (Some (Inl rs)) = Some rs"
| "crun r (Some (Inr s)) = Some (r, s)"

lemma cthen_creturn [simp, csem]: "cthen (creturn r s) f = creturn r s"
  by (simp add: creturn_def)

lemma cthen_cnext [simp, csem]: "cthen (cnext s) f = f s"
  by (simp add: cnext_def)

lemma crun_creturn [simp, csem]: "crun r (creturn r' s) = Some (r', s)"
  by (simp add: creturn_def)

lemma crun_cnext [simp, csem]: "crun r (cnext s) = Some (r, s)"
  by (simp add: cnext_def)

lemma cstmt_simps [simp, csem]: "cstmt None = None" "cstmt (Some s) = cnext s"
  by (simp_all add: cstmt_def cnext_def)

lemma cthen_assoc: "cthen (cthen m f) g = cthen m (\<lambda>s. cthen (f s) g)"
  by (cases m rule: cthen.cases [of "(m, f)" for m]) auto

lemma cthen_cnext_id [simp]: "cthen m cnext = m"
  by (cases m rule: cthen.cases [of "(m, f)" for m f]) (auto simp: cnext_def)

lemma creturn_inject [simp]:
  "creturn r s = creturn r' s' \<longleftrightarrow> r = r' \<and> s = s'"
  "creturn r s \<noteq> cnext s'" "cnext s' \<noteq> creturn r s"
  "cnext s = cnext s' \<longleftrightarrow> s = s'"
  "creturn r s \<noteq> None" "cnext s \<noteq> None"
  by (auto simp: creturn_def cnext_def)

end
