(* ===== verification/Framing.thy ===== *)
theory Framing
  imports Prelude
begin

text \<open>
  The abstract specification of a server of framed packets: a parser looks at the bytes received so
  far and finds that it needs more, that they are malformed, or a packet of some length with its
  answer; draining answers every complete packet. The laws of an incremental parser, stated as a
  locale, make the answers independent of how the bytes arrive.
\<close>

datatype 'r parsed = Need_more | Malformed | Packet nat 'r

text \<open>The answers, the bytes left, and whether the drain stopped at a malformed packet.\<close>

function drain :: "('b list \<Rightarrow> 'r parsed) \<Rightarrow> 'b list \<Rightarrow> 'r list \<times> 'b list \<times> bool" where
  "drain parse xs =
     (case parse xs of
        Need_more \<Rightarrow> ([], xs, False)
      | Malformed \<Rightarrow> ([], xs, True)
      | Packet n r \<Rightarrow>
          if n = 0 \<or> length xs < n then ([], xs, False)
          else (case drain parse (drop n xs) of (rs, rest, bad) \<Rightarrow> (r # rs, rest, bad)))"
  by pat_completeness auto
termination by (relation "measure (\<lambda>(_, xs). length xs)") auto

declare drain.simps [simp del]

lemma drain_length: "length (fst (snd (drain parse xs))) \<le> length xs"
proof (induction parse xs rule: drain.induct)
  case (1 parse xs)
  show ?case
  proof (cases "parse xs")
    case (Packet n r)
    show ?thesis
    proof (cases "n = 0 \<or> length xs < n")
      case False
      then have "length (fst (snd (drain parse (drop n xs)))) \<le> length (drop n xs)"
        using 1 Packet by blast
      then show ?thesis
        using Packet False
        by (simp add: drain.simps [of parse xs] case_prod_beta)
    qed (simp add: drain.simps [of parse xs] Packet)
  qed (simp_all add: drain.simps [of parse xs])
qed

locale incremental_parser =
  fixes parse :: "'b list \<Rightarrow> 'r parsed"
  assumes packet_bounds: "parse xs = Packet n r \<Longrightarrow> 0 < n \<and> n \<le> length xs"
    and packet_stable: "parse xs = Packet n r \<Longrightarrow> parse (xs @ ys) = Packet n r"
    and malformed_stable: "parse xs = Malformed \<Longrightarrow> parse (xs @ ys) = Malformed"
begin

lemma drain_need: "parse xs = Need_more \<Longrightarrow> drain parse xs = ([], xs, False)"
  by (simp add: drain.simps [of parse xs])

lemma drain_malformed: "parse xs = Malformed \<Longrightarrow> drain parse xs = ([], xs, True)"
  by (simp add: drain.simps [of parse xs])

lemma drain_packet:
  "parse xs = Packet n r \<Longrightarrow>
     drain parse xs = (case drain parse (drop n xs) of (rs, rest, bad) \<Rightarrow> (r # rs, rest, bad))"
  using packet_bounds [of xs n r] by (simp add: drain.simps [of parse xs])

lemma drain_append:
  "drain parse (xs @ ys) =
     (case drain parse xs of (rs, rest, bad) \<Rightarrow>
        if bad then (rs, rest @ ys, True)
        else (case drain parse (rest @ ys) of (rs', rest', bad') \<Rightarrow> (rs @ rs', rest', bad')))"
proof (induction xs rule: measure_induct_rule [of length])
  case (less xs)
  show ?case
  proof (cases "parse xs")
    case Need_more
    then show ?thesis by (simp add: drain_need split: prod.split)
  next
    case Malformed
    then show ?thesis using malformed_stable [of xs ys] by (simp add: drain_malformed)
  next
    case (Packet n r)
    have n: "0 < n" "n \<le> length xs" using packet_bounds [OF Packet] by auto
    then have "drain parse (drop n xs @ ys) =
        (case drain parse (drop n xs) of (rs, rest, bad) \<Rightarrow>
           if bad then (rs, rest @ ys, True)
           else (case drain parse (rest @ ys) of (rs', rest', bad') \<Rightarrow> (rs @ rs', rest', bad')))"
      by (intro less) simp
    then show ?thesis
      using drain_packet [OF packet_stable [OF Packet], of ys] n
      by (simp add: drain_packet [OF Packet] split: prod.splits)
  qed
qed

text \<open>Every packet has at least one byte.\<close>

lemma drain_count: "length (fst (drain parse xs)) \<le> length xs"
proof (induction xs rule: measure_induct_rule [of length])
  case (less xs)
  show ?case
  proof (cases "parse xs")
    case (Packet n r)
    have n: "0 < n" "n \<le> length xs" using packet_bounds [OF Packet] by auto
    then have "length (fst (drain parse (drop n xs))) \<le> length xs - n"
      using less [of "drop n xs"] by simp
    then show ?thesis using n by (simp add: drain_packet [OF Packet] case_prod_beta)
  qed (simp_all add: drain_need drain_malformed)
qed

text \<open>What is left over by a good drain only waits.\<close>

lemma drain_rest_waits:
  "drain parse xs = (rs, rest, False) \<Longrightarrow> drain parse rest = ([], rest, False)"
proof (induction xs arbitrary: rs rule: measure_induct_rule [of length])
  case (less xs)
  show ?case
  proof (cases "parse xs")
    case Need_more
    then show ?thesis using less.prems by (simp add: drain_need)
  next
    case Malformed
    then show ?thesis using less.prems by (simp add: drain_malformed)
  next
    case (Packet n r)
    have "0 < n" "n \<le> length xs" using packet_bounds [OF Packet] by auto
    then show ?thesis
      using less.IH [of "drop n xs"] less.prems
      by (auto simp: drain_packet [OF Packet] split: prod.splits)
  qed
qed

text \<open>Chunk after chunk, with the rest of the previous drain in front of the next chunk.\<close>

lemma drain_snoc_chunk:
  assumes "drain parse xs = (rs, rest, False)"
  shows "drain parse (xs @ ys) =
    (case drain parse (rest @ ys) of (rs', rest', bad') \<Rightarrow> (rs @ rs', rest', bad'))"
  using drain_append [of xs ys] assms by simp

lemma drain_good_prefix:
  assumes "drain parse (xs @ ys) = (rs, rest, False)"
  shows "\<exists>rs1 rest1. drain parse xs = (rs1, rest1, False)"
  using drain_append [of xs ys] assms by (auto split: prod.splits if_splits)

end

end
