(* ===== verification/Binary_Codec.thy ===== *)
theory Binary_Codec
  imports Framing
begin

text \<open>
  The packet codec of \<open>src/src/infrastructure/binary_server.c\<close>: player state, the mutation, and the
  answer to a payload in both encodings. The host is little-endian, as the build's x86-64 target
  is. The MessagePack library is a parameter: \<open>unpack\<close> is \<open>msgpack_unpack_next\<close> on the payload
  (\<open>None\<close> unless it succeeds) and \<open>encode\<close> gives the bytes one packer call appends.
\<close>

unbundle bit_operations_syntax

abbreviation (input) BINARY_PKT_RAW :: byte where "BINARY_PKT_RAW \<equiv> 1"
abbreviation (input) BINARY_PKT_MSGPACK :: byte where "BINARY_PKT_MSGPACK \<equiv> 2"
abbreviation (input) BINARY_MAX_PAYLOAD :: nat where "BINARY_MAX_PAYLOAD \<equiv> 256"

subsection \<open>Player state\<close>

record player_state_raw =
  ps_type :: byte
  ps_x :: u16
  ps_y :: u16
  ps_hp :: byte

text \<open>The arithmetic is done in \<open>int\<close>.\<close>

definition player_mutate :: "u16 \<times> u16 \<times> byte \<Rightarrow> u16 \<times> u16 \<times> byte" where
  "player_mutate p =
     (case p of (x, y, hp) \<Rightarrow>
       (word_of_int ((uint x + 1) AND 0xFFFF),
        word_of_int ((uint y + 1) AND 0xFFFF),
        word_of_int (if hp = 0 then 0 else uint hp - 1)))"

subsection \<open>Byte order\<close>

definition load_u16 :: "byte \<Rightarrow> byte \<Rightarrow> u16" where
  "load_u16 b0 b1 = ucast b0 OR push_bit 8 (ucast b1)"

definition store_u16 :: "u16 \<Rightarrow> byte list" where
  "store_u16 x = [ucast x, ucast (drop_bit 8 x)]"

definition be16toh :: "u16 \<Rightarrow> u16" where
  "be16toh x = push_bit 8 x OR drop_bit 8 x"

definition htobe16 :: "u16 \<Rightarrow> u16" where
  "htobe16 x = push_bit 8 x OR drop_bit 8 x"

text \<open>Big-endian bytes, the reference.\<close>

definition be_bytes :: "u16 \<Rightarrow> byte list" where
  "be_bytes x = [ucast (drop_bit 8 x), ucast x]"

definition be_value :: "byte \<Rightarrow> byte \<Rightarrow> u16" where
  "be_value b0 b1 = push_bit 8 (ucast b0) OR ucast b1"

lemma be16toh_load: "be16toh (load_u16 b0 b1) = be_value b0 b1"
  by (rule bit_word_eqI) (auto simp: be16toh_def load_u16_def be_value_def bit_simps dest: bit_imp_le_length)

lemma store_htobe16: "store_u16 (htobe16 x) = be_bytes x"
  by (auto simp: store_u16_def htobe16_def be_bytes_def bit_simps intro!: bit_word_eqI)

lemma be_value_bytes [simp]: "be_value (ucast (drop_bit 8 x)) (ucast x) = x"
  by (rule bit_word_eqI) (auto simp: be_value_def bit_simps)

lemma player_mutate_eq:
  "player_mutate (x, y, hp) = (x + 1, y + 1, if hp = 0 then 0 else hp - 1)"
proof -
  have "(word_of_int (k AND 65535) :: u16) = word_of_int k" for k :: int
  proof -
    have "(65535 :: int) = mask 16" by (simp add: mask_eq_exp_minus_1)
    then have "k AND 65535 = take_bit 16 k" by (simp add: take_bit_eq_mask)
    then show ?thesis by (simp add: word_of_int_eq_iff)
  qed
  then show ?thesis by (simp add: player_mutate_def)
qed

subsection \<open>The raw codec\<close>

text \<open>The packed struct, copied from and to six bytes.\<close>

definition load_player :: "byte list \<Rightarrow> player_state_raw" where
  "load_player p =
     \<lparr>ps_type = p ! 0, ps_x = load_u16 (p ! 1) (p ! 2), ps_y = load_u16 (p ! 3) (p ! 4),
      ps_hp = p ! 5\<rparr>"

definition store_player :: "player_state_raw \<Rightarrow> byte list" where
  "store_player ps = ps_type ps # store_u16 (ps_x ps) @ store_u16 (ps_y ps) @ [ps_hp ps]"

definition raw_reply :: "byte list \<Rightarrow> byte list" where
  "raw_reply payload =
     (let ps = load_player payload;
          ps = ps\<lparr>ps_x := be16toh (ps_x ps), ps_y := be16toh (ps_y ps)\<rparr>
      in case player_mutate (ps_x ps, ps_y ps, ps_hp ps) of (x, y, hp) \<Rightarrow>
           let ps = ps\<lparr>ps_x := htobe16 x, ps_y := htobe16 y, ps_hp := hp\<rparr>
           in [word_of_nat (6 div 256), word_of_nat (6 mod 256)] @ store_player ps)"

subsection \<open>The MessagePack codec\<close>

datatype mp_object =
  Mp_Nil
| Mp_Boolean bool
| Mp_Positive_Integer "64 word"
| Mp_Negative_Integer "64 word"
| Mp_Float
| Mp_Str "byte list"
| Mp_Array "mp_object list"
| Mp_Map "(mp_object \<times> mp_object) list"
| Mp_Bin "byte list"
| Mp_Ext

datatype pack_call =
  Pack_Map nat
| Pack_Str nat
| Pack_Str_Body "byte list"
| Pack_Uint16 u16
| Pack_Uint8 byte

text \<open>
  \<open>key[0]\<close> for \<open>key = kv->key.via.str.ptr\<close>: the key's type is not looked at. A byte string has its pointer
  where a string has it; an empty one has no first byte; of a scalar, bytes that are no pointer
  are followed. The bytes of an array, a map or an extension are memory of the library, which is not modelled.
\<close>

definition key_byte :: "mp_object \<Rightarrow> byte option" where
  "key_byte key = (case key of Mp_Str (c # _) \<Rightarrow> Some c | Mp_Bin (c # _) \<Rightarrow> Some c | _ \<Rightarrow> None)"

fun map_fields ::
  "(mp_object \<times> mp_object) list \<Rightarrow> u16 \<times> u16 \<times> byte \<Rightarrow> (u16 \<times> u16 \<times> byte) option" where
  "map_fields [] p = Some p"
| "map_fields ((key, v) # kvs) (x, y, hp) =
     Option.bind (key_byte key) (\<lambda>c.
     map_fields kvs
       (case v of
          Mp_Positive_Integer n \<Rightarrow>
            if c = 0x78 then (ucast n, y, hp)
            else if c = 0x79 then (x, ucast n, hp)
            else if c = 0x68 then (x, y, ucast n)
            else (x, y, hp)
        | _ \<Rightarrow> (x, y, hp)))"

definition pack_player :: "u16 \<times> u16 \<times> byte \<Rightarrow> pack_call list" where
  "pack_player p =
     (case p of (x, y, hp) \<Rightarrow>
       [Pack_Map 3,
        Pack_Str 1, Pack_Str_Body [0x78], Pack_Uint16 x,
        Pack_Str 1, Pack_Str_Body [0x79], Pack_Uint16 y,
        Pack_Str 1, Pack_Str_Body [0x68], Pack_Uint8 hp])"

text \<open>The reply is assembled in a local array of 2 + 256 bytes.\<close>

definition msgpack_frame :: "byte list \<Rightarrow> byte list option" where
  "msgpack_frame sbuf =
     (if 3 + length sbuf \<le> 2 + BINARY_MAX_PAYLOAD
      then Some ([word_of_nat ((length sbuf + 1) div 256), word_of_nat ((length sbuf + 1) mod 256),
                  BINARY_PKT_MSGPACK] @ sbuf)
      else None)"

text \<open>The outer option is undefined behaviour, the inner \<open>None\<close> closes the connection.\<close>

definition msgpack_reply ::
  "(byte list \<Rightarrow> mp_object option) \<Rightarrow> (pack_call \<Rightarrow> byte list) \<Rightarrow> byte list \<Rightarrow>
     byte list option option" where
  "msgpack_reply unpack encode payload =
     (case unpack (tl payload) of
        Some (Mp_Map kvs) \<Rightarrow>
          if length kvs \<noteq> 3 then Some None
          else Option.bind (map_fields kvs (0, 0, 0)) (\<lambda>p.
               map_option Some (msgpack_frame (concat (map encode (pack_player (player_mutate p))))))
      | _ \<Rightarrow> Some None)"

definition binary_reply ::
  "(byte list \<Rightarrow> mp_object option) \<Rightarrow> (pack_call \<Rightarrow> byte list) \<Rightarrow> byte list \<Rightarrow>
     byte list option option" where
  "binary_reply unpack encode payload =
     (if payload ! 0 = BINARY_PKT_RAW then
        Some (if length payload \<noteq> 6 then None else Some (raw_reply payload))
      else if payload ! 0 = BINARY_PKT_MSGPACK then msgpack_reply unpack encode payload
      else Some None)"

definition frame_length :: "byte list \<Rightarrow> u16" where
  "frame_length p = push_bit 8 (ucast (p ! 0)) OR ucast (p ! 1)"

subsection \<open>The parser\<close>

text \<open>The answer of a packet is \<open>None\<close> when computing it is undefined behaviour.\<close>

definition parse_packet ::
  "(byte list \<Rightarrow> mp_object option) \<Rightarrow> (pack_call \<Rightarrow> byte list) \<Rightarrow> byte list \<Rightarrow>
     byte list option parsed" where
  "parse_packet unpack encode xs =
     (if length xs < 2 then Need_more
      else let len = unat (frame_length xs) in
        if len < 1 \<or> len > BINARY_MAX_PAYLOAD then Malformed
        else if length xs < 2 + len then Need_more
        else case binary_reply unpack encode (take len (drop 2 xs)) of
               None \<Rightarrow> Packet (2 + len) None
             | Some None \<Rightarrow> Malformed
             | Some (Some r) \<Rightarrow> Packet (2 + len) (Some r))"

lemma frame_length_append: "2 \<le> length xs \<Longrightarrow> frame_length (xs @ ys) = frame_length xs"
  by (cases xs) (auto simp: frame_length_def nth_append)

interpretation binary_parser: incremental_parser "parse_packet unpack encode" for unpack encode
proof
  fix xs n r
  assume "parse_packet unpack encode xs = Packet n r"
  then show "0 < n \<and> n \<le> length xs"
    by (auto simp: parse_packet_def Let_def split: if_splits option.splits)
next
  fix xs n r ys
  assume p: "parse_packet unpack encode xs = Packet n r"
  then have "2 \<le> length xs" "2 + unat (frame_length xs) \<le> length xs"
    by (auto simp: parse_packet_def Let_def split: if_splits)
  with p show "parse_packet unpack encode (xs @ ys) = Packet n r"
    by (auto simp: parse_packet_def Let_def frame_length_append split: if_splits option.splits)
next
  fix xs ys
  assume p: "parse_packet unpack encode xs = Malformed"
  then have "2 \<le> length xs" by (auto simp: parse_packet_def split: if_splits)
  with p show "parse_packet unpack encode (xs @ ys) = Malformed"
    by (auto simp: parse_packet_def Let_def frame_length_append split: if_splits option.splits)
qed

end
