(* ===== verification/Decimal.thy ===== *)
theory Decimal
  imports Prelude
begin

text \<open>
  Decimal text. \<open>dec\<close> is what \<open>snprintf\<close> prints for \<open>%zu\<close> and, on non-negative
  values, for \<open>%d\<close>; \<open>dec_int\<close> is \<open>%d\<close>; \<open>undec\<close> reads decimal text back.
  The locale \<open>decimal_printer\<close> is the contract of a printing routine: any routine that prints
  digits, without leading zeros, whose value is the number prints exactly \<open>dec\<close>.
\<close>

definition digit :: "nat \<Rightarrow> char" where
  "digit d = char_of (48 + d)"

definition is_digit :: "char \<Rightarrow> bool" where
  "is_digit c \<longleftrightarrow> 48 \<le> (of_char c :: nat) \<and> (of_char c :: nat) \<le> 57"

definition digit_val :: "char \<Rightarrow> nat" where
  "digit_val c = of_char c - 48"

fun dec :: "nat \<Rightarrow> string" where
  "dec n = (if n < 10 then [digit n] else dec (n div 10) @ [digit (n mod 10)])"

declare dec.simps [simp del]

definition dec_int :: "int \<Rightarrow> string" where
  "dec_int i = (if i < 0 then CHR ''-'' # dec (nat (- i)) else dec (nat i))"

definition undec :: "string \<Rightarrow> nat" where
  "undec s = foldl (\<lambda>a c. 10 * a + digit_val c) 0 s"

text \<open>The number of decimal digits.\<close>

fun ndigits :: "nat \<Rightarrow> nat" where
  "ndigits n = (if n < 10 then 1 else Suc (ndigits (n div 10)))"

declare ndigits.simps [simp del]

text \<open>The digits as literals, so that closed instances evaluate.\<close>

lemma digit_literals [simp]:
  "digit 0 = CHR ''0''"
  "digit (Suc 0) = CHR ''1''"
  "digit 2 = CHR ''2''"
  "digit 3 = CHR ''3''"
  "digit 4 = CHR ''4''"
  "digit 5 = CHR ''5''"
  "digit 6 = CHR ''6''"
  "digit 7 = CHR ''7''"
  "digit 8 = CHR ''8''"
  "digit 9 = CHR ''9''"
  "digit 1 = CHR ''1''"
  by (simp_all add: digit_def char_of_def bit_0)

lemma digit_val_literals [simp]:
  "digit_val CHR ''0'' = 0"
  "digit_val CHR ''1'' = 1"
  "digit_val CHR ''2'' = 2"
  "digit_val CHR ''3'' = 3"
  "digit_val CHR ''4'' = 4"
  "digit_val CHR ''5'' = 5"
  "digit_val CHR ''6'' = 6"
  "digit_val CHR ''7'' = 7"
  "digit_val CHR ''8'' = 8"
  "digit_val CHR ''9'' = 9"
  by (simp_all add: digit_val_def)

lemma of_char_digit: "d < 10 \<Longrightarrow> (of_char (digit d) :: nat) = 48 + d"
  by (simp add: digit_def)

lemma digit_val_digit [simp]: "d < 10 \<Longrightarrow> digit_val (digit d) = d"
  by (simp add: digit_val_def of_char_digit)

lemma is_digit_digit [simp]: "d < 10 \<Longrightarrow> is_digit (digit d)"
  by (simp add: is_digit_def of_char_digit)

lemma digit_digit_val [simp]: "is_digit c \<Longrightarrow> digit (digit_val c) = c"
  by (auto simp: digit_def digit_val_def is_digit_def)

lemma digit_val_less: "is_digit c \<Longrightarrow> digit_val c < 10"
  by (auto simp: digit_val_def is_digit_def)

lemma is_digit_not_NUL: "is_digit c \<Longrightarrow> c \<noteq> NUL"
  by (auto simp: is_digit_def NUL_def)

lemma length_dec: "length (dec n) = ndigits n"
proof (induction n rule: dec.induct)
  case (1 n)
  then show ?case by (simp add: dec.simps [of n] ndigits.simps [of n])
qed

lemma ndigits_pos [simp]: "0 < ndigits n"
  by (simp add: ndigits.simps [of n])

lemma dec_not_Nil [simp]: "dec n \<noteq> []"
  by (simp add: dec.simps [of n])

lemma dec_digits: "c \<in> set (dec n) \<Longrightarrow> is_digit c"
proof (induction n rule: dec.induct)
  case (1 n)
  then show ?case by (auto simp: dec.simps [of n] split: if_splits)
qed

lemma c_string_dec [simp]: "c_string (dec n)"
  using dec_digits is_digit_not_NUL by (auto simp: c_string_def)

lemma undec_snoc: "undec (s @ [c]) = 10 * undec s + digit_val c"
  by (simp add: undec_def)

lemma undec_single: "undec [c] = digit_val c"
  by (simp add: undec_def)

lemma undec_dec [simp]: "undec (dec n) = n"
proof (induction n rule: dec.induct)
  case (1 n)
  then show ?case
    by (cases "n < 10") (simp_all add: dec.simps [of n] undec_snoc undec_single)
qed

lemma dec_inject [simp]: "dec m = dec n \<longleftrightarrow> m = n"
  by (metis undec_dec)

lemma ndigits_le: "0 < k \<Longrightarrow> n < 10 ^ k \<Longrightarrow> ndigits n \<le> k"
proof (induction k arbitrary: n)
  case 0
  then show ?case by simp
next
  case (Suc k)
  show ?case
  proof (cases "n < 10")
    case True
    then show ?thesis by (simp add: ndigits.simps [of n])
  next
    case False
    then have "0 < k" using Suc.prems by (cases k) auto
    moreover have "n div 10 < 10 ^ k" using Suc.prems by auto
    ultimately show ?thesis
      using Suc.IH [of "n div 10"] False by (simp add: ndigits.simps [of n])
  qed
qed

lemma ndigits_ge: "10 ^ k \<le> n \<Longrightarrow> k < ndigits n"
proof (induction k arbitrary: n)
  case 0
  then show ?case by simp
next
  case (Suc k)
  have "(10::nat) * 1 \<le> 10 * 10 ^ k" by (rule mult_le_mono2) simp
  then have "\<not> n < 10" using Suc.prems unfolding power_Suc by linarith
  moreover have "10 ^ k \<le> n div 10" using Suc.prems by (simp add: less_eq_div_iff_mult_less_eq mult.commute)
  ultimately show ?case using Suc.IH [of "n div 10"] by (simp add: ndigits.simps [of n])
qed

lemma ndigits_le_iff: "0 < k \<Longrightarrow> ndigits n \<le> k \<longleftrightarrow> n < 10 ^ k"
  by (metis ndigits_ge ndigits_le not_less)

lemma ndigits_eqI: "10 ^ k \<le> n \<Longrightarrow> n < 10 ^ Suc k \<Longrightarrow> ndigits n = Suc k"
  by (metis le_antisym ndigits_ge ndigits_le Suc_leI zero_less_Suc)

lemma ndigits_mono: "m \<le> n \<Longrightarrow> ndigits m \<le> ndigits n"
proof -
  assume "m \<le> n"
  have "n < 10 ^ ndigits n" using ndigits_le_iff [of "ndigits n" n] by simp
  then have "m < 10 ^ ndigits n" using \<open>m \<le> n\<close> by simp
  then show ?thesis by (rule ndigits_le [OF ndigits_pos])
qed

text \<open>Reading digits without a leading zero and printing them again gives the same text.\<close>

definition plain_decimal :: "string \<Rightarrow> bool" where
  "plain_decimal s \<longleftrightarrow>
     s \<noteq> [] \<and> list_all is_digit s \<and> (hd s = digit 0 \<longrightarrow> s = [digit 0])"

lemma plain_decimal_dec: "plain_decimal (dec n)"
proof (induction n rule: dec.induct)
  case (1 n)
  show ?case
  proof (cases "n < 10")
    case True
    then have "digit n = digit 0 \<longrightarrow> n = 0" by (metis digit_val_digit zero_less_numeral)
    with True show ?thesis by (auto simp: plain_decimal_def dec.simps [of n])
  next
    case False
    have "dec (n div 10) \<noteq> [digit 0]"
    proof
      assume "dec (n div 10) = [digit 0]"
      then have "undec (dec (n div 10)) = undec [digit 0]" by simp
      then have "n div 10 = 0" by (simp only: undec_dec) (simp add: undec_single)
      with False show False by simp
    qed
    with 1 False show ?thesis by (auto simp: plain_decimal_def dec.simps [of n])
  qed
qed

lemma dec_undec: "plain_decimal s \<Longrightarrow> dec (undec s) = s"
proof (induction s rule: rev_induct)
  case Nil
  then show ?case by (simp add: plain_decimal_def)
next
  case (snoc c s)
  from snoc.prems have c: "is_digit c" by (simp add: plain_decimal_def)
  show ?case
  proof (cases "s = []")
    case True
    then show ?thesis using c digit_val_less [OF c] by (simp add: undec_single dec.simps [of "digit_val c"])
  next
    case False
    with snoc.prems have s: "plain_decimal s" "hd s \<noteq> digit 0"
      by (auto simp: plain_decimal_def)
    then have IH: "dec (undec s) = s" using snoc.IH by simp
    have "undec s \<noteq> 0"
      using IH s(2) by (metis dec.simps list.sel(1) zero_less_numeral)
    then show ?thesis
      using IH c digit_val_less [OF c] by (simp add: undec_snoc dec.simps [of "10 * undec s + digit_val c"])
  qed
qed

locale decimal_printer =
  fixes pr :: "nat \<Rightarrow> string" and dom_ok :: "nat \<Rightarrow> bool"
  assumes pr_plain: "dom_ok n \<Longrightarrow> plain_decimal (pr n)"
    and pr_value: "dom_ok n \<Longrightarrow> undec (pr n) = n"
begin

lemma pr_dec: "dom_ok n \<Longrightarrow> pr n = dec n"
  using dec_undec [OF pr_plain] pr_value by simp

lemma pr_length: "dom_ok n \<Longrightarrow> length (pr n) = ndigits n"
  by (simp add: pr_dec length_dec)

lemma pr_inject: "dom_ok m \<Longrightarrow> dom_ok n \<Longrightarrow> pr m = pr n \<longleftrightarrow> m = n"
  by (simp add: pr_dec)

end

interpretation c_dec: decimal_printer dec "\<lambda>_. True"
  by unfold_locales (simp_all add: plain_decimal_dec)

lemma dec_examples: "dec 0 = ''0''" "dec 13 = ''13''" "dec 4294967295 = ''4294967295''"
  by (simp_all add: dec.simps)

end
