(* ===== verification/Data_Segment.thy ===== *)
theory Data_Segment
  imports Prelude
begin

text \<open>
  Component \<open>third_party/libreactor/src/reactor/data.c\<close>: a pointer with a size. A pointer is
  represented by the elements that can be read from it on (\<open>None\<close> is NULL), so address
  arithmetic between two pointers (\<open>data_offset\<close>) is left out, and so is the allocation of
  a segment (\<open>data_alloc\<close>, \<open>data_free\<close>).
\<close>

record data =
  d_base :: "string option"
  d_size :: size_t

definition data_construct :: "string option \<Rightarrow> size_t \<Rightarrow> data" where
  "data_construct b n = \<lparr>d_base = b, d_size = n\<rparr>"

definition data_null :: data where
  "data_null = \<lparr>d_base = None, d_size = 0\<rparr>"

definition data_empty :: "data \<Rightarrow> bool" where
  "data_empty d \<longleftrightarrow> d_size d = 0"

definition data_select :: "data \<Rightarrow> size_t \<Rightarrow> size_t \<Rightarrow> data" where
  "data_select d off n = data_construct (map_option (drop (unat off)) (d_base d)) n"

definition data_consume :: "data \<Rightarrow> size_t \<Rightarrow> data" where
  "data_consume d n = data_construct (map_option (drop (unat n)) (d_base d)) (d_size d - n)"

text \<open>\<open>strlen\<close> is undefined on NULL and on an object without a NUL.\<close>

definition data_string :: "string option \<Rightarrow> data option" where
  "data_string p =
     (case p of None \<Rightarrow> None
      | Some m \<Rightarrow> if NUL \<in> set m then Some (data_construct p (of_nat (length (c_str m)))) else None)"

text \<open>The bytes a segment designates; \<open>memcmp\<close> of no bytes reads nothing.\<close>

definition data_read :: "nat \<Rightarrow> data \<Rightarrow> string option" where
  "data_read n d = (if n = 0 then Some [] else Option.bind (d_base d) (read_n n))"

definition data_text :: "data \<Rightarrow> string option" where
  "data_text d = data_read (unat (d_size d)) d"

definition memcmp_eq :: "nat \<Rightarrow> data \<Rightarrow> data \<Rightarrow> bool option" where
  "memcmp_eq n d1 d2 =
     (case (data_read n d1, data_read n d2) of (Some a, Some b) \<Rightarrow> Some (a = b) | _ \<Rightarrow> None)"

definition data_equal :: "data \<Rightarrow> data \<Rightarrow> bool option" where
  "data_equal d1 d2 =
     (if d_size d1 = d_size d2 then memcmp_eq (unat (d_size d1)) d1 d2 else Some False)"

definition data_prefix :: "data \<Rightarrow> data \<Rightarrow> bool option" where
  "data_prefix d1 d2 =
     (if d_size d1 \<le> d_size d2 then memcmp_eq (unat (d_size d1)) d1 d2 else Some False)"

subsection \<open>The segment aliases\<close>

definition segment_offset :: "data \<Rightarrow> size_t \<Rightarrow> data" where
  "segment_offset s off = data_select s off (d_size s - off)"

definition segment_equal :: "data \<Rightarrow> data \<Rightarrow> bool option" where
  "segment_equal s1 s2 = data_equal s1 s2"

definition segment_equal_case :: "data \<Rightarrow> data \<Rightarrow> bool option" where
  "segment_equal_case s1 s2 =
     (case data_prefix s1 s2 of None \<Rightarrow> None
      | Some b \<Rightarrow> Some (b \<and> d_size s1 = d_size s2))"

subsection \<open>What the operations mean on texts\<close>

lemma data_string_text:
  "c_string s \<Longrightarrow> length s < 2 ^ 64 \<Longrightarrow>
     data_string (Some (s @ NUL # r)) = Some (data_construct (Some (s @ NUL # r)) (of_nat (length s)))"
  by (simp add: data_string_def)

lemma data_text_construct:
  "n < 2 ^ 64 \<Longrightarrow> n \<le> length m \<Longrightarrow> data_text (data_construct (Some m) (of_nat n)) = Some (take n m)"
  by (auto simp: data_text_def data_read_def data_construct_def read_n_def unat_size_of_nat)

lemma data_text_string:
  "data_string p = Some d \<Longrightarrow> length (the p) < 2 ^ 64 \<Longrightarrow> data_text d = Some (c_str (the p))"
proof -
  assume d: "data_string p = Some d" and len: "length (the p) < 2 ^ 64"
  then obtain m where m: "p = Some m" by (auto simp: data_string_def split: option.splits)
  have "length (c_str m) \<le> length m" by (simp add: c_str_def length_takeWhile_le)
  moreover have "take (length (c_str m)) m = c_str m" by (simp add: c_str_def takeWhile_eq_take [symmetric])
  ultimately show ?thesis
    using d len data_text_construct [of "length (c_str m)" m]
    by (auto simp: m data_string_def split: if_splits)
qed

lemma data_text_length: "data_text d = Some x \<Longrightarrow> length x = unat (d_size d)"
  by (auto simp: data_text_def data_read_def read_n_def split: if_splits bind_splits)

lemma data_read_take: "data_text d = Some x \<Longrightarrow> n \<le> unat (d_size d) \<Longrightarrow> data_read n d = Some (take n x)"
  by (auto simp: data_text_def data_read_def read_n_def min_def split: if_splits bind_splits)

lemma data_prefix_texts:
  "data_text d1 = Some a \<Longrightarrow> data_text d2 = Some b \<Longrightarrow>
     data_prefix d1 d2 = Some (length a \<le> length b \<and> a = take (length a) b)"
  by (auto simp: data_prefix_def memcmp_eq_def data_read_take data_text_length word_le_nat_alt)

lemma data_equal_texts:
  "data_text d1 = Some a \<Longrightarrow> data_text d2 = Some b \<Longrightarrow> data_equal d1 d2 = Some (a = b)"
  using data_text_length [of d1 a] data_text_length [of d2 b]
  by (auto simp: data_equal_def memcmp_eq_def data_read_take word_unat_eq_iff)

text \<open>The comparison named after case-insensitivity is the exact comparison.\<close>

lemma segment_equal_case_texts:
  "data_text s1 = Some a \<Longrightarrow> data_text s2 = Some b \<Longrightarrow> segment_equal_case s1 s2 = Some (a = b)"
  using data_text_length [of s1 a] data_text_length [of s2 b]
  by (auto simp: segment_equal_case_def data_prefix_texts word_unat_eq_iff)

end
