(* ===== verification/Utility_U32.thy ===== *)
theory Utility_U32
  imports Decimal Data_Segment
begin

unbundle bit_operations_syntax

text \<open>
  Component \<open>third_party/libreactor/src/reactor/utility.c\<close>: the length of a 32-bit number's
  decimal text from its bit length, and the routine that writes it two digits at a time, backwards
  from the end of the field. \<open>utility_tsc\<close> (an assembler instruction) is left out.
\<close>

subsection \<open>The length\<close>

text \<open>\<open>32 - __builtin_clz (n)\<close> for a positive \<open>n\<close>: the bit length.\<close>

fun bit_len :: "nat \<Rightarrow> nat" where
  "bit_len n = (if n = 0 then 0 else Suc (bit_len (n div 2)))"

declare bit_len.simps [simp del]

definition pow_10 :: "nat list" where
  "pow_10 = [0, 10, 100, 1000, 10000, 100000, 1000000, 10000000, 100000000, 1000000000]"

definition utility_u32_len :: "u32 \<Rightarrow> nat" where
  "utility_u32_len n =
     (let t = drop_bit 12 (bit_len (unat (n OR 1)) * 1233)
      in t - (if unat n < pow_10 ! t then 1 else 0) + 1)"

subsection \<open>The digits\<close>

definition digits :: string where
  "digits =
     ''0001020304050607080910111213141516171819'' @
     ''2021222324252627282930313233343536373839'' @
     ''4041424344454647484950515253545556575859'' @
     ''6061626364656667686970717273747576777879'' @
     ''8081828384858687888990919293949596979899''"

text \<open>\<open>*--string = c\<close>: the field and the position of \<open>string\<close> in it.\<close>

definition push_before :: "char \<Rightarrow> string \<times> nat \<Rightarrow> (string \<times> nat) option" where
  "push_before c st =
     (case st of (m, p) \<Rightarrow> if 0 < p \<and> p \<le> length m then Some (m[p - 1 := c], p - 1) else None)"

definition push_pair :: "nat \<Rightarrow> string \<times> nat \<Rightarrow> (string \<times> nat) option" where
  "push_pair i st = Option.bind (push_before (digits ! (i + 1)) st) (push_before (digits ! i))"

fun utility_u32_sprint :: "nat \<Rightarrow> string \<times> nat \<Rightarrow> (string \<times> nat) option" where
  "utility_u32_sprint n st =
     (if n \<ge> 100
      then Option.bind (push_pair (2 * (n mod 100)) st) (utility_u32_sprint (n div 100))
      else if n < 10 then push_before (char_of (n + 48)) st
      else push_pair (2 * n) st)"

declare utility_u32_sprint.simps [simp del]

text \<open>\<open>utility_u32_toa\<close> writes into the caller's memory and ends the text with a NUL.\<close>

definition utility_u32_toa :: "u32 \<Rightarrow> string \<Rightarrow> string option" where
  "utility_u32_toa n m =
     (let l = utility_u32_len n
      in Option.bind (write_at l [NUL] m) (\<lambda>m.
         map_option fst (utility_u32_sprint (unat n) (m, l))))"

text \<open>\<open>utility_u32_segment\<close>: the argument tells what \<open>malloc (len + 1)\<close> returns.\<close>

definition utility_u32_segment :: "string option \<Rightarrow> u32 \<Rightarrow> data option" where
  "utility_u32_segment mem n =
     (case mem of None \<Rightarrow> Some data_null
      | Some m \<Rightarrow>
          let l = utility_u32_len n
          in Option.bind (utility_u32_sprint (unat n) (m, l)) (\<lambda>(m, _).
             Option.bind (write_at l [NUL] m) (\<lambda>m. Some (data_construct (Some m) (of_nat l)))))"

subsection \<open>The length is the number of digits\<close>

lemma bit_len_0_1 [simp]: "bit_len 0 = 0" "bit_len (Suc 0) = Suc 0"
  by (simp_all add: bit_len.simps [of 0] bit_len.simps [of "Suc 0"])

lemma bit_len_bounds: "0 < n \<Longrightarrow> 2 ^ (bit_len n - 1) \<le> n \<and> n < 2 ^ bit_len n"
proof (induction n rule: bit_len.induct)
  case (1 n)
  show ?case
  proof (cases "n div 2 = 0")
    case True
    with "1.prems" have "n = 1" by (simp add: div_eq_0_iff)
    then show ?thesis by simp
  next
    case False
    then have IH: "2 ^ (bit_len (n div 2) - 1) \<le> n div 2" "n div 2 < 2 ^ bit_len (n div 2)"
      using 1 by auto
    have l: "bit_len n = Suc (bit_len (n div 2))" "bit_len (n div 2) = Suc (bit_len (n div 2) - 1)"
      using "1.prems" False by (simp_all add: bit_len.simps [of n] bit_len.simps [of "n div 2"])
    have "2 * 2 ^ (bit_len (n div 2) - 1) \<le> n" using IH(1) by linarith
    moreover have "n < 2 * 2 ^ bit_len (n div 2)" using IH(2) by linarith
    ultimately show ?thesis by (metis l diff_Suc_1 power_Suc)
  qed
qed

lemma bit_len_or_1: "bit_len (unat (n OR 1 :: u32)) = bit_len (max 1 (unat n))"
proof -
  have "unat (n OR 1) = unat n OR 1"
    by (simp only: unsigned_or_eq unsigned_1)
  also have "\<dots> = unat n + of_bool (even (unat n))"
    by (rule or_one_eq)
  finally have "unat (n OR 1) = unat n + of_bool (even (unat n))" .
  moreover have "bit_len (m + 1) = bit_len (max 1 m)" if "even m" for m
  proof (cases "m = 0")
    case False
    have "bit_len (m + 1) = Suc (bit_len ((m + 1) div 2))" by (subst bit_len.simps) simp
    moreover have "bit_len m = Suc (bit_len (m div 2))" using False by (subst bit_len.simps) simp
    moreover have "(m + 1) div 2 = m div 2" using that by presburger
    ultimately show ?thesis using False by (simp add: max_def)
  qed simp
  moreover have "max 1 (unat n) = unat n" if "odd (unat n)"
    using odd_pos [OF that] by simp
  ultimately show ?thesis
    by (cases "even (unat n)") (simp_all only: of_bool_eq add_0_right if_True simp_thms)
qed

text \<open>For every bit length, the estimate is the number of digits or one less, and the table decides.\<close>

lemma len_table:
  "list_all (\<lambda>b. let t = b * 1233 div 4096 in
      t < 10 \<and> (t = 0 \<or> 10 ^ (t - 1) \<le> (2 :: nat) ^ (b - 1)) \<and> 2 ^ b \<le> (10 :: nat) ^ (t + 1) \<and>
      pow_10 ! t = (if t = 0 then 0 else 10 ^ t)) [1..<33]"
  by (simp add: upt_conv_Cons pow_10_def Let_def)

lemma utility_u32_len_ndigits: "utility_u32_len n = ndigits (unat n)"
proof -
  define b where "b = bit_len (max 1 (unat n))"
  define t where "t = b * 1233 div 4096"
  have bounds: "2 ^ (b - 1) \<le> max 1 (unat n)" "max 1 (unat n) < 2 ^ b"
    using bit_len_bounds [of "max 1 (unat n)"] by (auto simp: b_def)
  have "b \<noteq> 0" using bounds(2) by (cases b) auto
  moreover have "b < 33"
  proof (rule ccontr)
    assume "\<not> b < 33"
    then have "(2::nat) ^ 32 \<le> 2 ^ (b - 1)" by (intro power_increasing) simp_all
    also have "\<dots> \<le> max 1 (unat n)" by (rule bounds)
    finally show False using unsigned_less [of n, where 'a = nat] by simp
  qed
  ultimately have "b \<in> set [1..<33]" by simp
  then have tab: "t < 10" "t = 0 \<or> 10 ^ (t - 1) \<le> (2 :: nat) ^ (b - 1)" "2 ^ b \<le> (10 :: nat) ^ (t + 1)"
    "pow_10 ! t = (if t = 0 then 0 else 10 ^ t)"
    using len_table by (auto simp: list_all_iff Let_def t_def)
  have len: "utility_u32_len n = t - (if unat n < pow_10 ! t then 1 else 0) + 1"
    unfolding utility_u32_len_def bit_len_or_1 b_def t_def drop_bit_eq_div Let_def by simp
  have up: "unat n < 10 ^ (t + 1)" using bounds(2) tab(3) by linarith
  show ?thesis
  proof (cases "unat n < pow_10 ! t")
    case True
    then have t: "t \<noteq> 0" "unat n < 10 ^ t" using tab(4) by (auto split: if_splits)
    then have "10 ^ (t - 1) \<le> max 1 (unat n)" using tab(2) bounds(1) by auto
    then have "ndigits (unat n) = t \<or> unat n = 0"
      using t ndigits_eqI [of "t - 1" "unat n"] by (cases "unat n = 0") auto
    moreover have "t = 1" if "unat n = 0"
    proof (rule ccontr)
      assume "t \<noteq> 1"
      then have "1 \<le> t - 1" using t(1) by simp
      from power_increasing [OF this, of "10 :: nat"] show False
        using that \<open>10 ^ (t - 1) \<le> max 1 (unat n)\<close> by simp
    qed
    ultimately show ?thesis using True t len by (auto simp: ndigits.simps [of 0])
  next
    case False
    then have "t = 0 \<or> 10 ^ t \<le> unat n" using tab(4) by (auto split: if_splits)
    then have "ndigits (unat n) = Suc t"
      using up ndigits_eqI [of t "unat n"] by (auto simp: ndigits.simps [of "unat n"])
    then show ?thesis using False len by simp
  qed
qed

subsection \<open>The digits are the decimal text\<close>

lemma digits_table:
  "list_all (\<lambda>k. digits ! (2 * k) = digit (k div 10) \<and> digits ! (2 * k + 1) = digit (k mod 10)) [0..<100]"
  by (simp add: upt_conv_Cons digits_def numeral_2_eq_2 [symmetric])

lemma digits_pair:
  "k < 100 \<Longrightarrow> digits ! (2 * k) = digit (k div 10)"
  "k < 100 \<Longrightarrow> digits ! (2 * k + 1) = digit (k mod 10)"
  using digits_table by (simp_all add: list_all_iff)

lemma push_before_run:
  "0 < p \<Longrightarrow> p \<le> length m \<Longrightarrow> push_before c (m, p) = Some (take (p - 1) m @ c # drop p m, p - 1)"
  by (simp add: push_before_def upd_conv_take_nth_drop)

lemma push_pair_run:
  assumes "k < 100" and "2 \<le> p" and "p \<le> length m"
  shows "push_pair (2 * k) (m, p) =
    Some (take (p - 2) m @ digit (k div 10) # digit (k mod 10) # drop p m, p - 2)"
proof -
  obtain q where q: "p = Suc (Suc q)" using assms(2) by (metis add_2_eq_Suc le_Suc_ex)
  have "Suc (Suc q) \<le> length m" using assms(3) q by simp
  then show ?thesis
    using digits_pair [OF assms(1)] by (simp add: push_pair_def push_before_run q)
qed

lemma dec_pair: "10 \<le> n \<Longrightarrow> n < 100 \<Longrightarrow> dec n = [digit (n div 10), digit (n mod 10)]"
  by (simp add: dec.simps [of n] dec.simps [of "n div 10"])

lemma dec_100: "100 \<le> n \<Longrightarrow> dec n = dec (n div 100) @ [digit (n mod 100 div 10), digit (n mod 100 mod 10)]"
proof -
  assume n: "100 \<le> n"
  have "n div 10 mod 10 = n mod 100 div 10" using mod_mult2_eq [of n 10 10] by simp
  moreover have "n mod 100 mod 10 = n mod 10" by (simp add: mod_mod_cancel)
  ultimately show ?thesis
    using n by (simp add: dec.simps [of n] dec.simps [of "n div 10"] div_mult2_eq [symmetric])
qed

lemma sprint_run:
  assumes "ndigits n \<le> p" and "p \<le> length m"
  shows "utility_u32_sprint n (m, p) =
    Some (take (p - ndigits n) m @ dec n @ drop p m, p - ndigits n)"
  using assms
proof (induction n "(m, p)" arbitrary: m p rule: utility_u32_sprint.induct)
  case (1 n m p)
  show ?case
  proof (cases "100 \<le> n")
    case True
    then have nd: "ndigits n = ndigits (n div 100) + 2"
      using dec_100 [OF True] by (simp add: length_dec [symmetric])
    have "2 \<le> p" using nd "1.prems" by simp
    then have pp: "push_pair (2 * (n mod 100)) (m, p) =
        Some (take (p - 2) m @ digit (n mod 100 div 10) # digit (n mod 100 mod 10) # drop p m, p - 2)"
      using "1.prems" by (intro push_pair_run) simp_all
    define M where "M = take (p - 2) m @ digit (n mod 100 div 10) # digit (n mod 100 mod 10) # drop p m"
    have M: "length M = length m" "drop (p - 2) M = digit (n mod 100 div 10) # digit (n mod 100 mod 10) # drop p m"
      "take (p - ndigits n) M = take (p - ndigits n) m"
    proof -
      obtain q where q: "p = Suc (Suc q)" using \<open>2 \<le> p\<close> by (metis add_2_eq_Suc le_Suc_ex)
      have "Suc (Suc q) \<le> length m" "Suc (Suc q) - ndigits n \<le> q" using "1.prems" nd q by auto
      then show "length M = length m"
        "drop (p - 2) M = digit (n mod 100 div 10) # digit (n mod 100 mod 10) # drop p m"
        "take (p - ndigits n) M = take (p - ndigits n) m"
        by (simp_all add: M_def q min_absorb1 min_absorb2)
    qed
    have "utility_u32_sprint (n div 100) (M, p - 2) =
        Some (take (p - 2 - ndigits (n div 100)) M @ dec (n div 100) @ drop (p - 2) M,
              p - 2 - ndigits (n div 100))"
      using "1.hyps" [OF True, of M "p - 2"] pp nd "1.prems" M(1) \<open>2 \<le> p\<close> by (simp add: M_def [symmetric])
    moreover have "p - 2 - ndigits (n div 100) = p - ndigits n" using nd by simp
    ultimately show ?thesis
      using True pp M by (subst utility_u32_sprint.simps) (simp add: M_def [symmetric] dec_100 [of n])
  next
    case False
    show ?thesis
    proof (cases "n < 10")
      case True
      then have "ndigits n = 1" "dec n = [digit n]"
        by (simp_all add: ndigits.simps [of n] dec.simps [of n])
      then show ?thesis using True "1.prems"
        by (subst utility_u32_sprint.simps) (simp add: push_before_run digit_def add.commute)
    next
      case n: False
      then have "dec n = [digit (n div 10), digit (n mod 10)]" "ndigits n = 2"
        using False dec_pair [of n] by (simp_all add: length_dec [symmetric])
      then show ?thesis using False n "1.prems"
        by (subst utility_u32_sprint.simps) (simp add: push_pair_run)
    qed
  qed
qed

lemma toa_run:
  assumes "ndigits (unat n) < length m"
  shows "utility_u32_toa n m = Some (dec (unat n) @ NUL # drop (Suc (ndigits (unat n))) m)"
  using assms
  by (simp add: utility_u32_toa_def utility_u32_len_ndigits write_at_def sprint_run Let_def)

lemma u32_ndigits: "ndigits (unat (n :: u32)) \<le> 10"
  using unsigned_less [of n, where 'a = nat] by (intro ndigits_le) simp_all

text \<open>The text of a number as \<open>utility_u32_toa\<close> leaves it in an 11-byte field.\<close>

definition u32_text :: "nat \<Rightarrow> string" where
  "u32_text n =
     (case utility_u32_toa (of_nat n) (replicate 11 NUL) of None \<Rightarrow> [] | Some m \<Rightarrow> c_str m)"

lemma u32_text_dec: "n < 2 ^ 32 \<Longrightarrow> u32_text n = dec n"
  using toa_run [of "of_nat n" "replicate 11 NUL"] u32_ndigits [of "of_nat n"]
  by (simp add: u32_text_def unat_of_nat)

interpretation u32_printer: decimal_printer u32_text "\<lambda>n. n < 2 ^ 32"
  by unfold_locales (simp_all only: u32_text_dec plain_decimal_dec undec_dec)

subsection \<open>Properties\<close>

text \<open>
  For every 32-bit number utility_u32_len is the number of its decimal digits, and
  utility_u32_sprint, given a field that ends after that many bytes, fills exactly those bytes with
  the decimal text that snprintf would print, so the pair is exact: no byte before or after the
  field is written and none of it is left out.
\<close>

theorem u32_sprint_exact:
  assumes "p + utility_u32_len n \<le> length m"
  shows "utility_u32_sprint (unat n) (m, p + utility_u32_len n) =
      Some (take p m @ dec (unat n) @ drop (p + utility_u32_len n) m, p) \<and>
    utility_u32_len n = length (dec (unat n))"
  using sprint_run [of "unat n" "p + utility_u32_len n" m] assms
  by (simp_all add: utility_u32_len_ndigits length_dec)

lemma u32_sprint_exact_witness:
  "utility_u32_sprint 4294967295 (replicate 16 NUL, 3 + utility_u32_len 4294967295) =
     Some (replicate 3 NUL @ ''4294967295'' @ replicate 3 NUL, 3)"
proof -
  have len: "utility_u32_len 4294967295 = 10"
    by (simp add: utility_u32_len_ndigits ndigits.simps)
  then have "3 + utility_u32_len 4294967295 \<le> length (replicate 16 NUL)" by simp
  from u32_sprint_exact [OF this] show ?thesis by (simp add: len dec.simps)
qed

text \<open>
  utility_u32_toa is an injective, plain decimal printer on all 32-bit numbers: its text has no
  leading zero, reads back as the number, needs at most ten bytes and its NUL, and two numbers with
  the same text are equal.
\<close>

theorem u32_toa_printer:
  fixes a b :: u32
  assumes "ndigits (unat a) < length m"
  shows "\<exists>m'. utility_u32_toa a m = Some m' \<and> length m' = length m \<and>
      plain_decimal (c_str m') \<and> undec (c_str m') = unat a \<and> length (c_str m') \<le> 10 \<and>
      (u32_text (unat b) = c_str m' \<longleftrightarrow> b = a)"
proof -
  have ua: "unat a < 2 ^ 32" "unat b < 2 ^ 32"
    using unsigned_less [of a, where 'a = nat] unsigned_less [of b, where 'a = nat] by simp_all
  obtain m' where m': "utility_u32_toa a m = Some m'" "c_str m' = u32_text (unat a)" "length m' = length m"
  proof
    show "utility_u32_toa a m = Some (dec (unat a) @ NUL # drop (Suc (ndigits (unat a))) m)"
      by (rule toa_run [OF assms])
    show "c_str (dec (unat a) @ NUL # drop (Suc (ndigits (unat a))) m) = u32_text (unat a)"
      using ua by (simp add: u32_text_dec)
    show "length (dec (unat a) @ NUL # drop (Suc (ndigits (unat a))) m) = length m"
      using assms by (simp add: length_dec)
  qed
  show ?thesis
    using u32_printer.pr_plain [OF ua(1)] u32_printer.pr_value [OF ua(1)]
      u32_printer.pr_length [OF ua(1)] u32_printer.pr_inject [OF ua(2,1)] u32_ndigits [of a]
    by (simp add: m' word_unat_eq_iff)
qed

lemma u32_toa_printer_witness:
  "\<exists>m'. utility_u32_toa 1986 (replicate 5 NUL) = Some m' \<and> undec (c_str m') = 1986"
proof -
  have "ndigits (unat (1986 :: u32)) < length (replicate 5 NUL)" by (simp add: ndigits.simps)
  from u32_toa_printer [OF this] show ?thesis by auto
qed

end
