(* ===== verification/Buffer_Roundup.thy ===== *)
theory Buffer_Roundup
  imports Utility_U32
begin

text \<open>
  The capacity policy of \<open>third_party/libreactor/src/reactor/buffer.c\<close>: \<open>buffer_roundup\<close> on
  64-bit words, and what it computes. The same bit smearing is \<open>map.c\<close>'s \<open>map_roundup\<close>.
\<close>

definition smear :: "size_t \<Rightarrow> size_t" where
  "smear s =
     (let s = s OR drop_bit 1 s; s = s OR drop_bit 2 s; s = s OR drop_bit 4 s;
          s = s OR drop_bit 8 s; s = s OR drop_bit 16 s
      in s OR drop_bit 32 s)"

definition buffer_roundup :: "size_t \<Rightarrow> size_t" where
  "buffer_roundup n =
     (let s = smear (n - 1)
      in if s < 65536 then s + 1 else (s + 65536) AND NOT (65536 - 1))"

definition map_roundup :: "size_t \<Rightarrow> size_t" where
  "map_roundup s = smear (s - 1) + 1"

text \<open>Bit \<open>i\<close> of the smeared word is set when some bit at or above \<open>i\<close> is.\<close>

lemma or_shift_spread:
  fixes x y :: size_t
  assumes "\<And>i. bit y i \<longleftrightarrow> (\<exists>j<k. bit x (i + j))"
  shows "bit (y OR drop_bit k y) i \<longleftrightarrow> (\<exists>j<2 * k. bit x (i + j))"
proof -
  have "(\<exists>j<2 * k. bit x (i + j)) \<longleftrightarrow> (\<exists>j<k. bit x (i + j)) \<or> (\<exists>j<k. bit x (i + k + j))"
  proof
    assume "\<exists>j<2 * k. bit x (i + j)"
    then obtain j where j: "j < 2 * k" "bit x (i + j)" by blast
    show "(\<exists>j<k. bit x (i + j)) \<or> (\<exists>j<k. bit x (i + k + j))"
    proof (cases "j < k")
      case True
      with j show ?thesis by blast
    next
      case False
      with j have "j - k < k" "bit x (i + k + (j - k))" by simp_all
      then show ?thesis by blast
    qed
  next
    assume "(\<exists>j<k. bit x (i + j)) \<or> (\<exists>j<k. bit x (i + k + j))"
    then show "\<exists>j<2 * k. bit x (i + j)"
      by (metis add.assoc add_less_mono less_trans mult_2 nat_add_left_cancel_less trans_less_add1)
  qed
  then show ?thesis by (simp add: bit_or_iff bit_drop_bit_eq assms add.commute)
qed

lemma bit_smear: "bit (smear x) i \<longleftrightarrow> (\<exists>j<64. bit x (i + j))"
proof -
  define x1 where "x1 = x OR drop_bit 1 x"
  define x2 where "x2 = x1 OR drop_bit 2 x1"
  define x3 where "x3 = x2 OR drop_bit 4 x2"
  define x4 where "x4 = x3 OR drop_bit 8 x3"
  define x5 where "x5 = x4 OR drop_bit 16 x4"
  have "\<And>i. bit x i \<longleftrightarrow> (\<exists>j<1. bit x (i + j))" by simp
  from or_shift_spread [OF this] have "\<And>i. bit x1 i \<longleftrightarrow> (\<exists>j<2. bit x (i + j))"
    by (simp add: x1_def)
  from or_shift_spread [OF this] have "\<And>i. bit x2 i \<longleftrightarrow> (\<exists>j<4. bit x (i + j))"
    by (simp add: x2_def)
  from or_shift_spread [OF this] have "\<And>i. bit x3 i \<longleftrightarrow> (\<exists>j<8. bit x (i + j))"
    by (simp add: x3_def)
  from or_shift_spread [OF this] have "\<And>i. bit x4 i \<longleftrightarrow> (\<exists>j<16. bit x (i + j))"
    by (simp add: x4_def)
  from or_shift_spread [OF this] have "\<And>i. bit x5 i \<longleftrightarrow> (\<exists>j<32. bit x (i + j))"
    by (simp add: x5_def)
  from or_shift_spread [OF this] show ?thesis
    by (simp add: smear_def Let_def x1_def x2_def x3_def x4_def x5_def)
qed

lemma drop_bit_zero_iff: "drop_bit i (x :: size_t) = 0 \<longleftrightarrow> unat x < 2 ^ i"
proof -
  have "drop_bit i x = 0 \<longleftrightarrow> unat (drop_bit i x) = 0" by (simp add: unat_eq_0)
  also have "\<dots> \<longleftrightarrow> unat x div 2 ^ i = 0"
    by (simp only: unat_drop_bit_eq drop_bit_eq_div [where 'a = nat])
  finally show ?thesis by (simp add: div_eq_0_iff)
qed

lemma smear_bit_iff: "bit (smear x) i \<longleftrightarrow> 2 ^ i \<le> unat x"
proof -
  have "j < 64" if "bit x (i + j)" for j
    using bit_imp_le_length [OF that] by simp
  moreover have "bit (drop_bit i x) j \<longleftrightarrow> bit x (i + j)" for j
    by (simp only: bit_drop_bit_eq o_def)
  ultimately have "(\<exists>j<64. bit x (i + j)) \<longleftrightarrow> (\<exists>j. bit (drop_bit i x) j)"
    by blast
  also have "\<dots> \<longleftrightarrow> drop_bit i x \<noteq> 0"
    using bit_eqI [of "drop_bit i x" 0] by auto
  also have "\<dots> \<longleftrightarrow> 2 ^ i \<le> unat x" by (simp add: drop_bit_zero_iff not_less)
  finally show ?thesis by (simp add: bit_smear)
qed

lemma bit_len_le_iff: "bit_len n \<le> i \<longleftrightarrow> n < 2 ^ i"
proof
  assume "bit_len n \<le> i"
  then have "(2::nat) ^ bit_len n \<le> 2 ^ i" by (intro power_increasing) simp_all
  moreover have "n < 2 ^ bit_len n" using bit_len_bounds [of n] by (cases "n = 0") simp_all
  ultimately show "n < 2 ^ i" by linarith
next
  assume n: "n < 2 ^ i"
  show "bit_len n \<le> i"
  proof (cases "n = 0")
    case False
    then have "2 ^ (bit_len n - 1) \<le> n" using bit_len_bounds [of n] by simp
    then have "2 ^ (bit_len n - 1) < (2 :: nat) ^ i" using n by (rule le_less_trans)
    then have "bit_len n - 1 < i" by (rule power_less_imp_less_exp [rotated]) simp
    then show ?thesis by simp
  qed simp
qed

lemma smear_mask: "smear x = mask (bit_len (unat x))"
proof (rule bit_word_eqI)
  fix i
  assume "i < LENGTH(64)"
  then show "bit (smear x) i \<longleftrightarrow> bit (mask (bit_len (unat x)) :: size_t) i"
    by (simp add: smear_bit_iff bit_mask_iff) (metis bit_len_le_iff not_less)
qed

lemma exp_below_size: "b < 64 \<Longrightarrow> (2 :: nat) ^ b < 2 ^ 64"
  by (rule power_strict_increasing) simp_all

lemma unat_exp_size: "b < 64 \<Longrightarrow> unat (2 ^ b :: size_t) = 2 ^ b"
  using unat_size_of_nat [OF exp_below_size, of b] by simp

lemma unat_mask_size: "b < 64 \<Longrightarrow> unat (mask b :: size_t) = 2 ^ b - 1"
proof -
  assume b: "b < 64"
  have "(mask b :: size_t) = of_nat (2 ^ b - 1)" by (simp add: mask_eq_exp_minus_1 of_nat_diff)
  moreover have "2 ^ b - 1 < (2 :: nat) ^ 64" using exp_below_size [OF b] by linarith
  ultimately show ?thesis by (simp only: unat_size_of_nat)
qed

lemma granule_power:
  assumes "16 \<le> b" and "b < 64"
  shows "(mask b + 65536) AND NOT 65535 = (2 ^ b :: size_t)"
proof -
  have m16: "(65535 :: size_t) = mask 16" by (simp add: mask_eq_exp_minus_1)
  have disj: "(2 ^ b :: size_t) AND mask 16 = 0"
    using assms by (intro bit_word_eqI) (auto simp: bit_and_iff bit_mask_iff bit_exp_iff)
  have "(mask b + 65536 :: size_t) = 2 ^ b + mask 16"
    by (simp add: mask_eq_exp_minus_1)
  also have "\<dots> = 2 ^ b OR mask 16"
    using disj by (rule disjunctive_add_eq_or)
  finally show ?thesis
    unfolding m16 using assms
    by (intro bit_word_eqI) (auto simp: bit_and_iff bit_or_iff bit_not_iff bit_mask_iff bit_exp_iff)
qed

lemma unat_minus_1: "0 < unat n \<Longrightarrow> unat (n - 1 :: size_t) = unat n - 1"
  by (simp add: unat_minus_one unat_gt_0)

lemma roundup_power:
  assumes "0 < unat n" and "unat n \<le> 2 ^ 63"
  shows "unat (buffer_roundup n) = 2 ^ bit_len (unat n - 1)"
proof -
  define b where "b = bit_len (unat n - 1)"
  have b63: "b \<le> 63" unfolding b_def using assms by (subst bit_len_le_iff) simp
  have s: "smear (n - 1) = mask b" using assms(1) by (simp add: smear_mask unat_minus_1 b_def)
  have um: "unat (mask b :: size_t) = 2 ^ b - 1" using b63 by (intro unat_mask_size) simp
  have up: "unat (2 ^ b :: size_t) = 2 ^ b" using b63 by (simp add: unat_exp_size)
  show ?thesis
  proof (cases "(mask b :: size_t) < 65536")
    case True
    have "(mask b + 1 :: size_t) = 2 ^ b" by (simp add: mask_eq_exp_minus_1)
    with True s up show ?thesis by (simp add: buffer_roundup_def b_def)
  next
    case False
    then have "(2::nat) ^ 16 < 2 ^ b" using um by (simp add: word_less_nat_alt)
    then have "16 < b" by (rule power_less_imp_less_exp [rotated]) simp
    then have "16 \<le> b" by simp
    with granule_power [of b] b63 False s up show ?thesis by (simp add: buffer_roundup_def b_def)
  qed
qed

lemma map_roundup_power:
  assumes "0 < unat n" and "unat n \<le> 2 ^ 63"
  shows "unat (map_roundup n) = 2 ^ bit_len (unat n - 1)"
proof -
  have b63: "bit_len (unat n - 1) \<le> 63" using assms by (subst bit_len_le_iff) simp
  have "map_roundup n = 2 ^ bit_len (unat n - 1)"
    using assms(1) by (simp add: map_roundup_def smear_mask unat_minus_1 mask_eq_exp_minus_1)
  then show ?thesis using b63 by (simp add: unat_exp_size)
qed

text \<open>
  buffer_roundup gives, for every request up to 2^63 bytes, the least power of two that holds
  it: at least the request and less than twice the request. The second branch does not keep the
  64 KiB granularity its comment announces; above 64 KiB the result is a power of two as well.
\<close>

theorem buffer_roundup_least_power:
  assumes "0 < unat n" and "unat n \<le> 2 ^ 63"
  shows "\<exists>k. unat (buffer_roundup n) = 2 ^ k \<and> unat n \<le> 2 ^ k \<and> (\<forall>j. unat n \<le> 2 ^ j \<longrightarrow> k \<le> j)"
proof -
  have "unat n \<le> 2 ^ j \<longleftrightarrow> bit_len (unat n - 1) \<le> j" for j
    using assms(1) bit_len_le_iff [of "unat n - 1" j] by linarith
  then show ?thesis using roundup_power [OF assms] by blast
qed

lemma buffer_roundup_least_power_witness:
  "\<exists>k. unat (buffer_roundup 131073) = 2 ^ k \<and> 131073 \<le> (2 :: nat) ^ k \<and>
    (\<forall>j. 131073 \<le> (2 :: nat) ^ j \<longrightarrow> k \<le> j)"
  using buffer_roundup_least_power [of 131073] by simp

text \<open>The 64 KiB granularity of the comment would give 196608 here.\<close>

lemma buffer_roundup_131073: "buffer_roundup 131073 = 262144"
  by (simp add: buffer_roundup_def smear_def Let_def)

end
