(* ===== verification/Buffer.thy ===== *)
theory Buffer
  imports Buffer_Roundup
begin

text \<open>
  Component \<open>third_party/libreactor/src/reactor/buffer.c\<close>: a growable array of bytes. The model
  is polymorphic in the byte type (characters for the HTTP texts, 8-bit words for the binary
  protocol). An allocated block is a list of cells; \<open>None\<close> is a byte that was never written.
  The heap is the list of live blocks, so what the code frees and what it forgets is visible. Which
  allocations succeed is an argument (\<open>reactor_mem_alloc\<close> returns NULL on the others).
\<close>

subsection \<open>Heap\<close>

record heap =
  h_next :: nat
  h_live :: "nat list"

definition mem_alloc :: "(nat \<Rightarrow> bool) \<Rightarrow> nat \<Rightarrow> heap \<Rightarrow> (nat \<times> heap) option" where
  "mem_alloc ok n h =
     (if ok n then Some (h_next h, h\<lparr>h_next := Suc (h_next h), h_live := h_next h # h_live h\<rparr>)
      else None)"

definition mem_free :: "nat option \<Rightarrow> heap \<Rightarrow> heap" where
  "mem_free p h = (case p of None \<Rightarrow> h | Some i \<Rightarrow> h\<lparr>h_live := removeAll i (h_live h)\<rparr>)"

subsection \<open>Buffers\<close>

text \<open>\<open>buf_block\<close> is the \<open>data\<close> pointer, \<open>buf_cells\<close> the content of that block.\<close>

record 'b buffer =
  buf_block :: "nat option"
  buf_cells :: "'b option list"
  buf_size :: nat
  buf_capacity :: nat

definition buffer_construct :: "'b buffer" where
  "buffer_construct = \<lparr>buf_block = None, buf_cells = [], buf_size = 0, buf_capacity = 0\<rparr>"

text \<open>\<open>size_t\<close> sums wrap.\<close>

definition size_add :: "nat \<Rightarrow> nat \<Rightarrow> nat" where
  "size_add a b = (a + b) mod 2 ^ 64"

definition buffer_reserve ::
  "(nat \<Rightarrow> bool) \<Rightarrow> nat \<Rightarrow> heap \<times> 'b buffer \<Rightarrow> (heap \<times> 'b buffer) option" where
  "buffer_reserve ok cap hb =
     (case hb of (h, b) \<Rightarrow>
      if cap > buf_capacity b then
        (let c = unat (buffer_roundup (of_nat cap))
         in case mem_alloc ok c h of
              None \<Rightarrow> Some (h, b)
            | Some (i, h) \<Rightarrow>
                if buf_block b \<noteq> None \<and> buf_size b > 0 then
                  Option.bind (read_n (buf_size b) (buf_cells b)) (\<lambda>old.
                  Option.bind (write_at 0 old (replicate c None)) (\<lambda>cells.
                  Some (mem_free (buf_block b) h,
                        b\<lparr>buf_block := Some i, buf_cells := cells, buf_capacity := c\<rparr>)))
                else Some (h, b\<lparr>buf_block := Some i, buf_cells := replicate c None,
                               buf_capacity := c\<rparr>))
      else Some (h, b))"

definition buffer_resize ::
  "(nat \<Rightarrow> bool) \<Rightarrow> nat \<Rightarrow> heap \<times> 'b buffer \<Rightarrow> (heap \<times> 'b buffer) option" where
  "buffer_resize ok n hb =
     map_option (\<lambda>(h, b). (h, b\<lparr>buf_size := n\<rparr>))
       (if n > buf_capacity (snd hb) then buffer_reserve ok n hb else Some hb)"

definition buffer_compact ::
  "(nat \<Rightarrow> bool) \<Rightarrow> heap \<times> 'b buffer \<Rightarrow> (heap \<times> 'b buffer) option" where
  "buffer_compact ok hb =
     (case hb of (h, b) \<Rightarrow>
      if buf_capacity b > buf_size b \<and> buf_size b > 0 then
        (case mem_alloc ok (buf_size b) h of
           None \<Rightarrow> Some (h, b)
         | Some (i, h) \<Rightarrow>
             Option.bind (read_n (buf_size b) (buf_cells b)) (\<lambda>cells.
             Some (mem_free (buf_block b) h,
                   b\<lparr>buf_block := Some i, buf_cells := cells, buf_capacity := buf_size b\<rparr>)))
      else Some (h, b))"

text \<open>\<open>memmove (data + dst, data + src, n)\<close> inside one block.\<close>

definition move_cells :: "nat \<Rightarrow> nat \<Rightarrow> nat \<Rightarrow> 'b list \<Rightarrow> 'b list option" where
  "move_cells dst src n cells =
     Option.bind (read_n n (drop src cells)) (\<lambda>xs. write_at dst xs cells)"

definition open_gap :: "nat \<Rightarrow> nat \<Rightarrow> 'b buffer \<Rightarrow> 'b option list option" where
  "open_gap pos n b =
     (if pos < buf_size b then move_cells (pos + n) pos (buf_size b - pos) (buf_cells b)
      else Some (buf_cells b))"

definition buffer_insert ::
  "(nat \<Rightarrow> bool) \<Rightarrow> nat \<Rightarrow> 'b option list \<Rightarrow> heap \<times> 'b buffer \<Rightarrow> (heap \<times> 'b buffer) option" where
  "buffer_insert ok pos xs hb =
     Option.bind (buffer_reserve ok (size_add (buf_size (snd hb)) (length xs)) hb) (\<lambda>(h, b).
     Option.bind (open_gap pos (length xs) b) (\<lambda>cells.
     Option.bind (write_at pos xs cells) (\<lambda>cells.
     Some (h, b\<lparr>buf_cells := cells, buf_size := size_add (buf_size b) (length xs)\<rparr>))))"

fun fill_cells :: "nat \<Rightarrow> nat \<Rightarrow> 'b list \<Rightarrow> 'b list \<Rightarrow> 'b list option" where
  "fill_cells 0 pos xs cells = Some cells"
| "fill_cells (Suc k) pos xs cells =
     Option.bind (write_at pos xs cells) (fill_cells k (pos + length xs) xs)"

definition buffer_insert_fill ::
  "(nat \<Rightarrow> bool) \<Rightarrow> nat \<Rightarrow> nat \<Rightarrow> 'b option list \<Rightarrow> heap \<times> 'b buffer \<Rightarrow>
     (heap \<times> 'b buffer) option" where
  "buffer_insert_fill ok pos k xs hb =
     Option.bind (buffer_reserve ok (size_add (buf_size (snd hb)) (k * length xs)) hb) (\<lambda>(h, b).
     Option.bind (open_gap pos (k * length xs) b) (\<lambda>cells.
     Option.bind (fill_cells k pos xs cells) (\<lambda>cells.
     Some (h, b\<lparr>buf_cells := cells, buf_size := size_add (buf_size b) (k * length xs)\<rparr>))))"

text \<open>
  \<open>buffer_erase\<close>: outside the front case the length of the move is a \<open>size_t\<close>
  difference; when it wraps the move is out of range.
\<close>

definition buffer_erase :: "nat \<Rightarrow> nat \<Rightarrow> 'b buffer \<Rightarrow> 'b buffer option" where
  "buffer_erase pos n b =
     (if pos = 0 then
        (if n \<ge> buf_size b then Some (b\<lparr>buf_size := 0\<rparr>)
         else Option.bind (move_cells 0 n (buf_size b - n) (buf_cells b)) (\<lambda>cells.
              Some (b\<lparr>buf_cells := cells, buf_size := buf_size b - n\<rparr>)))
      else if pos + n \<le> buf_size b then
        Option.bind (move_cells pos (pos + n) (buf_size b - pos - n) (buf_cells b)) (\<lambda>cells.
        Some (b\<lparr>buf_cells := cells, buf_size := buf_size b - n\<rparr>))
      else None)"

definition buffer_clear :: "heap \<times> 'b buffer \<Rightarrow> heap \<times> 'b buffer" where
  "buffer_clear hb = (mem_free (buf_block (snd hb)) (fst hb), buffer_construct)"

text \<open>\<open>buffer_destruct\<close> clears.\<close>

definition buffer_destruct :: "heap \<times> 'b buffer \<Rightarrow> heap \<times> 'b buffer" where
  "buffer_destruct hb = buffer_clear hb"

subsection \<open>The invariant and the abstraction\<close>

text \<open>
  \<open>holds b xs\<close>: the fields fit together, and the first \<open>size\<close> bytes are written and are
  \<open>xs\<close>.
\<close>

definition buffer_ok :: "'b buffer \<Rightarrow> bool" where
  "buffer_ok b \<longleftrightarrow>
     length (buf_cells b) = buf_capacity b \<and> buf_size b \<le> buf_capacity b \<and>
     buf_capacity b \<le> 2 ^ 62 \<and> (buf_block b = None \<longrightarrow> buf_capacity b = 0)"

definition holds :: "'b buffer \<Rightarrow> 'b list \<Rightarrow> bool" where
  "holds b xs \<longleftrightarrow> buffer_ok b \<and> take (buf_size b) (buf_cells b) = map Some xs"

text \<open>The heap knows the block, and every live block is older than the next one.\<close>

definition heap_ok :: "heap \<times> 'b buffer \<Rightarrow> bool" where
  "heap_ok hb \<longleftrightarrow>
     (case hb of (h, b) \<Rightarrow>
       list_all (\<lambda>i. i < h_next h) (h_live h) \<and>
       (case buf_block b of None \<Rightarrow> True | Some i \<Rightarrow> i \<in> set (h_live h)))"

lemma holds_length: "holds b xs \<Longrightarrow> length xs = buf_size b"
  by (auto simp: holds_def buffer_ok_def dest: arg_cong [of _ _ length])

lemma holds_construct [simp]: "holds buffer_construct []"
  by (simp add: holds_def buffer_ok_def buffer_construct_def)

lemma size_add_small: "a + b < 2 ^ 64 \<Longrightarrow> size_add a b = a + b"
  by (simp add: size_add_def)

lemma roundup_bounds:
  assumes "0 < n" and "n \<le> 2 ^ 62"
  shows "n \<le> unat (buffer_roundup (of_nat n))" and "unat (buffer_roundup (of_nat n)) \<le> 2 ^ 62"
proof -
  have u: "unat (of_nat n :: size_t) = n" using assms(2) by (intro unat_size_of_nat) simp
  have r: "unat (buffer_roundup (of_nat n)) = 2 ^ bit_len (n - 1)"
    using roundup_power [of "of_nat n"] assms by (simp add: u)
  show "n \<le> unat (buffer_roundup (of_nat n))"
    using bit_len_le_iff [of "n - 1" "bit_len (n - 1)"] assms(1) by (simp add: r)
  have "bit_len (n - 1) \<le> 62" using assms by (subst bit_len_le_iff) simp
  then have "(2 :: nat) ^ bit_len (n - 1) \<le> 2 ^ 62" by (rule power_increasing) simp
  then show "unat (buffer_roundup (of_nat n)) \<le> 2 ^ 62" by (simp add: r)
qed

lemma holds_None: "holds b xs \<Longrightarrow> buf_block b = None \<Longrightarrow> xs = [] \<and> buf_capacity b = 0"
  by (auto simp: holds_def buffer_ok_def)

lemma holdsD:
  assumes "holds b xs"
  shows "length (buf_cells b) = buf_capacity b" and "length xs \<le> buf_capacity b"
    and "buf_size b = length xs" and "take (length xs) (buf_cells b) = map Some xs"
    and "buf_capacity b \<le> 2 ^ 62"
  using assms holds_length [OF assms] by (auto simp: holds_def buffer_ok_def)

lemma holdsI:
  assumes "take (buf_size b) (buf_cells b) = map Some xs" and "buf_size b \<le> buf_capacity b"
    and "length (buf_cells b) = buf_capacity b" and "buf_capacity b \<le> 2 ^ 62"
    and "buf_block b = None \<Longrightarrow> buf_capacity b = 0"
  shows "holds b xs"
  using assms by (auto simp: holds_def buffer_ok_def)

text \<open>A growing \<open>buffer_reserve\<close> that gets its memory.\<close>

definition grown :: "nat \<Rightarrow> 'b list \<Rightarrow> nat \<Rightarrow> 'b buffer \<Rightarrow> 'b buffer" where
  "grown i xs c b =
     b\<lparr>buf_block := Some i, buf_cells := map Some xs @ replicate (c - length xs) None,
       buf_capacity := c\<rparr>"

definition heap_swap :: "'b list \<Rightarrow> nat option \<Rightarrow> heap \<Rightarrow> heap" where
  "heap_swap xs p h =
     \<lparr>h_next = Suc (h_next h),
      h_live = h_next h # (if xs = [] then h_live h else h_live (mem_free p h))\<rparr>"

lemma reserve_grow:
  assumes "holds b xs" and "heap_ok (h, b)" and "cap \<le> 2 ^ 62" and "cap > buf_capacity b"
    and "ok (unat (buffer_roundup (of_nat cap)))"
  shows "buffer_reserve ok cap (h, b) =
    Some (heap_swap xs (buf_block b) h,
          grown (h_next h) xs (unat (buffer_roundup (of_nat cap))) b)"
proof -
  let ?c = "unat (buffer_roundup (of_nat cap))"
  note D = holdsD [OF assms(1)]
  have c: "cap \<le> ?c" using roundup_bounds(1) [of cap] assms(3,4) by auto
  show ?thesis
  proof (cases "xs = []")
    case True
    then show ?thesis using assms(4,5) D
      by (simp add: buffer_reserve_def mem_alloc_def Let_def grown_def heap_swap_def)
  next
    case False
    then obtain i where i: "buf_block b = Some i" using holds_None [OF assms(1)] by auto
    then have "i < h_next h" using assms(2) by (auto simp: heap_ok_def list_all_iff)
    then show ?thesis using False i assms(4,5) D c
      by (simp add: buffer_reserve_def mem_alloc_def Let_def read_n_def write_at_def mem_free_def
          grown_def heap_swap_def)
  qed
qed

text \<open>For the content alone the heap does not matter.\<close>

lemma reserve_run:
  assumes "holds b xs" and "cap \<le> 2 ^ 62" and "ok (unat (buffer_roundup (of_nat cap)))"
  shows "\<exists>h' b'. buffer_reserve ok cap (h, b) = Some (h', b') \<and> holds b' xs \<and>
    cap \<le> buf_capacity b'"
proof (cases "cap > buf_capacity b")
  case False
  then show ?thesis using assms(1) by (simp add: buffer_reserve_def)
next
  case True
  let ?c = "unat (buffer_roundup (of_nat cap))"
  note D = holdsD [OF assms(1)]
  have c: "cap \<le> ?c" "?c \<le> 2 ^ 62" using roundup_bounds [of cap] True assms(2) by auto
  have "xs = [] \<or> buf_block b \<noteq> None" using holds_None [OF assms(1)] by auto
  then show ?thesis
    using True assms(3) D c
    by (cases "xs = []")
      (auto simp: buffer_reserve_def mem_alloc_def Let_def read_n_def write_at_def holds_def
        buffer_ok_def)
qed

lemma reserve_heap_ok:
  assumes "holds b xs" and "heap_ok (h, b)" and "cap \<le> 2 ^ 62"
    and "ok (unat (buffer_roundup (of_nat cap)))"
    and "buffer_reserve ok cap (h, b) = Some hb"
  shows "heap_ok hb"
proof (cases "cap > buf_capacity b")
  case False
  then show ?thesis using assms(2,5) by (simp add: buffer_reserve_def)
next
  case True
  then show ?thesis
    using reserve_grow [where ok = ok and cap = cap, OF assms(1,2,3) True assms(4)] assms(2,5)
    by (auto simp: grown_def heap_swap_def heap_ok_def mem_free_def list_all_iff
        split: option.splits)
qed

subsection \<open>The operations on the content\<close>

lemma cells_split: "holds b xs \<Longrightarrow> buf_cells b = map Some xs @ drop (length xs) (buf_cells b)"
  using holdsD(4) [of b xs] append_take_drop_id [of "length xs" "buf_cells b"] by simp

lemma open_gap_run:
  assumes "holds b xs" and "pos \<le> length xs" and "length xs + n \<le> buf_capacity b"
  shows "\<exists>cells. open_gap pos n b = Some cells \<and> length cells = buf_capacity b \<and>
    take pos cells = map Some (take pos xs) \<and>
    take (length xs - pos) (drop (pos + n) cells) = map Some (drop pos xs)"
proof -
  note D = holdsD [OF assms(1)]
  let ?r = "drop (length xs) (buf_cells b)"
  have cells: "buf_cells b = map Some xs @ ?r" by (rule cells_split [OF assms(1)])
  have src: "take (length xs - pos) (drop pos (buf_cells b)) = map Some (drop pos xs)"
    using D(4) by (simp add: take_drop drop_map assms(2))
  have front: "take pos (buf_cells b) = map Some (take pos xs)"
    using arg_cong [OF D(4), of "take pos"] assms(2) by (simp add: take_map min_def)
  show ?thesis
  proof (cases "pos < length xs")
    case False
    then show ?thesis using assms(2) D front by (simp add: open_gap_def)
  next
    case True
    have "read_n (length xs - pos) (drop pos (buf_cells b)) = Some (map Some (drop pos xs))"
      using src D(1,2) True by (simp add: read_n_def)
    then have "open_gap pos n b =
        Some (take (pos + n) (buf_cells b) @ map Some (drop pos xs) @
              drop (n + length xs) (buf_cells b))"
      using True D assms(3)
      by (simp add: open_gap_def move_cells_def write_at_def add.commute add.left_commute)
    then show ?thesis using True D assms(3) front by (simp add: min_def)
  qed
qed

lemma insert_run:
  assumes "holds b xs" and "pos \<le> length xs" and "length xs + length ys \<le> 2 ^ 62"
    and "ok (unat (buffer_roundup (of_nat (length xs + length ys))))"
  shows "\<exists>h' b'. buffer_insert ok pos (map Some ys) (h, b) = Some (h', b') \<and>
    holds b' (take pos xs @ ys @ drop pos xs)"
proof -
  note D = holdsD [OF assms(1)]
  have s: "size_add (length xs) (length ys) = length xs + length ys"
    using assms(3) by (simp add: size_add_small)
  obtain h1 b1 where r: "buffer_reserve ok (length xs + length ys) (h, b) = Some (h1, b1)"
    "holds b1 xs" "length xs + length ys \<le> buf_capacity b1"
    using reserve_run [where ok = ok and cap = "length xs + length ys" and h = h, OF assms(1,3,4)]
    by blast
  note E = holdsD [OF r(2)]
  obtain cells where g: "open_gap pos (length ys) b1 = Some cells"
    "length cells = buf_capacity b1" "take pos cells = map Some (take pos xs)"
    "take (length xs - pos) (drop (pos + length ys) cells) = map Some (drop pos xs)"
    using open_gap_run [OF r(2) assms(2) r(3)] by blast
  let ?b = "b1\<lparr>buf_cells := take pos cells @ map Some ys @ drop (pos + length ys) cells,
               buf_size := length xs + length ys\<rparr>"
  have run: "buffer_insert ok pos (map Some ys) (h, b) = Some (h1, ?b)"
    using D E r g s assms(2) by (simp add: buffer_insert_def write_at_def)
  have "buf_block b1 = None \<Longrightarrow> buf_capacity b1 = 0" using holds_None [OF r(2)] by simp
  moreover have "length xs + length ys - (pos + length ys) = length xs - pos" by simp
  ultimately have "holds ?b (take pos xs @ ys @ drop pos xs)"
    using E g r(3) assms(2) by (intro holdsI) (simp_all add: min_def, arith?)
  with run show ?thesis by blast
qed

lemma fill_cells_write:
  "pos + k * length xs \<le> length cells \<Longrightarrow>
     fill_cells k pos xs cells = write_at pos (concat (replicate k xs)) cells"
proof (induction k arbitrary: pos cells)
  case 0
  then show ?case by (simp add: write_at_def)
next
  case (Suc k)
  let ?m = "take pos cells @ xs @ drop (pos + length xs) cells"
  let ?ys = "concat (replicate k xs)"
  have ys: "length ?ys = k * length xs" by (simp add: length_concat sum_list_replicate)
  have fit: "pos + length xs + k * length xs \<le> length cells" using Suc.prems by simp
  then have m: "length ?m = length cells" "take (pos + length xs) ?m = take pos cells @ xs"
    by simp_all
  have "fill_cells k (pos + length xs) xs ?m = write_at (pos + length xs) ?ys ?m"
    using fit unfolding m(1) [symmetric] by (rule Suc.IH)
  also have "\<dots> = Some (take (pos + length xs) ?m @ ?ys @
      drop (pos + length xs + length ?ys) ?m)"
    using fit m(1) by (intro write_at_defined) (simp add: ys)
  also have "\<dots> = Some (take pos cells @ (xs @ ?ys) @ drop (pos + length (xs @ ?ys)) cells)"
    using fit by (simp add: m(2) ys) (simp only: ac_simps)
  also have "\<dots> = write_at pos (xs @ ?ys) cells"
    using fit by (intro write_at_defined [symmetric]) (simp add: ys)
  finally show ?case using fit by (simp add: write_at_defined)
qed

text \<open>Filling is inserting the repeated text.\<close>

lemma insert_fill_insert:
  assumes "holds b xs" and "pos \<le> length xs" and "length xs + k * length ys \<le> 2 ^ 62"
    and "ok (unat (buffer_roundup (of_nat (length xs + k * length ys))))"
  shows "buffer_insert_fill ok pos k ys (h, b) =
    buffer_insert ok pos (concat (replicate k ys)) (h, b)"
proof -
  have len: "length (concat (replicate k ys)) = k * length ys"
    by (simp add: length_concat sum_list_replicate)
  have s: "size_add (length xs) (k * length ys) = length xs + k * length ys"
    using assms(3) by (simp add: size_add_small)
  note D = holdsD [OF assms(1)]
  obtain h1 b1 where r: "buffer_reserve ok (length xs + k * length ys) (h, b) = Some (h1, b1)"
    "holds b1 xs" "length xs + k * length ys \<le> buf_capacity b1"
    using reserve_run [where ok = ok and cap = "length xs + k * length ys" and h = h,
        OF assms(1,3,4)]
    by blast
  obtain cells where g: "open_gap pos (k * length ys) b1 = Some cells"
    "length cells = buf_capacity b1"
    using open_gap_run [OF r(2) assms(2) r(3)] by blast
  have "pos + k * length ys \<le> length cells" using r(3) g(2) assms(2) by simp
  then show ?thesis
    using D r g s by (simp add: buffer_insert_fill_def buffer_insert_def len fill_cells_write)
qed

lemma erase_run:
  assumes "holds b xs" and "pos + n \<le> length xs \<or> pos = 0"
  shows "\<exists>b'. buffer_erase pos n b = Some b' \<and> holds b' (take pos xs @ drop (pos + n) xs)"
proof -
  note D = holdsD [OF assms(1)]
  have blk: "buf_block b = None \<Longrightarrow> buf_capacity b = 0" using holds_None [OF assms(1)] by simp
  show ?thesis
  proof (cases "pos = 0 \<and> n \<ge> length xs")
    case True
    then show ?thesis using D blk by (auto simp: buffer_erase_def intro!: holdsI)
  next
    case False
    then have n: "pos + n \<le> length xs" using assms(2) by auto
    have src: "take (length xs - (pos + n)) (drop (pos + n) (buf_cells b)) =
        map Some (drop (pos + n) xs)"
      using D(4) n by (simp add: take_drop drop_map)
    have front: "take pos (buf_cells b) = map Some (take pos xs)"
      using arg_cong [OF D(4), of "take pos"] n by (simp add: take_map min_def)
    have move: "move_cells pos (pos + n) (length xs - (pos + n)) (buf_cells b) =
        Some (map Some (take pos xs) @ map Some (drop (pos + n) xs) @
              drop (length xs - n) (buf_cells b))"
      using D(1,2) n src front by (simp add: move_cells_def read_n_def write_at_def) arith
    have "length xs - pos - n = length xs - (pos + n)" by simp
    then show ?thesis
      using D False n move blk by (auto simp: buffer_erase_def intro!: holdsI)
  qed
qed

text \<open>
  \<open>buffer_insert\<close> does not look at what the reservation did: when it fails, the copy runs
  over the end of the block.
\<close>

lemma insert_overruns:
  assumes "holds b xs" and "pos \<le> length xs" and "length xs + length ys \<le> 2 ^ 62"
    and "buf_capacity b < length xs + length ys"
    and "\<not> ok (unat (buffer_roundup (of_nat (length xs + length ys))))"
  shows "buffer_insert ok pos ys (h, b) = None"
proof -
  note D = holdsD [OF assms(1)]
  have s: "size_add (length xs) (length ys) = length xs + length ys"
    using assms(3) by (simp add: size_add_small)
  have r: "buffer_reserve ok (length xs + length ys) (h, b) = Some (h, b)"
    using assms(4,5) by (simp add: buffer_reserve_def mem_alloc_def Let_def)
  show ?thesis
  proof (cases "pos < length xs")
    case True
    then have "open_gap pos (length ys) b = None"
      using D assms(4) by (simp add: open_gap_def move_cells_def read_n_def write_at_def)
    then show ?thesis using D r s by (simp add: buffer_insert_def)
  next
    case False
    then have "open_gap pos (length ys) b = Some (buf_cells b)" using D by (simp add: open_gap_def)
    moreover have "write_at pos ys (buf_cells b) = None"
      using False assms(2,4) D by (simp add: write_at_def)
    ultimately show ?thesis using D r s by (simp add: buffer_insert_def)
  qed
qed

lemma compact_run:
  assumes "holds b xs"
  shows "\<exists>h' b'. buffer_compact ok (h, b) = Some (h', b') \<and> holds b' xs \<and>
    (ok (length xs) \<longrightarrow> xs \<noteq> [] \<longrightarrow> buf_capacity b' = length xs)"
  using assms holdsD [OF assms]
  by (auto simp: buffer_compact_def mem_alloc_def read_n_def holds_def buffer_ok_def)

lemma clear_frees:
  "buffer_clear (h, b) = (mem_free (buf_block b) h, buffer_construct)"
  by (simp add: buffer_clear_def)

subsection \<open>Buffers as byte queues\<close>

text \<open>
  What the stream layer asks of a buffer: bytes are put at its end and deleted from its front.
  \<open>bound\<close> is the size up to which the laws are promised.
\<close>

locale byte_queue =
  fixes put :: "'a list \<Rightarrow> 'q \<Rightarrow> 'q option"
    and del :: "nat \<Rightarrow> 'q \<Rightarrow> 'q option"
    and content :: "'q \<Rightarrow> 'a list \<Rightarrow> bool"
    and bound :: nat
  assumes put_content: "content q xs \<Longrightarrow> length xs + length ys \<le> bound \<Longrightarrow>
      \<exists>q'. put ys q = Some q' \<and> content q' (xs @ ys)"
    and del_content: "content q xs \<Longrightarrow> \<exists>q'. del n q = Some q' \<and> content q' (drop n xs)"
begin

lemma put_all:
  "content q xs \<Longrightarrow> length xs + length (concat yss) \<le> bound \<Longrightarrow>
     \<exists>q'. run_all put yss q = Some q' \<and> content q' (xs @ concat yss)"
proof (induction yss arbitrary: q xs)
  case Nil
  then show ?case by simp
next
  case (Cons ys yss)
  obtain q1 where "put ys q = Some q1" "content q1 (xs @ ys)"
    using put_content [of q xs ys] Cons.prems by auto
  then show ?case using Cons.IH [of q1 "xs @ ys"] Cons.prems by simp
qed

lemma del_all:
  "content q xs \<Longrightarrow> \<exists>q'. run_all del ns q = Some q' \<and> content q' (drop (sum_list ns) xs)"
proof (induction ns arbitrary: q xs)
  case Nil
  then show ?case by simp
next
  case (Cons n ns)
  obtain q1 where "del n q = Some q1" "content q1 (drop n xs)"
    using del_content [OF Cons.prems] by blast
  then show ?case using Cons.IH [of q1 "drop n xs"] by (simp add: add.commute)
qed

lemma put_then_del:
  assumes "content q xs" and "length xs + length ys \<le> bound"
  shows "\<exists>q'. Option.bind (put ys q) (del (length xs)) = Some q' \<and> content q' ys"
proof -
  obtain q1 where "put ys q = Some q1" "content q1 (xs @ ys)"
    using put_content [OF assms] by blast
  then show ?thesis using del_content [of q1 "xs @ ys" "length xs"] by auto
qed

end

text \<open>The two calls the streams make.\<close>

definition buffer_append ::
  "(nat \<Rightarrow> bool) \<Rightarrow> 'b list \<Rightarrow> heap \<times> 'b buffer \<Rightarrow> (heap \<times> 'b buffer) option" where
  "buffer_append ok ys hb = buffer_insert ok (buf_size (snd hb)) (map Some ys) hb"

definition buffer_consume :: "nat \<Rightarrow> heap \<times> 'b buffer \<Rightarrow> (heap \<times> 'b buffer) option" where
  "buffer_consume n hb = map_option (Pair (fst hb)) (buffer_erase 0 n (snd hb))"

interpretation buffer_queue:
  byte_queue "buffer_append (\<lambda>_. True)" buffer_consume "\<lambda>hb. holds (snd hb)" "2 ^ 62"
proof
  fix q :: "heap \<times> 'b buffer" and xs ys :: "'b list"
  assume q: "holds (snd q) xs" and len: "length xs + length ys \<le> 2 ^ 62"
  show "\<exists>q'. buffer_append (\<lambda>_. True) ys q = Some q' \<and> holds (snd q') (xs @ ys)"
    using insert_run [OF q le_refl len, where ok = "\<lambda>_. True" and h = "fst q"] holdsD(3) [OF q]
    by (auto simp: buffer_append_def)
next
  fix q :: "heap \<times> 'b buffer" and xs :: "'b list" and n
  assume "holds (snd q) xs"
  then show "\<exists>q'. buffer_consume n q = Some q' \<and> holds (snd q') (drop n xs)"
    using erase_run [of "snd q" xs 0 n] by (auto simp: buffer_consume_def)
qed

subsection \<open>Properties\<close>

text \<open>
  Inserting bytes at any position of a buffer, with memory available, makes its content the
  front, the bytes, and the rest, whatever reallocation and moving happened on the way; the content
  stays within the block.
\<close>

theorem insert_content:
  assumes "holds b xs" and "pos \<le> length xs" and "length xs + length ys \<le> 2 ^ 62"
    and "ok (unat (buffer_roundup (of_nat (length xs + length ys))))"
  shows "\<exists>h' b'. buffer_insert ok pos (map Some ys) (h, b) = Some (h', b') \<and>
    holds b' (take pos xs @ ys @ drop pos xs)"
  using assms by (rule insert_run)

text \<open>A buffer of four bytes holding three.\<close>

definition ex_buf :: "char buffer" where
  "ex_buf = \<lparr>buf_block = Some 0, buf_cells = map Some ''abc'' @ [None], buf_size = 3,
             buf_capacity = 4\<rparr>"

definition ex_heap :: heap where
  "ex_heap = \<lparr>h_next = 1, h_live = [0]\<rparr>"

lemma ex_buf_holds [simp]: "holds ex_buf ''abc''"
  by (simp add: holds_def buffer_ok_def ex_buf_def)

lemma ex_buf_fields [simp]: "buf_block ex_buf = Some 0" "buf_size ex_buf = 3"
  "buf_capacity ex_buf = 4"
  by (simp_all add: ex_buf_def)

lemma insert_content_witness:
  "\<exists>h' b'. buffer_insert (\<lambda>n. n = 8) 1 (map Some ''xy'') (ex_heap, ex_buf) = Some (h', b') \<and>
    holds b' ''axybc''"
  using insert_content [of ex_buf "''abc''" 1 "''xy''" "\<lambda>n. n = 8" ex_heap]
  by (simp add: buffer_roundup_def smear_def)

text \<open>
  \<open>buffer_insert\<close> never looks at whether its reservation succeeded: when the block is too
  small and no memory is available, every insertion copies outside the block.
\<close>

theorem insert_without_memory_overruns:
  assumes "holds b xs" and "pos \<le> length xs" and "length xs + length ys \<le> 2 ^ 62"
    and "buf_capacity b < length xs + length ys"
    and "\<not> ok (unat (buffer_roundup (of_nat (length xs + length ys))))"
  shows "buffer_insert ok pos ys (h, b) = None"
  using assms by (rule insert_overruns)

lemma insert_without_memory_overruns_witness:
  "buffer_insert (\<lambda>_. False) 3 (map Some ''xy'') (ex_heap, ex_buf) = None"
  by (rule insert_without_memory_overruns [of _ "''abc''"]) simp_all

text \<open>
  Erasing a range keeps exactly the bytes before and behind it, and erasing from the front may
  ask for more than there is; only the content changes, never the block or its capacity.
\<close>

theorem erase_content:
  assumes "holds b xs" and "pos + n \<le> length xs \<or> pos = 0"
  shows "\<exists>b'. buffer_erase pos n b = Some b' \<and> holds b' (take pos xs @ drop (pos + n) xs) \<and>
    buf_block b' = buf_block b \<and> buf_capacity b' = buf_capacity b"
  using erase_run [OF assms] by (auto simp: buffer_erase_def split: if_splits bind_splits)

lemma erase_content_witness:
  "\<exists>b'. buffer_erase 1 1 ex_buf = Some b' \<and> holds b' ''ac'' \<and> buf_block b' = Some 0 \<and>
    buf_capacity b' = 4"
  using erase_content [of ex_buf "''abc''" 1 1] by simp

text \<open>
  \<open>buffer_insert_fill\<close> is \<open>buffer_insert\<close> of the repeated bytes.
\<close>

theorem fill_is_insert:
  assumes "holds b xs" and "pos \<le> length xs" and "length xs + k * length ys \<le> 2 ^ 62"
    and "ok (unat (buffer_roundup (of_nat (length xs + k * length ys))))"
  shows "buffer_insert_fill ok pos k ys (h, b) =
    buffer_insert ok pos (concat (replicate k ys)) (h, b)"
  using assms by (rule insert_fill_insert)

lemma fill_is_insert_witness:
  "buffer_insert_fill (\<lambda>_. True) 3 2 (map Some ''-'') (ex_heap, ex_buf) =
   buffer_insert (\<lambda>_. True) 3 (concat (replicate 2 (map Some ''-''))) (ex_heap, ex_buf)"
  by (rule fill_is_insert [of _ "''abc''"]) simp_all

text \<open>
  A reservation that grows frees the block it replaces exactly when the buffer holds bytes:
  the block of an empty buffer stays allocated, and nothing refers to it any more.
\<close>

theorem reserve_frees_iff:
  assumes "holds b xs" and "heap_ok (h, b)" and "cap \<le> 2 ^ 62" and "cap > buf_capacity b"
    and "ok (unat (buffer_roundup (of_nat cap)))" and "buf_block b = Some i"
  shows "\<exists>h' b'. buffer_reserve ok cap (h, b) = Some (h', b') \<and> holds b' xs \<and>
    buf_block b' \<noteq> Some i \<and> (i \<in> set (h_live h') \<longleftrightarrow> xs = [])"
proof -
  note grow = reserve_grow [where ok = ok and cap = cap, OF assms(1-5)]
  obtain h' b' where r: "buffer_reserve ok cap (h, b) = Some (h', b')" "holds b' xs"
    using reserve_run [where ok = ok and cap = cap and h = h, OF assms(1,3,5)] by blast
  have i: "i \<in> set (h_live h)" "i \<noteq> h_next h"
    using assms(2,6) by (auto simp: heap_ok_def list_all_iff)
  show ?thesis
    using r(2) grow [unfolded r(1)] i assms(6)
    by (auto simp: r(1) grown_def heap_swap_def mem_free_def)
qed

lemma reserve_frees_iff_witness:
  "\<exists>h' b'. buffer_reserve (\<lambda>_. True) 100 (ex_heap, ex_buf) = Some (h', b') \<and>
    holds b' ''abc'' \<and> buf_block b' \<noteq> Some 0 \<and> (0 \<in> set (h_live h') \<longleftrightarrow> ''abc'' = [])"
  by (rule reserve_frees_iff) (simp_all add: heap_ok_def ex_heap_def)

end
