(* ===== verification/Descriptor.thy ===== *)
theory Descriptor
  imports Prelude
begin

text \<open>
  Component \<open>third_party/libreactor/src/reactor/descriptor.c\<close>: a file descriptor registered with
  the reactor. What an operation asks of the reactor and of the kernel is appended to a list of
  calls, which \<open>Reactor_Core\<close> executes.
\<close>

unbundle bit_operations_syntax

datatype reactor_call =
  Reactor_Add int u32
| Reactor_Modify int u32
| Reactor_Delete int
| Poll_Resubmit int
| Close_Fd int

abbreviation (input) DESCRIPTOR_READ :: u32 where "DESCRIPTOR_READ \<equiv> 1"
abbreviation (input) DESCRIPTOR_WRITE :: u32 where "DESCRIPTOR_WRITE \<equiv> 2"
abbreviation (input) POLLIN :: u32 where "POLLIN \<equiv> 1"
abbreviation (input) POLLOUT :: u32 where "POLLOUT \<equiv> 4"

datatype descriptor_event = Descriptor_Close | Descriptor_Read | Descriptor_Write

record descriptor =
  d_fd :: int
  d_mask :: u32

definition descriptor_events :: "descriptor \<Rightarrow> u32" where
  "descriptor_events d =
     (if d_mask d AND DESCRIPTOR_READ \<noteq> 0 then POLLIN else 0) OR
     (if d_mask d AND DESCRIPTOR_WRITE \<noteq> 0 then POLLOUT else 0)"

text \<open>
  \<open>descriptor_construct\<close> writes the handlers and \<open>fd\<close>; the mask keeps what the memory
  holds, which is 0 in every object the servers construct.
\<close>

definition descriptor_construct :: "descriptor \<Rightarrow> descriptor" where
  "descriptor_construct d = d\<lparr>d_fd := -1\<rparr>"

definition descriptor_is_open :: "descriptor \<Rightarrow> bool" where
  "descriptor_is_open d \<longleftrightarrow> d_fd d \<ge> 0"

definition descriptor_open ::
  "int \<Rightarrow> u32 \<Rightarrow> reactor_call list \<times> descriptor \<Rightarrow> reactor_call list \<times> descriptor" where
  "descriptor_open fd m cd =
     (let d = (snd cd)\<lparr>d_fd := fd, d_mask := m\<rparr>
      in (fst cd @ [Reactor_Add fd (descriptor_events d)], d))"

definition descriptor_mask ::
  "u32 \<Rightarrow> reactor_call list \<times> descriptor \<Rightarrow> reactor_call list \<times> descriptor" where
  "descriptor_mask m cd =
     (if d_mask (snd cd) = m then cd
      else let d = (snd cd)\<lparr>d_mask := m\<rparr>
           in (fst cd @ [Reactor_Modify (d_fd d) (descriptor_events d)], d))"

definition descriptor_close ::
  "reactor_call list \<times> descriptor \<Rightarrow> reactor_call list \<times> descriptor" where
  "descriptor_close cd =
     (if \<not> descriptor_is_open (snd cd) then cd
      else (fst cd @ [Reactor_Delete (d_fd (snd cd)), Close_Fd (d_fd (snd cd))],
            (snd cd)\<lparr>d_fd := -1, d_mask := 0\<rparr>))"

definition descriptor_destruct ::
  "reactor_call list \<times> descriptor \<Rightarrow> reactor_call list \<times> descriptor" where
  "descriptor_destruct cd = descriptor_close cd"

text \<open>
  The callback of a completed poll. The object the descriptor lives in belongs to the handler's
  state: \<open>desc_of s\<close> is the descriptor there, \<open>None\<close> when its memory has been freed, and every
  access goes through it. \<open>request\<close> appends to the calls of the state.
\<close>

definition dispatch_if ::
  "bool \<Rightarrow> ('s \<Rightarrow> descriptor option) \<Rightarrow> (descriptor_event \<Rightarrow> 's \<Rightarrow> 's option) \<Rightarrow>
     descriptor_event \<Rightarrow> 's \<Rightarrow> 's option" where
  "dispatch_if c desc_of handler e s =
     (if c then (case desc_of s of None \<Rightarrow> None | Some _ \<Rightarrow> handler e s) else Some s)"

definition descriptor_callback ::
  "('s \<Rightarrow> descriptor option) \<Rightarrow> (descriptor_event \<Rightarrow> 's \<Rightarrow> 's option) \<Rightarrow>
     (reactor_call \<Rightarrow> 's \<Rightarrow> 's) \<Rightarrow> u32 \<Rightarrow> 's \<Rightarrow> 's option" where
  "descriptor_callback desc_of handler request revents s =
     Option.bind (dispatch_if (revents AND POLLIN \<noteq> 0) desc_of handler Descriptor_Read s) (\<lambda>s.
     Option.bind (dispatch_if (revents AND POLLOUT \<noteq> 0) desc_of handler Descriptor_Write s) (\<lambda>s.
     Option.bind (dispatch_if (revents AND NOT (POLLIN OR POLLOUT) \<noteq> 0) desc_of handler
       Descriptor_Close s) (\<lambda>s.
     case desc_of s of
       None \<Rightarrow> None
     | Some d \<Rightarrow> Some (if d_fd d \<ge> 0 then request (Poll_Resubmit (d_fd d)) s else s))))"

subsection \<open>Facts\<close>

lemma descriptor_events_simps [simp]:
  "descriptor_events (d\<lparr>d_mask := 0\<rparr>) = 0"
  "descriptor_events (d\<lparr>d_mask := 1\<rparr>) = 1"
  "descriptor_events (d\<lparr>d_mask := 2\<rparr>) = 4"
  "descriptor_events (d\<lparr>d_mask := 3\<rparr>) = 5"
  by (simp_all add: descriptor_events_def)

lemma descriptor_mask_fields [simp]:
  "d_mask (snd (descriptor_mask m cd)) = m"
  "d_fd (snd (descriptor_mask m cd)) = d_fd (snd cd)"
  by (simp_all add: descriptor_mask_def Let_def)

lemma descriptor_open_fields [simp]:
  "d_mask (snd (descriptor_open fd m cd)) = m"
  "d_fd (snd (descriptor_open fd m cd)) = fd"
  by (simp_all add: descriptor_open_def Let_def)

lemma descriptor_close_fields [simp]:
  "\<not> descriptor_is_open (snd (descriptor_close cd))"
  by (simp add: descriptor_close_def descriptor_is_open_def)

lemma descriptor_close_twice [simp]:
  "descriptor_close (descriptor_close cd) = descriptor_close cd"
  using descriptor_close_fields [of cd] by (simp add: descriptor_close_def [of "descriptor_close cd"])

text \<open>A poll that completed with an error number is taken for a mask of events: cancellation
  (\<open>-ECANCELED\<close>, -125) reads, then closes.\<close>

lemma cancelled_poll_events:
  "(word_of_int (-125) :: u32) AND POLLIN \<noteq> 0"
  "(word_of_int (-125) :: u32) AND POLLOUT = 0"
  "(word_of_int (-125) :: u32) AND NOT (POLLIN OR POLLOUT) \<noteq> 0"
  by simp_all

end
