(* ===== verification/Stream.thy ===== *)
theory Stream
  imports Buffer Descriptor
begin

text \<open>
  Component \<open>third_party/libreactor/src/reactor/stream.c\<close>, without TLS (\<open>stream_open\<close> with a
  NULL context, as both servers call it): a non-blocking socket with an input and an output buffer.
  The socket is the script of what its \<open>recv\<close> and \<open>send\<close> calls will answer, together with the
  bytes the kernel has accepted; an exhausted script answers \<open>EAGAIN\<close>.
\<close>

subsection \<open>State\<close>

datatype send_result = Sent nat | Send_again | Send_error

text \<open>A \<open>recv\<close> answer is \<open>None\<close> for -1, otherwise the bytes delivered (none at end of file).\<close>

record 'b sock =
  k_recv :: "'b list option list"
  k_send :: "send_result list"
  k_sent :: "'b option list"

record 'b world =
  w_heap :: heap
  w_calls :: "reactor_call list"
  w_sock :: "int \<Rightarrow> 'b sock"

record 'b stream =
  st_desc :: descriptor
  st_is_socket :: bool
  st_mask :: u32
  st_notify :: bool
  st_input :: "'b buffer"
  st_output :: "'b buffer"

datatype stream_event = Stream_Close | Stream_Read | Stream_Write

abbreviation (input) STREAM_READ :: u32 where "STREAM_READ \<equiv> DESCRIPTOR_READ"
abbreviation (input) STREAM_WRITE :: u32 where "STREAM_WRITE \<equiv> DESCRIPTOR_WRITE"

subsection \<open>Buffer and descriptor operations on the fields\<close>

definition on_input ::
  "(heap \<times> 'b buffer \<Rightarrow> (heap \<times> 'b buffer) option) \<Rightarrow> 'b world \<times> 'b stream \<Rightarrow>
     ('b world \<times> 'b stream) option" where
  "on_input f ws =
     map_option (\<lambda>(h, b). ((fst ws)\<lparr>w_heap := h\<rparr>, (snd ws)\<lparr>st_input := b\<rparr>))
       (f (w_heap (fst ws), st_input (snd ws)))"

definition on_output ::
  "(heap \<times> 'b buffer \<Rightarrow> (heap \<times> 'b buffer) option) \<Rightarrow> 'b world \<times> 'b stream \<Rightarrow>
     ('b world \<times> 'b stream) option" where
  "on_output f ws =
     map_option (\<lambda>(h, b). ((fst ws)\<lparr>w_heap := h\<rparr>, (snd ws)\<lparr>st_output := b\<rparr>))
       (f (w_heap (fst ws), st_output (snd ws)))"

definition on_desc ::
  "(reactor_call list \<times> descriptor \<Rightarrow> reactor_call list \<times> descriptor) \<Rightarrow>
     'b world \<times> 'b stream \<Rightarrow> 'b world \<times> 'b stream" where
  "on_desc f ws =
     (case f (w_calls (fst ws), st_desc (snd ws)) of
        (c, d) \<Rightarrow> ((fst ws)\<lparr>w_calls := c\<rparr>, (snd ws)\<lparr>st_desc := d\<rparr>))"

definition stream_fd :: "'b stream \<Rightarrow> int" where
  "stream_fd st = d_fd (st_desc st)"

definition set_sock :: "int \<Rightarrow> 'b sock \<Rightarrow> 'b world \<Rightarrow> 'b world" where
  "set_sock fd k w = w\<lparr>w_sock := (w_sock w)(fd := k)\<rparr>"

subsection \<open>Socket operations\<close>

text \<open>
  The loop of \<open>stream_socket_read\<close>: reserve, receive at most 65536 bytes behind the content, go
  on while a call filled that. The result holds the rest of the script and the total. A \<open>recv\<close>
  that delivered more than it was asked for would be undefined.
\<close>

definition read_size :: nat where
  "read_size = 65536"

fun recv_loop ::
  "(nat \<Rightarrow> bool) \<Rightarrow> 'b list option list \<Rightarrow> heap \<times> 'b buffer \<Rightarrow> nat \<Rightarrow>
     ('b list option list \<times> (heap \<times> 'b buffer) \<times> nat) option" where
  "recv_loop ok [] hb tot =
     Option.bind (buffer_reserve ok (size_add (buf_size (snd hb)) read_size) hb) (\<lambda>hb.
     Some ([], hb, tot))"
| "recv_loop ok (None # script) hb tot =
     Option.bind (buffer_reserve ok (size_add (buf_size (snd hb)) read_size) hb) (\<lambda>hb.
     Some (script, hb, tot))"
| "recv_loop ok (Some xs # script) hb tot =
     Option.bind (buffer_reserve ok (size_add (buf_size (snd hb)) read_size) hb) (\<lambda>(h, b).
     if length xs > read_size then None else
     Option.bind (write_at (buf_size b) (map Some xs) (buf_cells b)) (\<lambda>cells.
     let b = b\<lparr>buf_cells := cells, buf_size := size_add (buf_size b) (length xs)\<rparr>
     in if length xs = read_size then recv_loop ok script (h, b) (size_add tot (length xs))
        else Some (script, (h, b), size_add tot (length xs))))"

definition stream_socket_read ::
  "(nat \<Rightarrow> bool) \<Rightarrow> 'b world \<times> 'b stream \<Rightarrow> (nat \<times> 'b world \<times> 'b stream) option" where
  "stream_socket_read ok ws =
     (case ws of (w, st) \<Rightarrow>
      let k = w_sock w (stream_fd st)
      in map_option (\<lambda>(script, (h, b), tot).
           (tot, set_sock (stream_fd st) (k\<lparr>k_recv := script\<rparr>) (w\<lparr>w_heap := h\<rparr>),
            st\<lparr>st_input := b\<rparr>))
         (recv_loop ok (k_recv k) (w_heap w, st_input st) 0))"

definition stream_socket_mask :: "'b stream \<Rightarrow> u32" where
  "stream_socket_mask st =
     (st_mask st AND STREAM_READ) OR
     (if buf_size (st_output st) \<noteq> 0 \<or> st_notify st then STREAM_WRITE else 0)"

definition stream_socket_update :: "'b world \<times> 'b stream \<Rightarrow> 'b world \<times> 'b stream" where
  "stream_socket_update ws = on_desc (descriptor_mask (stream_socket_mask (snd ws))) ws"

text \<open>
  The loop of \<open>stream_socket_write\<close> over the bytes not yet sent. \<open>assert (errno == EAGAIN)\<close>
  fails on any other error. \<open>Sent n\<close> is a kernel that takes up to \<open>n\<close> bytes: \<open>send\<close> never
  reports more than it was given.
\<close>

fun send_loop ::
  "send_result list \<Rightarrow> 'b option list \<Rightarrow> nat \<Rightarrow> 'b option list \<Rightarrow>
     (send_result list \<times> nat \<times> 'b option list) option" where
  "send_loop script [] tot sent = Some (script, tot, sent)"
| "send_loop [] (x # xs) tot sent = Some ([], tot, sent)"
| "send_loop (Send_again # script) (x # xs) tot sent = Some (script, tot, sent)"
| "send_loop (Send_error # script) (x # xs) tot sent = None"
| "send_loop (Sent n # script) (x # xs) tot sent =
     send_loop script (drop n (x # xs)) (tot + min n (length (x # xs)))
       (sent @ take n (x # xs))"

definition stream_socket_write ::
  "'b world \<times> 'b stream \<Rightarrow> ('b world \<times> 'b stream) option" where
  "stream_socket_write ws =
     (case ws of (w, st) \<Rightarrow>
      let k = w_sock w (stream_fd st) in
      Option.bind (read_n (buf_size (st_output st)) (buf_cells (st_output st))) (\<lambda>xs.
      Option.bind (send_loop (k_send k) xs 0 (k_sent k)) (\<lambda>(script, tot, sent).
      on_output (buffer_consume tot)
        (set_sock (stream_fd st) (k\<lparr>k_send := script, k_sent := sent\<rparr>) w, st))))"

text \<open>
  The descriptor's callback. Every path ends with at most one dispatch to the stream's handler,
  which is the event returned.
\<close>

definition stream_socket_callback ::
  "(nat \<Rightarrow> bool) \<Rightarrow> descriptor_event \<Rightarrow> 'b world \<times> 'b stream \<Rightarrow>
     (stream_event option \<times> 'b world \<times> 'b stream) option" where
  "stream_socket_callback ok e ws =
     (case e of
        Descriptor_Read \<Rightarrow>
          map_option (\<lambda>(n, ws). (if n \<noteq> 0 then Some Stream_Read else None, ws))
            (stream_socket_read ok ws)
      | Descriptor_Write \<Rightarrow>
          map_option (\<lambda>(w, st).
            if buf_size (st_output st) = 0 \<or> st_notify st
            then (Some Stream_Write, stream_socket_update (w, st\<lparr>st_notify := False\<rparr>))
            else (None, stream_socket_update (w, st)))
          (stream_socket_write ws)
      | Descriptor_Close \<Rightarrow> Some (Some Stream_Close, ws))"

definition stream_socket_open :: "int \<Rightarrow> 'b world \<times> 'b stream \<Rightarrow> 'b world \<times> 'b stream" where
  "stream_socket_open fd ws =
     on_desc (\<lambda>(c, d). descriptor_open fd (stream_socket_mask (snd ws))
                         (c, descriptor_construct d)) ws"

subsection \<open>The interface\<close>

definition zeroed_stream :: "'b stream" where
  "zeroed_stream = \<lparr>st_desc = \<lparr>d_fd = 0, d_mask = 0\<rparr>, st_is_socket = False, st_mask = 0,
                    st_notify = False, st_input = buffer_construct, st_output = buffer_construct\<rparr>"

definition stream_construct ::
  "(nat \<Rightarrow> bool) \<Rightarrow> 'b world \<Rightarrow> ('b world \<times> 'b stream) option" where
  "stream_construct ok w =
     (let z = zeroed_stream; st = z\<lparr>st_desc := descriptor_construct (st_desc z)\<rparr>
      in Option.bind (on_input (buffer_reserve ok 16384) (w, st))
           (on_output (buffer_reserve ok 4096)))"

text \<open>\<open>fstat\<close> says whether the descriptor is a socket; a failing call stops the program.\<close>

definition stream_open ::
  "bool option \<Rightarrow> int \<Rightarrow> u32 \<Rightarrow> 'b world \<times> 'b stream \<Rightarrow> ('b world \<times> 'b stream) option" where
  "stream_open fstat fd m ws =
     (case fstat of
        None \<Rightarrow> None
      | Some s \<Rightarrow> Some (stream_socket_open fd
                         (fst ws, (snd ws)\<lparr>st_is_socket := s, st_mask := m\<rparr>)))"

definition stream_notify :: "'b world \<times> 'b stream \<Rightarrow> 'b world \<times> 'b stream" where
  "stream_notify ws =
     (let ws = (fst ws, (snd ws)\<lparr>st_notify := True\<rparr>)
      in if \<not> descriptor_is_open (st_desc (snd ws)) then ws else stream_socket_update ws)"

definition stream_close :: "'b world \<times> 'b stream \<Rightarrow> 'b world \<times> 'b stream" where
  "stream_close ws =
     (if \<not> descriptor_is_open (st_desc (snd ws)) then ws
      else case on_desc descriptor_close (fst ws, (snd ws)\<lparr>st_notify := False\<rparr>) of
        (w, st) \<Rightarrow>
          (case buffer_clear (w_heap w, st_input st) of (h, i) \<Rightarrow>
           case buffer_clear (h, st_output st) of (h, out) \<Rightarrow>
             (w\<lparr>w_heap := h\<rparr>, st\<lparr>st_input := i, st_output := out\<rparr>)))"

definition stream_destruct :: "'b world \<times> 'b stream \<Rightarrow> 'b world \<times> 'b stream" where
  "stream_destruct ws =
     (case stream_close ws of (w, st) \<Rightarrow>
        (case buffer_destruct (w_heap w, st_input st) of (h, i) \<Rightarrow>
         case buffer_destruct (h, st_output st) of (h, out) \<Rightarrow>
           on_desc descriptor_destruct
             (w\<lparr>w_heap := h\<rparr>, st\<lparr>st_input := i, st_output := out\<rparr>)))"

text \<open>\<open>stream_read\<close> hands out the content of the input buffer.\<close>

definition stream_read :: "'b stream \<Rightarrow> 'b option list option" where
  "stream_read st = read_n (buf_size (st_input st)) (buf_cells (st_input st))"

definition stream_consume ::
  "nat \<Rightarrow> 'b world \<times> 'b stream \<Rightarrow> ('b world \<times> 'b stream) option" where
  "stream_consume n = on_input (buffer_consume n)"

definition stream_write ::
  "(nat \<Rightarrow> bool) \<Rightarrow> 'b list \<Rightarrow> 'b world \<times> 'b stream \<Rightarrow> ('b world \<times> 'b stream) option" where
  "stream_write ok xs = on_output (buffer_append ok xs)"

text \<open>\<open>stream_allocate\<close> returns the offset of the new bytes in the output buffer.\<close>

definition stream_allocate ::
  "(nat \<Rightarrow> bool) \<Rightarrow> nat \<Rightarrow> 'b world \<times> 'b stream \<Rightarrow> (nat \<times> 'b world \<times> 'b stream) option" where
  "stream_allocate ok n ws =
     (let current = buf_size (st_output (snd ws))
      in map_option (Pair current) (on_output (buffer_resize ok (size_add current n)) ws))"

definition stream_flush :: "'b world \<times> 'b stream \<Rightarrow> ('b world \<times> 'b stream) option" where
  "stream_flush ws = map_option stream_socket_update (stream_socket_write ws)"

subsection \<open>The loops\<close>

lemma send_loop_run:
  assumes "Send_error \<notin> set script"
  shows "\<exists>n rest. send_loop script xs tot sent = Some (rest, tot + n, sent @ take n xs) \<and>
    n \<le> length xs \<and> set rest \<subseteq> set script"
  using assms
proof (induction script xs tot sent rule: send_loop.induct)
  case (5 n script x xs tot sent)
  let ?m = "min n (length (x # xs))"
  obtain m rest where IH: "send_loop script (drop n (x # xs)) (tot + ?m) (sent @ take n (x # xs)) =
      Some (rest, tot + ?m + m, (sent @ take n (x # xs)) @ take m (drop n (x # xs)))"
    "m \<le> length (drop n (x # xs))" "set rest \<subseteq> set script"
    using 5 by auto
  have "take n (x # xs) @ take m (drop n (x # xs)) = take (?m + m) (x # xs)"
    by (cases "n \<le> length (x # xs)") (simp_all only: min.absorb1 min.absorb2 take_add, simp)
  moreover have "?m + m \<le> length (x # xs)" using IH(2) by (auto simp: min_def)
  ultimately show ?case using IH(1,3) by (intro exI [of _ "?m + m"] exI [of _ rest]) auto
qed (force intro: exI [of _ 0])+

lemma send_loop_all:
  "length xs \<le> n \<Longrightarrow> xs \<noteq> [] \<Longrightarrow>
     send_loop (Sent n # script) xs tot sent = Some (script, tot + length xs, sent @ xs)"
  by (cases xs) (auto simp: min_def)

lemma recv_loop_run:
  assumes "holds b xs" and "\<And>c. Some c \<in> set script \<Longrightarrow> length c \<le> read_size"
    and "length xs + length (concat (map (case_option [] id) script)) + read_size \<le> 2 ^ 62"
    and "tot + length (concat (map (case_option [] id) script)) < 2 ^ 64"
  shows "\<exists>rest h' b' ys. recv_loop (\<lambda>_. True) script (h, b) tot =
      Some (rest, (h', b'), tot + length ys) \<and> holds b' (xs @ ys) \<and>
      (\<exists>used. script = used @ rest \<and> ys = concat (map (case_option [] id) used)) \<and>
      buf_block b' \<noteq> None"
  using assms
proof (induction script arbitrary: h b xs tot)
  case Nil
  have cap: "size_add (buf_size b) read_size = length xs + read_size"
    using holdsD(3) [OF Nil.prems(1)] Nil.prems(3) by (simp add: size_add_small)
  obtain h1 b1 where r: "buffer_reserve (\<lambda>_. True) (length xs + read_size) (h, b) = Some (h1, b1)"
    "holds b1 xs" "length xs + read_size \<le> buf_capacity b1"
    using reserve_run [where ok = "\<lambda>_. True" and cap = "length xs + read_size" and h = h,
        OF Nil.prems(1)] Nil.prems(3)
    by auto
  have "buf_block b1 \<noteq> None" using holds_None [OF r(2)] r(3) by (auto simp: read_size_def)
  then show ?case using r cap by simp
next
  case (Cons c script)
  have cap: "size_add (buf_size b) read_size = length xs + read_size"
    using holdsD(3) [OF Cons.prems(1)] Cons.prems(3) by (simp add: size_add_small)
  obtain h1 b1 where r: "buffer_reserve (\<lambda>_. True) (length xs + read_size) (h, b) = Some (h1, b1)"
    "holds b1 xs" "length xs + read_size \<le> buf_capacity b1"
    using reserve_run [where ok = "\<lambda>_. True" and cap = "length xs + read_size" and h = h,
        OF Cons.prems(1)] Cons.prems(3)
    by auto
  have blk: "buf_block b1 \<noteq> None" using holds_None [OF r(2)] r(3) by (auto simp: read_size_def)
  note D = holdsD [OF r(2)]
  show ?case
  proof (cases c)
    case None
    then show ?thesis using r cap blk by (auto intro!: exI [of _ "[None]"])
  next
    case (Some ys)
    have ys: "length ys \<le> read_size" using Cons.prems(2) Some by simp
    let ?cells = "take (length xs) (buf_cells b1) @ map Some ys @
        drop (length xs + length ys) (buf_cells b1)"
    let ?b = "b1\<lparr>buf_cells := ?cells, buf_size := length xs + length ys\<rparr>"
    have w: "write_at (length xs) (map Some ys) (buf_cells b1) = Some ?cells"
      using D r(3) ys by (simp add: write_at_def)
    have s: "size_add (buf_size b1) (length ys) = length xs + length ys"
      "size_add tot (length ys) = tot + length ys"
      using D Cons.prems(3,4) ys Some by (simp_all add: size_add_small)
    have hb: "holds ?b (xs @ ys)"
      using D r(3) ys blk by (intro holdsI) simp_all
    show ?thesis
    proof (cases "length ys = read_size")
      case False
      then show ?thesis
        using Some r cap D s w ys hb blk by (auto intro!: exI [of _ "[Some ys]"])
    next
      case True
      obtain rest h' b' zs used where IH:
        "recv_loop (\<lambda>_. True) script (h1, ?b) (tot + length ys) =
          Some (rest, (h', b'), tot + length ys + length zs)"
        "holds b' ((xs @ ys) @ zs)" "script = used @ rest"
        "zs = concat (map (case_option [] id) used)" "buf_block b' \<noteq> None"
        using Cons.IH [OF hb, of "tot + length ys" h1] Cons.prems(2,3,4) Some by auto
      show ?thesis
        using Some r cap D s w ys IH
        by (auto intro!: exI [of _ "Some ys # used"] simp: True [symmetric])
    qed
  qed
qed

subsection \<open>What a stream carries\<close>

text \<open>
  \<open>stream_view fd ws ins outs\<close>: the stream is open on \<open>fd\<close>, \<open>ins\<close> are the received bytes not yet
  consumed, and \<open>outs\<close> all the bytes written to it so far, the kernel's part and the buffered part
  in this order. The peer has not reset the connection.
\<close>

definition stream_view :: "int \<Rightarrow> 'b world \<times> 'b stream \<Rightarrow> 'b list \<Rightarrow> 'b list \<Rightarrow> bool" where
  "stream_view fd ws ins outs \<longleftrightarrow>
     stream_fd (snd ws) = fd \<and> 0 \<le> fd \<and> holds (st_input (snd ws)) ins \<and>
     Send_error \<notin> set (k_send (w_sock (fst ws) fd)) \<and>
     (\<exists>pending. holds (st_output (snd ws)) pending \<and>
        k_sent (w_sock (fst ws) fd) @ map Some pending = map Some outs)"

definition synced :: "'b stream \<Rightarrow> bool" where
  "synced st \<longleftrightarrow> d_mask (st_desc st) = stream_socket_mask st"

text \<open>Nothing outside the stream and its socket changes, and the reactor's calls only grow.\<close>

definition same_others :: "int \<Rightarrow> 'b world \<times> 'b stream \<Rightarrow> 'b world \<times> 'b stream \<Rightarrow> bool" where
  "same_others fd ws ws' \<longleftrightarrow>
     (\<forall>i. i \<noteq> fd \<longrightarrow> w_sock (fst ws') i = w_sock (fst ws) i) \<and>
     k_recv (w_sock (fst ws') fd) = k_recv (w_sock (fst ws) fd) \<and>
     st_mask (snd ws') = st_mask (snd ws) \<and>
     (\<exists>calls. w_calls (fst ws') = w_calls (fst ws) @ calls)"

lemma same_others_refl [simp]: "same_others fd ws ws"
  by (simp add: same_others_def)

lemma same_others_trans:
  "same_others fd ws1 ws2 \<Longrightarrow> same_others fd ws2 ws3 \<Longrightarrow> same_others fd ws1 ws3"
  by (auto simp: same_others_def)

lemma update_run:
  "fst (stream_socket_update ws) =
     (fst ws)\<lparr>w_calls := fst (descriptor_mask (stream_socket_mask (snd ws))
                               (w_calls (fst ws), st_desc (snd ws)))\<rparr>"
  "snd (stream_socket_update ws) =
     (snd ws)\<lparr>st_desc := snd (descriptor_mask (stream_socket_mask (snd ws))
                               (w_calls (fst ws), st_desc (snd ws)))\<rparr>"
  by (simp_all add: stream_socket_update_def on_desc_def split: prod.splits)

lemma update_synced [simp]: "synced (snd (stream_socket_update ws))"
  by (simp add: synced_def update_run stream_socket_mask_def)

lemma update_view [simp]: "stream_view fd (stream_socket_update ws) ins outs \<longleftrightarrow> stream_view fd ws ins outs"
  by (simp add: stream_view_def update_run stream_fd_def)

lemma update_others [simp]: "same_others fd ws (stream_socket_update ws)"
  by (auto simp: same_others_def update_run descriptor_mask_def Let_def)

lemma write_run:
  assumes "stream_view fd ws ins outs" and "length outs + length ys \<le> 2 ^ 62"
  shows "\<exists>ws'. stream_write (\<lambda>_. True) ys ws = Some ws' \<and> stream_view fd ws' ins (outs @ ys) \<and>
    same_others fd ws ws'"
proof -
  obtain pending where p: "holds (st_output (snd ws)) pending"
    "k_sent (w_sock (fst ws) fd) @ map Some pending = map Some outs"
    using assms(1) by (auto simp: stream_view_def)
  have "length pending \<le> length outs" using arg_cong [OF p(2), of length] by simp
  then obtain q' where q': "buffer_append (\<lambda>_. True) ys (w_heap (fst ws), st_output (snd ws)) = Some q'"
    "holds (snd q') (pending @ ys)"
    using buffer_queue.put_content [of "(w_heap (fst ws), st_output (snd ws))" pending ys] p(1)
      assms(2) by auto
  let ?ws = "((fst ws)\<lparr>w_heap := fst q'\<rparr>, (snd ws)\<lparr>st_output := snd q'\<rparr>)"
  have "stream_write (\<lambda>_. True) ys ws = Some ?ws"
    using q'(1) by (simp add: stream_write_def on_output_def split: prod.splits)
  moreover have "stream_view fd ?ws ins (outs @ ys)"
    using assms(1) q'(2) p(2)
    by (auto simp: stream_view_def stream_fd_def intro!: exI [of _ "pending @ ys"])
  ultimately show ?thesis by (auto simp: same_others_def)
qed

lemma consume_run:
  assumes "stream_view fd ws ins outs"
  shows "\<exists>ws'. stream_consume n ws = Some ws' \<and> stream_view fd ws' (drop n ins) outs \<and>
    same_others fd ws ws' \<and> (synced (snd ws) \<longrightarrow> synced (snd ws'))"
proof -
  obtain q' where q': "buffer_consume n (w_heap (fst ws), st_input (snd ws)) = Some q'"
    "holds (snd q') (drop n ins)"
    using buffer_queue.del_content [of "(w_heap (fst ws), st_input (snd ws))" ins n] assms
    by (auto simp: stream_view_def)
  then show ?thesis
    using assms
    by (auto simp: stream_consume_def on_input_def stream_view_def stream_fd_def same_others_def
        synced_def stream_socket_mask_def split: prod.splits)
qed

lemma socket_write_run:
  assumes "stream_view fd ws ins outs"
  shows "\<exists>ws'. stream_socket_write ws = Some ws' \<and> stream_view fd ws' ins outs \<and>
    same_others fd ws ws'"
proof -
  obtain w st where ws: "ws = (w, st)" by (cases ws)
  let ?k = "w_sock w fd"
  obtain pending where p: "holds (st_output st) pending"
    "k_sent ?k @ map Some pending = map Some outs"
    using assms by (auto simp: stream_view_def ws)
  have fd: "stream_fd st = fd" "Send_error \<notin> set (k_send ?k)" "0 \<le> fd" "holds (st_input st) ins"
    using assms by (auto simp: stream_view_def ws)
  obtain n rest where s: "send_loop (k_send ?k) (map Some pending) 0 (k_sent ?k) =
      Some (rest, n, k_sent ?k @ take n (map Some pending))"
    "n \<le> length pending" "set rest \<subseteq> set (k_send ?k)"
    using send_loop_run [OF fd(2), of "map Some pending" 0 "k_sent ?k"] by auto
  have cells: "read_n (buf_size (st_output st)) (buf_cells (st_output st)) = Some (map Some pending)"
    using holdsD [OF p(1)] by (simp add: read_n_def)
  obtain q' where q': "buffer_consume n (w_heap w, st_output st) = Some q'"
    "holds (snd q') (drop n pending)"
    using buffer_queue.del_content [of "(w_heap w, st_output st)" pending n] p(1) by auto
  let ?ws = "((set_sock fd (?k\<lparr>k_send := rest, k_sent := k_sent ?k @ take n (map Some pending)\<rparr>) w)
      \<lparr>w_heap := fst q'\<rparr>, st\<lparr>st_output := snd q'\<rparr>)"
  have run: "stream_socket_write ws = Some ?ws"
    using cells s q'(1) fd
    by (simp add: stream_socket_write_def ws on_output_def set_sock_def Let_def case_prod_beta)
  have "(k_sent ?k @ take n (map Some pending)) @ map Some (drop n pending) = map Some outs"
    using p(2) by (simp add: drop_map take_map flip: map_append)
  then have "stream_view fd ?ws ins outs"
    using fd s(3) q'(2)
    by (auto simp: stream_view_def stream_fd_def set_sock_def intro!: exI [of _ "drop n pending"])
  with run show ?thesis by (auto simp: same_others_def ws set_sock_def)
qed

text \<open>A kernel that takes everything at once.\<close>

lemma socket_write_all:
  assumes "stream_view fd ws ins outs" and "k_send (w_sock (fst ws) fd) = Sent n # script"
    and "length outs \<le> n"
  shows "\<exists>ws'. stream_socket_write ws = Some ws' \<and> stream_view fd ws' ins outs \<and>
    same_others fd ws ws' \<and> k_sent (w_sock (fst ws') fd) = map Some outs \<and>
    buf_size (st_output (snd ws')) = 0"
proof -
  obtain w st where ws: "ws = (w, st)" by (cases ws)
  let ?k = "w_sock w fd"
  obtain pending where p: "holds (st_output st) pending" "k_sent ?k @ map Some pending = map Some outs"
    using assms(1) by (auto simp: stream_view_def ws)
  have fd: "stream_fd st = fd" using assms(1) by (simp add: stream_view_def ws)
  obtain w1 st1 where w1: "stream_socket_write ws = Some (w1, st1)" "stream_view fd (w1, st1) ins outs"
    "same_others fd ws (w1, st1)"
    using socket_write_run [OF assms(1)] by auto
  have "length pending \<le> n" using arg_cong [OF p(2), of length] assms(3) by simp
  then have "\<exists>script'. send_loop (k_send ?k) (map Some pending) 0 (k_sent ?k) =
      Some (script', length pending, map Some outs)"
    using send_loop_all [of "map Some pending" n script 0 "k_sent ?k"] assms(2) p(2)
    by (cases "pending = []") (simp_all add: ws)
  moreover have "read_n (buf_size (st_output st)) (buf_cells (st_output st)) = Some (map Some pending)"
    using holdsD [OF p(1)] by (simp add: read_n_def)
  ultimately have sent: "k_sent (w_sock w1 fd) = map Some outs"
    using w1(1) fd
    by (auto simp: ws stream_socket_write_def Let_def on_output_def set_sock_def split: bind_splits)
  then have "holds (st_output st1) []" using w1(2) by (auto simp: stream_view_def)
  from holdsD(3) [OF this] show ?thesis using w1 sent by simp
qed

lemma flush_run:
  assumes "stream_view fd ws ins outs"
  shows "\<exists>ws'. stream_flush ws = Some ws' \<and> stream_view fd ws' ins outs \<and>
    same_others fd ws ws' \<and> synced (snd ws')"
proof -
  obtain ws1 where ws1: "stream_socket_write ws = Some ws1" "stream_view fd ws1 ins outs"
    "same_others fd ws ws1"
    using socket_write_run [OF assms] by blast
  then show ?thesis
    using same_others_trans [OF ws1(3) update_others] by (auto simp: stream_flush_def)
qed

lemma socket_read_run:
  assumes "stream_view fd ws ins outs"
    and "\<And>c. Some c \<in> set (k_recv (w_sock (fst ws) fd)) \<Longrightarrow> length c \<le> read_size"
    and "length ins + length (concat (map (case_option [] id) (k_recv (w_sock (fst ws) fd)))) +
      read_size \<le> 2 ^ 62"
  shows "\<exists>ys ws' used. stream_socket_read (\<lambda>_. True) ws = Some (length ys, ws') \<and>
    stream_view fd ws' (ins @ ys) outs \<and> w_calls (fst ws') = w_calls (fst ws) \<and>
    st_mask (snd ws') = st_mask (snd ws) \<and> (synced (snd ws) \<longrightarrow> synced (snd ws')) \<and>
    k_recv (w_sock (fst ws) fd) = used @ k_recv (w_sock (fst ws') fd) \<and>
    ys = concat (map (case_option [] id) used) \<and>
    (\<forall>i. i \<noteq> fd \<longrightarrow> w_sock (fst ws') i = w_sock (fst ws) i)"
proof -
  obtain w st where ws: "ws = (w, st)" by (cases ws)
  have fd: "stream_fd st = fd" "holds (st_input st) ins"
    using assms(1) by (auto simp: stream_view_def ws)
  have "length (concat (map (case_option [] id) (k_recv (w_sock w fd)))) < 2 ^ 64"
    using assms(3) by (simp add: ws)
  then obtain rest h' b' ys used where r:
    "recv_loop (\<lambda>_. True) (k_recv (w_sock w fd)) (w_heap w, st_input st) 0 =
      Some (rest, (h', b'), length ys)" "holds b' (ins @ ys)"
    "k_recv (w_sock w fd) = used @ rest" "ys = concat (map (case_option [] id) used)"
    using recv_loop_run [OF fd(2), of "k_recv (w_sock w fd)" 0 "w_heap w"] assms(2,3)
    by (auto simp: ws)
  let ?ws = "(set_sock fd ((w_sock w fd)\<lparr>k_recv := rest\<rparr>) (w\<lparr>w_heap := h'\<rparr>), st\<lparr>st_input := b'\<rparr>)"
  have "stream_socket_read (\<lambda>_. True) ws = Some (length ys, ?ws)"
    using r(1) fd by (simp add: stream_socket_read_def ws Let_def)
  moreover have "stream_view fd ?ws (ins @ ys) outs"
    using assms(1) r(2) by (auto simp: stream_view_def ws stream_fd_def set_sock_def)
  ultimately show ?thesis
    using r(3,4)
    by (auto simp: ws set_sock_def synced_def stream_socket_mask_def intro!: exI [of _ ys])
qed

lemma stream_view_recv:
  "stream_view fd (set_sock fd ((w_sock w fd)\<lparr>k_recv := rs\<rparr>) w, st) ins outs \<longleftrightarrow>
     stream_view fd (w, st) ins outs"
  by (simp add: stream_view_def set_sock_def)

lemma read_chunk_run:
  assumes "stream_view fd (w, st) ins outs" and "k_recv (w_sock w fd) = [Some chunk, None]"
    and "length chunk \<le> read_size" and "length ins + length chunk + read_size \<le> 2 ^ 62"
  shows "\<exists>ws1. stream_socket_read (\<lambda>_. True) (w, st) = Some (length chunk, ws1) \<and>
    stream_view fd ws1 (ins @ chunk) outs"
proof -
  have fd: "stream_fd st = fd" using assms(1) by (simp add: stream_view_def)
  obtain ys ws1 used where r: "stream_socket_read (\<lambda>_. True) (w, st) = Some (length ys, ws1)"
    "stream_view fd ws1 (ins @ ys) outs" "[Some chunk, None] = used @ k_recv (w_sock (fst ws1) fd)"
    "ys = concat (map (case_option [] id) used)"
    using socket_read_run [OF assms(1)] assms(2-4) by auto
  have "used \<noteq> []"
  proof
    assume "used = []"
    moreover have "k_recv (w_sock (fst ws1) fd) \<noteq> [Some chunk, None]"
      using r(1) assms(2,3) fd
      by (auto simp: stream_socket_read_def Let_def set_sock_def split: bind_splits if_splits)
    ultimately show False using r(3) by simp
  qed
  then have "ys = chunk" using r(3,4) by (auto simp: Cons_eq_append_conv)
  then show ?thesis using r(1,2) by blast
qed

lemma close_run:
  assumes "stream_view fd ws ins outs"
  shows "stream_close ws =
    (let h = mem_free (buf_block (st_output (snd ws)))
               (mem_free (buf_block (st_input (snd ws))) (w_heap (fst ws)))
     in ((fst ws)\<lparr>w_heap := h, w_calls := w_calls (fst ws) @ [Reactor_Delete fd, Close_Fd fd]\<rparr>,
         (snd ws)\<lparr>st_desc := (st_desc (snd ws))\<lparr>d_fd := -1, d_mask := 0\<rparr>, st_notify := False,
                  st_input := buffer_construct, st_output := buffer_construct\<rparr>))"
  using assms
  by (simp add: stream_close_def stream_view_def stream_fd_def descriptor_is_open_def on_desc_def
      descriptor_close_def buffer_clear_def Let_def)

text \<open>Closing streams.\<close>

definition close_calls :: "int \<Rightarrow> reactor_call list" where
  "close_calls fd = [Reactor_Delete fd, Close_Fd fd]"

lemma set_mem_free: "set (h_live (mem_free p h)) = set (h_live h) - set_option p"
  by (cases p) (auto simp: mem_free_def)

lemma stream_close_open:
  assumes "0 \<le> stream_fd st"
  shows "w_calls (fst (stream_close (w, st))) = w_calls w @ close_calls (stream_fd st)"
    and "set (h_live (w_heap (fst (stream_close (w, st))))) =
      set (h_live (w_heap w)) - set_option (buf_block (st_input st)) - set_option (buf_block (st_output st))"
    and "w_sock (fst (stream_close (w, st))) = w_sock w"
  using assms
  by (auto simp: stream_close_def descriptor_is_open_def stream_fd_def on_desc_def
      descriptor_close_def buffer_clear_def close_calls_def set_mem_free)

definition stream_blocks :: "'b stream \<Rightarrow> nat set" where
  "stream_blocks st = set_option (buf_block (st_input st)) \<union> set_option (buf_block (st_output st))"

lemma stream_destruct_open:
  assumes "0 \<le> stream_fd st"
  shows "w_calls (fst (stream_destruct (w, st))) = w_calls w @ close_calls (stream_fd st)"
    and "set (h_live (w_heap (fst (stream_destruct (w, st))))) = set (h_live (w_heap w)) - stream_blocks st"
    and "w_sock (fst (stream_destruct (w, st))) = w_sock w"
  using assms
  by (auto simp: stream_destruct_def stream_close_def descriptor_is_open_def stream_fd_def on_desc_def
      descriptor_close_def descriptor_destruct_def buffer_clear_def buffer_destruct_def buffer_construct_def
      close_calls_def set_mem_free stream_blocks_def)

lemma construct_open_run:
  assumes "0 \<le> fd" and "w_sock w fd = \<lparr>k_recv = rs, k_send = ss, k_sent = []\<rparr>"
    and "Send_error \<notin> set ss" and "m AND STREAM_WRITE = 0" and "m AND STREAM_READ = m"
  shows "\<exists>ws. Option.bind (stream_construct (\<lambda>_. True) w) (stream_open (Some s) fd m) = Some ws \<and>
    stream_view fd ws [] [] \<and> synced (snd ws) \<and> st_mask (snd ws) = m \<and>
    w_sock (fst ws) = w_sock w \<and>
    w_calls (fst ws) = w_calls w @ [Reactor_Add fd (descriptor_events \<lparr>d_fd = fd, d_mask = m\<rparr>)]"
proof -
  let ?st = "zeroed_stream\<lparr>st_desc := descriptor_construct (st_desc (zeroed_stream :: 'a stream))\<rparr> :: 'a stream"
  obtain h1 b1 where r1: "buffer_reserve (\<lambda>_. True) 16384 (w_heap w, buffer_construct :: 'a buffer) =
      Some (h1, b1)" "holds b1 []"
    using reserve_run [where ok = "\<lambda>_. True" and cap = 16384 and h = "w_heap w",
        OF holds_construct] by auto
  obtain h2 b2 where r2: "buffer_reserve (\<lambda>_. True) 4096 (h1, buffer_construct :: 'a buffer) =
      Some (h2, b2)" "holds b2 []"
    using reserve_run [where ok = "\<lambda>_. True" and cap = 4096 and h = h1, OF holds_construct] by auto
  have "stream_construct (\<lambda>_. True) w =
      Some (w\<lparr>w_heap := h2\<rparr>, ?st\<lparr>st_input := b1, st_output := b2\<rparr>)"
    using r1 r2 by (simp add: stream_construct_def on_input_def on_output_def zeroed_stream_def Let_def)
  then show ?thesis
    using assms r1(2) r2(2) holdsD(3) [OF r2(2)]
    by (auto simp: stream_open_def stream_socket_open_def on_desc_def descriptor_open_def descriptor_construct_def
        stream_view_def stream_fd_def synced_def stream_socket_mask_def Let_def zeroed_stream_def
        split: prod.splits)
qed

subsection \<open>Streams as an interface\<close>

text \<open>
  What a packet server asks of its stream: bytes it writes and flushes are appended to what the
  peer will see, bytes it consumes leave the front of the input, and after a flush the reactor
  watches exactly what the stream waits for.
\<close>

locale byte_stream =
  fixes swrite :: "'b list \<Rightarrow> 's \<Rightarrow> 's option"
    and sflush :: "'s \<Rightarrow> 's option"
    and sconsume :: "nat \<Rightarrow> 's \<Rightarrow> 's option"
    and view :: "'s \<Rightarrow> 'b list \<Rightarrow> 'b list \<Rightarrow> bool"
    and settled :: "'s \<Rightarrow> bool"
    and frame :: "'s \<Rightarrow> 's \<Rightarrow> bool"
    and bound :: nat
  assumes write_view: "view s ins outs \<Longrightarrow> length outs + length xs \<le> bound \<Longrightarrow>
      \<exists>s'. swrite xs s = Some s' \<and> view s' ins (outs @ xs) \<and> frame s s'"
    and flush_view: "view s ins outs \<Longrightarrow>
      \<exists>s'. sflush s = Some s' \<and> view s' ins outs \<and> settled s' \<and> frame s s'"
    and consume_view: "view s ins outs \<Longrightarrow>
      \<exists>s'. sconsume n s = Some s' \<and> view s' (drop n ins) outs \<and> frame s s' \<and>
        (settled s \<longrightarrow> settled s')"
    and frame_trans: "frame s1 s2 \<Longrightarrow> frame s2 s3 \<Longrightarrow> frame s1 s3"
begin

text \<open>One exchange of a server: answer a request of \<open>n\<close> bytes with \<open>xs\<close>.\<close>

lemma respond:
  assumes "view s ins outs" and "length outs + length xs \<le> bound"
  shows "\<exists>s'. Option.bind (swrite xs s) (\<lambda>s. Option.bind (sflush s) (sconsume n)) = Some s' \<and>
    view s' (drop n ins) (outs @ xs) \<and> settled s' \<and> frame s s'"
proof -
  obtain s1 where s1: "swrite xs s = Some s1" "view s1 ins (outs @ xs)" "frame s s1"
    using write_view [OF assms] by blast
  obtain s2 where s2: "sflush s1 = Some s2" "view s2 ins (outs @ xs)" "settled s2" "frame s1 s2"
    using flush_view [OF s1(2)] by blast
  obtain s3 where s3: "sconsume n s2 = Some s3" "view s3 (drop n ins) (outs @ xs)" "settled s3"
    "frame s2 s3"
    using consume_view [OF s2(2), of n] s2(3) by blast
  show ?thesis
    using s1(1) s2(1) s3 frame_trans [OF s1(3) frame_trans [OF s2(4) s3(4)]] by auto
qed

lemma respond_all:
  "view s ins outs \<Longrightarrow> length outs + length (concat (map fst ps)) \<le> bound \<Longrightarrow> ps \<noteq> [] \<Longrightarrow>
     \<exists>s'. run_all (\<lambda>(xs, n) s.
         Option.bind (swrite xs s) (\<lambda>s. Option.bind (sflush s) (sconsume n))) ps s = Some s' \<and>
       view s' (drop (sum_list (map snd ps)) ins) (outs @ concat (map fst ps)) \<and> settled s' \<and>
       frame s s'"
proof (induction ps arbitrary: s ins outs)
  case Nil
  then show ?case by simp
next
  case (Cons p ps)
  obtain xs n where p: "p = (xs, n)" by (cases p)
  obtain s1 where s1:
    "Option.bind (swrite xs s) (\<lambda>s. Option.bind (sflush s) (sconsume n)) = Some s1"
    "view s1 (drop n ins) (outs @ xs)" "settled s1" "frame s s1"
    using respond [of s ins outs xs n] Cons.prems p by auto
  show ?case
  proof (cases "ps = []")
    case True
    then show ?thesis using s1 p by auto
  next
    case False
    then show ?thesis
      using Cons.IH [OF s1(2)] Cons.prems(2) s1 p frame_trans [OF s1(4)]
      by (auto simp: add.commute)
  qed
qed

end

interpretation socket_stream:
  byte_stream "stream_write (\<lambda>_. True)" stream_flush stream_consume "stream_view fd"
    "\<lambda>ws. synced (snd ws)" "same_others fd" "2 ^ 62"
  for fd
  by unfold_locales
    (use write_run flush_run consume_run same_others_trans in \<open>fast+\<close>)

subsection \<open>Properties\<close>

text \<open>
  Flushing never loses, repeats or reorders a byte, however the kernel splits the sends: what
  the peer got followed by what is still buffered stays the same, the input is untouched, and the
  reactor watches the socket for writing exactly while bytes are left or a notification is wanted.
\<close>

theorem flush_conserves:
  assumes "stream_view fd ws ins outs"
  shows "\<exists>ws'. stream_flush ws = Some ws' \<and> stream_view fd ws' ins outs \<and>
    (d_mask (st_desc (snd ws')) AND STREAM_WRITE \<noteq> 0 \<longleftrightarrow>
       buf_size (st_output (snd ws')) \<noteq> 0 \<or> st_notify (snd ws'))"
proof -
  obtain ws' where ws': "stream_flush ws = Some ws'" "stream_view fd ws' ins outs"
    "synced (snd ws')"
    using flush_run [OF assms] by blast
  have "((x AND 1) OR (if c then 2 else 0)) AND 2 \<noteq> 0 \<longleftrightarrow> c" for x :: u32 and c
    using and_exp_eq_0_iff_not_bit [of "(x AND 1) OR (if c then 2 else 0)" 1]
    by (simp add: bit_simps)
  with ws' show ?thesis by (auto simp: synced_def stream_socket_mask_def)
qed

text \<open>A connection on descriptor 7 that has been sent \<open>hi\<close> in two parts and holds \<open>abc\<close>.\<close>

definition ex_world :: "char world" where
  "ex_world = \<lparr>w_heap = ex_heap, w_calls = [],
     w_sock = (\<lambda>_. \<lparr>k_recv = [Some ''hi''], k_send = [Sent 2, Send_again], k_sent = []\<rparr>)\<rparr>"

definition ex_stream :: "char stream" where
  "ex_stream = \<lparr>st_desc = \<lparr>d_fd = 7, d_mask = 1\<rparr>, st_is_socket = True, st_mask = 1,
     st_notify = False, st_input = buffer_construct, st_output = ex_buf\<rparr>"

lemma ex_view [simp]: "stream_view 7 (ex_world, ex_stream) [] ''abc''"
  unfolding stream_view_def
  by (intro conjI exI [of _ "''abc''"])
    (simp_all only: ex_buf_holds ex_stream_def stream.simps snd_conv fst_conv holds_construct,
     simp_all add: ex_world_def stream_fd_def)

lemma ex_world_recv: "k_recv (w_sock ex_world 7) = [Some ''hi'']"
  by (simp add: ex_world_def)

lemma flush_conserves_witness:
  "\<exists>ws'. stream_flush (ex_world, ex_stream) = Some ws' \<and> stream_view 7 ws' [] ''abc'' \<and>
    (d_mask (st_desc (snd ws')) AND 2 \<noteq> 0 \<longleftrightarrow>
       buf_size (st_output (snd ws')) \<noteq> 0 \<or> st_notify (snd ws'))"
  by (rule flush_conserves) (rule ex_view)

text \<open>
  A readable socket is drained into the input buffer: the bytes of the \<open>recv\<close> calls made
  arrive behind the content in order, none is dropped and none overwritten, the output is
  untouched, and the stream's handler is told exactly when something arrived.
\<close>

theorem read_event_collects:
  assumes "stream_view fd ws ins outs"
    and "\<And>c. Some c \<in> set (k_recv (w_sock (fst ws) fd)) \<Longrightarrow> length c \<le> read_size"
    and "length ins + length (concat (map (case_option [] id) (k_recv (w_sock (fst ws) fd)))) +
      read_size \<le> 2 ^ 62"
  shows "\<exists>ys ws' used. stream_socket_callback (\<lambda>_. True) Descriptor_Read ws =
      Some (if ys \<noteq> [] then Some Stream_Read else None, ws') \<and>
    stream_view fd ws' (ins @ ys) outs \<and>
    k_recv (w_sock (fst ws) fd) = used @ k_recv (w_sock (fst ws') fd) \<and>
    ys = concat (map (case_option [] id) used)"
proof -
  obtain ys ws' used where r: "stream_socket_read (\<lambda>_. True) ws = Some (length ys, ws')"
    "stream_view fd ws' (ins @ ys) outs"
    "k_recv (w_sock (fst ws) fd) = used @ k_recv (w_sock (fst ws') fd)"
    "ys = concat (map (case_option [] id) used)"
    using socket_read_run [OF assms] by blast
  then show ?thesis
    by (intro exI [of _ ys] exI [of _ ws'] exI [of _ used])
      (simp add: stream_socket_callback_def)
qed

lemma read_event_collects_witness:
  "\<exists>ys ws' used. stream_socket_callback (\<lambda>_. True) Descriptor_Read (ex_world, ex_stream) =
      Some (if ys \<noteq> [] then Some Stream_Read else None, ws') \<and>
    stream_view 7 ws' ([] @ ys) ''abc'' \<and>
    k_recv (w_sock ex_world 7) = used @ k_recv (w_sock (fst ws') 7) \<and>
    ys = concat (map (case_option [] id) used)"
  using read_event_collects [of 7 "(ex_world, ex_stream)" "[]" "''abc''", OF ex_view]
  by (simp only: fst_conv, simp add: ex_world_recv read_size_def)

text \<open>
  The end of the peer's data (\<open>recv\<close> returns 0) is not noticed: the stream's handler is not
  told, nothing is asked of the reactor, and the stream stays open with the interest it had, so the
  connection is kept until the poll reports a hang-up.
\<close>

theorem eof_is_not_noticed:
  assumes "stream_view fd ws ins outs" and "length ins + read_size \<le> 2 ^ 62"
    and "k_recv (w_sock (fst ws) fd) = [Some []]"
  shows "\<exists>ws'. stream_socket_callback (\<lambda>_. True) Descriptor_Read ws = Some (None, ws') \<and>
    stream_view fd ws' ins outs \<and> w_calls (fst ws') = w_calls (fst ws) \<and>
    st_desc (snd ws') = st_desc (snd ws)"
proof -
  obtain ys ws' used where r: "stream_socket_read (\<lambda>_. True) ws = Some (length ys, ws')"
    "stream_view fd ws' (ins @ ys) outs" "w_calls (fst ws') = w_calls (fst ws)"
    "[Some []] = used @ k_recv (w_sock (fst ws') fd)" "ys = concat (map (case_option [] id) used)"
    using socket_read_run [OF assms(1)] assms(2,3) by auto
  have ys: "ys = []" using r(4,5) by (cases used) auto
  have "st_desc (snd ws') = st_desc (snd ws)"
    using r(1) by (auto simp: stream_socket_read_def Let_def split: prod.splits)
  moreover have "stream_view fd ws' ins outs" using r(2) by (simp add: ys)
  ultimately show ?thesis using r(1,3) by (simp add: stream_socket_callback_def ys)
qed

definition eof_world :: "char world" where
  "eof_world = ex_world\<lparr>w_sock := (\<lambda>_. \<lparr>k_recv = [Some []], k_send = [], k_sent = []\<rparr>)\<rparr>"

lemma eof_is_not_noticed_witness:
  "\<exists>ws'. stream_socket_callback (\<lambda>_. True) Descriptor_Read (eof_world, ex_stream) = Some (None, ws') \<and>
    stream_view 7 ws' [] ''abc'' \<and> w_calls (fst ws') = w_calls (fst (eof_world, ex_stream)) \<and>
    st_desc (snd ws') = st_desc (snd (eof_world, ex_stream))"
  using ex_view
  by (intro eof_is_not_noticed)
    (auto simp: eof_world_def read_size_def stream_view_def ex_world_def)

text \<open>
  A peer that reset its connection stops the whole program: when bytes are buffered and
  \<open>send\<close> fails with anything but \<open>EAGAIN\<close>, the assertion in \<open>stream_socket_write\<close> fails.
\<close>

theorem reset_peer_aborts:
  assumes "holds (st_output st) pending" and "pending \<noteq> []"
    and "k_send (w_sock w (stream_fd st)) = Send_error # script"
  shows "stream_flush (w, st) = None"
proof -
  obtain x xs where xs: "map Some pending = x # xs" using assms(2) by (cases pending) auto
  have "read_n (buf_size (st_output st)) (buf_cells (st_output st)) = Some (x # xs)"
    using holdsD [OF assms(1)] by (simp add: read_n_def xs [symmetric])
  then show ?thesis
    using assms(3) by (simp add: stream_flush_def stream_socket_write_def Let_def)
qed

lemma reset_peer_aborts_witness:
  "stream_flush (ex_world\<lparr>w_sock := (\<lambda>_. \<lparr>k_recv = [], k_send = [Send_error], k_sent = []\<rparr>)\<rparr>,
     ex_stream) = None"
  by (rule reset_peer_aborts [of _ "''abc''"]) (simp_all add: ex_stream_def)

text \<open>
  Every connection that receives something leaks the 16384-byte block reserved by
  \<open>stream_construct\<close>: after opening, the first read and closing, that block is still allocated.
\<close>

theorem connection_leaks_block:
  assumes "list_all (\<lambda>i. i < n) live" and "w_heap w = \<lparr>h_next = n, h_live = live\<rparr>"
    and "k_recv (w_sock w fd) = Some xs # script" and "length xs < read_size" and "0 \<le> fd"
  shows "\<exists>w' st'. Option.bind (Option.bind (Option.bind (stream_construct (\<lambda>_. True) w)
        (stream_open (Some True) fd m)) (stream_socket_read (\<lambda>_. True))) (\<lambda>(got, ws).
        Some (stream_close ws)) = Some (w', st') \<and>
    h_live (w_heap w') = n # live"
proof -
  let ?ok = "\<lambda>_ :: nat. True"
  let ?c = "\<lambda>cap. unat (buffer_roundup (of_nat cap))"
  have c: "?c 16384 = 16384" "?c 4096 = 4096" "?c 65536 = 65536"
    by (simp_all add: buffer_roundup_def smear_def)
  have grow: "buffer_reserve ?ok cap (\<lparr>h_next = i, h_live = l\<rparr>, b) =
      Some (\<lparr>h_next = Suc i, h_live = i # l\<rparr>, grown i [] (?c cap) b)"
    if "buf_size b = 0" "cap > buf_capacity b" for cap i l and b :: "'a buffer"
    using that by (simp add: buffer_reserve_def mem_alloc_def Let_def grown_def)
  have fields: "buf_block (grown i [] k b) = Some i" "buf_size (grown i [] k b) = buf_size b"
    "buf_capacity (grown i [] k b) = k" "length (buf_cells (grown i [] k b)) = k" for i k
    and b :: "'a buffer"
    by (simp_all add: grown_def)
  define b0 :: "'a buffer" where "b0 = buffer_construct"
  have b0: "buf_size b0 = 0" "buf_capacity b0 = 0" by (simp_all add: b0_def buffer_construct_def)
  define bi where "bi = grown n [] (?c 16384) b0"
  define bo where "bo = grown (n + 1) [] (?c 4096) b0"
  define br where "br = grown (n + 2) [] (?c 65536) bi"
  define z :: "'a stream" where "z = zeroed_stream\<lparr>st_desc := \<lparr>d_fd = -1, d_mask = 0\<rparr>\<rparr>"
  have z: "st_input z = b0" "st_output z = b0" by (simp_all add: z_def zeroed_stream_def b0_def)
  have "buffer_reserve ?ok 16384 (w_heap w, b0) = Some (\<lparr>h_next = n + 1, h_live = n # live\<rparr>, bi)"
    "buffer_reserve ?ok 4096 (\<lparr>h_next = n + 1, h_live = n # live\<rparr>, b0) =
      Some (\<lparr>h_next = n + 2, h_live = (n + 1) # n # live\<rparr>, bo)"
    using grow [of b0 16384 n live] grow [of b0 4096 "n + 1" "n # live"] b0
    by (simp_all add: assms(2) bi_def bo_def)
  then have con: "stream_construct ?ok w =
      Some (w\<lparr>w_heap := \<lparr>h_next = n + 2, h_live = (n + 1) # n # live\<rparr>\<rparr>,
            z\<lparr>st_input := bi, st_output := bo\<rparr>)"
    using z by (simp add: stream_construct_def on_input_def on_output_def Let_def z_def
        descriptor_construct_def zeroed_stream_def)
  have reserve: "buffer_reserve ?ok read_size (\<lparr>h_next = n + 2, h_live = (n + 1) # n # live\<rparr>, bi) =
      Some (\<lparr>h_next = n + 3, h_live = (n + 2) # (n + 1) # n # live\<rparr>, br)"
    using grow [of bi 65536 "n + 2" "(n + 1) # n # live"] b0 c
    by (simp add: bi_def fields br_def read_size_def numeral_3_eq_3)
  have size: "buf_size bi = 0" "buf_size br = 0" by (simp_all add: bi_def br_def fields b0)
  have "length xs \<le> length (buf_cells br)"
    using assms(4) c(3) by (simp add: br_def fields read_size_def)
  then obtain cells where cells: "write_at 0 (map Some xs) (buf_cells br) = Some cells"
    by (simp add: write_at_def)
  have loop: "recv_loop ?ok (Some xs # script)
        (\<lparr>h_next = n + 2, h_live = (n + 1) # n # live\<rparr>, bi) 0 =
      Some (script, (\<lparr>h_next = n + 3, h_live = (n + 2) # (n + 1) # n # live\<rparr>,
              br\<lparr>buf_cells := cells, buf_size := length xs\<rparr>), length xs)"
    using reserve cells assms(4) size by (simp add: size_add_def read_size_def)
  have blocks: "buf_block br = Some (n + 2)" "buf_block bo = Some (n + 1)"
    by (simp_all add: br_def bo_def fields)
  have live: "removeAll (n + 2) live = live" "removeAll (n + 1) live = live"
    using assms(1) by (auto simp: list_all_iff intro!: removeAll_id)
  show ?thesis
    using con loop assms(3,5) blocks live
    by (simp add: stream_open_def stream_socket_open_def on_desc_def descriptor_open_def Let_def
        stream_socket_read_def stream_fd_def stream_close_def descriptor_is_open_def
        descriptor_close_def buffer_clear_def mem_free_def set_sock_def)
qed

lemma connection_leaks_block_witness:
  "\<exists>w' st'. Option.bind (Option.bind (Option.bind (stream_construct (\<lambda>_. True) ex_world)
        (stream_open (Some True) 7 1)) (stream_socket_read (\<lambda>_. True))) (\<lambda>(got, ws).
        Some (stream_close ws)) = Some (w', st') \<and>
    h_live (w_heap w') = 1 # [0]"
  by (rule connection_leaks_block [of _ _ _ _ "''hi''" "[]"])
    (simp_all add: ex_world_def ex_heap_def read_size_def)

end
