(* ===== verification/Binary_Server.thy ===== *)
theory Binary_Server
  imports Binary_Codec Stream
begin

text \<open>
  Component \<open>src/src/infrastructure/binary_server.c\<close>: connections over streams, the packet loop, the
  listener and the server's life cycle. A connection object is identified by its address, a number;
  the list \<open>connections\<close> holds the objects that are allocated, so an address that is not in it is
  freed memory.
\<close>

subsection \<open>Packet processing\<close>

datatype packet_step = Pkt_wait | Pkt_close | Pkt_next

text \<open>
  One round of the loop in \<open>binary_conn_process\<close>. Reading a byte that was never written is
  undefined. \<open>Pkt_close\<close> stands for the call of \<open>binary_conn_close\<close> and the return.
\<close>

definition binary_conn_round ::
  "(nat \<Rightarrow> bool) \<Rightarrow> (byte list \<Rightarrow> mp_object option) \<Rightarrow> (pack_call \<Rightarrow> byte list) \<Rightarrow>
     byte world \<times> byte stream \<Rightarrow> (packet_step \<times> byte world \<times> byte stream) option" where
  "binary_conn_round ok unpack encode ws =
     Option.bind (stream_read (snd ws)) (\<lambda>d.
     if length d < 2 then Some (Pkt_wait, ws)
     else Option.bind (those (take 2 d)) (\<lambda>p.
     let len = unat (frame_length p) in
     if len < 1 \<or> len > BINARY_MAX_PAYLOAD then Some (Pkt_close, ws)
     else if length d < 2 + len then Some (Pkt_wait, ws)
     else Option.bind (those (take len (drop 2 d))) (\<lambda>payload.
     Option.bind (binary_reply unpack encode payload) (\<lambda>reply.
     case reply of
       None \<Rightarrow> Some (Pkt_close, ws)
     | Some out \<Rightarrow>
         map_option (Pair Pkt_next)
           (Option.bind (stream_write ok out ws) (\<lambda>ws.
            Option.bind (stream_flush ws) (stream_consume (2 + len))))))))"

text \<open>A round that goes on has consumed its packet.\<close>

lemma on_output_input: "on_output f ws = Some ws' \<Longrightarrow> st_input (snd ws') = st_input (snd ws)"
  by (auto simp: on_output_def)

lemma flush_input: "stream_flush ws = Some ws' \<Longrightarrow> st_input (snd ws') = st_input (snd ws)"
  by (cases ws)
    (auto simp: stream_flush_def stream_socket_write_def Let_def update_run split: bind_splits
      dest!: on_output_input)

lemma consume_shrinks:
  assumes "stream_consume n ws = Some ws'" and "0 < n" and "n \<le> buf_size (st_input (snd ws))"
  shows "buf_size (st_input (snd ws')) < buf_size (st_input (snd ws))"
  using assms
  by (auto simp: stream_consume_def on_input_def buffer_consume_def buffer_erase_def
      split: if_splits bind_splits)

lemma round_shrinks:
  assumes "binary_conn_round ok unpack encode ws = Some (Pkt_next, ws')"
  shows "buf_size (st_input (snd ws')) < buf_size (st_input (snd ws))"
proof -
  obtain d where d: "stream_read (snd ws) = Some d"
    using assms by (auto simp: binary_conn_round_def split: bind_splits)
  then have len: "length d = buf_size (st_input (snd ws))"
    by (auto simp: stream_read_def read_n_def split: if_splits)
  from assms d obtain out n ws1 ws2 where
    "stream_write ok out ws = Some ws1" "stream_flush ws1 = Some ws2"
    "stream_consume (2 + n) ws2 = Some ws'" "2 + n \<le> length d"
    by (auto simp: binary_conn_round_def Let_def split: bind_splits if_splits option.splits)
  then show ?thesis
    using consume_shrinks [of "2 + n" ws2 ws'] flush_input [of ws1 ws2] on_output_input [of _ ws ws1]
    by (auto simp: stream_write_def len)
qed

function binary_conn_process ::
  "(nat \<Rightarrow> bool) \<Rightarrow> (byte list \<Rightarrow> mp_object option) \<Rightarrow> (pack_call \<Rightarrow> byte list) \<Rightarrow>
     byte world \<times> byte stream \<Rightarrow> (packet_step \<times> byte world \<times> byte stream) option" where
  "binary_conn_process ok unpack encode ws =
     (case binary_conn_round ok unpack encode ws of
        None \<Rightarrow> None
      | Some (r, ws') \<Rightarrow>
          if r = Pkt_next then binary_conn_process ok unpack encode ws' else Some (r, ws'))"
  by pat_completeness auto
termination
  by (relation "measure (\<lambda>(_, _, _, ws). buf_size (st_input (snd ws)))")
    (auto intro: round_shrinks)

declare binary_conn_process.simps [simp del]

subsection \<open>Connections and the server\<close>

record binary_conn =
  cn_stream :: "byte stream"
  cn_active :: bool

record binary_server =
  bs_descriptor :: descriptor
  bs_connections :: "(nat \<times> binary_conn) list"
  bs_is_open :: bool
  bs_next :: nat

type_synonym bstate = "byte world \<times> binary_server"

definition zeroed_binary_server :: "nat \<Rightarrow> binary_server" where
  "zeroed_binary_server i = \<lparr>bs_descriptor = \<lparr>d_fd = 0, d_mask = 0\<rparr>, bs_connections = [],
                     bs_is_open = False, bs_next = i\<rparr>"

definition binary_server_construct :: "nat \<Rightarrow> binary_server" where
  "binary_server_construct i =
     (let bs = zeroed_binary_server i in bs\<lparr>bs_descriptor := descriptor_construct (bs_descriptor bs)\<rparr>)"

text \<open>
  What the system answers for a new connection: the descriptor of \<open>accept4\<close>, whether \<open>calloc\<close>
  finds memory for the list item, and what \<open>fstat\<close> says.
\<close>

record accepted =
  a_fd :: int
  a_memory :: bool
  a_fstat :: "bool option"

definition add_call :: "reactor_call \<Rightarrow> bstate \<Rightarrow> bstate" where
  "add_call c wb = ((fst wb)\<lparr>w_calls := w_calls (fst wb) @ [c]\<rparr>, snd wb)"

definition binary_conn_open ::
  "(nat \<Rightarrow> bool) \<Rightarrow> accepted \<Rightarrow> bstate \<Rightarrow> bstate option" where
  "binary_conn_open ok a wb =
     (case wb of (w, bs) \<Rightarrow>
      if \<not> a_memory a then Some (add_call (Close_Fd (a_fd a)) (w, bs))
      else Option.bind (stream_construct ok w) (\<lambda>ws.
           Option.bind (stream_open (a_fstat a) (a_fd a) STREAM_READ ws) (\<lambda>(w, st).
           Some (w, bs\<lparr>bs_connections := bs_connections bs @
                         [(bs_next bs, \<lparr>cn_stream = st, cn_active = True\<rparr>)],
                       bs_next := Suc (bs_next bs)\<rparr>))))"

text \<open>\<open>list_erase\<close> frees the object.\<close>

definition erase_conn :: "nat \<Rightarrow> binary_server \<Rightarrow> binary_server" where
  "erase_conn i bs = bs\<lparr>bs_connections := filter (\<lambda>(j, _). j \<noteq> i) (bs_connections bs)\<rparr>"

definition binary_conn_close :: "nat \<Rightarrow> bstate \<Rightarrow> bstate option" where
  "binary_conn_close i wb =
     (case map_of (bs_connections (snd wb)) i of
        None \<Rightarrow> None
      | Some c \<Rightarrow>
          if \<not> cn_active c then Some wb
          else Some (fst (stream_close (fst wb, cn_stream c)), erase_conn i (snd wb)))"

text \<open>At most 32 connections per readiness event; an exhausted script is \<open>accept4\<close> failing.\<close>

fun accept_loop :: "(nat \<Rightarrow> bool) \<Rightarrow> nat \<Rightarrow> accepted list \<Rightarrow> bstate \<Rightarrow>
     (accepted list \<times> bstate) option" where
  "accept_loop ok 0 script wb = Some (script, wb)"
| "accept_loop ok (Suc n) [] wb = Some ([], wb)"
| "accept_loop ok (Suc n) (a # script) wb =
     Option.bind (binary_conn_open ok a wb) (accept_loop ok n script)"

definition binary_listener_callback ::
  "(nat \<Rightarrow> bool) \<Rightarrow> accepted list \<Rightarrow> bstate \<Rightarrow> (accepted list \<times> bstate) option" where
  "binary_listener_callback ok script wb = accept_loop ok 32 script wb"

text \<open>The stream's handler: \<open>binary_conn_callback\<close>.\<close>

definition put_conn :: "nat \<Rightarrow> byte stream \<Rightarrow> binary_server \<Rightarrow> binary_server" where
  "put_conn i st bs =
     bs\<lparr>bs_connections := map (\<lambda>(j, c). (j, if j = i then c\<lparr>cn_stream := st\<rparr> else c))
                            (bs_connections bs)\<rparr>"

definition binary_conn_callback ::
  "(nat \<Rightarrow> bool) \<Rightarrow> (byte list \<Rightarrow> mp_object option) \<Rightarrow> (pack_call \<Rightarrow> byte list) \<Rightarrow> nat \<Rightarrow>
     stream_event \<Rightarrow> bstate \<Rightarrow> bstate option" where
  "binary_conn_callback ok unpack encode i e wb =
     (if e = Stream_Read then
        (case map_of (bs_connections (snd wb)) i of
           None \<Rightarrow> None
         | Some c \<Rightarrow>
             Option.bind (binary_conn_process ok unpack encode (fst wb, cn_stream c)) (\<lambda>(r, w, st).
             let wb = (w, put_conn i st (snd wb))
             in if r = Pkt_close then binary_conn_close i wb else Some wb))
      else binary_conn_close i wb)"

text \<open>
  A descriptor event on a connection, through \<open>stream_socket_callback\<close>, and a completed poll,
  through \<open>descriptor_callback\<close>.
\<close>

definition conn_stream_event ::
  "(nat \<Rightarrow> bool) \<Rightarrow> (byte list \<Rightarrow> mp_object option) \<Rightarrow> (pack_call \<Rightarrow> byte list) \<Rightarrow> nat \<Rightarrow>
     descriptor_event \<Rightarrow> bstate \<Rightarrow> bstate option" where
  "conn_stream_event ok unpack encode i e wb =
     (case map_of (bs_connections (snd wb)) i of
        None \<Rightarrow> None
      | Some c \<Rightarrow>
          Option.bind (stream_socket_callback ok e (fst wb, cn_stream c)) (\<lambda>(ev, w, st).
          let wb = (w, put_conn i st (snd wb))
          in case ev of None \<Rightarrow> Some wb | Some ev \<Rightarrow> binary_conn_callback ok unpack encode i ev wb))"

definition conn_poll ::
  "(nat \<Rightarrow> bool) \<Rightarrow> (byte list \<Rightarrow> mp_object option) \<Rightarrow> (pack_call \<Rightarrow> byte list) \<Rightarrow> nat \<Rightarrow>
     u32 \<Rightarrow> bstate \<Rightarrow> bstate option" where
  "conn_poll ok unpack encode i =
     descriptor_callback
       (\<lambda>wb. map_option (\<lambda>c. st_desc (cn_stream c)) (map_of (bs_connections (snd wb)) i))
       (conn_stream_event ok unpack encode i) add_call"

definition on_listener ::
  "(reactor_call list \<times> descriptor \<Rightarrow> reactor_call list \<times> descriptor) \<Rightarrow> bstate \<Rightarrow> bstate" where
  "on_listener f wb =
     (case f (w_calls (fst wb), bs_descriptor (snd wb)) of
        (c, d) \<Rightarrow> ((fst wb)\<lparr>w_calls := c\<rparr>, (snd wb)\<lparr>bs_descriptor := d\<rparr>))"

definition binary_server_open :: "int \<Rightarrow> bstate \<Rightarrow> bstate" where
  "binary_server_open fd wb =
     (case on_listener (descriptor_open fd DESCRIPTOR_READ) wb of
        (w, bs) \<Rightarrow> (w, bs\<lparr>bs_is_open := True\<rparr>))"

fun close_all :: "(nat \<times> binary_conn) list \<Rightarrow> bstate \<Rightarrow> bstate" where
  "close_all [] wb = wb"
| "close_all ((i, c) # cs) wb =
     close_all cs (fst (stream_close (fst wb, cn_stream c)), erase_conn i (snd wb))"

definition binary_server_shutdown :: "bstate \<Rightarrow> bstate" where
  "binary_server_shutdown wb =
     (case wb of (w, bs) \<Rightarrow>
      if \<not> bs_is_open bs then (w, bs)
      else on_listener descriptor_destruct
             (close_all (bs_connections bs) (w, bs\<lparr>bs_is_open := False\<rparr>)))"

definition binary_server_destruct :: "bstate \<Rightarrow> bstate" where
  "binary_server_destruct wb = binary_server_shutdown wb"

subsection \<open>Draining the input\<close>

lemma those_map_Some [simp]: "those (map Some xs) = Some xs"
  by (induction xs) auto

lemma stream_read_view: "stream_view fd ws ins outs \<Longrightarrow> stream_read (snd ws) = Some (map Some ins)"
  using holdsD [of "st_input (snd ws)" ins]
  by (auto simp: stream_view_def stream_read_def read_n_def)

lemma frame_length_take: "2 \<le> length xs \<Longrightarrow> frame_length (take 2 xs) = frame_length xs"
  by (simp add: frame_length_def)

text \<open>One round does what the parser finds.\<close>

lemma round_stops:
  assumes "stream_view fd ws ins outs"
  shows "parse_packet unpack encode ins = Need_more \<Longrightarrow>
      binary_conn_round ok unpack encode ws = Some (Pkt_wait, ws)"
    and "parse_packet unpack encode ins = Malformed \<Longrightarrow>
      binary_conn_round ok unpack encode ws = Some (Pkt_close, ws)"
    and "parse_packet unpack encode ins = Packet n None \<Longrightarrow>
      binary_conn_round ok unpack encode ws = None"
  using stream_read_view [OF assms]
  by (auto simp: binary_conn_round_def parse_packet_def take_map drop_map frame_length_take Let_def
      split: if_splits option.splits)

lemma round_answers:
  assumes "stream_view fd ws ins outs" and "parse_packet unpack encode ins = Packet n (Some r)"
    and "length outs + length r \<le> 2 ^ 62"
  shows "\<exists>ws'. binary_conn_round (\<lambda>_. True) unpack encode ws = Some (Pkt_next, ws') \<and>
    stream_view fd ws' (drop n ins) (outs @ r) \<and> synced (snd ws') \<and> same_others fd ws ws'"
proof -
  have n: "n = 2 + unat (frame_length ins)" "2 \<le> length ins"
    using assms(2) by (auto simp: parse_packet_def Let_def split: if_splits option.splits)
  obtain ws' where "Option.bind (stream_write (\<lambda>_. True) r ws)
      (\<lambda>ws. Option.bind (stream_flush ws) (stream_consume n)) = Some ws'"
    "stream_view fd ws' (drop n ins) (outs @ r)" "synced (snd ws')" "same_others fd ws ws'"
    using socket_stream.respond [OF assms(1,3), of n] by blast
  then show ?thesis
    using assms(2) stream_read_view [OF assms(1)] n
    by (cases ws') (auto simp: binary_conn_round_def parse_packet_def take_map drop_map
        frame_length_take Let_def split: if_splits option.splits)
qed

text \<open>The loop is the drain: it answers what the drain answers and leaves what it leaves.\<close>

lemma process_refines:
  assumes "stream_view fd ws ins outs" and "drain (parse_packet unpack encode) ins = (rs, rest, bad)"
    and "None \<notin> set rs" and "length outs + length (concat (map the rs)) \<le> 2 ^ 62"
  shows "\<exists>ws'. binary_conn_process (\<lambda>_. True) unpack encode ws =
      Some (if bad then Pkt_close else Pkt_wait, ws') \<and>
    stream_view fd ws' rest (outs @ concat (map the rs)) \<and> same_others fd ws ws' \<and>
    (synced (snd ws) \<longrightarrow> synced (snd ws'))"
  using assms
proof (induction ins arbitrary: ws outs rs rule: measure_induct_rule [of length])
  case (less ins)
  show ?case
  proof (cases "parse_packet unpack encode ins")
    case Need_more
    then show ?thesis
      using less.prems binary_parser.drain_need [OF Need_more] round_stops(1) [OF less.prems(1) Need_more]
      by (auto simp: binary_conn_process.simps [of _ _ _ ws])
  next
    case Malformed
    then show ?thesis
      using less.prems binary_parser.drain_malformed [OF Malformed]
        round_stops(2) [OF less.prems(1) Malformed]
      by (auto simp: binary_conn_process.simps [of _ _ _ ws])
  next
    case (Packet n a)
    obtain rs' where rs': "rs = a # rs'" "drain (parse_packet unpack encode) (drop n ins) = (rs', rest, bad)"
      using less.prems(2) binary_parser.drain_packet [OF Packet] by (auto split: prod.splits)
    then obtain r where r: "a = Some r" using less.prems(3) by (cases a) auto
    have n: "0 < n" "n \<le> length ins" using binary_parser.packet_bounds [OF Packet] by auto
    obtain ws1 where ws1: "binary_conn_round (\<lambda>_. True) unpack encode ws = Some (Pkt_next, ws1)"
      "stream_view fd ws1 (drop n ins) (outs @ r)" "synced (snd ws1)" "same_others fd ws ws1"
      using round_answers [OF less.prems(1) Packet [unfolded r]] less.prems(4) by (auto simp: rs' r)
    have len: "length (drop n ins) < length ins" using n by simp
    have rest: "None \<notin> set rs'" "length (outs @ r) + length (concat (map the rs')) \<le> 2 ^ 62"
      using less.prems(3,4) by (auto simp: rs' r)
    obtain ws2 where ws2: "binary_conn_process (\<lambda>_. True) unpack encode ws1 =
        Some (if bad then Pkt_close else Pkt_wait, ws2)"
      "stream_view fd ws2 rest ((outs @ r) @ concat (map the rs'))" "same_others fd ws1 ws2"
      "synced (snd ws2)"
      using less.IH [OF len ws1(2) rs'(2) rest] ws1(3) by blast
    show ?thesis
      using ws1(1) ws2 same_others_trans [OF ws1(4) ws2(3)]
      by (simp add: binary_conn_process.simps [of _ _ _ ws] rs' r)
  qed
qed

lemma process_undefined:
  assumes "stream_view fd ws ins outs" and "drain (parse_packet unpack encode) ins = (rs, rest, bad)"
    and "None \<in> set rs" and "length outs + length (concat (map the (takeWhile (\<lambda>r. r \<noteq> None) rs))) \<le> 2 ^ 62"
  shows "binary_conn_process (\<lambda>_. True) unpack encode ws = None"
  using assms
proof (induction ins arbitrary: ws outs rs rule: measure_induct_rule [of length])
  case (less ins)
  show ?case
  proof (cases "parse_packet unpack encode ins")
    case Need_more
    then show ?thesis using less.prems(2,3) binary_parser.drain_need [OF Need_more] by auto
  next
    case Malformed
    then show ?thesis using less.prems(2,3) binary_parser.drain_malformed [OF Malformed] by auto
  next
    case (Packet n a)
    obtain rs' where rs': "rs = a # rs'" "drain (parse_packet unpack encode) (drop n ins) = (rs', rest, bad)"
      using less.prems(2) binary_parser.drain_packet [OF Packet] by (auto split: prod.splits)
    have n: "0 < n" "n \<le> length ins" using binary_parser.packet_bounds [OF Packet] by auto
    show ?thesis
    proof (cases a)
      case None
      then show ?thesis
        using round_stops(3) [OF less.prems(1)] Packet by (simp add: binary_conn_process.simps [of _ _ _ ws])
    next
      case (Some r)
      then obtain ws1 where ws1: "binary_conn_round (\<lambda>_. True) unpack encode ws = Some (Pkt_next, ws1)"
        "stream_view fd ws1 (drop n ins) (outs @ r)"
        using round_answers [OF less.prems(1) Packet [unfolded Some]] less.prems(4)
        by (auto simp: rs')
      have "binary_conn_process (\<lambda>_. True) unpack encode ws1 = None"
        using less.IH [OF _ ws1(2) rs'(2)] n less.prems(3,4) Some by (auto simp: rs')
      then show ?thesis using ws1(1) by (simp add: binary_conn_process.simps [of _ _ _ ws])
    qed
  qed
qed

subsection \<open>Chunk after chunk\<close>

text \<open>
  The peer's bytes \<open>chunk\<close> arrive: the socket becomes readable, delivers them to one \<open>recv\<close>, and the
  packet loop runs when the stream reports them. Bytes for a closed connection go nowhere.
\<close>

definition deliver ::
  "(byte list \<Rightarrow> mp_object option) \<Rightarrow> (pack_call \<Rightarrow> byte list) \<Rightarrow> byte list \<Rightarrow>
     packet_step \<times> byte world \<times> byte stream \<Rightarrow> (packet_step \<times> byte world \<times> byte stream) option" where
  "deliver unpack encode chunk s =
     (case s of (r, w, st) \<Rightarrow>
      if r = Pkt_close then Some s
      else let fd = stream_fd st;
               w = set_sock fd ((w_sock w fd)\<lparr>k_recv := [Some chunk, None]\<rparr>) w
           in Option.bind (stream_socket_callback (\<lambda>_. True) Descriptor_Read (w, st)) (\<lambda>(ev, ws).
              if ev = Some Stream_Read then binary_conn_process (\<lambda>_. True) unpack encode ws
              else Some (r, ws)))"

lemma deliver_run:
  assumes "stream_view fd ws ins outs" and "drain (parse_packet unpack encode) ins = ([], ins, False)"
    and "drain (parse_packet unpack encode) (ins @ chunk) = (rs, rest, bad)" and "None \<notin> set rs"
    and "length chunk \<le> read_size" and "length ins + length chunk + read_size \<le> 2 ^ 62"
    and "length outs + length (concat (map the rs)) \<le> 2 ^ 62"
  shows "\<exists>ws'. deliver unpack encode chunk (Pkt_wait, ws) =
      Some (if bad then Pkt_close else Pkt_wait, ws') \<and>
    stream_view fd ws' rest (outs @ concat (map the rs))"
proof -
  obtain w st where ws: "ws = (w, st)" by (cases ws)
  have fd: "stream_fd st = fd" using assms(1) by (simp add: stream_view_def ws)
  let ?w = "set_sock fd ((w_sock w fd)\<lparr>k_recv := [Some chunk, None]\<rparr>) w"
  have v: "stream_view fd (?w, st) ins outs" using assms(1) by (simp add: ws stream_view_recv)
  have k: "k_recv (w_sock ?w fd) = [Some chunk, None]" by (simp add: set_sock_def)
  obtain ws1 where r: "stream_socket_read (\<lambda>_. True) (?w, st) = Some (length chunk, ws1)"
    "stream_view fd ws1 (ins @ chunk) outs"
    using read_chunk_run [OF v k assms(5,6)] by blast
  show ?thesis
  proof (cases "chunk = []")
    case True
    then show ?thesis
      using r assms(2,3) fd by (simp add: deliver_def ws stream_socket_callback_def)
  next
    case False
    obtain ws2 where "binary_conn_process (\<lambda>_. True) unpack encode ws1 =
        Some (if bad then Pkt_close else Pkt_wait, ws2)"
      "stream_view fd ws2 rest (outs @ concat (map the rs))"
      using process_refines [OF r(2) assms(3,4,7)] by blast
    then show ?thesis
      using r(1) fd False by (simp add: deliver_def ws stream_socket_callback_def Let_def)
  qed
qed

lemma deliver_closed: "run_all (deliver unpack encode) chunks (Pkt_close, ws) = Some (Pkt_close, ws)"
  by (induction chunks) (simp_all add: deliver_def)

lemma chunks_run:
  assumes "stream_view fd ws ins outs" and "drain (parse_packet unpack encode) ins = ([], ins, False)"
    and "drain (parse_packet unpack encode) (ins @ concat chunks) = (rs, rest, bad)"
    and "None \<notin> set rs" and "\<forall>c \<in> set chunks. length c \<le> read_size"
    and "length ins + length (concat chunks) + read_size \<le> 2 ^ 62"
    and "length outs + length (concat (map the rs)) \<le> 2 ^ 62"
  shows "\<exists>ws' rest'. run_all (deliver unpack encode) chunks (Pkt_wait, ws) =
      Some (if bad then Pkt_close else Pkt_wait, ws') \<and>
    stream_view fd ws' rest' (outs @ concat (map the rs)) \<and> (\<not> bad \<longrightarrow> rest' = rest)"
  using assms
proof (induction chunks arbitrary: ws ins outs rs)
  case Nil
  then show ?case by auto
next
  case (Cons c chunks)
  let ?parse = "parse_packet unpack encode"
  obtain rs1 rest1 bad1 where d1: "drain ?parse (ins @ c) = (rs1, rest1, bad1)"
    by (cases "drain ?parse (ins @ c)")
  have d: "drain ?parse ((ins @ c) @ concat chunks) = (rs, rest, bad)"
    using Cons.prems(3) by simp
  have chunk: "length c \<le> read_size" "length ins + length c + read_size \<le> 2 ^ 62"
    using Cons.prems(5,6) by auto
  show ?case
  proof (cases bad1)
    case True
    then have rs: "rs = rs1" "bad" using d binary_parser.drain_append [of _ _ "ins @ c" "concat chunks"] d1
      by auto
    obtain ws1 where "deliver unpack encode c (Pkt_wait, ws) = Some (Pkt_close, ws1)"
      "stream_view fd ws1 rest1 (outs @ concat (map the rs))"
      using deliver_run [OF Cons.prems(1,2) d1 _ chunk] Cons.prems(4,7) True by (auto simp: rs)
    then show ?thesis using deliver_closed rs by auto
  next
    case False
    obtain rs2 where rs2: "drain ?parse (rest1 @ concat chunks) = (rs2, rest, bad)" "rs = rs1 @ rs2"
      using binary_parser.drain_append [of _ _ "ins @ c" "concat chunks"] d d1 False
      by (auto split: prod.splits)
    have some: "None \<notin> set rs1" "None \<notin> set rs2" using Cons.prems(4) rs2(2) by auto
    have lens: "length outs + length (concat (map the rs1)) \<le> 2 ^ 62"
      "length (outs @ concat (map the rs1)) + length (concat (map the rs2)) \<le> 2 ^ 62"
      using Cons.prems(7) by (simp_all add: rs2(2))
    obtain ws1 where ws1: "deliver unpack encode c (Pkt_wait, ws) = Some (Pkt_wait, ws1)"
      "stream_view fd ws1 rest1 (outs @ concat (map the rs1))"
      using deliver_run [OF Cons.prems(1,2) d1 some(1) chunk lens(1)] False by auto
    have waits: "drain ?parse rest1 = ([], rest1, False)"
      using d1 False by (auto intro: binary_parser.drain_rest_waits)
    have "length rest1 \<le> length ins + length c"
      using drain_length [of ?parse "ins @ c"] d1 by simp
    then have "length rest1 + length (concat chunks) + read_size \<le> 2 ^ 62"
      using Cons.prems(6) by simp
    then show ?thesis
      using Cons.IH [OF ws1(2) waits rs2(1) some(2) _ _ lens(2)] Cons.prems(5) ws1(1)
      by (auto simp: rs2(2))
  qed
qed

subsection \<open>The server\<close>

definition conn_fds :: "binary_server \<Rightarrow> int list" where
  "conn_fds bs = map (\<lambda>(i, c). stream_fd (cn_stream c)) (bs_connections bs)"

text \<open>The server's invariant: fresh and distinct addresses, active connections on open descriptors.\<close>

definition binary_server_ok :: "binary_server \<Rightarrow> bool" where
  "binary_server_ok bs \<longleftrightarrow>
     distinct (map fst (bs_connections bs)) \<and>
     list_all (\<lambda>(i, c). i < bs_next bs \<and> cn_active c \<and> 0 \<le> stream_fd (cn_stream c))
       (bs_connections bs)"

lemma construct_ok [simp]: "binary_server_ok (binary_server_construct i)"
  by (simp add: binary_server_ok_def binary_server_construct_def zeroed_binary_server_def Let_def)

lemma conn_open_run:
  assumes "a_memory a" and "a_fstat a = Some s" and "0 \<le> a_fd a"
  shows "\<exists>w' st. binary_conn_open (\<lambda>_. True) a (w, bs) =
      Some (w', bs\<lparr>bs_connections := bs_connections bs @
                    [(bs_next bs, \<lparr>cn_stream = st, cn_active = True\<rparr>)],
                  bs_next := Suc (bs_next bs)\<rparr>) \<and>
    w_calls w' = w_calls w @ [Reactor_Add (a_fd a) POLLIN] \<and> stream_fd st = a_fd a \<and>
    w_sock w' = w_sock w"
proof -
  obtain h1 b1 where r1: "buffer_reserve (\<lambda>_. True) 16384 (w_heap w, buffer_construct :: byte buffer) =
      Some (h1, b1)" "holds b1 []"
    using reserve_run [where ok = "\<lambda>_. True" and cap = 16384 and h = "w_heap w",
        OF holds_construct] by auto
  obtain h2 b2 where r2: "buffer_reserve (\<lambda>_. True) 4096 (h1, buffer_construct :: byte buffer) =
      Some (h2, b2)" "holds b2 []"
    using reserve_run [where ok = "\<lambda>_. True" and cap = 4096 and h = h1, OF holds_construct] by auto
  show ?thesis
    using assms r1 r2 holdsD(3) [OF r2(2)]
    by (simp add: binary_conn_open_def stream_construct_def on_input_def on_output_def
        zeroed_stream_def Let_def stream_open_def stream_socket_open_def on_desc_def
        descriptor_open_def descriptor_construct_def stream_socket_mask_def stream_fd_def
        descriptor_events_def)
      (rule exI, rule conjI, rule refl, simp)
qed

lemma accept_loop_run:
  assumes "list_all (\<lambda>a. a_memory a \<and> a_fstat a \<noteq> None \<and> 0 \<le> a_fd a) script" and "binary_server_ok bs"
  shows "\<exists>w' bs'. accept_loop (\<lambda>_. True) n script (w, bs) = Some (drop n script, w', bs') \<and>
    conn_fds bs' = conn_fds bs @ map a_fd (take n script) \<and>
    w_calls w' = w_calls w @ map (\<lambda>a. Reactor_Add (a_fd a) POLLIN) (take n script) \<and>
    binary_server_ok bs' \<and> w_sock w' = w_sock w \<and> bs_is_open bs' = bs_is_open bs"
  using assms
proof (induction n arbitrary: script w bs)
  case 0
  then show ?case by simp
next
  case (Suc n)
  show ?case
  proof (cases script)
    case Nil
    then show ?thesis using Suc.prems by simp
  next
    case (Cons a rest)
    then obtain s where a: "a_memory a" "a_fstat a = Some s" "0 \<le> a_fd a" using Suc.prems by auto
    obtain w1 st where o: "binary_conn_open (\<lambda>_. True) a (w, bs) =
        Some (w1, bs\<lparr>bs_connections := bs_connections bs @
                      [(bs_next bs, \<lparr>cn_stream = st, cn_active = True\<rparr>)],
                    bs_next := Suc (bs_next bs)\<rparr>)"
      "w_calls w1 = w_calls w @ [Reactor_Add (a_fd a) POLLIN]" "stream_fd st = a_fd a"
      "w_sock w1 = w_sock w"
      using conn_open_run [OF a] by blast
    let ?bs = "bs\<lparr>bs_connections := bs_connections bs @
                   [(bs_next bs, \<lparr>cn_stream = st, cn_active = True\<rparr>)],
                 bs_next := Suc (bs_next bs)\<rparr>"
    have ok: "binary_server_ok ?bs"
      using Suc.prems(2) a(3) o(3)
      by (auto simp: binary_server_ok_def list_all_iff less_Suc_eq)
    show ?thesis
      using Suc.IH [of rest ?bs w1] ok Suc.prems(1) Cons o by (auto simp: conn_fds_def)
  qed
qed

definition conn_blocks :: "(nat \<times> binary_conn) list \<Rightarrow> nat set" where
  "conn_blocks cs =
     (\<Union>(i, c) \<in> set cs. set_option (buf_block (st_input (cn_stream c))) \<union>
                         set_option (buf_block (st_output (cn_stream c))))"

lemma close_all_run:
  assumes "list_all (\<lambda>(i, c). 0 \<le> stream_fd (cn_stream c)) cs"
  shows "w_calls (fst (close_all cs wb)) =
      w_calls (fst wb) @ concat (map (\<lambda>(i, c). close_calls (stream_fd (cn_stream c))) cs)"
    and "set (h_live (w_heap (fst (close_all cs wb)))) =
      set (h_live (w_heap (fst wb))) - conn_blocks cs"
    and "bs_connections (snd (close_all cs wb)) =
      filter (\<lambda>(j, _). j \<notin> fst ` set cs) (bs_connections (snd wb))"
    and "bs_descriptor (snd (close_all cs wb)) = bs_descriptor (snd wb)"
    and "bs_is_open (snd (close_all cs wb)) = bs_is_open (snd wb)"
  using assms
proof (induction cs wb rule: close_all.induct)
  case (1 wb)
  { case 1 then show ?case by simp }
  { case 2 then show ?case by (simp add: conn_blocks_def) }
  { case 3 then show ?case by simp }
  { case 4 then show ?case by simp }
  { case 5 then show ?case by simp }
next
  case (2 i c cs wb)
  note IH = 2
  { case 1 then show ?case using IH(1) by (simp add: stream_close_open) }
  { case 2 then show ?case using IH(2)
      by (auto simp: stream_close_open conn_blocks_def) }
  { case 3 then show ?case using IH(3)
      by (auto simp: erase_conn_def intro!: filter_cong) }
  { case 4 then show ?case using IH(4) by (simp add: erase_conn_def) }
  { case 5 then show ?case using IH(5) by (simp add: erase_conn_def) }
qed

lemma conn_close_run:
  assumes "map_of (bs_connections bs) i = Some c" and "cn_active c" and "0 \<le> stream_fd (cn_stream c)"
  shows "\<exists>w'. binary_conn_close i (w, bs) = Some (w', erase_conn i bs) \<and>
    w_calls w' = w_calls w @ close_calls (stream_fd (cn_stream c)) \<and>
    map_of (bs_connections (erase_conn i bs)) i = None"
  using assms stream_close_open [OF assms(3)]
  by (auto simp: binary_conn_close_def erase_conn_def map_of_eq_None_iff)

lemma map_of_put:
  "map_of (bs_connections (put_conn i st bs)) j =
     map_option (\<lambda>c. if j = i then c\<lparr>cn_stream := st\<rparr> else c) (map_of (bs_connections bs) j)"
proof -
  have "map_of (map (\<lambda>(k, c). (k, if k = i then c\<lparr>cn_stream := st\<rparr> else c)) cs) j =
      map_option (\<lambda>c. if j = i then c\<lparr>cn_stream := st\<rparr> else c) (map_of cs j)" for cs
    by (induction cs) auto
  then show ?thesis by (simp add: put_conn_def)
qed

lemma map_of_erase:
  "map_of (bs_connections (erase_conn i bs)) j =
     (if j = i then None else map_of (bs_connections bs) j)"
proof -
  have "map_of (filter (\<lambda>(k, _). k \<noteq> i) cs) j = (if j = i then None else map_of cs j)"
    for cs :: "(nat \<times> binary_conn) list"
    by (induction cs) auto
  then show ?thesis by (simp add: erase_conn_def)
qed

text \<open>A connection that is gone after the handlers ran makes the poll callback undefined.\<close>

lemma poll_of_closed_conn:
  assumes "conn_stream_event ok unpack encode i e (w, bs) = Some wb'"
    and "map_of (bs_connections (snd wb')) i = None"
    and "e = Descriptor_Read \<and> revents AND POLLIN \<noteq> 0 \<or>
      e = Descriptor_Close \<and> revents AND POLLIN = 0 \<and> revents AND POLLOUT = 0 \<and>
      revents AND NOT (POLLIN OR POLLOUT) \<noteq> 0"
  shows "conn_poll ok unpack encode i revents (w, bs) = None"
proof -
  have "map_of (bs_connections bs) i \<noteq> None"
    using assms(1) by (cases "map_of (bs_connections bs) i") (simp_all add: conn_stream_event_def)
  then show ?thesis
    using assms
    by (auto simp: conn_poll_def descriptor_callback_def dispatch_if_def split: bind_splits)
qed

end
