(* ===== verification/Binary_Properties.thy ===== *)
theory Binary_Properties
  imports Binary_Server
begin

text \<open>
  The properties of the binary protocol server, over the codec of \<open>Binary_Codec\<close>, the connections and
  the server of \<open>Binary_Server\<close>, and the framing specification of \<open>Framing\<close>.
\<close>

subsection \<open>Examples\<close>

text \<open>A MessagePack encoder of the format's specification, and a decoder that knows one message.\<close>

definition ex_encode :: "pack_call \<Rightarrow> byte list" where
  "ex_encode c =
     (case c of
        Pack_Map n \<Rightarrow> [0x80 + of_nat n]
      | Pack_Str n \<Rightarrow> [0xa0 + of_nat n]
      | Pack_Str_Body s \<Rightarrow> s
      | Pack_Uint16 x \<Rightarrow> 0xcd # be_bytes x
      | Pack_Uint8 b \<Rightarrow> [0xcc, b])"

definition ex_unpack :: "byte list \<Rightarrow> mp_object option" where
  "ex_unpack p =
     (if p = [0x83, 0xa1, 0x78, 5, 0xa1, 0x79, 7, 0xa1, 0x68, 100]
      then Some (Mp_Map [(Mp_Str [0x78], Mp_Positive_Integer 5),
                         (Mp_Str [0x79], Mp_Positive_Integer 7),
                         (Mp_Str [0x68], Mp_Positive_Integer 100)])
      else if p = [0x83, 1, 2, 3, 4, 5, 6]
      then Some (Mp_Map [(Mp_Positive_Integer 1, Mp_Positive_Integer 2),
                         (Mp_Positive_Integer 3, Mp_Positive_Integer 4),
                         (Mp_Positive_Integer 5, Mp_Positive_Integer 6)])
      else None)"

definition ex_packet :: "byte list" where
  "ex_packet = [0, 6, 1, 0, 5, 0, 7, 100]"

definition ex_answer :: "byte list" where
  "ex_answer = [0, 6, 1, 0, 6, 0, 8, 99]"

lemma ex_packet_drain [simp]:
  "drain (parse_packet ex_unpack ex_encode) (ex_packet @ [0]) = ([Some ex_answer], [0], False)"
  by (simp add: drain.simps parse_packet_def ex_packet_def ex_answer_def frame_length_def
      binary_reply_def raw_reply_def load_player_def store_player_def be16toh_load store_htobe16
      player_mutate_eq be_value_def be_bytes_def be16toh_def htobe16_def load_u16_def store_u16_def Let_def)

definition bin_world :: "byte world" where
  "bin_world = \<lparr>w_heap = \<lparr>h_next = 1, h_live = [0]\<rparr>, w_calls = [],
                w_sock = (\<lambda>_. \<lparr>k_recv = [], k_send = [Sent 3], k_sent = []\<rparr>)\<rparr>"

definition bin_stream :: "byte list \<Rightarrow> byte stream" where
  "bin_stream xs = \<lparr>st_desc = \<lparr>d_fd = 9, d_mask = 1\<rparr>, st_is_socket = True, st_mask = 1,
     st_notify = False,
     st_input = \<lparr>buf_block = Some 0, buf_cells = map Some xs, buf_size = length xs,
                 buf_capacity = length xs\<rparr>,
     st_output = buffer_construct\<rparr>"

lemma bin_view [simp]: "length xs \<le> 2 ^ 62 \<Longrightarrow> stream_view 9 (bin_world, bin_stream xs) xs []"
  by (auto simp: stream_view_def bin_world_def bin_stream_def stream_fd_def holds_def buffer_ok_def
      buffer_construct_def)

subsection \<open>Properties\<close>

text \<open>
  C3. The packet loop implements the framing specification: with the answers of all complete packets
  defined, it sends exactly those answers in order, leaves exactly the incomplete rest in the input,
  asks for the connection to be closed exactly when it met a malformed packet, and touches no other
  socket.
\<close>

theorem process_implements_drain:
  assumes "stream_view fd ws ins outs" and "drain (parse_packet unpack encode) ins = (rs, rest, bad)"
    and "None \<notin> set rs" and "length outs + length (concat (map the rs)) \<le> 2 ^ 62"
  shows "\<exists>ws'. binary_conn_process (\<lambda>_. True) unpack encode ws =
      Some (if bad then Pkt_close else Pkt_wait, ws') \<and>
    stream_view fd ws' rest (outs @ concat (map the rs)) \<and>
    (\<forall>i. i \<noteq> fd \<longrightarrow> w_sock (fst ws') i = w_sock (fst ws) i)"
  using process_refines [OF assms] by (auto simp: same_others_def)

lemma process_implements_drain_witness:
  "\<exists>ws'. binary_conn_process (\<lambda>_. True) ex_unpack ex_encode
        (bin_world, bin_stream (ex_packet @ [0])) =
      Some (if False then Pkt_close else Pkt_wait, ws') \<and>
    stream_view 9 ws' [0] ([] @ concat (map the [Some ex_answer])) \<and>
    (\<forall>i. i \<noteq> 9 \<longrightarrow> w_sock (fst ws') i = w_sock (fst (bin_world, bin_stream (ex_packet @ [0]))) i)"
  by (rule process_implements_drain [OF bin_view ex_packet_drain])
    (simp_all add: ex_answer_def ex_packet_def)

text \<open>
  C12. The answers do not depend on how the bytes are cut into arrivals: delivering any chunks gives
  the answers of the concatenation, keeps the same unfinished rest, and closes the connection exactly
  when the whole stream holds a malformed packet, after answering the packets in front of it.
\<close>

theorem chunking_is_invisible:
  assumes "stream_view fd ws [] []" and "drain (parse_packet unpack encode) (concat chunks) = (rs, rest, bad)"
    and "None \<notin> set rs" and "\<forall>c \<in> set chunks. length c \<le> read_size"
    and "length (concat chunks) + read_size \<le> 2 ^ 62" and "length (concat (map the rs)) \<le> 2 ^ 62"
  shows "\<exists>ws' rest'. run_all (deliver unpack encode) chunks (Pkt_wait, ws) =
      Some (if bad then Pkt_close else Pkt_wait, ws') \<and>
    stream_view fd ws' rest' (concat (map the rs)) \<and> (\<not> bad \<longrightarrow> rest' = rest)"
  using chunks_run [OF assms(1), of unpack encode chunks rs rest bad] assms(2-)
  by (simp add: drain.simps [of _ "[]"] parse_packet_def)

lemma chunking_is_invisible_witness:
  "\<exists>ws' rest'. run_all (deliver ex_unpack ex_encode) [take 3 ex_packet, drop 3 ex_packet, [0]]
        (Pkt_wait, bin_world, bin_stream []) = Some (if False then Pkt_close else Pkt_wait, ws') \<and>
    stream_view 9 ws' rest' (concat (map the [Some ex_answer])) \<and> (\<not> False \<longrightarrow> rest' = [0])"
proof (rule chunking_is_invisible)
  show "drain (parse_packet ex_unpack ex_encode) (concat [take 3 ex_packet, drop 3 ex_packet, [0]]) =
      ([Some ex_answer], [0], False)"
    using ex_packet_drain by (simp flip: append_assoc)
qed (simp_all add: ex_packet_def ex_answer_def read_size_def)

text \<open>
  The raw codec answers a player state in network byte order with the state moved by one in both
  coordinates, modulo 65536, and one hit point less, never below 0, in the same framing.
\<close>

theorem raw_packet_mutates:
  "binary_reply unpack encode (BINARY_PKT_RAW # be_bytes x @ be_bytes y @ [hp]) =
     Some (Some ([0, 6, BINARY_PKT_RAW] @ be_bytes (x + 1) @ be_bytes (y + 1) @
                 [if hp = 0 then 0 else hp - 1]))"
  by (simp add: binary_reply_def raw_reply_def load_player_def store_player_def be16toh_load
      store_htobe16 player_mutate_eq Let_def be_bytes_def)

lemma be_bytes_nat:
  "be_bytes (of_nat n) = [word_of_nat (n div 256), word_of_nat (n mod 256)]"
proof -
  have "n div 256 = drop_bit 8 n" "n mod 256 = take_bit 8 n"
    by (simp_all add: drop_bit_eq_div take_bit_eq_mod)
  then show ?thesis by (auto simp: be_bytes_def bit_simps intro!: bit_word_eqI)
qed

lemma three_elements:
  assumes "{k1, k2, k3} = {a, b, c}" and "a \<noteq> b" and "a \<noteq> c" and "b \<noteq> c"
  shows "(k1, k2, k3) \<in> {(a, b, c), (a, c, b), (b, a, c), (b, c, a), (c, a, b), (c, b, a)}"
proof -
  have "a \<in> {k1, k2, k3}" "b \<in> {k1, k2, k3}" "c \<in> {k1, k2, k3}" using assms(1) by blast+
  then show ?thesis using assms(2-4) by (elim insertE emptyE; simp)
qed

text \<open>
  Both codecs apply the same mutation: when the library decodes the packet to a map of \<open>x\<close>,
  \<open>y\<close> and \<open>h\<close> in any order, the answer frames the encoding of what the raw codec answers for the
  numbers cut to their widths. The encoder's output has to fit the reply array.
\<close>

theorem codecs_agree:
  assumes "unpack p = Some (Mp_Map kvs)" and "length kvs = 3"
    and "set kvs = {(Mp_Str [0x78], Mp_Positive_Integer nx), (Mp_Str [0x79], Mp_Positive_Integer ny),
                    (Mp_Str [0x68], Mp_Positive_Integer nh)}"
    and "sbuf = concat (map encode (pack_player (ucast nx + 1, ucast ny + 1,
            if (ucast nh :: byte) = 0 then 0 else ucast nh - 1)))"
    and "length sbuf \<le> 255"
  shows "binary_reply unpack encode (BINARY_PKT_MSGPACK # p) =
    Some (Some (be_bytes (of_nat (length sbuf + 1)) @ [BINARY_PKT_MSGPACK] @ sbuf))"
proof -
  obtain k1 k2 k3 where kvs: "kvs = [k1, k2, k3]"
    using assms(2) by (auto simp: numeral_3_eq_3 length_Suc_conv)
  let ?a = "(Mp_Str [0x78], Mp_Positive_Integer nx)" and ?b = "(Mp_Str [0x79], Mp_Positive_Integer ny)"
    and ?c = "(Mp_Str [0x68], Mp_Positive_Integer nh)"
  have "{k1, k2, k3} = {?a, ?b, ?c}" using assms(3) by (simp only: kvs list.set)
  then have "(k1, k2, k3) \<in> {(?a, ?b, ?c), (?a, ?c, ?b), (?b, ?a, ?c), (?b, ?c, ?a), (?c, ?a, ?b), (?c, ?b, ?a)}"
    by (rule three_elements) simp_all
  then have fields: "map_fields kvs (0, 0, 0) = Some (ucast nx, ucast ny, ucast nh)"
    unfolding kvs by (elim insertE emptyE; simp add: key_byte_def)
  show ?thesis
    using assms(1,2,4,5) fields
    by (simp add: binary_reply_def msgpack_reply_def player_mutate_eq msgpack_frame_def be_bytes_nat
        del: of_nat_Suc of_nat_add)
qed

lemma codecs_agree_witness:
  "binary_reply ex_unpack ex_encode
     (2 # [0x83, 0xa1, 0x78, 5, 0xa1, 0x79, 7, 0xa1, 0x68, 100]) =
   Some (Some (be_bytes (of_nat (15 + 1)) @ [2] @
     [0x83, 0xa1, 0x78, 0xcd, 0, 6, 0xa1, 0x79, 0xcd, 0, 8, 0xa1, 0x68, 0xcc, 99]))"
  using codecs_agree [where unpack = ex_unpack and encode = ex_encode and nx = 5 and ny = 7 and
      nh = 100, OF _ _ _ refl]
  by (simp add: ex_unpack_def pack_player_def ex_encode_def be_bytes_def)

text \<open>
  The key of a map entry is read as a string whatever its type: a well-framed MessagePack packet
  with a three-entry map that has a number, a truth value or nil for a key makes the packet loop undefined,
  so a client can crash the server with one packet.
\<close>

fun scalar_key :: "mp_object \<Rightarrow> bool" where
  "scalar_key (Mp_Positive_Integer n) = True"
| "scalar_key (Mp_Negative_Integer n) = True"
| "scalar_key (Mp_Boolean b) = True"
| "scalar_key Mp_Nil = True"
| "scalar_key Mp_Float = True"
| "scalar_key _ = False"

lemma map_fields_bad_key:
  "(k, v) \<in> set kvs \<Longrightarrow> key_byte k = None \<Longrightarrow> map_fields kvs p = None"
proof (induction kvs p rule: map_fields.induct)
  case (2 key v' kvs x y hp)
  then show ?case by (cases "key_byte key") auto
qed simp

lemma frame_length_be: "frame_length (be_bytes n @ xs) = n"
  by (simp add: frame_length_def be_bytes_def be_value_bytes [unfolded be_value_def])

theorem wrong_key_type_crashes:
  assumes "unpack p = Some (Mp_Map kvs)" and "length kvs = 3" and "(k, v) \<in> set kvs"
    and "scalar_key k" and "length p \<le> 255"
    and "stream_view fd ws (be_bytes (of_nat (length p + 1)) @ BINARY_PKT_MSGPACK # p) outs"
  shows "binary_conn_process ok unpack encode ws = None"
proof -
  let ?n = "of_nat (length p + 1) :: u16"
  have n: "unat ?n = length p + 1" using assms(5) by (simp add: unat_of_nat del: of_nat_Suc)
  have "key_byte k = None" using assms(4) by (cases k) (simp_all add: key_byte_def)
  then have "map_fields kvs (0, 0, 0) = None" using assms(3) by (rule map_fields_bad_key [rotated])
  then have "binary_reply unpack encode (BINARY_PKT_MSGPACK # p) = None"
    using assms(1,2) by (simp add: binary_reply_def msgpack_reply_def)
  moreover have "length (be_bytes ?n) = 2" by (simp add: be_bytes_def)
  ultimately have "parse_packet unpack encode (be_bytes ?n @ BINARY_PKT_MSGPACK # p) =
      Packet (2 + (length p + 1)) None"
    using assms(5) n by (simp add: parse_packet_def frame_length_be Let_def del: of_nat_Suc of_nat_add)
  then show ?thesis
    using round_stops(3) [OF assms(6)] by (simp add: binary_conn_process.simps [of _ _ _ ws])
qed

lemma wrong_key_type_crashes_witness:
  "binary_conn_process (\<lambda>_. True) ex_unpack ex_encode
     (bin_world, bin_stream [0, 8, 2, 0x83, 1, 2, 3, 4, 5, 6]) = None"
  by (rule wrong_key_type_crashes [where p = "[0x83, 1, 2, 3, 4, 5, 6]" and fd = 9 and outs = "[]" and
        k = "Mp_Positive_Integer 1" and v = "Mp_Positive_Integer 2"], simp add: ex_unpack_def)
    (simp_all add: be_bytes_def)

text \<open>
  A connection is closed by deleting and closing its descriptor and freeing its object; but the
  callback that reported the hang-up then reads the freed object, so every poll that closes a
  connection this way is undefined.
\<close>

theorem hangup_closes_then_uses_freed_memory:
  assumes "map_of (bs_connections bs) i = Some c" and "cn_active c" and "0 \<le> stream_fd (cn_stream c)"
    and "revents AND POLLIN = 0" and "revents AND POLLOUT = 0"
    and "revents AND NOT (POLLIN OR POLLOUT) \<noteq> 0"
  shows "(\<exists>w' bs'. conn_stream_event ok unpack encode i Descriptor_Close (w, bs) = Some (w', bs') \<and>
      map_of (bs_connections bs') i = None \<and>
      w_calls w' = w_calls w @ [Reactor_Delete (stream_fd (cn_stream c)), Close_Fd (stream_fd (cn_stream c))]) \<and>
    conn_poll ok unpack encode i revents (w, bs) = None"
proof -
  let ?bs = "put_conn i (cn_stream c) bs"
  have c: "map_of (bs_connections ?bs) i = Some (c\<lparr>cn_stream := cn_stream c\<rparr>)"
    using assms(1) by (simp add: map_of_put)
  obtain w' where close: "binary_conn_close i (w, ?bs) = Some (w', erase_conn i ?bs)"
    "w_calls w' = w_calls w @ close_calls (stream_fd (cn_stream c))"
    "map_of (bs_connections (erase_conn i ?bs)) i = None"
    using conn_close_run [OF c, of w] assms(2,3) by auto
  then have event: "conn_stream_event ok unpack encode i Descriptor_Close (w, bs) =
      Some (w', erase_conn i ?bs)"
    using assms(1)
    by (simp add: conn_stream_event_def stream_socket_callback_def binary_conn_callback_def)
  have "conn_poll ok unpack encode i revents (w, bs) = None"
    using poll_of_closed_conn [OF event] close(3) assms(4-6) by simp
  then show ?thesis using event close(2,3) by (auto simp: close_calls_def)
qed

definition bin_server :: "byte list \<Rightarrow> binary_server" where
  "bin_server xs =
     \<lparr>bs_descriptor = \<lparr>d_fd = 3, d_mask = 1\<rparr>,
      bs_connections = [(0, \<lparr>cn_stream = bin_stream xs, cn_active = True\<rparr>)],
      bs_is_open = True, bs_next = 1\<rparr>"

lemma bin_server_conn [simp]:
  "map_of (bs_connections (bin_server xs)) 0 = Some \<lparr>cn_stream = bin_stream xs, cn_active = True\<rparr>"
  "stream_fd (bin_stream xs) = 9"
  by (simp_all add: bin_server_def bin_stream_def stream_fd_def)

lemma hangup_closes_then_uses_freed_memory_witness:
  "(\<exists>w' bs'. conn_stream_event (\<lambda>_. True) ex_unpack ex_encode 0 Descriptor_Close
        (bin_world, bin_server []) = Some (w', bs') \<and>
      map_of (bs_connections bs') 0 = None \<and> w_calls w' = w_calls bin_world @ [Reactor_Delete 9, Close_Fd 9]) \<and>
    conn_poll (\<lambda>_. True) ex_unpack ex_encode 0 16 (bin_world, bin_server []) = None"
  using hangup_closes_then_uses_freed_memory [where bs = "bin_server []" and i = 0 and revents = 16 and
      c = "\<lparr>cn_stream = bin_stream [], cn_active = True\<rparr>" and w = bin_world and ok = "\<lambda>_. True" and
      unpack = ex_unpack and encode = ex_encode]
  by simp

text \<open>
  C40. A readable poll that delivers a malformed packet closes the connection after answering the
  packets in front of it, and then, too, goes on in the freed object.
\<close>

theorem malformed_packet_uses_freed_memory:
  assumes "map_of (bs_connections bs) i = Some c" and "cn_active c"
    and "stream_view fd (w, cn_stream c) ins outs" and "k_recv (w_sock w fd) = [Some chunk, None]"
    and "chunk \<noteq> []" and "length chunk \<le> read_size" and "length ins + length chunk + read_size \<le> 2 ^ 62"
    and "drain (parse_packet unpack encode) (ins @ chunk) = (rs, rest, True)" and "None \<notin> set rs"
    and "length outs + length (concat (map the rs)) \<le> 2 ^ 62" and "revents AND POLLIN \<noteq> 0"
  shows "(\<exists>w' bs'. conn_stream_event (\<lambda>_. True) unpack encode i Descriptor_Read (w, bs) = Some (w', bs') \<and>
      map_of (bs_connections bs') i = None \<and> Close_Fd fd \<in> set (w_calls w')) \<and>
    conn_poll (\<lambda>_. True) unpack encode i revents (w, bs) = None"
proof -
  have fd: "stream_fd (cn_stream c) = fd" "0 \<le> fd" using assms(3) by (auto simp: stream_view_def)
  obtain w1 st1 where r: "stream_socket_read (\<lambda>_. True) (w, cn_stream c) = Some (length chunk, w1, st1)"
    "stream_view fd (w1, st1) (ins @ chunk) outs"
    using read_chunk_run [OF assms(3,4,6,7)] by auto
  obtain w2 st2 where p: "binary_conn_process (\<lambda>_. True) unpack encode (w1, st1) = Some (Pkt_close, w2, st2)"
    "stream_view fd (w2, st2) rest (outs @ concat (map the rs))"
    using process_refines [OF r(2) assms(8,9,10)] by auto
  let ?bs = "put_conn i st2 (put_conn i st1 bs)"
  have c: "map_of (bs_connections ?bs) i = Some (c\<lparr>cn_stream := st2\<rparr>)"
    "map_of (bs_connections (put_conn i st1 bs)) i = Some (c\<lparr>cn_stream := st1\<rparr>)"
    using assms(1) by (simp_all add: map_of_put)
  have fd2: "stream_fd st2 = fd" using p(2) by (simp add: stream_view_def)
  obtain w3 where close: "binary_conn_close i (w2, ?bs) = Some (w3, erase_conn i ?bs)"
    "w_calls w3 = w_calls w2 @ close_calls fd" "map_of (bs_connections (erase_conn i ?bs)) i = None"
    using conn_close_run [OF c(1), of w2] assms(2) fd fd2 by auto
  have event: "conn_stream_event (\<lambda>_. True) unpack encode i Descriptor_Read (w, bs) =
      Some (w3, erase_conn i ?bs)"
    using assms(1,5) r(1) p(1) c(2) close(1)
    by (simp add: conn_stream_event_def stream_socket_callback_def binary_conn_callback_def Let_def)
  have "conn_poll (\<lambda>_. True) unpack encode i revents (w, bs) = None"
    using poll_of_closed_conn [OF event] close(3) assms(11) by simp
  then show ?thesis using event close(2,3) by (auto simp: close_calls_def)
qed

definition bad_world :: "byte world" where
  "bad_world = bin_world\<lparr>w_sock := (\<lambda>_. \<lparr>k_recv = [Some [0, 0], None], k_send = [], k_sent = []\<rparr>)\<rparr>"

lemma malformed_packet_uses_freed_memory_witness:
  "(\<exists>w' bs'. conn_stream_event (\<lambda>_. True) ex_unpack ex_encode 0 Descriptor_Read (bad_world, bin_server []) =
        Some (w', bs') \<and>
      map_of (bs_connections bs') 0 = None \<and> Close_Fd 9 \<in> set (w_calls w')) \<and>
    conn_poll (\<lambda>_. True) ex_unpack ex_encode 0 1 (bad_world, bin_server []) = None"
proof (rule malformed_packet_uses_freed_memory)
  show "map_of (bs_connections (bin_server [])) 0 = Some \<lparr>cn_stream = bin_stream [], cn_active = True\<rparr>"
    by simp
  show "stream_view 9 (bad_world, cn_stream \<lparr>cn_stream = bin_stream [], cn_active = True\<rparr>) [] []"
    using bin_view [of "[]"] by (simp add: stream_view_def bad_world_def bin_world_def)
  show "drain (parse_packet ex_unpack ex_encode) ([] @ [0, 0]) = ([], [0, 0], True)"
    by (simp add: drain.simps parse_packet_def frame_length_def)
qed (simp_all add: bad_world_def read_size_def)

text \<open>
  A readiness event of the listener accepts at most 32 waiting connections, in order: each is
  appended to the list of connections with an address of its own and registered for reading, the
  others stay queued in the kernel.
\<close>

theorem listener_accepts_in_order:
  assumes "list_all (\<lambda>a. a_memory a \<and> a_fstat a \<noteq> None \<and> 0 \<le> a_fd a) script" and "binary_server_ok bs"
  shows "\<exists>w' bs'. binary_listener_callback (\<lambda>_. True) script (w, bs) = Some (drop 32 script, w', bs') \<and>
    conn_fds bs' = conn_fds bs @ map a_fd (take 32 script) \<and>
    w_calls w' = w_calls w @ map (\<lambda>a. Reactor_Add (a_fd a) POLLIN) (take 32 script) \<and> binary_server_ok bs'"
  using accept_loop_run [OF assms, of 32 w] by (auto simp: binary_listener_callback_def)

definition ex_clients :: "accepted list" where
  "ex_clients = [\<lparr>a_fd = 10, a_memory = True, a_fstat = Some True\<rparr>,
                 \<lparr>a_fd = 11, a_memory = True, a_fstat = Some True\<rparr>]"

lemma listener_accepts_in_order_witness:
  "\<exists>w' bs'. binary_listener_callback (\<lambda>_. True) ex_clients (bin_world, bin_server []) =
      Some (drop 32 ex_clients, w', bs') \<and>
    conn_fds bs' = conn_fds (bin_server []) @ map a_fd (take 32 ex_clients) \<and>
    w_calls w' = w_calls bin_world @ map (\<lambda>a. Reactor_Add (a_fd a) 1) (take 32 ex_clients) \<and> binary_server_ok bs'"
  by (rule listener_accepts_in_order)
    (auto simp: ex_clients_def binary_server_ok_def bin_server_def bin_stream_def stream_fd_def)

text \<open>
  C26. Shutting down an open server closes every connection exactly once, in the order of the list,
  and then the listener, empties the list, and frees the buffers the connections referred to; a
  second shutdown does nothing.
\<close>

theorem shutdown_closes_everything:
  assumes "bs_is_open bs" and "binary_server_ok bs" and "0 \<le> d_fd (bs_descriptor bs)"
  shows "\<exists>w' bs'. binary_server_shutdown (w, bs) = (w', bs') \<and>
    w_calls w' = w_calls w @ concat (map (\<lambda>fd. [Reactor_Delete fd, Close_Fd fd])
                               (conn_fds bs @ [d_fd (bs_descriptor bs)])) \<and>
    bs_connections bs' = [] \<and> set (h_live (w_heap w')) = set (h_live (w_heap w)) - conn_blocks (bs_connections bs) \<and>
    binary_server_shutdown (w', bs') = (w', bs')"
proof -
  let ?cs = "bs_connections bs"
  have open_all: "list_all (\<lambda>(i, c). 0 \<le> stream_fd (cn_stream c)) ?cs"
    using assms(2) by (auto simp: binary_server_ok_def list_all_iff)
  obtain w1 bs1 where 1: "close_all ?cs (w, bs\<lparr>bs_is_open := False\<rparr>) = (w1, bs1)"
    by (cases "close_all ?cs (w, bs\<lparr>bs_is_open := False\<rparr>)")
  have calls: "map (\<lambda>(i, c). close_calls (stream_fd (cn_stream c))) ?cs =
      map (\<lambda>fd. [Reactor_Delete fd, Close_Fd fd]) (conn_fds bs)"
    by (auto simp: conn_fds_def close_calls_def)
  have "bs_connections bs1 = []"
    using close_all_run(3) [OF open_all, of "(w, bs\<lparr>bs_is_open := False\<rparr>)"] 1
    by (force simp: filter_empty_conv image_iff)
  then show ?thesis
    using close_all_run [OF open_all, of "(w, bs\<lparr>bs_is_open := False\<rparr>)"] 1 assms(1,3) calls
    by (simp add: binary_server_shutdown_def on_listener_def descriptor_destruct_def
        descriptor_close_def descriptor_is_open_def)
qed

lemma shutdown_closes_everything_witness:
  "\<exists>w' bs'. binary_server_shutdown (bin_world, bin_server []) = (w', bs') \<and>
    w_calls w' = w_calls bin_world @ concat (map (\<lambda>fd. [Reactor_Delete fd, Close_Fd fd])
                               (conn_fds (bin_server []) @ [d_fd (bs_descriptor (bin_server []))])) \<and>
    bs_connections bs' = [] \<and>
    set (h_live (w_heap w')) = set (h_live (w_heap bin_world)) - conn_blocks (bs_connections (bin_server [])) \<and>
    binary_server_shutdown (w', bs') = (w', bs')"
  by (rule shutdown_closes_everything)
    (simp_all add: binary_server_ok_def bin_server_def bin_stream_def stream_fd_def)

end
