(* ===== verification/Reactor_Core.thy ===== *)
theory Reactor_Core
  imports Descriptor "HOL-Library.Monad_Syntax"
begin

text \<open>
  Component \<open>third_party/libreactor/src/reactor/core.c\<close>: the event loop over an io_uring. A registered
  descriptor owns a slot of a pool; a poll is submitted with the slot as its user data, completes
  once, and is submitted again by \<open>descriptor_callback\<close>. A pointer to a slot is its index, a handler
  any value of \<open>'h\<close>. The submission ring holds what was prepared and not yet submitted; the kernel
  answers every submitted operation with one completion, at a time and with a result of its own:
  these, and whether it takes what is submitted, are arguments.
\<close>

unbundle bit_operations_syntax

subsection \<open>State\<close>

definition REACTOR_RING_ENTRIES :: nat where
  "REACTOR_RING_ENTRIES = 1024"

definition REACTOR_CQE_BATCH :: nat where
  "REACTOR_CQE_BATCH = 64"

definition REACTOR_MAX_FDS :: nat where
  "REACTOR_MAX_FDS = 65536"

record 'h poll_slot =
  sl_handler :: "'h option"
  sl_events :: u32
  sl_in_flight :: int

text \<open>\<open>Poll_Remove\<close> names the poll by its user data and has none itself.\<close>

datatype ring_sqe = Poll_Add nat int u32 | Poll_Remove nat

type_synonym cqe = "nat option \<times> int"

fun sqe_user_data :: "ring_sqe \<Rightarrow> nat option" where
  "sqe_user_data (Poll_Add s fd m) = Some s"
| "sqe_user_data (Poll_Remove s) = None"

text \<open>
  \<open>rc_sq\<close> is the submission ring, \<open>rc_ops\<close> what the kernel is working on, \<open>rc_cq\<close> the completion
  ring; \<open>rc_takes\<close> answers the coming calls of \<open>io_uring_submit\<close>, all with success when it is used up.
\<close>

record 'h reactor =
  rc_active :: bool
  rc_descriptors :: size_t
  rc_time :: "64 word"
  rc_fds :: "nat \<Rightarrow> nat option"
  rc_slots :: "'h poll_slot list"
  rc_slot_count :: nat
  rc_next_free :: nat
  rc_sq :: "ring_sqe list"
  rc_ops :: "ring_sqe list"
  rc_cq :: "cqe list"
  rc_takes :: "bool list"

definition slot_at :: "nat \<Rightarrow> 'h reactor \<Rightarrow> 'h poll_slot option" where
  "slot_at i r = (if i < length (rc_slots r) then Some (rc_slots r ! i) else None)"

definition put_slot :: "nat \<Rightarrow> 'h poll_slot \<Rightarrow> 'h reactor \<Rightarrow> 'h reactor" where
  "put_slot i sl r = r\<lparr>rc_slots := (rc_slots r)[i := sl]\<rparr>"

subsection \<open>The rings\<close>

definition io_uring_submit :: "'h reactor \<Rightarrow> 'h reactor" where
  "io_uring_submit r =
     (case rc_takes r of
        False # ts \<Rightarrow> r\<lparr>rc_takes := ts\<rparr>
      | ts \<Rightarrow> r\<lparr>rc_takes := tl ts, rc_ops := rc_ops r @ rc_sq r, rc_sq := []\<rparr>)"

text \<open>The place \<open>io_uring_get_sqe\<close> finds, if it finds one.\<close>

definition sq_has_room :: "'h reactor \<Rightarrow> bool" where
  "sq_has_room r \<longleftrightarrow> length (rc_sq r) < REACTOR_RING_ENTRIES"

definition put_sqe :: "ring_sqe \<Rightarrow> 'h reactor \<Rightarrow> 'h reactor" where
  "put_sqe e r = r\<lparr>rc_sq := rc_sq r @ [e]\<rparr>"

text \<open>What happens besides the program: the \<open>i\<close>-th operation completes, or a signal arrives.\<close>

datatype kernel_event = Completes nat int | Term_signal

definition kernel_step :: "kernel_event \<Rightarrow> cqe list \<times> 'h reactor \<Rightarrow> cqe list \<times> 'h reactor" where
  "kernel_step ev cr =
     (case (ev, cr) of
        (Term_signal, cq, r) \<Rightarrow> (cq, r\<lparr>rc_active := False\<rparr>)
      | (Completes i res, cq, r) \<Rightarrow>
          if i < length (rc_ops r)
          then (cq @ [(sqe_user_data (rc_ops r ! i), res)],
                r\<lparr>rc_ops := take i (rc_ops r) @ drop (Suc i) (rc_ops r)\<rparr>)
          else (cq, r))"

definition kernel_steps :: "kernel_event list \<Rightarrow> cqe list \<times> 'h reactor \<Rightarrow> cqe list \<times> 'h reactor" where
  "kernel_steps evs cr = fold kernel_step evs cr"

subsection \<open>Slots\<close>

definition to_poll_mask :: "u32 \<Rightarrow> u32" where
  "to_poll_mask events =
     (if events AND (POLLIN OR DESCRIPTOR_READ) \<noteq> 0 then POLLIN else 0) OR
     (if events AND (POLLOUT OR DESCRIPTOR_WRITE) \<noteq> 0 then POLLOUT else 0)"

definition reactor_slot_find :: "int \<Rightarrow> 'h reactor \<Rightarrow> nat option" where
  "reactor_slot_find fd r =
     (if 0 \<le> fd \<and> fd < int REACTOR_MAX_FDS then rc_fds r (nat fd) else None)"

text \<open>The first of \<open>n\<close> slots from \<open>i\<close> on without a handler.\<close>

fun first_free :: "'h reactor \<Rightarrow> nat \<Rightarrow> nat \<Rightarrow> nat option option" where
  "first_free r i 0 = Some None"
| "first_free r i (Suc n) =
     do { sl \<leftarrow> slot_at i r;
          if sl_handler sl = None then Some (Some i) else first_free r (Suc i) n }"

definition reactor_slot_acquire :: "'h reactor \<Rightarrow> (nat option \<times> 'h reactor) option" where
  "reactor_slot_acquire r =
     do { a \<leftarrow> first_free r (rc_next_free r) (rc_slot_count r - rc_next_free r);
          case a of
            Some i \<Rightarrow> Some (Some i, r\<lparr>rc_next_free := i + 1\<rparr>)
          | None \<Rightarrow>
              do { b \<leftarrow> first_free r 0 (rc_next_free r);
                   case b of
                     Some i \<Rightarrow> Some (Some i, r\<lparr>rc_next_free := i + 1\<rparr>)
                   | None \<Rightarrow> Some (None, r) } }"

definition reactor_poll_submit_fd :: "nat \<Rightarrow> int \<Rightarrow> 'h reactor \<Rightarrow> 'h reactor option" where
  "reactor_poll_submit_fd s fd r =
     (let r = (if sq_has_room r then r else io_uring_submit r)
      in if \<not> sq_has_room r then Some r
         else do { sl \<leftarrow> slot_at s r;
                   Some (put_slot s (sl\<lparr>sl_in_flight := sl_in_flight sl + 1\<rparr>)
                          (put_sqe (Poll_Add s fd (sl_events sl)) r)) })"

subsection \<open>The interface\<close>

definition reactor_now :: "64 word \<Rightarrow> 'h reactor \<Rightarrow> 64 word \<times> 'h reactor" where
  "reactor_now clock r =
     (let r = (if rc_time r = 0 then r\<lparr>rc_time := clock\<rparr> else r) in (rc_time r, r))"

text \<open>
  \<open>memory\<close> tells whether \<open>calloc\<close> finds the slots, \<open>rings\<close> which of the two calls of
  \<open>io_uring_queue_init\<close> succeed; both failing aborts. The flags a signal handler
  needs are set here; the handler itself is \<open>Term_signal\<close>.
\<close>

definition reactor_construct :: "bool \<Rightarrow> bool \<times> bool \<Rightarrow> bool list \<Rightarrow> 'h reactor option" where
  "reactor_construct memory rings takes =
     (if \<not> memory then None
      else if \<not> fst rings \<and> \<not> snd rings then None
      else Some \<lparr>rc_active = True, rc_descriptors = 0, rc_time = 0, rc_fds = (\<lambda>_. None),
                 rc_slots = replicate REACTOR_RING_ENTRIES
                              \<lparr>sl_handler = None, sl_events = 0, sl_in_flight = 0\<rparr>,
                 rc_slot_count = REACTOR_RING_ENTRIES, rc_next_free = 0,
                 rc_sq = [], rc_ops = [], rc_cq = [], rc_takes = takes\<rparr>)"

definition reactor_destruct :: "'h reactor \<Rightarrow> 'h reactor" where
  "reactor_destruct r = r\<lparr>rc_slots := [], rc_sq := [], rc_ops := [], rc_cq := []\<rparr>"

definition reactor_add :: "'h \<Rightarrow> int \<Rightarrow> u32 \<Rightarrow> 'h reactor \<Rightarrow> 'h reactor option" where
  "reactor_add h fd events r =
     (if \<not> (0 \<le> fd \<and> fd < int REACTOR_MAX_FDS) then Some r
      else do { (a, r) \<leftarrow> reactor_slot_acquire r;
                case a of
                  None \<Rightarrow> Some r
                | Some s \<Rightarrow>
                    do { let r = put_slot s \<lparr>sl_handler = Some h, sl_events = to_poll_mask events,
                                             sl_in_flight = 0\<rparr> r;
                         let r = r\<lparr>rc_fds := (rc_fds r)(nat fd := Some s),
                                   rc_descriptors := rc_descriptors r + 1\<rparr>;
                         r \<leftarrow> reactor_poll_submit_fd s fd r;
                         Some (io_uring_submit r) } })"

definition reactor_modify :: "'h \<Rightarrow> int \<Rightarrow> u32 \<Rightarrow> 'h reactor \<Rightarrow> 'h reactor option" where
  "reactor_modify h fd events r =
     (case reactor_slot_find fd r of
        None \<Rightarrow> reactor_add h fd events r
      | Some s \<Rightarrow>
          do { sl \<leftarrow> slot_at s r;
               let m = to_poll_mask events;
               if sl_events sl = m then Some r
               else do { let r = put_slot s (sl\<lparr>sl_events := m\<rparr>) r;
                         if sl_in_flight sl = 0 then reactor_poll_submit_fd s fd r else Some r } })"

definition reactor_delete :: "int \<Rightarrow> 'h reactor \<Rightarrow> 'h reactor option" where
  "reactor_delete fd r =
     (case reactor_slot_find fd r of
        None \<Rightarrow> Some r
      | Some s \<Rightarrow>
          do { let r = r\<lparr>rc_fds := (rc_fds r)(nat fd := None)\<rparr>;
               let r = (if sq_has_room r then put_sqe (Poll_Remove s) r else r);
               sl \<leftarrow> slot_at s r;
               let r = put_slot s (sl\<lparr>sl_handler := None\<rparr>) r;
               Some (if rc_descriptors r \<noteq> 0 then r\<lparr>rc_descriptors := rc_descriptors r - 1\<rparr> else r) })"

definition reactor_poll_resubmit :: "int \<Rightarrow> 'h reactor \<Rightarrow> 'h reactor option" where
  "reactor_poll_resubmit fd r =
     (case reactor_slot_find fd r of
        None \<Rightarrow> Some r
      | Some s \<Rightarrow>
          do { sl \<leftarrow> slot_at s r;
               if sl_handler sl \<noteq> None then reactor_poll_submit_fd s fd r else Some r })"

definition reactor_abort :: "'h reactor \<Rightarrow> 'h reactor" where
  "reactor_abort r = r\<lparr>rc_active := False\<rparr>"

definition reactor_get_descriptor_count :: "'h reactor \<Rightarrow> size_t" where
  "reactor_get_descriptor_count r = rc_descriptors r"

text \<open>
  The calls the upper layers record, executed: \<open>own fd\<close> is the handler in the object that owns the
  descriptor \<open>fd\<close>. Closing the number is the kernel's business.
\<close>

fun run_call :: "(int \<Rightarrow> 'h) \<Rightarrow> reactor_call \<Rightarrow> 'h reactor \<Rightarrow> 'h reactor option" where
  "run_call own (Reactor_Add fd m) r = reactor_add (own fd) fd m r"
| "run_call own (Reactor_Modify fd m) r = reactor_modify (own fd) fd m r"
| "run_call own (Reactor_Delete fd) r = reactor_delete fd r"
| "run_call own (Poll_Resubmit fd) r = reactor_poll_resubmit fd r"
| "run_call own (Close_Fd fd) r = Some r"

abbreviation run_calls :: "(int \<Rightarrow> 'h) \<Rightarrow> reactor_call list \<Rightarrow> 'h reactor \<Rightarrow> 'h reactor option" where
  "run_calls own \<equiv> run_all (run_call own)"

subsection \<open>The loop\<close>

text \<open>
  What a handler does with a completion: it changes the state of the program and calls the reactor.
\<close>

type_synonym ('h, 's) dispatch = "'h \<Rightarrow> u32 \<Rightarrow> 's \<Rightarrow> ('s \<times> reactor_call list) option"

text \<open>The completion of a slot: the poll is no longer in flight, and the handler there is to run.\<close>

definition take_completion :: "nat option \<Rightarrow> 'h reactor \<Rightarrow> ('h option \<times> 'h reactor) option" where
  "take_completion u r =
     (case u of
        None \<Rightarrow> Some (None, r)
      | Some s \<Rightarrow>
          do { sl \<leftarrow> slot_at s r;
               let r = (if sl_in_flight sl > 0 then put_slot s (sl\<lparr>sl_in_flight := sl_in_flight sl - 1\<rparr>) r
                        else r);
               Some (sl_handler sl, r) })"

definition reactor_dispatch ::
  "(int \<Rightarrow> 'h) \<Rightarrow> ('h, 's) dispatch \<Rightarrow> 'h \<Rightarrow> int \<Rightarrow> 's \<times> 'h reactor \<Rightarrow> ('s \<times> 'h reactor) option" where
  "reactor_dispatch own d h res sr =
     do { (s, cs) \<leftarrow> d h (word_of_int res) (fst sr);
          r \<leftarrow> run_calls own cs (snd sr);
          Some (s, r) }"

text \<open>One completion; the result says whether a handler ran.\<close>

definition handle_cqe ::
  "(int \<Rightarrow> 'h) \<Rightarrow> ('h, 's) dispatch \<Rightarrow> cqe \<Rightarrow> 's \<times> 'h reactor \<Rightarrow> (bool \<times> 's \<times> 'h reactor) option" where
  "handle_cqe own d c sr =
     do { (h, r) \<leftarrow> take_completion (fst c) (snd sr);
          case h of
            None \<Rightarrow> Some (False, fst sr, r)
          | Some h \<Rightarrow> do { sr \<leftarrow> reactor_dispatch own d h (snd c) (fst sr, r); Some (True, sr) } }"

text \<open>
  The loop over the completion ring. While a completion is handled the kernel may post others,
  behind the ones that are there (\<open>evs\<close>); the loop sees them too. The result has the number handled
  and what is left.
\<close>

fun cqe_loop ::
  "(int \<Rightarrow> 'h) \<Rightarrow> ('h, 's) dispatch \<Rightarrow> kernel_event list list \<Rightarrow> cqe list \<Rightarrow> nat \<Rightarrow> 's \<times> 'h reactor \<Rightarrow>
     (nat \<times> cqe list \<times> 's \<times> 'h reactor) option" where
  "cqe_loop own d evs [] n sr = Some (n, [], sr)"
| "cqe_loop own d [] (c # cs) n sr =
     do { (ran, sr) \<leftarrow> handle_cqe own d c sr;
          if ran \<and> n + 1 \<ge> REACTOR_CQE_BATCH then Some (n + 1, cs, sr)
          else cqe_loop own d [] cs (n + 1) sr }"
| "cqe_loop own d (ev # evs) (c # cs) n sr =
     do { (ran, s, r) \<leftarrow> handle_cqe own d c sr;
          let (cs, r) = kernel_steps ev (cs, r);
          if ran \<and> n + 1 \<ge> REACTOR_CQE_BATCH then Some (n + 1, cs, s, r)
          else cqe_loop own d evs cs (n + 1) (s, r) }"

text \<open>
  A round: what the kernel does until \<open>io_uring_submit_and_wait\<close> returns, whether that call fails
  (with another error than an interrupt), and what the kernel does during the loop.
\<close>

record wait_round =
  wr_events :: "kernel_event list"
  wr_failed :: bool
  wr_during :: "kernel_event list list"

definition reactor_loop_once ::
  "(int \<Rightarrow> 'h) \<Rightarrow> ('h, 's) dispatch \<Rightarrow> wait_round \<Rightarrow> 's \<times> 'h reactor \<Rightarrow> (nat \<times> 's \<times> 'h reactor) option" where
  "reactor_loop_once own d wr sr =
     (let r = io_uring_submit ((snd sr)\<lparr>rc_time := 0\<rparr>);
          (cq, r) = kernel_steps (wr_events wr) (rc_cq r, r)
      in if wr_failed wr then Some (0, fst sr, r\<lparr>rc_cq := cq\<rparr>)
         else do { (n, cq, s, r) \<leftarrow> cqe_loop own d (wr_during wr) cq 0 (fst sr, r);
                   Some (n, s, r\<lparr>rc_cq := cq\<rparr>) })"

text \<open>
  The loop adds the numbers in an \<open>int\<close>, which must not overflow. A script that ends while the
  reactor is active leaves it waiting.
\<close>

definition INT_LIMIT :: nat where
  "INT_LIMIT = 2 ^ 31"

fun reactor_loop ::
  "(int \<Rightarrow> 'h) \<Rightarrow> ('h, 's) dispatch \<Rightarrow> wait_round list \<Rightarrow> nat \<Rightarrow> 's \<times> 'h reactor \<Rightarrow> (nat \<times> 's \<times> 'h reactor) option" where
  "reactor_loop own d [] tot sr = Some (tot, sr)"
| "reactor_loop own d (wr # wrs) tot sr =
     (if \<not> rc_active (snd sr) then Some (tot, sr)
      else do { (n, sr) \<leftarrow> reactor_loop_once own d wr sr;
                if tot + n < INT_LIMIT then reactor_loop own d wrs (tot + n) sr else None })"

end
