(* ===== verification/Reactor_Ok.thy ===== *)
theory Reactor_Ok
  imports Reactor_Core "HOL-Library.Multiset"
begin

text \<open>
  What the reactor's table, slots and rings keep. \<open>reactor_ok own cq r\<close> speaks of a reactor whose
  completions not yet handled are \<open>cq\<close>; \<open>polled r\<close> says that every registered descriptor has a poll
  that will report its next event.
\<close>

subsection \<open>The invariant\<close>

definition used_slots :: "'h reactor \<Rightarrow> nat set" where
  "used_slots r = {i. i < length (rc_slots r) \<and> sl_handler (rc_slots r ! i) \<noteq> None}"

text \<open>The user data of every operation that will still complete, or has.\<close>

definition outstanding :: "cqe list \<Rightarrow> 'h reactor \<Rightarrow> nat option multiset" where
  "outstanding cq r = image_mset sqe_user_data (mset (rc_sq r) + mset (rc_ops r)) + image_mset fst (mset cq)"

definition table_ok :: "(int \<Rightarrow> 'h) \<Rightarrow> 'h reactor \<Rightarrow> bool" where
  "table_ok own r \<longleftrightarrow>
     (\<forall>fd s. rc_fds r fd = Some s \<longrightarrow>
        fd < REACTOR_MAX_FDS \<and> s < length (rc_slots r) \<and> sl_handler (rc_slots r ! s) = Some (own (int fd))) \<and>
     (\<forall>fd fd' s. rc_fds r fd = Some s \<longrightarrow> rc_fds r fd' = Some s \<longrightarrow> fd = fd')"

definition slots_ok :: "'h reactor \<Rightarrow> bool" where
  "slots_ok r \<longleftrightarrow> rc_slot_count r = REACTOR_RING_ENTRIES \<and> length (rc_slots r) = REACTOR_RING_ENTRIES \<and>
     rc_next_free r \<le> REACTOR_RING_ENTRIES \<and> length (rc_sq r) \<le> REACTOR_RING_ENTRIES \<and>
     rc_descriptors r = of_nat (card (used_slots r))"

text \<open>A slot never counts more polls than are outstanding; it may count fewer, after it was reused.\<close>

definition flight_ok :: "cqe list \<Rightarrow> 'h reactor \<Rightarrow> bool" where
  "flight_ok cq r \<longleftrightarrow> (\<forall>s < length (rc_slots r).
     0 \<le> sl_in_flight (rc_slots r ! s) \<and>
     sl_in_flight (rc_slots r ! s) \<le> int (count (outstanding cq r) (Some s))) \<and>
     (\<forall>s. Some s \<in># outstanding cq r \<longrightarrow> s < length (rc_slots r))"

definition reactor_ok :: "(int \<Rightarrow> 'h) \<Rightarrow> cqe list \<Rightarrow> 'h reactor \<Rightarrow> bool" where
  "reactor_ok own cq r \<longleftrightarrow> slots_ok r \<and> table_ok own r \<and> flight_ok cq r"

definition all_taken :: "'h reactor \<Rightarrow> bool" where
  "all_taken r \<longleftrightarrow> False \<notin> set (rc_takes r)"

text \<open>The descriptors of \<open>A\<close> that are registered have a poll in flight.\<close>

definition polled :: "nat set \<Rightarrow> 'h reactor \<Rightarrow> bool" where
  "polled A r \<longleftrightarrow> (\<forall>fd s. fd \<in> A \<longrightarrow> rc_fds r fd = Some s \<longrightarrow> 0 < sl_in_flight (rc_slots r ! s))"

lemma polled_outstanding:
  assumes "reactor_ok own cq r" and "polled A r" and "fd \<in> A" and "rc_fds r fd = Some s"
  shows "Some s \<in># outstanding cq r"
proof -
  have "0 < sl_in_flight (rc_slots r ! s)" "s < length (rc_slots r)"
    using assms by (auto simp: polled_def reactor_ok_def table_ok_def)
  moreover have "sl_in_flight (rc_slots r ! s) \<le> int (count (outstanding cq r) (Some s))"
    using assms(1) calculation(2) by (auto simp: reactor_ok_def flight_ok_def)
  ultimately show ?thesis by (simp add: count_greater_zero_iff [symmetric] del: count_greater_zero_iff)
qed

lemma slot_at_ok [simp]: "slots_ok r \<Longrightarrow> s < REACTOR_RING_ENTRIES \<Longrightarrow> slot_at s r = Some (rc_slots r ! s)"
  by (simp add: slots_ok_def slot_at_def)

lemma table_slot: "slots_ok r \<Longrightarrow> table_ok own r \<Longrightarrow> rc_fds r fd = Some s \<Longrightarrow> s < REACTOR_RING_ENTRIES"
  by (auto simp: table_ok_def slots_ok_def)

lemma used_slots_finite [simp]: "finite (used_slots r)"
  by (simp add: used_slots_def)

lemma used_slots_bound: "slots_ok r \<Longrightarrow> used_slots r \<subseteq> {..< REACTOR_RING_ENTRIES}"
  by (auto simp: used_slots_def slots_ok_def)

lemma used_slots_card: "slots_ok r \<Longrightarrow> card (used_slots r) \<le> REACTOR_RING_ENTRIES"
  using card_mono [OF _ used_slots_bound] by force

text \<open>The number of descriptors, as a number.\<close>

lemma descriptor_count: "slots_ok r \<Longrightarrow> unat (reactor_get_descriptor_count r) = card (used_slots r)"
  using used_slots_card [of r]
  by (simp add: reactor_get_descriptor_count_def slots_ok_def REACTOR_RING_ENTRIES_def unat_of_nat)

subsection \<open>Submitting\<close>

lemma submit_simps [simp]:
  "rc_slots (io_uring_submit r) = rc_slots r" "rc_fds (io_uring_submit r) = rc_fds r"
  "rc_descriptors (io_uring_submit r) = rc_descriptors r" "rc_active (io_uring_submit r) = rc_active r"
  "rc_slot_count (io_uring_submit r) = rc_slot_count r" "rc_next_free (io_uring_submit r) = rc_next_free r"
  "rc_cq (io_uring_submit r) = rc_cq r" "used_slots (io_uring_submit r) = used_slots r"
  by (auto simp: io_uring_submit_def used_slots_def split: list.splits bool.splits)

lemma submit_outstanding [simp]: "outstanding cq (io_uring_submit r) = outstanding cq r"
  by (auto simp: io_uring_submit_def outstanding_def split: list.splits bool.splits)

lemma submit_taken: "all_taken r \<Longrightarrow> all_taken (io_uring_submit r) \<and> rc_sq (io_uring_submit r) = []"
  by (auto simp: io_uring_submit_def all_taken_def split: list.splits bool.splits)

lemma submit_sq: "length (rc_sq (io_uring_submit r)) \<le> length (rc_sq r)"
  by (auto simp: io_uring_submit_def split: list.splits bool.splits)

lemma submit_ok [simp]:
  "slots_ok r \<Longrightarrow> slots_ok (io_uring_submit r)" "table_ok own (io_uring_submit r) = table_ok own r"
  "flight_ok cq (io_uring_submit r) = flight_ok cq r" "polled A (io_uring_submit r) = polled A r"
  using submit_sq [of r] by (auto simp: slots_ok_def table_ok_def flight_ok_def polled_def)

lemma submit_reactor_ok: "reactor_ok own cq r \<Longrightarrow> reactor_ok own cq (io_uring_submit r)"
  by (simp add: reactor_ok_def)

text \<open>The clock and the completions that were handled do not matter.\<close>

lemma time_ok [simp]:
  "reactor_ok own cq (r\<lparr>rc_time := t\<rparr>) = reactor_ok own cq r" "all_taken (r\<lparr>rc_time := t\<rparr>) = all_taken r"
  "polled A (r\<lparr>rc_time := t\<rparr>) = polled A r" "outstanding cq (r\<lparr>rc_time := t\<rparr>) = outstanding cq r"
  by (simp_all add: reactor_ok_def slots_ok_def table_ok_def flight_ok_def used_slots_def outstanding_def
      all_taken_def polled_def)

lemma cq_ok [simp]:
  "reactor_ok own cq (r\<lparr>rc_cq := c\<rparr>) = reactor_ok own cq r" "all_taken (r\<lparr>rc_cq := c\<rparr>) = all_taken r"
  "polled A (r\<lparr>rc_cq := c\<rparr>) = polled A r" "outstanding cq (r\<lparr>rc_cq := c\<rparr>) = outstanding cq r"
  by (simp_all add: reactor_ok_def slots_ok_def table_ok_def flight_ok_def used_slots_def outstanding_def
      all_taken_def polled_def)

subsection \<open>Slots\<close>

lemma put_slot_simps [simp]:
  "rc_fds (put_slot s sl r) = rc_fds r" "rc_descriptors (put_slot s sl r) = rc_descriptors r"
  "rc_active (put_slot s sl r) = rc_active r" "rc_slot_count (put_slot s sl r) = rc_slot_count r"
  "rc_next_free (put_slot s sl r) = rc_next_free r" "rc_sq (put_slot s sl r) = rc_sq r"
  "rc_ops (put_slot s sl r) = rc_ops r" "rc_takes (put_slot s sl r) = rc_takes r"
  "rc_cq (put_slot s sl r) = rc_cq r"
  "rc_slots (put_slot s sl r) = (rc_slots r)[s := sl]"
  "outstanding cq (put_slot s sl r) = outstanding cq r"
  by (simp_all add: put_slot_def outstanding_def)

lemma put_sqe_simps [simp]:
  "rc_fds (put_sqe e r) = rc_fds r" "rc_descriptors (put_sqe e r) = rc_descriptors r"
  "rc_active (put_sqe e r) = rc_active r" "rc_slot_count (put_sqe e r) = rc_slot_count r"
  "rc_next_free (put_sqe e r) = rc_next_free r" "rc_slots (put_sqe e r) = rc_slots r"
  "rc_takes (put_sqe e r) = rc_takes r" "rc_sq (put_sqe e r) = rc_sq r @ [e]"
  "rc_cq (put_sqe e r) = rc_cq r" "used_slots (put_sqe e r) = used_slots r"
  "outstanding cq (put_sqe e r) = add_mset (sqe_user_data e) (outstanding cq r)"
  by (simp_all add: put_sqe_def used_slots_def outstanding_def)

lemma used_put_slot:
  "s < length (rc_slots r) \<Longrightarrow> used_slots (put_slot s sl r) =
     (if sl_handler sl = None then used_slots r - {s} else insert s (used_slots r))"
  by (auto simp: used_slots_def nth_list_update)

lemma first_free_spec:
  assumes "i + n \<le> length (rc_slots r)"
  shows "(first_free r i n = Some None \<and> {i ..< i + n} \<subseteq> used_slots r) \<or>
    (\<exists>j. first_free r i n = Some (Some j) \<and> i \<le> j \<and> j < i + n \<and> j \<notin> used_slots r \<and> {i ..< j} \<subseteq> used_slots r)"
  using assms
proof (induction n arbitrary: i)
  case 0
  then show ?case by simp
next
  case (Suc n)
  show ?case
  proof (cases "sl_handler (rc_slots r ! i) = None")
    case True
    then show ?thesis using Suc.prems by (auto simp: slot_at_def used_slots_def)
  next
    case False
    have here: "i \<in> used_slots r" using False Suc.prems by (simp add: used_slots_def)
    have step: "first_free r i (Suc n) = first_free r (Suc i) n"
      using False Suc.prems by (auto simp: slot_at_def)
    have split: "{i ..< i + Suc n} = insert i {Suc i ..< Suc i + n}" by auto
    have split': "Suc i \<le> j \<Longrightarrow> {i ..< j} = insert i {Suc i ..< j}" for j by auto
    show ?thesis
      using Suc.IH [of "Suc i"] Suc.prems here unfolding step
      by (auto simp: split split')
  qed
qed

text \<open>A slot is found exactly when one is free: the first one from the hint on, around the end.\<close>

lemma acquire_spec:
  assumes "slots_ok r"
  shows "if used_slots r = {..< REACTOR_RING_ENTRIES} then reactor_slot_acquire r = Some (None, r)
    else \<exists>s. reactor_slot_acquire r = Some (Some s, r\<lparr>rc_next_free := s + 1\<rparr>) \<and>
      s < REACTOR_RING_ENTRIES \<and> s \<notin> used_slots r"
proof -
  let ?N = REACTOR_RING_ENTRIES and ?k = "rc_next_free r"
  have lens: "rc_slot_count r = ?N" "length (rc_slots r) = ?N" "?k \<le> ?N"
    using assms by (auto simp: slots_ok_def)
  have bound: "used_slots r \<subseteq> {..< ?N}" by (rule used_slots_bound [OF assms])
  consider (late) j where "first_free r ?k (?N - ?k) = Some (Some j)" "j < ?N" "j \<notin> used_slots r"
    | (early) j where "first_free r ?k (?N - ?k) = Some None" "first_free r 0 ?k = Some (Some j)"
        "j < ?N" "j \<notin> used_slots r"
    | (none) "first_free r ?k (?N - ?k) = Some None" "first_free r 0 ?k = Some None"
        "{?k ..< ?N} \<subseteq> used_slots r" "{0 ..< ?k} \<subseteq> used_slots r"
    using first_free_spec [of ?k "?N - ?k" r] first_free_spec [of 0 ?k r] lens by fastforce
  then show ?thesis
  proof cases
    case late
    then have "used_slots r \<noteq> {..< ?N}" by auto
    with late show ?thesis by (simp add: reactor_slot_acquire_def lens)
  next
    case early
    then have "used_slots r \<noteq> {..< ?N}" by auto
    with early show ?thesis by (simp add: reactor_slot_acquire_def lens)
  next
    case none
    have "{..< ?N} = {0 ..< ?k} \<union> {?k ..< ?N}" using lens(3) by auto
    then have "used_slots r = {..< ?N}" using none(3,4) bound by blast
    with none show ?thesis by (simp add: reactor_slot_acquire_def lens)
  qed
qed

subsection \<open>Operations\<close>

text \<open>An operation that moves no handler and no table entry, and takes no poll away.\<close>

definition keeps_table :: "'h reactor \<Rightarrow> 'h reactor \<Rightarrow> bool" where
  "keeps_table r r' \<longleftrightarrow> rc_fds r' = rc_fds r \<and> map sl_handler (rc_slots r') = map sl_handler (rc_slots r) \<and>
     rc_descriptors r' = rc_descriptors r \<and> rc_slot_count r' = rc_slot_count r \<and>
     rc_next_free r' = rc_next_free r"

definition more_flight :: "'h reactor \<Rightarrow> 'h reactor \<Rightarrow> bool" where
  "more_flight r r' \<longleftrightarrow>
     (\<forall>s < length (rc_slots r). sl_in_flight (rc_slots r ! s) \<le> sl_in_flight (rc_slots r' ! s))"

lemma keeps_tableD:
  assumes "keeps_table r r'"
  shows "length (rc_slots r') = length (rc_slots r)"
    and "s < length (rc_slots r) \<Longrightarrow> sl_handler (rc_slots r' ! s) = sl_handler (rc_slots r ! s)"
    and "used_slots r' = used_slots r" and "table_ok own r' = table_ok own r"
proof -
  from assms have m: "map sl_handler (rc_slots r') = map sl_handler (rc_slots r)"
    and fds: "rc_fds r' = rc_fds r" by (auto simp: keeps_table_def)
  from m show len: "length (rc_slots r') = length (rc_slots r)" by (rule map_eq_imp_length_eq)
  have h: "sl_handler (rc_slots r' ! s) = sl_handler (rc_slots r ! s)" if "s < length (rc_slots r)" for s
    using arg_cong [where f = "\<lambda>xs. xs ! s", OF m] that len by simp
  then show "s < length (rc_slots r) \<Longrightarrow> sl_handler (rc_slots r' ! s) = sl_handler (rc_slots r ! s)" .
  show "used_slots r' = used_slots r" using h len by (auto simp: used_slots_def)
  have "(s < length (rc_slots r') \<and> sl_handler (rc_slots r' ! s) = v) \<longleftrightarrow>
      (s < length (rc_slots r) \<and> sl_handler (rc_slots r ! s) = v)" for s v
    using h len by auto
  then show "table_ok own r' = table_ok own r" by (simp add: table_ok_def fds)
qed

lemma keeps_table_refl [simp]: "keeps_table r r"
  by (simp add: keeps_table_def)

lemma keeps_table_trans: "keeps_table r r' \<Longrightarrow> keeps_table r' r'' \<Longrightarrow> keeps_table r r''"
  by (simp add: keeps_table_def)

lemma keeps_slots_ok:
  "keeps_table r r' \<Longrightarrow> slots_ok r \<Longrightarrow> length (rc_sq r') \<le> REACTOR_RING_ENTRIES \<Longrightarrow> slots_ok r'"
  using keeps_tableD(1,3) [of r r'] by (auto simp: slots_ok_def keeps_table_def)

lemma more_flight_polled:
  assumes "slots_ok r" and "table_ok own r" and "keeps_table r r'" and "more_flight r r'" and "polled A r"
  shows "polled A r'"
  unfolding polled_def
proof (intro allI impI)
  fix fd s assume fd: "fd \<in> A" "rc_fds r' fd = Some s"
  then have f: "rc_fds r fd = Some s" using assms(3) by (simp add: keeps_table_def)
  then have "s < length (rc_slots r)" using assms(2) by (auto simp: table_ok_def)
  moreover have "0 < sl_in_flight (rc_slots r ! s)" using assms(5) f fd(1) by (simp add: polled_def)
  ultimately show "0 < sl_in_flight (rc_slots r' ! s)" using assms(4) by (force simp: more_flight_def)
qed

text \<open>A submitted poll is in flight; only a kernel that refuses can prevent it.\<close>

lemma poll_submit:
  assumes "slots_ok r" and "flight_ok cq r" and "s < REACTOR_RING_ENTRIES"
  shows "\<exists>r'. reactor_poll_submit_fd s fd r = Some r' \<and> keeps_table r r' \<and> more_flight r r' \<and>
    slots_ok r' \<and> flight_ok cq r' \<and> (all_taken r \<longrightarrow> all_taken r' \<and> 0 < sl_in_flight (rc_slots r' ! s))"
proof -
  let ?r = "if sq_has_room r then r else io_uring_submit r"
  have ok: "slots_ok ?r" "flight_ok cq ?r" "rc_slots ?r = rc_slots r" "rc_fds ?r = rc_fds r"
    "rc_slot_count ?r = rc_slot_count r" "rc_next_free ?r = rc_next_free r"
    "rc_descriptors ?r = rc_descriptors r"
    using assms(1,2) by auto
  have taken: "all_taken r \<Longrightarrow> all_taken ?r \<and> sq_has_room ?r"
    using submit_taken [of r] by (auto simp: sq_has_room_def REACTOR_RING_ENTRIES_def)
  show ?thesis
  proof (cases "sq_has_room ?r")
    case False
    have "reactor_poll_submit_fd s fd r = Some ?r"
      using False by (simp add: reactor_poll_submit_fd_def Let_def)
    moreover have "keeps_table r ?r" "more_flight r ?r"
      using ok by (simp_all add: keeps_table_def more_flight_def)
    ultimately show ?thesis using ok taken False by blast
  next
    case True
    let ?sl = "rc_slots r ! s"
    let ?r' = "put_slot s (?sl\<lparr>sl_in_flight := sl_in_flight ?sl + 1\<rparr>) (put_sqe (Poll_Add s fd (sl_events ?sl)) ?r)"
    have len: "length (rc_slots r) = REACTOR_RING_ENTRIES" using assms(1) by (simp add: slots_ok_def)
    have run: "reactor_poll_submit_fd s fd r = Some ?r'"
      using True ok(1,3) assms(3) by (simp add: reactor_poll_submit_fd_def Let_def)
    have keeps: "keeps_table r ?r'"
      using ok(3-7) len assms(3)
      by (auto simp: keeps_table_def map_update list_update_same_conv)
    have "length (rc_sq ?r') \<le> REACTOR_RING_ENTRIES" using True by (simp add: sq_has_room_def)
    then have slots: "slots_ok ?r'" using keeps assms(1) by (rule keeps_slots_ok [rotated 2])
    have slot: "rc_slots ?r' = (rc_slots r)[s := ?sl\<lparr>sl_in_flight := sl_in_flight ?sl + 1\<rparr>]"
      using ok(3) by simp
    have more: "more_flight r ?r'" using assms(3) by (auto simp: more_flight_def slot nth_list_update len)
    have out: "outstanding cq ?r' = add_mset (Some s) (outstanding cq ?r)"
      by simp
    have flight: "flight_ok cq ?r'"
      using assms(3) ok(2) len unfolding flight_ok_def out slot
      by (auto simp: nth_list_update ok(3) split: if_splits)
    have pos: "0 < sl_in_flight (rc_slots ?r' ! s)"
      using assms(2,3) len by (auto simp: slot flight_ok_def)
    have "all_taken r \<Longrightarrow> all_taken ?r'" using taken by (simp add: all_taken_def)
    then show ?thesis using run keeps more slots flight pos by blast
  qed
qed

text \<open>Adding a descriptor: ignored when every slot is used, registered and polled otherwise.\<close>

definition valid_fd :: "int \<Rightarrow> bool" where
  "valid_fd fd \<longleftrightarrow> 0 \<le> fd \<and> fd < int REACTOR_MAX_FDS"

definition all_used :: "'h reactor \<Rightarrow> bool" where
  "all_used r \<longleftrightarrow> used_slots r = {..< REACTOR_RING_ENTRIES}"

lemma add_ignored:
  assumes "slots_ok r" and "all_used r \<or> \<not> valid_fd fd"
  shows "reactor_add h fd m r = Some r"
  using assms acquire_spec [OF assms(1)]
  by (auto simp: reactor_add_def valid_fd_def all_used_def split: if_splits)

lemma add_registers:
  assumes ok: "reactor_ok own cq r" and fd: "valid_fd fd" and free: "\<not> all_used r"
  shows "\<exists>r' s. reactor_add (own fd) fd m r = Some r' \<and> reactor_ok own cq r' \<and>
    rc_fds r' = (rc_fds r)(nat fd := Some s) \<and> used_slots r' = insert s (used_slots r) \<and> s \<notin> used_slots r \<and>
    rc_active r' = rc_active r \<and>
    (all_taken r \<longrightarrow> all_taken r' \<and> (polled A r \<longrightarrow> polled (insert (nat fd) A) r'))"
proof -
  have slots: "slots_ok r" and tab: "table_ok own r" and fl: "flight_ok cq r"
    using ok by (auto simp: reactor_ok_def)
  have len: "length (rc_slots r) = REACTOR_RING_ENTRIES" using slots by (simp add: slots_ok_def)
  obtain s where s: "reactor_slot_acquire r = Some (Some s, r\<lparr>rc_next_free := s + 1\<rparr>)"
    "s < REACTOR_RING_ENTRIES" "s \<notin> used_slots r"
    using acquire_spec [OF slots] free by (auto simp: all_used_def)
  let ?sl = "\<lparr>sl_handler = Some (own fd), sl_events = to_poll_mask m, sl_in_flight = 0\<rparr>"
  let ?r1 = "(put_slot s ?sl (r\<lparr>rc_next_free := s + 1\<rparr>))
    \<lparr>rc_fds := (rc_fds r)(nat fd := Some s), rc_descriptors := rc_descriptors r + 1\<rparr>"
  have slots1: "rc_slots ?r1 = (rc_slots r)[s := ?sl]" by simp
  have used1: "used_slots ?r1 = insert s (used_slots r)"
    using s(2) len by (auto simp: used_slots_def nth_list_update)
  have ok1: "slots_ok ?r1"
    unfolding slots_ok_def used1 using slots s(2,3) by (auto simp: slots_ok_def)
  have other: "rc_fds r fd' \<noteq> Some s" for fd'
    using tab s(3) by (auto simp: table_ok_def used_slots_def)
  have fdn: "nat fd < REACTOR_MAX_FDS" "int (nat fd) = fd" using fd by (auto simp: valid_fd_def)
  have tab1: "table_ok own ?r1"
    using tab s(2) other fdn len unfolding table_ok_def slots1
    by (auto simp: nth_list_update split: if_splits)
  have out1: "outstanding cq ?r1 = outstanding cq r" by (simp add: outstanding_def put_slot_def)
  have fl1: "flight_ok cq ?r1"
    using fl s(2) len unfolding flight_ok_def slots1 out1 by (auto simp: nth_list_update)
  obtain r2 where r2: "reactor_poll_submit_fd s fd ?r1 = Some r2" "keeps_table ?r1 r2" "more_flight ?r1 r2"
    "slots_ok r2" "flight_ok cq r2"
    "all_taken ?r1 \<longrightarrow> all_taken r2 \<and> 0 < sl_in_flight (rc_slots r2 ! s)"
    using poll_submit [OF ok1 fl1 s(2)] by blast
  have fds2: "rc_fds r2 = (rc_fds r)(nat fd := Some s)" using r2(2) by (simp add: keeps_table_def)
  have run: "reactor_add (own fd) fd m r = Some (io_uring_submit r2)"
    using fd s(1) r2(1) by (simp add: reactor_add_def valid_fd_def Let_def)
  have ok2: "reactor_ok own cq (io_uring_submit r2)"
    using r2(2,4,5) tab1 keeps_tableD(4) [OF r2(2)] by (simp add: reactor_ok_def)
  have pol: "polled (insert (nat fd) A) (io_uring_submit r2)" if "all_taken r" "polled A r"
  proof -
    have t: "all_taken ?r1" using that(1) by (simp add: all_taken_def)
    have "polled (A - {nat fd}) ?r1"
      using that(2) other unfolding polled_def slots1 by (auto, metis nth_list_update_neq)
    then have "polled (A - {nat fd}) r2"
      by (rule more_flight_polled [OF ok1 tab1 r2(2,3)])
    moreover have "0 < sl_in_flight (rc_slots r2 ! s)" using r2(6) t by blast
    ultimately show ?thesis unfolding submit_ok by (auto simp: polled_def fds2)
  qed
  have act: "rc_active r2 = rc_active r"
    using r2(1) by (auto simp: reactor_poll_submit_fd_def Let_def split: bind_splits if_splits)
  have tak: "all_taken r \<longrightarrow> all_taken (io_uring_submit r2)"
    using r2(6) submit_taken [of r2] by (auto simp: all_taken_def)
  show ?thesis
    using run ok2 fds2 pol used1 keeps_tableD(3) [OF r2(2)] s(3) act tak by auto
qed

text \<open>Deleting a registered descriptor frees its slot; its polls stay outstanding.\<close>

lemma delete_unregistered: "reactor_slot_find fd r = None \<Longrightarrow> reactor_delete fd r = Some r"
  by (simp add: reactor_delete_def)

lemma find_valid: "reactor_slot_find fd r = Some s \<longleftrightarrow> valid_fd fd \<and> rc_fds r (nat fd) = Some s"
  by (auto simp: reactor_slot_find_def valid_fd_def)

lemma delete_registered:
  assumes ok: "reactor_ok own cq r" and s: "reactor_slot_find fd r = Some s"
  shows "\<exists>r'. reactor_delete fd r = Some r' \<and> reactor_ok own cq r' \<and>
    rc_fds r' = (rc_fds r)(nat fd := None) \<and> used_slots r' = used_slots r - {s} \<and> rc_active r' = rc_active r \<and>
    (all_taken r \<longrightarrow> all_taken r' \<and> (polled A r \<longrightarrow> polled (insert (nat fd) A) r'))"
proof -
  have slots: "slots_ok r" and tab: "table_ok own r" and fl: "flight_ok cq r"
    using ok by (auto simp: reactor_ok_def)
  have len: "length (rc_slots r) = REACTOR_RING_ENTRIES" using slots by (simp add: slots_ok_def)
  have f: "rc_fds r (nat fd) = Some s" using s by (simp add: find_valid)
  have sN: "s < REACTOR_RING_ENTRIES" by (rule table_slot [OF slots tab f])
  have used: "s \<in> used_slots r" using tab f by (auto simp: table_ok_def used_slots_def)
  let ?sl = "(rc_slots r ! s)\<lparr>sl_handler := None\<rparr>"
  let ?r1 = "r\<lparr>rc_fds := (rc_fds r)(nat fd := None)\<rparr>"
  let ?r2 = "if sq_has_room ?r1 then put_sqe (Poll_Remove s) ?r1 else ?r1"
  let ?r3 = "(put_slot s ?sl ?r2)\<lparr>rc_descriptors := rc_descriptors r - 1\<rparr>"
  have pos: "rc_descriptors r \<noteq> 0"
  proof -
    have "0 < card (used_slots r)" using used by (auto simp: card_gt_0_iff)
    then show ?thesis using used_slots_card [OF slots] slots
      by (auto simp: slots_ok_def REACTOR_RING_ENTRIES_def word_of_nat_eq_0_iff dest: dvd_imp_le)
  qed
  have slots2: "rc_slots ?r2 = rc_slots r" "rc_descriptors ?r2 = rc_descriptors r" by simp_all
  have run: "reactor_delete fd r = Some ?r3"
    using s pos sN len by (simp add: reactor_delete_def Let_def slot_at_def)
  have slots3: "rc_slots ?r3 = (rc_slots r)[s := ?sl]" by simp
  have fds3: "rc_fds ?r3 = (rc_fds r)(nat fd := None)" by simp
  have used3: "used_slots ?r3 = used_slots r - {s}"
    using sN len by (auto simp: used_slots_def nth_list_update)
  have k: "card (used_slots r) = Suc (card (used_slots r - {s}))"
    by (rule card.remove) (use used in simp_all)
  have ok3: "slots_ok ?r3"
    unfolding slots_ok_def used3 using slots k by (auto simp: slots_ok_def sq_has_room_def)
  have tab3: "table_ok own ?r3"
    using tab f len unfolding table_ok_def slots3 fds3
    by (auto simp: nth_list_update split: if_splits)
  have fl3: "flight_ok cq ?r3"
    using fl sN len unfolding flight_ok_def slots3
    by (auto simp: nth_list_update outstanding_def put_slot_def put_sqe_def)
  have pol: "polled (insert (nat fd) A) ?r3" if "polled A r"
    using that sN len unfolding polled_def slots3 fds3 by (auto simp: nth_list_update)
  show ?thesis
    using run ok3 tab3 fl3 fds3 used3 pol by (auto simp: reactor_ok_def all_taken_def)
qed

lemma modify_registered:
  assumes ok: "reactor_ok own cq r" and s: "reactor_slot_find fd r = Some s"
  shows "\<exists>r'. reactor_modify h fd m r = Some r' \<and> reactor_ok own cq r' \<and> keeps_table r r' \<and>
    rc_active r' = rc_active r \<and> (all_taken r \<longrightarrow> all_taken r' \<and> (polled A r \<longrightarrow> polled A r'))"
proof -
  have slots: "slots_ok r" and tab: "table_ok own r" and fl: "flight_ok cq r"
    using ok by (auto simp: reactor_ok_def)
  have len: "length (rc_slots r) = REACTOR_RING_ENTRIES" using slots by (simp add: slots_ok_def)
  have sN: "s < REACTOR_RING_ENTRIES" using s table_slot [OF slots tab] by (auto simp: find_valid)
  let ?sl = "rc_slots r ! s"
  let ?r1 = "put_slot s (?sl\<lparr>sl_events := to_poll_mask m\<rparr>) r"
  have k1: "keeps_table r ?r1" using sN len by (simp add: keeps_table_def map_update list_update_same_conv)
  have m1: "more_flight r ?r1" using sN len by (auto simp: more_flight_def nth_list_update)
  have ok1: "slots_ok ?r1" using keeps_slots_ok [OF k1 slots] slots by (simp add: slots_ok_def)
  have tab1: "table_ok own ?r1" using keeps_tableD(4) [OF k1] tab by simp
  have fl1: "flight_ok cq ?r1" using fl sN len by (auto simp: flight_ok_def nth_list_update)
  have pol1: "polled A r \<Longrightarrow> polled A ?r1" by (rule more_flight_polled [OF slots tab k1 m1])
  consider (same) "sl_events ?sl = to_poll_mask m"
    | (idle) "sl_events ?sl \<noteq> to_poll_mask m" "sl_in_flight ?sl = 0"
    | (busy) "sl_events ?sl \<noteq> to_poll_mask m" "sl_in_flight ?sl \<noteq> 0" by blast
  then show ?thesis
  proof cases
    case same
    then show ?thesis using ok s sN slots by (auto simp: reactor_modify_def)
  next
    case busy
    then have "reactor_modify h fd m r = Some ?r1"
      using s sN slots by (simp add: reactor_modify_def Let_def)
    then show ?thesis using k1 ok1 tab1 fl1 pol1 by (auto simp: reactor_ok_def all_taken_def)
  next
    case idle
    obtain r2 where r2: "reactor_poll_submit_fd s fd ?r1 = Some r2" "keeps_table ?r1 r2" "more_flight ?r1 r2"
      "slots_ok r2" "flight_ok cq r2" "all_taken ?r1 \<longrightarrow> all_taken r2"
      using poll_submit [OF ok1 fl1 sN] by blast
    have run: "reactor_modify h fd m r = Some r2"
      using idle s sN slots r2(1) by (simp add: reactor_modify_def Let_def)
    have act: "rc_active r2 = rc_active r"
      using r2(1) by (auto simp: reactor_poll_submit_fd_def Let_def split: bind_splits if_splits)
    show ?thesis
      using run r2(4-6) keeps_tableD(4) [OF r2(2)] tab1 keeps_table_trans [OF k1 r2(2)] act
        more_flight_polled [OF ok1 tab1 r2(2,3)] pol1
      by (auto simp: reactor_ok_def all_taken_def)
  qed
qed

lemma resubmit_registered:
  assumes ok: "reactor_ok own cq r" and s: "reactor_slot_find fd r = Some s"
  shows "\<exists>r'. reactor_poll_resubmit fd r = Some r' \<and> reactor_ok own cq r' \<and> keeps_table r r' \<and>
    rc_active r' = rc_active r \<and>
    (all_taken r \<longrightarrow> all_taken r' \<and> (polled A r \<longrightarrow> polled (insert (nat fd) A) r'))"
proof -
  have slots: "slots_ok r" and tab: "table_ok own r" and fl: "flight_ok cq r"
    using ok by (auto simp: reactor_ok_def)
  have f: "rc_fds r (nat fd) = Some s" using s by (simp add: find_valid)
  have sN: "s < REACTOR_RING_ENTRIES" by (rule table_slot [OF slots tab f])
  have h: "sl_handler (rc_slots r ! s) \<noteq> None" using tab f by (auto simp: table_ok_def)
  obtain r2 where r2: "reactor_poll_submit_fd s fd r = Some r2" "keeps_table r r2" "more_flight r r2"
    "slots_ok r2" "flight_ok cq r2"
    "all_taken r \<longrightarrow> all_taken r2 \<and> 0 < sl_in_flight (rc_slots r2 ! s)"
    using poll_submit [OF slots fl sN] by blast
  have run: "reactor_poll_resubmit fd r = Some r2"
    using s sN slots h r2(1) by (auto simp: reactor_poll_resubmit_def)
  have act: "rc_active r2 = rc_active r"
    using r2(1) by (auto simp: reactor_poll_submit_fd_def Let_def split: bind_splits if_splits)
  have fds: "rc_fds r2 = rc_fds r" using r2(2) by (simp add: keeps_table_def)
  have pol: "polled (insert (nat fd) A) r2" if "all_taken r" "polled A r"
    using more_flight_polled [OF slots tab r2(2,3) that(2)] r2(6) that(1) f
    by (auto simp: polled_def fds)
  show ?thesis
    using run r2(2,4-6) keeps_tableD(4) [OF r2(2)] tab act pol by (auto simp: reactor_ok_def)
qed

subsection \<open>Calls\<close>

text \<open>The descriptors a call leaves with a poll, or unregistered.\<close>

fun settles :: "reactor_call \<Rightarrow> nat set" where
  "settles (Reactor_Delete fd) = (if valid_fd fd then {nat fd} else {})"
| "settles (Poll_Resubmit fd) = (if valid_fd fd then {nat fd} else {})"
| "settles c = {}"

lemma polled_mono: "polled A r \<Longrightarrow> B \<subseteq> A \<Longrightarrow> polled B r"
  by (auto simp: polled_def)

lemma polled_unregistered: "polled A r \<Longrightarrow> reactor_slot_find fd r = None \<Longrightarrow> valid_fd fd \<Longrightarrow> polled (insert (nat fd) A) r"
  by (auto simp: polled_def reactor_slot_find_def valid_fd_def)

text \<open>Every call of the interface is defined and keeps the reactor in order.\<close>

lemma run_call_ok:
  assumes ok: "reactor_ok own cq r"
  shows "\<exists>r'. run_call own c r = Some r' \<and> reactor_ok own cq r' \<and> rc_active r' = rc_active r \<and>
    (all_taken r \<longrightarrow> all_taken r' \<and> (polled A r \<longrightarrow> polled (settles c \<union> A) r'))"
proof -
  have slots: "slots_ok r" using ok by (simp add: reactor_ok_def)
  have add: "\<exists>r'. reactor_add (own fd) fd m r = Some r' \<and> reactor_ok own cq r' \<and> rc_active r' = rc_active r \<and>
      (all_taken r \<longrightarrow> all_taken r' \<and> (polled A r \<longrightarrow> polled A r'))" for fd m
  proof (cases "all_used r \<or> \<not> valid_fd fd")
    case True
    then show ?thesis using add_ignored [OF slots] ok by auto
  next
    case False
    then show ?thesis
      using add_registers [OF ok, of fd m A] polled_mono [of "insert (nat fd) A" _ A] by fastforce
  qed
  show ?thesis
  proof (cases c)
    case (Reactor_Add fd m)
    then show ?thesis using add [of fd m] by simp
  next
    case (Reactor_Modify fd m)
    show ?thesis
    proof (cases "reactor_slot_find fd r")
      case None
      then show ?thesis using add [of fd m] Reactor_Modify by (simp add: reactor_modify_def)
    next
      case (Some s)
      then show ?thesis
        using modify_registered [OF ok Some, of "own fd" m A] Reactor_Modify by auto
    qed
  next
    case (Reactor_Delete fd)
    show ?thesis
    proof (cases "reactor_slot_find fd r")
      case None
      then show ?thesis
        using ok Reactor_Delete polled_unregistered [OF _ None, of A] by (auto simp: delete_unregistered)
    next
      case (Some s)
      then show ?thesis
        using delete_registered [OF ok Some, of A] Reactor_Delete by (auto simp: find_valid)
    qed
  next
    case (Poll_Resubmit fd)
    show ?thesis
    proof (cases "reactor_slot_find fd r")
      case None
      then show ?thesis
        using ok Poll_Resubmit polled_unregistered [OF _ None, of A] by (auto simp: reactor_poll_resubmit_def)
    next
      case (Some s)
      then show ?thesis
        using resubmit_registered [OF ok Some, of A] Poll_Resubmit by (auto simp: find_valid)
    qed
  next
    case (Close_Fd fd)
    then show ?thesis using ok by simp
  qed
qed

lemma run_calls_ok:
  assumes "reactor_ok own cq r"
  shows "\<exists>r'. run_calls own cs r = Some r' \<and> reactor_ok own cq r' \<and> rc_active r' = rc_active r \<and>
    (all_taken r \<longrightarrow> all_taken r' \<and> (polled A r \<longrightarrow> polled (\<Union> (settles ` set cs) \<union> A) r'))"
  using assms
proof (induction cs arbitrary: r A)
  case Nil
  then show ?case by auto
next
  case (Cons c cs)
  obtain r1 where r1: "run_call own c r = Some r1" "reactor_ok own cq r1" "rc_active r1 = rc_active r"
    "all_taken r \<longrightarrow> all_taken r1 \<and> (polled A r \<longrightarrow> polled (settles c \<union> A) r1)"
    using run_call_ok [OF Cons.prems, of c A] by blast
  have "\<Union> (settles ` set (c # cs)) \<union> A = \<Union> (settles ` set cs) \<union> (settles c \<union> A)" by auto
  then show ?case using Cons.IH [OF r1(2), of "settles c \<union> A"] r1 by auto
qed

end
