(* ===== verification/Reactor_Loop.thy ===== *)
theory Reactor_Loop
  imports Reactor_Ok
begin

text \<open>
  The event loop keeps the reactor in order and polled. The interface of a program on the reactor is
  the locale \<open>reactor_program\<close>: whatever a completion of a descriptor makes it do, it submits a new
  poll of that descriptor or deletes it.
\<close>

subsection \<open>The kernel\<close>

lemma kernel_step_ok:
  assumes "reactor_ok own cq r" and "kernel_step ev (cq, r) = (cq', r')"
  shows "reactor_ok own cq' r' \<and> (all_taken r' \<longleftrightarrow> all_taken r) \<and> (polled A r' \<longleftrightarrow> polled A r) \<and>
    rc_fds r' = rc_fds r \<and> rc_slots r' = rc_slots r"
proof -
  have same: "outstanding cq' r' = outstanding cq r \<and> rc_slots r' = rc_slots r \<and> rc_fds r' = rc_fds r \<and>
    rc_slot_count r' = rc_slot_count r \<and> rc_next_free r' = rc_next_free r \<and> rc_sq r' = rc_sq r \<and>
    rc_descriptors r' = rc_descriptors r \<and> rc_takes r' = rc_takes r"
  proof (cases ev)
    case (Completes i res)
    show ?thesis
    proof (cases "i < length (rc_ops r)")
      case True
      have "mset (rc_ops r) = add_mset (rc_ops r ! i) (mset (take i (rc_ops r) @ drop (Suc i) (rc_ops r)))"
        by (subst id_take_nth_drop [OF True]) simp
      then show ?thesis using assms(2) Completes True by (auto simp: kernel_step_def outstanding_def)
    next
      case False
      then show ?thesis using assms(2) Completes by (auto simp: kernel_step_def)
    qed
  next
    case Term_signal
    then show ?thesis using assms(2) by (auto simp: kernel_step_def outstanding_def)
  qed
  then show ?thesis
    using assms(1)
    by (auto simp: reactor_ok_def slots_ok_def table_ok_def flight_ok_def used_slots_def all_taken_def polled_def)
qed

lemma kernel_steps_ok:
  assumes "reactor_ok own cq r" and "kernel_steps evs (cq, r) = (cq', r')"
  shows "reactor_ok own cq' r' \<and> (all_taken r' \<longleftrightarrow> all_taken r) \<and> (polled A r' \<longleftrightarrow> polled A r) \<and>
    rc_fds r' = rc_fds r \<and> rc_slots r' = rc_slots r"
  using assms
proof (induction evs arbitrary: cq r)
  case Nil
  then show ?case by (simp add: kernel_steps_def)
next
  case (Cons ev evs)
  obtain cq1 r1 where k: "kernel_step ev (cq, r) = (cq1, r1)" by fastforce
  note one = kernel_step_ok [OF Cons.prems(1) k, of A]
  have "kernel_steps evs (cq1, r1) = (cq', r')" using Cons.prems(2) k by (simp add: kernel_steps_def)
  then show ?case using Cons.IH [of cq1 r1] one by simp
qed

subsection \<open>One completion\<close>

lemma take_completion_ok:
  assumes "reactor_ok own ((u, res) # cq) r"
  shows "\<exists>h r'. take_completion u r = Some (h, r') \<and> reactor_ok own cq r' \<and> all_taken r' = all_taken r \<and>
    (\<forall>A. polled A r \<longrightarrow> polled {fd \<in> A. rc_fds r fd \<noteq> u \<or> u = None} r') \<and>
    (h = None \<longrightarrow> (\<forall>A. polled A r \<longrightarrow> polled A r')) \<and> rc_fds r' = rc_fds r \<and> used_slots r' = used_slots r \<and>
    (\<forall>fd. rc_fds r fd = u \<longrightarrow> u \<noteq> None \<longrightarrow> h = Some (own (int fd)))"
proof (cases u)
  case None
  then show ?thesis
    using assms by (auto simp: take_completion_def reactor_ok_def flight_ok_def outstanding_def polled_def)
next
  case (Some s)
  have slots: "slots_ok r" and tab: "table_ok own r" and fl: "flight_ok ((Some s, res) # cq) r"
    using assms Some by (auto simp: reactor_ok_def)
  have out: "outstanding ((Some s, res) # cq) r = add_mset (Some s) (outstanding cq r)"
    by (simp add: outstanding_def)
  have len: "length (rc_slots r) = REACTOR_RING_ENTRIES" using slots by (simp add: slots_ok_def)
  have sN: "s < REACTOR_RING_ENTRIES" using fl len by (auto simp: flight_ok_def out)
  let ?sl = "rc_slots r ! s"
  let ?r = "if sl_in_flight ?sl > 0 then put_slot s (?sl\<lparr>sl_in_flight := sl_in_flight ?sl - 1\<rparr>) r else r"
  have run: "take_completion u r = Some (sl_handler ?sl, ?r)"
    using Some slots sN by (simp add: take_completion_def Let_def)
  have keep: "keeps_table r ?r"
    using sN len by (simp add: keeps_table_def map_update list_update_same_conv)
  have slots': "slots_ok ?r" using keeps_slots_ok [OF keep slots] slots by (simp add: slots_ok_def)
  have tab': "table_ok own ?r" using keeps_tableD(4) [OF keep] tab by simp
  have out': "outstanding cq ?r = outstanding cq r" by simp
  have slots_r: "rc_slots ?r =
      (rc_slots r)[s := ?sl\<lparr>sl_in_flight := max 0 (sl_in_flight ?sl - 1)\<rparr>]"
  proof (cases "sl_in_flight ?sl > 0")
    case False
    then have "sl_in_flight ?sl = 0" using fl sN len by (force simp: flight_ok_def)
    then have "?sl\<lparr>sl_in_flight := max 0 (sl_in_flight ?sl - 1)\<rparr> = ?sl" by (cases ?sl) simp
    then show ?thesis using False by simp
  qed (simp add: max_def)
  have fl': "flight_ok cq ?r"
    using fl sN len unfolding flight_ok_def out out' slots_r
    by (auto simp: nth_list_update split: if_splits)
  have other: "sl_in_flight (rc_slots ?r ! t) = sl_in_flight (rc_slots r ! t)" if "t \<noteq> s" for t
    using that by (simp add: nth_list_update_neq)
  have pol: "polled {fd \<in> A. rc_fds r fd \<noteq> u \<or> u = None} ?r" if "polled A r" for A
    using that other Some by (auto simp: polled_def)
  have own: "sl_handler ?sl = Some (own (int fd))" if "rc_fds r fd = u" for fd
    using tab that Some by (auto simp: table_ok_def)
  have free: "polled A ?r" if "polled A r" "sl_handler ?sl = None" for A
  proof -
    have "rc_fds r fd \<noteq> u" for fd using own [of fd] that(2) by auto
    then show ?thesis using pol [OF that(1)] by simp
  qed
  show ?thesis
    using run slots' tab' fl' pol own free keeps_tableD(3) [OF keep] by (auto simp: reactor_ok_def all_taken_def)
qed

subsection \<open>Programs on the reactor\<close>

definition settled :: "reactor_call list \<Rightarrow> nat set" where
  "settled cs = \<Union> (settles ` set cs)"

locale reactor_program =
  fixes own :: "int \<Rightarrow> 'h"
    and step :: "('h, 's) dispatch"
    and inv :: "'s \<Rightarrow> bool"
  assumes inv_step: "inv s \<Longrightarrow> step h m s = Some (s', cs) \<Longrightarrow> inv s'"
    and rearms: "inv s \<Longrightarrow> step (own (int fd)) m s = Some (s', cs) \<Longrightarrow> fd < REACTOR_MAX_FDS \<Longrightarrow>
      fd \<in> settled cs"
begin

text \<open>With \<open>p\<close>, the kernel takes every submission, and every registered descriptor is polled.\<close>

definition good :: "bool \<Rightarrow> cqe list \<Rightarrow> 's \<times> 'h reactor \<Rightarrow> bool" where
  "good p cq sr \<longleftrightarrow> inv (fst sr) \<and> reactor_ok own cq (snd sr) \<and>
     (p \<longrightarrow> all_taken (snd sr) \<and> polled UNIV (snd sr))"

lemma good_cq [simp]:
  "good p cq (s, r\<lparr>rc_cq := c\<rparr>) = good p cq (s, r)" "good p cq (s, r\<lparr>rc_time := t\<rparr>) = good p cq (s, r)"
  by (simp_all add: good_def)

lemma good_submit: "good p cq (s, r) \<Longrightarrow> good p cq (s, io_uring_submit r)"
  using submit_taken [of r] by (simp add: good_def submit_reactor_ok)

lemma good_handle:
  assumes "good p ((u, res) # cq) (s, r)" and "handle_cqe own step (u, res) (s, r) = Some (dispatched, sr')"
  shows "good p cq sr'"
proof -
  have ok: "inv s" "reactor_ok own ((u, res) # cq) r" "p \<Longrightarrow> all_taken r \<and> polled UNIV r"
    using assms(1) by (auto simp: good_def)
  obtain h r1 where t: "take_completion u r = Some (h, r1)" "reactor_ok own cq r1" "all_taken r1 = all_taken r"
    "\<forall>A. polled A r \<longrightarrow> polled {fd \<in> A. rc_fds r fd \<noteq> u \<or> u = None} r1"
    "h = None \<longrightarrow> (\<forall>A. polled A r \<longrightarrow> polled A r1)" "rc_fds r1 = rc_fds r" "used_slots r1 = used_slots r"
    "\<forall>fd. rc_fds r fd = u \<longrightarrow> u \<noteq> None \<longrightarrow> h = Some (own (int fd))"
    using take_completion_ok [OF ok(2)] by (elim exE conjE) (rule that)
  show ?thesis
  proof (cases h)
    case None
    then have "sr' = (s, r1)" using assms(2) t(1) by (simp add: handle_cqe_def)
    then show ?thesis using ok t(2,3) t(5) None by (auto simp: good_def)
  next
    case (Some hd)
    obtain s' cs where st: "step hd (word_of_int res) s = Some (s', cs)" and
      sr: "run_calls own cs r1 = Some (snd sr')" "fst sr' = s'"
      using assms(2) t(1) Some by (auto simp: handle_cqe_def reactor_dispatch_def split: bind_splits)
    let ?A = "{fd \<in> UNIV. rc_fds r fd \<noteq> u \<or> u = None}"
    obtain r2 where r2: "run_calls own cs r1 = Some r2" "reactor_ok own cq r2"
      "all_taken r1 \<longrightarrow> all_taken r2 \<and> (polled ?A r1 \<longrightarrow> polled (\<Union> (settles ` set cs) \<union> ?A) r2)"
      using run_calls_ok [OF t(2), of cs ?A] by blast
    have "fd \<in> settled cs \<union> ?A" for fd
    proof (cases "fd \<in> ?A")
      case False
      then have f: "rc_fds r fd = u" "u \<noteq> None" by auto
      then have "own (int fd) = hd" "fd < REACTOR_MAX_FDS"
        using t(8) f Some ok(2) by (auto simp: reactor_ok_def table_ok_def)
      then show ?thesis using rearms [OF ok(1), of fd] st by blast
    qed simp
    then have "UNIV \<subseteq> settled cs \<union> ?A" by (intro subsetI)
    then have all: "settled cs \<union> ?A = UNIV" by (rule top.extremum_uniqueI)
    have "all_taken r2 \<and> polled UNIV r2" if p
      using r2(3) t(3) t(4) [rule_format, of UNIV] ok(3) [OF that] unfolding settled_def [symmetric] all by simp
    moreover have "snd sr' = r2" using sr(1) r2(1) by simp
    ultimately show ?thesis using sr(2) r2(2) inv_step [OF ok(1) st] by (simp add: good_def)
  qed
qed

lemma good_kernel:
  assumes "good p cq (s, r)" and "kernel_steps evs (cq, r) = (cq', r')"
  shows "good p cq' (s, r')"
  using kernel_steps_ok [of own cq r evs cq' r' UNIV] assms by (auto simp: good_def)

lemma good_cqe_loop_aux:
  assumes "o' = own" and "d = step" and "good p cq sr" and "cqe_loop o' d evs cq n sr = Some (n', left, sr')"
  shows "good p left sr'"
  using assms
proof (induction o' d evs cq n sr arbitrary: left rule: cqe_loop.induct)
  case (1 o' d evs n sr)
  then show ?case by simp
next
  case (2 o' d c cs n sr)
  obtain b s1 r1 where h: "handle_cqe own step c sr = Some (b, s1, r1)"
    using 2 by (auto split: bind_splits)
  have g: "good p cs (s1, r1)"
    using good_handle [of p "fst c" "snd c" cs "fst sr" "snd sr" b "(s1, r1)"] h 2 by auto
  show ?case
  proof (cases "b \<and> n + 1 \<ge> REACTOR_CQE_BATCH")
    case True
    then show ?thesis using 2 h g by auto
  next
    case False
    then show ?thesis using 2(1) [of "(b, s1, r1)" b "(s1, r1)"] 2(2-5) h g by auto
  qed
next
  case (3 o' d ev evs c cs n sr)
  obtain b s1 r1 where h: "handle_cqe own step c sr = Some (b, s1, r1)"
    using 3 by (auto split: bind_splits)
  have g: "good p cs (s1, r1)"
    using good_handle [of p "fst c" "snd c" cs "fst sr" "snd sr" b "(s1, r1)"] h 3 by auto
  obtain cs2 r2 where k: "kernel_steps ev (cs, r1) = (cs2, r2)" by fastforce
  have g2: "good p cs2 (s1, r2)" using good_kernel [OF g k] .
  show ?case
  proof (cases "b \<and> n + 1 \<ge> REACTOR_CQE_BATCH")
    case True
    then show ?thesis using 3 h k g2 by auto
  next
    case False
    then show ?thesis using 3(1) [of "(b, s1, r1)" b "(s1, r1)" s1 r1 "(cs2, r2)" cs2 r2] 3(2-5) h k g2 by auto
  qed
qed

lemmas good_cqe_loop = good_cqe_loop_aux [OF refl refl]

lemma good_loop_once:
  assumes "good p (rc_cq (snd sr)) sr" and "reactor_loop_once own step wr sr = Some (n, sr')"
  shows "good p (rc_cq (snd sr')) sr'"
proof -
  let ?r = "io_uring_submit ((snd sr)\<lparr>rc_time := 0\<rparr>)"
  have g0: "good p (rc_cq ?r) (fst sr, ?r)" using assms(1) by (simp add: good_submit)
  obtain cq1 r1 where k: "kernel_steps (wr_events wr) (rc_cq ?r, ?r) = (cq1, r1)" by fastforce
  have g1: "good p cq1 (fst sr, r1)" using good_kernel [OF g0 k] .
  show ?thesis
  proof (cases "wr_failed wr")
    case True
    then show ?thesis using assms(2) k g1 by (auto simp: reactor_loop_once_def Let_def)
  next
    case False
    then obtain left s2 r2 where l: "cqe_loop own step (wr_during wr) cq1 0 (fst sr, r1) = Some (n, left, s2, r2)"
      and sr': "sr' = (s2, r2\<lparr>rc_cq := left\<rparr>)"
      using assms(2) k by (auto simp: reactor_loop_once_def Let_def split: bind_splits)
    show ?thesis using good_cqe_loop [OF g1 l] by (simp add: sr')
  qed
qed

text \<open>The whole run of the loop.\<close>

lemma good_loop:
  assumes "good p (rc_cq (snd sr)) sr" and "reactor_loop own step wrs tot sr = Some (n, sr')"
  shows "good p (rc_cq (snd sr')) sr'"
  using assms
proof (induction wrs arbitrary: tot sr)
  case Nil
  then show ?case by simp
next
  case (Cons wr wrs)
  show ?case
  proof (cases "rc_active (snd sr)")
    case False
    then show ?thesis using Cons.prems by auto
  next
    case True
    then obtain n1 sr1 where o: "reactor_loop_once own step wr sr = Some (n1, sr1)"
      and rest: "reactor_loop own step wrs (tot + n1) sr1 = Some (n, sr')"
      using Cons.prems(2) by (auto split: bind_splits if_splits)
    show ?thesis using Cons.IH [OF _ rest] good_loop_once [OF Cons.prems(1) o] by auto
  qed
qed

end

end
