(* ===== verification/Reactor_Rounds.thy ===== *)
theory Reactor_Rounds
  imports Stream Reactor_Loop
begin

text \<open>
  What every program on the event loop shares: streams change nothing but the events of their own descriptor,
  a round in which one descriptor becomes readable, registering descriptors, and starting the reactor.
\<close>

subsection \<open>Streams touch nothing but their own socket and events\<close>

definition stream_quiet :: "'b world \<times> 'b stream \<Rightarrow> 'b world \<times> 'b stream \<Rightarrow> bool" where
  "stream_quiet ws ws' \<longleftrightarrow> stream_fd (snd ws') = stream_fd (snd ws) \<and>
     (\<forall>j. j \<noteq> stream_fd (snd ws) \<longrightarrow> w_sock (fst ws') j = w_sock (fst ws) j) \<and>
     (\<exists>cs. w_calls (fst ws') = w_calls (fst ws) @ cs \<and> set cs \<subseteq> range (Reactor_Modify (stream_fd (snd ws))))"

lemma quiet_refl [simp]: "stream_quiet ws ws"
  by (simp add: stream_quiet_def)

lemma quiet_trans: "stream_quiet ws ws1 \<Longrightarrow> stream_quiet ws1 ws2 \<Longrightarrow> stream_quiet ws ws2"
  by (fastforce simp: stream_quiet_def)

lemma quiet_same:
  "w_calls (fst ws') = w_calls (fst ws) \<Longrightarrow> stream_fd (snd ws') = stream_fd (snd ws) \<Longrightarrow>
   (\<And>j. j \<noteq> stream_fd (snd ws) \<Longrightarrow> w_sock (fst ws') j = w_sock (fst ws) j) \<Longrightarrow> stream_quiet ws ws'"
  by (simp add: stream_quiet_def)

lemma quiet_update: "stream_quiet ws (stream_socket_update ws)"
  by (cases ws)
    (auto simp: stream_quiet_def stream_socket_update_def on_desc_def descriptor_mask_def stream_fd_def Let_def)

lemma quiet_on_input: "on_input f ws = Some ws' \<Longrightarrow> stream_quiet ws ws'"
  by (auto simp: on_input_def stream_fd_def intro!: quiet_same)

lemma quiet_on_output: "on_output f ws = Some ws' \<Longrightarrow> stream_quiet ws ws'"
  by (auto simp: on_output_def stream_fd_def intro!: quiet_same)

lemma quiet_socket_write: "stream_socket_write ws = Some ws' \<Longrightarrow> stream_quiet ws ws'"
  by (cases ws)
    (auto simp: stream_socket_write_def set_sock_def on_output_def stream_fd_def Let_def
      split: bind_splits intro!: quiet_same)

lemma quiet_flush: "stream_flush ws = Some ws' \<Longrightarrow> stream_quiet ws ws'"
  by (auto simp: stream_flush_def intro: quiet_trans [OF quiet_socket_write quiet_update])

lemma quiet_socket_read: "stream_socket_read ok ws = Some (n, ws') \<Longrightarrow> stream_quiet ws ws'"
  by (cases ws)
    (auto simp: stream_socket_read_def set_sock_def stream_fd_def Let_def intro!: quiet_same)

lemma quiet_socket_callback: "stream_socket_callback ok e ws = Some (ev, ws') \<Longrightarrow> stream_quiet ws ws'"
proof (cases e)
  case Descriptor_Write
  assume "stream_socket_callback ok e ws = Some (ev, ws')"
  then obtain w st st' where w: "stream_socket_write ws = Some (w, st)"
    and ws': "ws' = stream_socket_update (w, st')" "stream_fd st' = stream_fd st"
    using Descriptor_Write by (auto simp: stream_socket_callback_def stream_fd_def split: if_splits)
  have "stream_quiet (w, st) (w, st')" using ws'(2) by (simp add: stream_quiet_def)
  then show ?thesis
    using quiet_trans [OF quiet_socket_write [OF w] quiet_trans [OF _ quiet_update]] ws'(1) by blast
qed (auto simp: stream_socket_callback_def intro: quiet_socket_read)

subsection \<open>A round of the loop\<close>

lemma quiet_calls_keep:
  assumes "reactor_ok own cq r" and "reactor_slot_find fd r = Some s" and "run_calls own cs r = Some r'"
    and "set cs \<subseteq> insert (Poll_Resubmit fd) (range (Reactor_Modify fd))"
  shows "rc_fds r' = rc_fds r" and "used_slots r' = used_slots r"
proof -
  have "rc_fds r' = rc_fds r \<and> used_slots r' = used_slots r"
    using assms
  proof (induction cs arbitrary: r)
    case Nil
    then show ?case by simp
  next
    case (Cons c cs)
    then obtain r1 where r1: "run_call own c r = Some r1" "run_calls own cs r1 = Some r'"
      by (auto split: bind_splits)
    have keep: "keeps_table r r1 \<and> reactor_ok own cq r1"
    proof (cases "c = Poll_Resubmit fd")
      case True
      then show ?thesis using resubmit_registered [OF Cons.prems(1,2)] r1(1) by auto
    next
      case False
      then obtain m where "c = Reactor_Modify fd m" using Cons.prems(4) by auto
      then show ?thesis using modify_registered [OF Cons.prems(1,2), of "own fd" m] r1(1) by auto
    qed
    have fds: "rc_fds r1 = rc_fds r" using keep by (simp add: keeps_table_def)
    have used: "used_slots r1 = used_slots r" by (rule keeps_tableD(3)) (use keep in simp)
    from fds have "reactor_slot_find fd r1 = Some s" using Cons.prems(2) by (simp add: find_valid)
    moreover have "set cs \<subseteq> insert (Poll_Resubmit fd) (range (Reactor_Modify fd))" using Cons.prems(4) by simp
    ultimately have "rc_fds r' = rc_fds r1 \<and> used_slots r' = used_slots r1" using Cons.IH [of r1] keep r1(2) by blast
    then show ?case by (simp add: fds used)
  qed
  then show "rc_fds r' = rc_fds r" "used_slots r' = used_slots r" by simp_all
qed

lemma run_call_cq: "run_call own c r = Some r' \<Longrightarrow> rc_cq r' = rc_cq r"
  by (cases c)
    (auto simp: reactor_add_def reactor_modify_def reactor_delete_def reactor_poll_resubmit_def
      reactor_slot_acquire_def reactor_poll_submit_fd_def Let_def
      split: bind_splits if_splits option.splits)

lemma submit_ops: "set (rc_ops r) \<subseteq> set (rc_ops (io_uring_submit r))"
  by (auto simp: io_uring_submit_def split: list.splits bool.splits)

lemma poll_submit_ops: "reactor_poll_submit_fd s fd r = Some r' \<Longrightarrow> set (rc_ops r) \<subseteq> set (rc_ops r')"
  using submit_ops [of r]
  by (auto simp: reactor_poll_submit_fd_def put_sqe_def Let_def split: bind_splits if_splits)

lemma acquire_ops: "reactor_slot_acquire r = Some (a, r') \<Longrightarrow> rc_ops r' = rc_ops r"
  by (auto simp: reactor_slot_acquire_def split: bind_splits option.splits)

lemma add_ops: "reactor_add h fd m r = Some r' \<Longrightarrow> set (rc_ops r) \<subseteq> set (rc_ops r')"
  by (auto simp: reactor_add_def Let_def dest!: acquire_ops poll_submit_ops split: bind_splits if_splits option.splits
      intro!: subsetD [OF submit_ops]) blast

lemma run_call_ops: "run_call own c r = Some r' \<Longrightarrow> set (rc_ops r) \<subseteq> set (rc_ops r')"
proof (cases c)
  case (Reactor_Modify fd m)
  assume "run_call own c r = Some r'"
  then show ?thesis
    using Reactor_Modify
    by (auto simp: reactor_modify_def Let_def dest!: poll_submit_ops add_ops dest: subsetD split: bind_splits if_splits option.splits)
next
  case (Poll_Resubmit fd)
  assume "run_call own c r = Some r'"
  then show ?thesis
    using Poll_Resubmit
    by (auto simp: reactor_poll_resubmit_def dest!: poll_submit_ops split: bind_splits if_splits option.splits)
qed (auto simp: reactor_delete_def put_sqe_def Let_def dest!: add_ops split: bind_splits if_splits option.splits)

lemma run_call_active: "run_call own c r = Some r' \<Longrightarrow> rc_active r' = rc_active r"
  by (cases c)
    (auto simp: reactor_add_def reactor_modify_def reactor_delete_def reactor_poll_resubmit_def
      reactor_slot_acquire_def reactor_poll_submit_fd_def Let_def
      split: bind_splits if_splits option.splits)

lemma run_calls_active: "run_calls own cs r = Some r' \<Longrightarrow> rc_active r' = rc_active r"
  using run_all_invariant [of cs "\<lambda>r'. rc_active r' = rc_active r" "run_call own" r r'] run_call_active by metis

lemma run_calls_cq: "run_calls own cs r = Some r' \<Longrightarrow> rc_cq r' = rc_cq r"
  using run_all_invariant [of cs "\<lambda>r'. rc_cq r' = rc_cq r" "run_call own" r r'] run_call_cq by metis

text \<open>Only the program makes a reactor active; a signal makes it inactive.\<close>

lemma take_completion_active: "take_completion u r = Some (h, r') \<Longrightarrow> rc_active r' = rc_active r"
  by (auto simp: take_completion_def Let_def split: option.splits bind_splits if_splits)

lemma handle_cqe_active:
  "handle_cqe own d c sr = Some (b, sr') \<Longrightarrow> rc_active (snd sr') = rc_active (snd sr)"
  by (auto simp: handle_cqe_def reactor_dispatch_def dest!: take_completion_active run_calls_active
      split: bind_splits option.splits)

lemma kernel_steps_active:
  "kernel_steps evs (cq, r) = (cq', r') \<Longrightarrow>
     (rc_active r' \<longrightarrow> rc_active r) \<and> (Term_signal \<in> set evs \<longrightarrow> \<not> rc_active r')"
proof (induction evs arbitrary: cq r)
  case Nil
  then show ?case by (simp add: kernel_steps_def)
next
  case (Cons ev evs)
  obtain cq1 r1 where k: "kernel_step ev (cq, r) = (cq1, r1)" by fastforce
  have "(rc_active r1 \<longrightarrow> rc_active r) \<and> (ev = Term_signal \<longrightarrow> \<not> rc_active r1)"
    using k by (cases ev) (auto simp: kernel_step_def split: if_splits)
  then show ?case using Cons.IH [of cq1 r1] Cons.prems k by (auto simp: kernel_steps_def)
qed

lemma cqe_loop_active:
  "cqe_loop own d evs cq n sr = Some (n', left, sr') \<Longrightarrow> rc_active (snd sr') \<Longrightarrow> rc_active (snd sr)"
proof (induction own d evs cq n sr rule: cqe_loop.induct)
  case (1 own d evs n sr)
  then show ?case by simp
next
  case (2 own d c cs n sr)
  obtain b sr1 where h: "handle_cqe own d c sr = Some (b, sr1)" using "2.prems"(1) by (auto split: bind_splits)
  show ?case
    using "2.IH" [OF h refl] "2.prems" h handle_cqe_active [OF h] by (auto split: if_splits)
next
  case (3 own d ev evs c cs n sr)
  obtain b s1 r1 where h: "handle_cqe own d c sr = Some (b, s1, r1)" using "3.prems"(1) by (auto split: bind_splits)
  obtain cs2 r2 where k: "kernel_steps ev (cs, r1) = (cs2, r2)" by fastforce
  have "rc_active r2 \<longrightarrow> rc_active (snd sr)" using handle_cqe_active [OF h] kernel_steps_active [OF k] by auto
  then show ?case
    using "3.IH" [OF h refl refl k [symmetric] refl] "3.prems" h k by (auto split: if_splits)
qed

lemma loop_once_signal:
  assumes "reactor_loop_once own d wr sr = Some (n, sr')" and "Term_signal \<in> set (wr_events wr)"
  shows "\<not> rc_active (snd sr')"
proof -
  obtain cq r where k: "kernel_steps (wr_events wr) (rc_cq (io_uring_submit ((snd sr)\<lparr>rc_time := 0\<rparr>)),
      io_uring_submit ((snd sr)\<lparr>rc_time := 0\<rparr>)) = (cq, r)" by fastforce
  have "\<not> rc_active r" using kernel_steps_active [OF k] assms(2) by simp
  moreover have "rc_active (snd sr') \<Longrightarrow> rc_active r"
  proof (cases "wr_failed wr")
    case False
    then obtain left s2 r2 where "cqe_loop own d (wr_during wr) cq 0 (fst sr, r) = Some (n, left, s2, r2)"
      and "sr' = (s2, r2\<lparr>rc_cq := left\<rparr>)"
      using assms(1) k by (auto simp: reactor_loop_once_def Let_def split: bind_splits)
    then show "rc_active (snd sr') \<Longrightarrow> rc_active r" using cqe_loop_active by fastforce
  qed (use assms(1) k in \<open>auto simp: reactor_loop_once_def Let_def\<close>)
  ultimately show ?thesis by blast
qed

text \<open>The kernel completes the first outstanding poll of a descriptor: it became readable.\<close>

definition poll_index :: "int \<Rightarrow> 'h reactor \<Rightarrow> nat" where
  "poll_index fd r =
     length (takeWhile (\<lambda>e. sqe_user_data e \<noteq> reactor_slot_find fd r) (rc_ops (io_uring_submit r)))"

definition readable_round :: "int \<Rightarrow> 'h reactor \<Rightarrow> wait_round" where
  "readable_round fd r = \<lparr>wr_events = [Completes (poll_index fd r) 1], wr_failed = False, wr_during = []\<rparr>"

lemma submit_time [simp]:
  "io_uring_submit (r\<lparr>rc_time := t\<rparr>) = (io_uring_submit r)\<lparr>rc_time := t\<rparr>"
  by (auto simp: io_uring_submit_def split: list.splits bool.splits)

lemma first_index:
  "\<exists>x \<in> set xs. P x \<Longrightarrow>
     length (takeWhile (\<lambda>x. \<not> P x) xs) < length xs \<and> P (xs ! length (takeWhile (\<lambda>x. \<not> P x) xs))"
  by (induction xs) auto

text \<open>A registered, polled descriptor that becomes readable runs its handler, and nothing else.\<close>

lemma readable_round_runs:
  assumes ok: "reactor_ok own [] r" and pol: "polled UNIV r" and cq: "rc_cq r = []"
    and taken: "all_taken r" and fd: "reactor_slot_find fd r = Some sl" and st: "step (own fd) 1 s = Some (s', cs)"
  shows "\<exists>r3 r4. reactor_loop_once own step (readable_round fd r) (s, r) = Some (1, s', r4\<lparr>rc_cq := []\<rparr>) \<and>
    reactor_ok own [] r3 \<and> rc_fds r3 = rc_fds r \<and> used_slots r3 = used_slots r \<and> rc_active r3 = rc_active r \<and>
    run_calls own cs r3 = Some r4 \<and> rc_active r4 = rc_active r"
proof -
  let ?r1 = "io_uring_submit (r\<lparr>rc_time := 0\<rparr>)" and ?i = "poll_index fd r"
  have f: "valid_fd fd" "rc_fds r (nat fd) = Some sl" using fd by (auto simp: find_valid)
  have ok1: "reactor_ok own [] ?r1" "rc_fds ?r1 = rc_fds r" "rc_cq ?r1 = []" "rc_active ?r1 = rc_active r"
    using ok cq by (simp_all add: submit_reactor_ok)
  have ops: "rc_ops ?r1 = rc_ops (io_uring_submit r)" by simp
  have sq: "rc_sq (io_uring_submit r) = []" using submit_taken [OF taken] by simp
  have "Some sl \<in># outstanding [] (io_uring_submit r)"
    using polled_outstanding [OF ok pol _ f(2)] by simp
  then have "\<exists>e \<in> set (rc_ops (io_uring_submit r)). sqe_user_data e = Some sl"
    using sq by (auto simp: outstanding_def)
  then have i: "?i < length (rc_ops ?r1)" "sqe_user_data (rc_ops ?r1 ! ?i) = Some sl"
    unfolding ops poll_index_def fd
    using first_index [of "rc_ops (io_uring_submit r)" "\<lambda>e. sqe_user_data e = Some sl"] by simp_all
  obtain r2 where k: "kernel_steps [Completes ?i 1] ([], ?r1) = ([(Some sl, 1)], r2)" "rc_active r2 = rc_active r"
    using i ok1(4) by (simp add: kernel_steps_def kernel_step_def)
  have ok2: "reactor_ok own [(Some sl, 1)] r2" "rc_fds r2 = rc_fds r" "used_slots r2 = used_slots r"
    using kernel_steps_ok [OF ok1(1) k(1), of UNIV] ok1(2) by (auto simp: used_slots_def)
  obtain h r3 where t: "take_completion (Some sl) r2 = Some (h, r3)" "reactor_ok own [] r3" "rc_fds r3 = rc_fds r2"
    "used_slots r3 = used_slots r2" "\<forall>fd. rc_fds r2 fd = Some sl \<longrightarrow> Some sl \<noteq> None \<longrightarrow> h = Some (own (int fd))"
    using take_completion_ok [OF ok2(1)] by (elim exE conjE) (rule that)
  have h: "h = Some (own fd)" using t(5) f ok2(2) by (auto simp: valid_fd_def)
  have a3: "rc_active r3 = rc_active r"
    using t(1) k(2) by (auto simp: take_completion_def Let_def split: bind_splits if_splits)
  obtain r4 where r4: "run_calls own cs r3 = Some r4" "rc_active r4 = rc_active r3"
    using run_calls_ok [OF t(2), of cs UNIV] by blast
  have "handle_cqe own step (Some sl, 1) (s, r2) = Some (True, s', r4)"
    using t(1) h st r4(1) by (simp add: handle_cqe_def reactor_dispatch_def)
  then have "reactor_loop_once own step (readable_round fd r) (s, r) = Some (1, s', r4\<lparr>rc_cq := []\<rparr>)"
    using k(1) ok1(3)
    by (simp add: reactor_loop_once_def readable_round_def Let_def REACTOR_CQE_BATCH_def del: submit_time)
  then show ?thesis using t(2-4) ok2(2,3) a3 r4 by auto
qed

text \<open>A reactor on which the descriptors \<open>fds\<close> are served.\<close>

definition reactor_serves :: "int list \<Rightarrow> int reactor \<Rightarrow> bool" where
  "reactor_serves fds r \<longleftrightarrow> reactor_ok id [] r \<and> all_taken r \<and> polled UNIV r \<and> rc_cq r = [] \<and>
     (\<forall>fd \<in> set fds. reactor_slot_find fd r \<noteq> None)"

lemma serves_same:
  assumes "reactor_serves fds r" and "reactor_ok id [] r'" and "all_taken r'" and "polled UNIV r'"
    and "rc_cq r' = []" and "rc_fds r' = rc_fds r"
  shows "reactor_serves fds r'"
proof -
  have "reactor_slot_find fd r' = reactor_slot_find fd r" for fd by (simp add: reactor_slot_find_def assms(6))
  then show ?thesis using assms by (simp add: reactor_serves_def)
qed

subsection \<open>Registering\<close>

lemma settled_resubmit: "Poll_Resubmit (int fd) \<in> set cs \<Longrightarrow> fd < REACTOR_MAX_FDS \<Longrightarrow> fd \<in> settled cs"
  unfolding settled_def by (rule UN_I [of "Poll_Resubmit (int fd)"]) (simp_all add: valid_fd_def)

text \<open>As many registrations as there are free slots succeed.\<close>

lemma adds_register:
  assumes "reactor_ok own cq r" and "card (used_slots r) + length fds \<le> REACTOR_RING_ENTRIES"
    and "list_all valid_fd fds"
  shows "\<exists>r'. run_calls own (map (\<lambda>fd. Reactor_Add fd m) fds) r = Some r' \<and> reactor_ok own cq r' \<and>
    card (used_slots r') \<le> card (used_slots r) + length fds \<and>
    (\<forall>f. reactor_slot_find f r \<noteq> None \<or> f \<in> set fds \<longrightarrow> reactor_slot_find f r' \<noteq> None)"
  using assms
proof (induction fds arbitrary: r)
  case Nil
  then show ?case by simp
next
  case (Cons fd fds)
  have free: "\<not> all_used r"
  proof
    assume "all_used r"
    then have "card (used_slots r) = REACTOR_RING_ENTRIES" by (simp add: all_used_def)
    then show False using Cons.prems(2) by simp
  qed
  have v: "valid_fd fd" using Cons.prems(3) by simp
  obtain r1 s where r1: "reactor_add (own fd) fd m r = Some r1" "reactor_ok own cq r1"
    "rc_fds r1 = (rc_fds r)(nat fd := Some s)" "used_slots r1 = insert s (used_slots r)" "s \<notin> used_slots r"
    using add_registers [OF Cons.prems(1) v free, of m UNIV] by (elim exE conjE) (rule that)
  have card1: "card (used_slots r1) = Suc (card (used_slots r))" using r1(4,5) by simp
  have find1: "reactor_slot_find f r1 \<noteq> None" if "reactor_slot_find f r \<noteq> None \<or> f = fd" for f
    using that v r1(3) by (auto simp: reactor_slot_find_def valid_fd_def split: if_splits)
  obtain r2 where r2: "run_calls own (map (\<lambda>fd. Reactor_Add fd m) fds) r1 = Some r2" "reactor_ok own cq r2"
    "card (used_slots r2) \<le> card (used_slots r1) + length fds"
    "\<forall>f. reactor_slot_find f r1 \<noteq> None \<or> f \<in> set fds \<longrightarrow> reactor_slot_find f r2 \<noteq> None"
    using Cons.IH [OF r1(2)] Cons.prems(2,3) card1 by auto
  have "reactor_slot_find f r2 \<noteq> None" if "reactor_slot_find f r \<noteq> None \<or> f \<in> set (fd # fds)" for f
    using r2(4) find1 [of f] that by auto
  then show ?case using r1(1) r2 card1 by simp
qed

text \<open>
  For a program that honours the contract, when its handler changes nothing but the events of its own
  descriptor: the reactor stays in order, polled, and serves the same descriptors.
\<close>

context reactor_program
begin

lemma readable_round_good:
  assumes good: "good True [] (s, r)" and cq: "rc_cq r = []" and fd: "reactor_slot_find fd r = Some sl"
    and st: "step (own fd) 1 s = Some (s', ms @ [Poll_Resubmit fd])" and ms: "set ms \<subseteq> range (Reactor_Modify fd)"
  shows "\<exists>r'. reactor_loop_once own step (readable_round fd r) (s, r) = Some (1, s', r') \<and>
    good True [] (s', r') \<and> rc_cq r' = [] \<and> rc_fds r' = rc_fds r \<and> used_slots r' = used_slots r"
proof -
  have r: "reactor_ok own [] r" "polled UNIV r" "all_taken r" using good by (simp_all add: good_def)
  obtain r3 r4 where run: "reactor_loop_once own step (readable_round fd r) (s, r) = Some (1, s', r4\<lparr>rc_cq := []\<rparr>)"
    and r3: "reactor_ok own [] r3" "rc_fds r3 = rc_fds r" "used_slots r3 = used_slots r"
      "run_calls own (ms @ [Poll_Resubmit fd]) r3 = Some r4"
    using readable_round_runs [OF r(1,2) cq r(3) fd, of step s s' "ms @ [Poll_Resubmit fd]"] st by auto
  have "good True [] (s', r4\<lparr>rc_cq := []\<rparr>)" using good_loop_once [of True "(s, r)", OF _ run] good cq by simp
  moreover have "reactor_slot_find fd r3 = Some sl" using fd r3(2) by (simp add: find_valid)
  then have "rc_fds r4 = rc_fds r" "used_slots r4 = used_slots r"
    using quiet_calls_keep [OF r3(1) _ r3(4), of fd sl] ms r3(2,3) by auto
  ultimately show ?thesis using run by (intro exI [of _ "r4\<lparr>rc_cq := []\<rparr>"]) (simp add: used_slots_def)
qed

text \<open>When the handler registers descriptors as well, and there are slots for them, they are served too.\<close>

lemma adding_round_good:
  assumes good: "good True [] (s, r)" and cq: "rc_cq r = []" and fd: "reactor_slot_find fd r = Some sl"
    and st: "step (own fd) 1 s = Some (s', map (\<lambda>f. Reactor_Add f m) fds @ [Poll_Resubmit fd])"
    and room: "card (used_slots r) + length fds \<le> REACTOR_RING_ENTRIES" and valid: "list_all valid_fd fds"
  shows "\<exists>r'. reactor_loop_once own step (readable_round fd r) (s, r) = Some (1, s', r') \<and>
    good True [] (s', r') \<and> rc_cq r' = [] \<and> card (used_slots r') \<le> card (used_slots r) + length fds \<and>
    (\<forall>f. reactor_slot_find f r \<noteq> None \<or> f \<in> set fds \<longrightarrow> reactor_slot_find f r' \<noteq> None)"
proof -
  let ?adds = "map (\<lambda>f. Reactor_Add f m) fds"
  have r: "reactor_ok own [] r" "polled UNIV r" "all_taken r" using good by (simp_all add: good_def)
  obtain ra rb where run: "reactor_loop_once own step (readable_round fd r) (s, r) = Some (1, s', rb\<lparr>rc_cq := []\<rparr>)"
    and ra: "reactor_ok own [] ra" "rc_fds ra = rc_fds r" "used_slots ra = used_slots r"
      "run_calls own (?adds @ [Poll_Resubmit fd]) ra = Some rb"
    using readable_round_runs [where own = own and step = step, OF r(1,2) cq r(3) fd st] by (elim exE conjE) (rule that)
  obtain rc where rc: "run_calls own ?adds ra = Some rc" "reactor_ok own [] rc"
    "card (used_slots rc) \<le> card (used_slots ra) + length fds"
    "\<forall>f. reactor_slot_find f ra \<noteq> None \<or> f \<in> set fds \<longrightarrow> reactor_slot_find f rc \<noteq> None"
    using adds_register [OF ra(1) _ valid, of m] room by (auto simp: ra(3))
  have find_a: "reactor_slot_find f ra = reactor_slot_find f r" for f
    by (simp add: reactor_slot_find_def ra(2))
  obtain sc where sc: "reactor_slot_find fd rc = Some sc" using rc(4) fd find_a by fastforce
  have "run_calls own [Poll_Resubmit fd] rc = Some rb"
    using ra(4) rc(1) by (simp add: run_all_append)
  from quiet_calls_keep [OF rc(2) sc this]
  have rb: "rc_fds rb = rc_fds rc" "used_slots rb = used_slots rc" by simp_all
  have "good True [] (s', rb\<lparr>rc_cq := []\<rparr>)" using good_loop_once [of True "(s, r)", OF _ run] good cq by simp
  moreover have "reactor_slot_find f (rb\<lparr>rc_cq := []\<rparr>) = reactor_slot_find f rc" for f
    by (simp add: reactor_slot_find_def rb(1))
  moreover have "used_slots (rb\<lparr>rc_cq := []\<rparr>) = used_slots rc" using rb(2) by (simp add: used_slots_def)
  ultimately show ?thesis using run rc(3,4) ra(3) find_a by (intro exI [of _ "rb\<lparr>rc_cq := []\<rparr>"]) simp
qed

end

lemma construct_reactor:
  assumes "reactor_construct True rings [] = Some r"
  shows "reactor_ok own [] r" and "all_taken r" and "polled A r" and "rc_cq r = []" and "used_slots r = {}"
    and "rc_fds r fd = None" and "rc_active r"
proof -
  have r: "rc_active r" "rc_descriptors r = 0" "rc_fds r = (\<lambda>_. None)" "rc_sq r = []" "rc_ops r = []" "rc_cq r = []"
    "rc_takes r = []" "rc_slot_count r = REACTOR_RING_ENTRIES" "rc_next_free r = 0"
    "rc_slots r = replicate REACTOR_RING_ENTRIES \<lparr>sl_handler = None, sl_events = 0, sl_in_flight = 0\<rparr>"
    using assms by (auto simp: reactor_construct_def split: if_splits)
  show used: "used_slots r = {}" by (auto simp: used_slots_def r)
  have "outstanding [] r = {#}" by (simp add: outstanding_def r)
  then show "reactor_ok own [] r"
    by (simp add: reactor_ok_def slots_ok_def table_ok_def flight_ok_def used r)
  show "all_taken r" "polled A r" "rc_cq r = []" "rc_fds r fd = None" "rc_active r"
    by (simp_all add: all_taken_def polled_def r)
qed

subsection \<open>The queue of a listener\<close>

text \<open>
  What waits in the listener's queue: one list for every readiness event; connections beyond the cap stay
  in front of those that come next.
\<close>

definition next_clients :: "'a list list \<Rightarrow> 'a list" where
  "next_clients sc = (case sc of [] \<Rightarrow> [] | xs # _ \<Rightarrow> xs)"

definition put_back :: "'a list \<Rightarrow> 'a list list \<Rightarrow> 'a list list" where
  "put_back left sc = (case sc of [] \<Rightarrow> [left] | [_] \<Rightarrow> [left] | _ # ys # rest \<Rightarrow> (left @ ys) # rest)"

end
