(* ===== verification/Binary_Reactor.thy ===== *)
theory Binary_Reactor
  imports Binary_Server Reactor_Rounds
begin

text \<open>
  The binary server on the reactor: the completions of \<open>core.c\<close> reach the listener and the connections of
  \<open>binary_server.c\<close> through \<open>descriptor.c\<close>, and what they ask of the reactor is executed there. A handler
  is named by the number of its descriptor.
\<close>

subsection \<open>The packet loop is quiet\<close>

lemma quiet_round: "binary_conn_round ok unpack encode ws = Some (r, ws') \<Longrightarrow> stream_quiet ws ws'"
  by (auto simp: binary_conn_round_def Let_def stream_write_def stream_consume_def
      split: bind_splits if_splits option.splits
      intro: quiet_trans [OF quiet_on_output quiet_trans [OF quiet_flush quiet_on_input]])

lemma quiet_process: "binary_conn_process ok unpack encode ws = Some (r, ws') \<Longrightarrow> stream_quiet ws ws'"
proof (induction ok unpack encode ws arbitrary: r ws' rule: binary_conn_process.induct)
  case (1 ok unpack encode ws)
  obtain r1 ws1 where one: "binary_conn_round ok unpack encode ws = Some (r1, ws1)"
    using "1.prems" by (auto simp: binary_conn_process.simps [of ok unpack encode ws] split: option.splits)
  show ?case
  proof (cases "r1 = Pkt_next")
    case True
    then have "binary_conn_process ok unpack encode ws1 = Some (r, ws')"
      using "1.prems" one by (simp add: binary_conn_process.simps [of ok unpack encode ws])
    then show ?thesis using "1.IH" [OF one refl True] quiet_trans [OF quiet_round [OF one]] by blast
  next
    case False
    then show ?thesis
      using "1.prems" one quiet_round [OF one] by (simp add: binary_conn_process.simps [of ok unpack encode ws])
  qed
qed

subsection \<open>A completed poll of a connection\<close>

lemma put_conn_put [simp]: "put_conn i st' (put_conn i st bs) = put_conn i st' bs"
  by (simp add: put_conn_def comp_def case_prod_beta cong: if_cong)

lemma put_conn_keys [simp]: "map fst (bs_connections (put_conn i st bs)) = map fst (bs_connections bs)"
  by (simp add: put_conn_def comp_def case_prod_beta)

lemma put_conn_fields [simp]:
  "bs_descriptor (put_conn i st bs) = bs_descriptor bs" "bs_next (put_conn i st bs) = bs_next bs"
  "bs_is_open (put_conn i st bs) = bs_is_open bs"
  by (simp_all add: put_conn_def)

lemma put_conn_same:
  assumes "map_of (bs_connections bs) i = Some c" and "distinct (map fst (bs_connections bs))"
  shows "put_conn i (cn_stream c) bs = bs"
proof -
  have "d = c" if "(i, d) \<in> set (bs_connections bs)" for d
    using assms that by (metis map_of_is_SomeI option.inject)
  then have "map (\<lambda>(j, d). (j, if j = i then d\<lparr>cn_stream := cn_stream c\<rparr> else d)) (bs_connections bs) = bs_connections bs"
    by (intro map_idI) auto
  then show ?thesis by (simp add: put_conn_def)
qed

lemma put_conn_ok:
  assumes "binary_server_ok bs" and "map_of (bs_connections bs) i = Some c"
    and "stream_fd st = stream_fd (cn_stream c)"
  shows "binary_server_ok (put_conn i st bs)"
proof -
  have "0 \<le> stream_fd st"
    using assms by (auto simp: binary_server_ok_def list_all_iff dest!: map_of_SomeD)
  then have "list_all (\<lambda>(j, d). j < bs_next bs \<and> cn_active d \<and> 0 \<le> stream_fd (cn_stream d))
      (bs_connections (put_conn i st bs))"
    using assms(1) by (auto simp: binary_server_ok_def put_conn_def list_all_iff)
  then show ?thesis using assms(1) by (simp add: binary_server_ok_def del: map_map)
qed

text \<open>An event either frees the connection or changes its stream, quietly.\<close>

lemma conn_event_kept:
  assumes "conn_stream_event ok unpack encode i e (w, bs) = Some (w', bs')"
    and "map_of (bs_connections bs) i = Some c"
  shows "map_of (bs_connections bs') i = None \<or>
    (\<exists>st'. bs' = put_conn i st' bs \<and> stream_quiet (w, cn_stream c) (w', st'))"
proof -
  obtain ev w1 st1 where cb: "stream_socket_callback ok e (w, cn_stream c) = Some (ev, w1, st1)"
    and rest: "(case ev of None \<Rightarrow> Some (w1, put_conn i st1 bs)
      | Some ev \<Rightarrow> binary_conn_callback ok unpack encode i ev (w1, put_conn i st1 bs)) = Some (w', bs')"
    using assms by (auto simp: conn_stream_event_def Let_def split: bind_splits)
  have q1: "stream_quiet (w, cn_stream c) (w1, st1)" by (rule quiet_socket_callback [OF cb])
  have here: "map_of (bs_connections (put_conn i st bs)) i = Some (c\<lparr>cn_stream := st\<rparr>)" for st
    using assms(2) by (simp add: map_of_put)
  have closed: "map_of (bs_connections bs') i = None \<or> (w', bs') = (w2, put_conn i st bs)"
    if "binary_conn_close i (w2, put_conn i st bs) = Some (w', bs')" for w2 st
    using that here [of st]
    by (auto simp: binary_conn_close_def map_of_erase split: if_splits)
  show ?thesis
  proof (cases ev)
    case None
    then show ?thesis using rest q1 by auto
  next
    case (Some sev)
    show ?thesis
    proof (cases "sev = Stream_Read")
      case False
      then show ?thesis
        using rest Some closed [of w1 st1] q1 by (auto simp: binary_conn_callback_def)
    next
      case True
      obtain r w2 st2 where p: "binary_conn_process ok unpack encode (w1, st1) = Some (r, w2, st2)"
        and fin: "(if r = Pkt_close then binary_conn_close i (w2, put_conn i st2 bs)
          else Some (w2, put_conn i st2 bs)) = Some (w', bs')"
        using rest Some True here [of st1]
        by (auto simp: binary_conn_callback_def Let_def split: bind_splits)
      have "stream_quiet (w, cn_stream c) (w2, st2)" using quiet_trans [OF q1 quiet_process [OF p]] .
      then show ?thesis using fin closed [of w2 st2] by (auto split: if_splits)
    qed
  qed
qed

text \<open>The descriptor's callback on a connection, step by step, as long as the connection is there.\<close>

definition conn_kept :: "nat \<Rightarrow> binary_conn \<Rightarrow> bstate \<Rightarrow> bstate \<Rightarrow> bool" where
  "conn_kept i c wb wb' \<longleftrightarrow>
     (\<exists>st'. snd wb' = put_conn i st' (snd wb) \<and> stream_quiet (fst wb, cn_stream c) (fst wb', st'))"

lemma conn_dispatch_kept:
  assumes "dispatch_if b (\<lambda>wb. map_option (\<lambda>c. st_desc (cn_stream c)) (map_of (bs_connections (snd wb)) i))
      (conn_stream_event ok unpack encode i) e wb1 = Some wb2"
    and "map_of (bs_connections (snd wb)) i = Some c"
    and "map_of (bs_connections (snd wb1)) i = None \<or> conn_kept i c wb wb1"
  shows "map_of (bs_connections (snd wb2)) i = None \<or> conn_kept i c wb wb2"
proof (cases b)
  case False
  then show ?thesis using assms by (simp add: dispatch_if_def)
next
  case True
  then have there: "map_of (bs_connections (snd wb1)) i \<noteq> None"
    and ev: "conn_stream_event ok unpack encode i e wb1 = Some wb2"
    using assms(1) by (auto simp: dispatch_if_def split: option.splits)
  then obtain st1 where st1: "snd wb1 = put_conn i st1 (snd wb)" "stream_quiet (fst wb, cn_stream c) (fst wb1, st1)"
    using assms(3) by (auto simp: conn_kept_def)
  have c1: "map_of (bs_connections (snd wb1)) i = Some (c\<lparr>cn_stream := st1\<rparr>)"
    using st1(1) assms(2) by (simp add: map_of_put)
  have "map_of (bs_connections (snd wb2)) i = None \<or>
      (\<exists>st'. snd wb2 = put_conn i st' (snd wb1) \<and> stream_quiet (fst wb1, st1) (fst wb2, st'))"
    using conn_event_kept [of ok unpack encode i e "fst wb1" "snd wb1" "fst wb2" "snd wb2", OF _ c1] ev by simp
  then show ?thesis
  proof
    assume "\<exists>st'. snd wb2 = put_conn i st' (snd wb1) \<and> stream_quiet (fst wb1, st1) (fst wb2, st')"
    then obtain st' where "snd wb2 = put_conn i st' (snd wb)" "stream_quiet (fst wb1, st1) (fst wb2, st')"
      using st1(1) by auto
    then show ?thesis using quiet_trans [OF st1(2)] by (auto simp: conn_kept_def)
  qed simp
qed

lemma conn_poll_kept:
  assumes "conn_poll ok unpack encode i m wb = Some wb'" and "map_of (bs_connections (snd wb)) i = Some c"
    and "distinct (map fst (bs_connections (snd wb)))" and "0 \<le> stream_fd (cn_stream c)"
  shows "\<exists>st' cs. snd wb' = put_conn i st' (snd wb) \<and> stream_fd st' = stream_fd (cn_stream c) \<and>
    w_calls (fst wb') = w_calls (fst wb) @ cs @ [Poll_Resubmit (stream_fd (cn_stream c))] \<and>
    set cs \<subseteq> range (Reactor_Modify (stream_fd (cn_stream c)))"
proof -
  let ?desc = "\<lambda>wb. map_option (\<lambda>c. st_desc (cn_stream c)) (map_of (bs_connections (snd wb)) i)"
  let ?h = "conn_stream_event ok unpack encode i"
  obtain wb1 wb2 wb3 d where
    d1: "dispatch_if (m AND POLLIN \<noteq> 0) ?desc ?h Descriptor_Read wb = Some wb1" and
    d2: "dispatch_if (m AND POLLOUT \<noteq> 0) ?desc ?h Descriptor_Write wb1 = Some wb2" and
    d3: "dispatch_if (m AND NOT (POLLIN OR POLLOUT) \<noteq> 0) ?desc ?h Descriptor_Close wb2 = Some wb3" and
    d: "?desc wb3 = Some d" "wb' = (if d_fd d \<ge> 0 then add_call (Poll_Resubmit (d_fd d)) wb3 else wb3)"
    using assms(1) by (auto simp: conn_poll_def descriptor_callback_def split: bind_splits option.splits)
  have k0: "conn_kept i c wb wb"
    using put_conn_same [OF assms(2,3)] quiet_refl unfolding conn_kept_def by (metis surjective_pairing)
  note k1 = conn_dispatch_kept [OF d1 assms(2) disjI2 [OF k0]]
  note k2 = conn_dispatch_kept [OF d2 assms(2) k1]
  have "conn_kept i c wb wb3" using conn_dispatch_kept [OF d3 assms(2) k2] d(1) by auto
  then obtain st' where st': "snd wb3 = put_conn i st' (snd wb)" "stream_quiet (fst wb, cn_stream c) (fst wb3, st')"
    by (auto simp: conn_kept_def)
  have fd: "d_fd d = stream_fd (cn_stream c)"
    using d(1) st' assms(2) by (auto simp: map_of_put stream_quiet_def stream_fd_def)
  show ?thesis
    using st' d(2) fd assms(4) by (auto simp: add_call_def stream_quiet_def)
qed

subsection \<open>The server's program\<close>

type_synonym bloop = "bstate \<times> accepted list list"

text \<open>The listener's handler, which looks at no event, under \<open>descriptor_callback\<close>.\<close>

definition listener_event :: "(nat \<Rightarrow> bool) \<Rightarrow> descriptor_event \<Rightarrow> bloop \<Rightarrow> bloop option" where
  "listener_event ok e s =
     map_option (\<lambda>(left, wb). (wb, put_back left (snd s)))
       (binary_listener_callback ok (next_clients (snd s)) (fst s))"

definition listener_poll :: "(nat \<Rightarrow> bool) \<Rightarrow> u32 \<Rightarrow> bloop \<Rightarrow> bloop option" where
  "listener_poll ok =
     descriptor_callback (\<lambda>s. Some (bs_descriptor (snd (fst s)))) (listener_event ok)
       (\<lambda>c s. (add_call c (fst s), snd s))"

definition conn_of_fd :: "int \<Rightarrow> binary_server \<Rightarrow> nat option" where
  "conn_of_fd fd bs =
     map_option fst (find (\<lambda>(i, c). stream_fd (cn_stream c) = fd) (bs_connections bs))"

definition no_calls :: "bstate \<Rightarrow> bstate" where
  "no_calls wb = ((fst wb)\<lparr>w_calls := []\<rparr>, snd wb)"

text \<open>
  A completion for the descriptor \<open>fd\<close>: it belongs to the listener or to a connection; a handler in an
  object that is gone is undefined.
\<close>

definition binary_step ::
  "(nat \<Rightarrow> bool) \<Rightarrow> (byte list \<Rightarrow> mp_object option) \<Rightarrow> (pack_call \<Rightarrow> byte list) \<Rightarrow> (int, bloop) dispatch" where
  "binary_step ok unpack encode fd m s =
     map_option (\<lambda>s'. (s', w_calls (fst (fst s'))))
       (if fd = d_fd (bs_descriptor (snd (fst s))) then listener_poll ok m (no_calls (fst s), snd s)
        else case conn_of_fd fd (snd (fst s)) of
          None \<Rightarrow> None
        | Some i \<Rightarrow> map_option (\<lambda>wb. (wb, snd s)) (conn_poll ok unpack encode i m (no_calls (fst s))))"

text \<open>The numbers \<open>accept4\<close> returns are not negative.\<close>

definition bloop_ok :: "bloop \<Rightarrow> bool" where
  "bloop_ok s \<longleftrightarrow> binary_server_ok (snd (fst s)) \<and> list_all (list_all (\<lambda>a. 0 \<le> a_fd a)) (snd s)"

subsection \<open>The listener\<close>

definition add_conn :: "byte stream \<Rightarrow> binary_server \<Rightarrow> binary_server" where
  "add_conn st bs =
     bs\<lparr>bs_connections := bs_connections bs @ [(bs_next bs, \<lparr>cn_stream = st, cn_active = True\<rparr>)],
        bs_next := Suc (bs_next bs)\<rparr>"

lemma add_conn_ok: "binary_server_ok bs \<Longrightarrow> 0 \<le> stream_fd st \<Longrightarrow> binary_server_ok (add_conn st bs)"
  by (fastforce simp: binary_server_ok_def add_conn_def list_all_iff)

lemma conn_open_adds:
  assumes "binary_conn_open ok a (w, bs) = Some (w', bs')"
  shows "bs' = bs \<or> (\<exists>st. bs' = add_conn st bs \<and> stream_fd st = a_fd a)"
  using assms
  by (auto simp: binary_conn_open_def add_call_def stream_open_def stream_socket_open_def on_desc_def
      descriptor_open_def Let_def stream_fd_def add_conn_def split: bind_splits if_splits option.splits)

lemma conn_open_ok:
  assumes "binary_conn_open ok a (w, bs) = Some (w', bs')" and "binary_server_ok bs" and "0 \<le> a_fd a"
  shows "binary_server_ok bs' \<and> bs_descriptor bs' = bs_descriptor bs"
  using conn_open_adds [OF assms(1)] assms(2,3) by (auto intro!: add_conn_ok) (auto simp: add_conn_def)

lemma accept_loop_ok:
  assumes "accept_loop ok n script wb = Some (left, wb')" and "binary_server_ok (snd wb)"
    and "list_all (\<lambda>a. 0 \<le> a_fd a) script"
  shows "binary_server_ok (snd wb') \<and> bs_descriptor (snd wb') = bs_descriptor (snd wb) \<and>
    list_all (\<lambda>a. 0 \<le> a_fd a) left"
  using assms
proof (induction ok n script wb rule: accept_loop.induct)
  case (3 ok n a script wb)
  obtain wb1 where o: "binary_conn_open ok a wb = Some wb1" and rest: "accept_loop ok n script wb1 = Some (left, wb')"
    using "3.prems"(1) by (auto split: bind_splits)
  have "binary_server_ok (snd wb1) \<and> bs_descriptor (snd wb1) = bs_descriptor (snd wb)"
    using conn_open_ok [of ok a "fst wb" "snd wb" "fst wb1" "snd wb1"] o "3.prems"(2,3) by simp
  then show ?case using "3.IH" [OF o rest] "3.prems"(3) by simp
qed auto

lemma listener_event_ok:
  assumes "listener_event ok e s = Some s'" and "bloop_ok s"
  shows "bloop_ok s' \<and> bs_descriptor (snd (fst s')) = bs_descriptor (snd (fst s))"
proof -
  obtain left wb where a: "accept_loop ok 32 (next_clients (snd s)) (fst s) = Some (left, wb)"
    "s' = (wb, put_back left (snd s))"
    using assms(1) by (auto simp: listener_event_def binary_listener_callback_def)
  have "list_all (\<lambda>a. 0 \<le> a_fd a) (next_clients (snd s))"
    using assms(2) by (auto simp: bloop_ok_def next_clients_def split: list.splits)
  then show ?thesis
    using accept_loop_ok [OF a(1)] assms(2) a(2)
    by (auto simp: bloop_ok_def put_back_def split: list.splits)
qed

lemma listener_dispatch_ok:
  assumes "dispatch_if b (\<lambda>s. Some (bs_descriptor (snd (fst s)))) (listener_event ok) e s = Some s'" and "bloop_ok s"
  shows "bloop_ok s' \<and> bs_descriptor (snd (fst s')) = bs_descriptor (snd (fst s))"
  using assms listener_event_ok [of ok e s s'] by (auto simp: dispatch_if_def split: if_splits)

lemma listener_poll_ok:
  assumes "listener_poll ok m s = Some s'" and "bloop_ok s"
  shows "bloop_ok s' \<and> bs_descriptor (snd (fst s')) = bs_descriptor (snd (fst s)) \<and>
    (0 \<le> d_fd (bs_descriptor (snd (fst s))) \<longrightarrow>
       Poll_Resubmit (d_fd (bs_descriptor (snd (fst s)))) \<in> set (w_calls (fst (fst s'))))"
proof -
  let ?desc = "\<lambda>s :: bloop. Some (bs_descriptor (snd (fst s)))"
  obtain s1 s2 s3 where
    d1: "dispatch_if (m AND POLLIN \<noteq> 0) ?desc (listener_event ok) Descriptor_Read s = Some s1" and
    d2: "dispatch_if (m AND POLLOUT \<noteq> 0) ?desc (listener_event ok) Descriptor_Write s1 = Some s2" and
    d3: "dispatch_if (m AND NOT (POLLIN OR POLLOUT) \<noteq> 0) ?desc (listener_event ok) Descriptor_Close s2 = Some s3" and
    s': "s' = (if d_fd (bs_descriptor (snd (fst s3))) \<ge> 0
      then (add_call (Poll_Resubmit (d_fd (bs_descriptor (snd (fst s3))))) (fst s3), snd s3) else s3)"
    using assms(1) by (auto simp: listener_poll_def descriptor_callback_def split: bind_splits)
  note k1 = listener_dispatch_ok [OF d1 assms(2)]
  note k2 = listener_dispatch_ok [OF d2 conjunct1 [OF k1]]
  note k3 = listener_dispatch_ok [OF d3 conjunct1 [OF k2]]
  show ?thesis using k1 k2 k3 s' by (auto simp: add_call_def bloop_ok_def)
qed

subsection \<open>The contract\<close>

lemma conn_of_fd_Some:
  assumes "conn_of_fd fd bs = Some i" and "binary_server_ok bs"
  shows "\<exists>c. map_of (bs_connections bs) i = Some c \<and> stream_fd (cn_stream c) = fd \<and>
    distinct (map fst (bs_connections bs)) \<and> 0 \<le> fd"
proof -
  obtain c where f: "find (\<lambda>(i, c). stream_fd (cn_stream c) = fd) (bs_connections bs) = Some (i, c)"
    using assms(1) by (auto simp: conn_of_fd_def)
  have c: "(i, c) \<in> set (bs_connections bs)" "stream_fd (cn_stream c) = fd"
    using f nth_mem by (fastforce simp: find_Some_iff)+
  then show ?thesis using assms(2) by (auto simp: binary_server_ok_def list_all_iff)
qed

lemma step_conn:
  assumes "binary_step ok unpack encode fd m s = Some (s', cs)" and "bloop_ok s"
    and "fd \<noteq> d_fd (bs_descriptor (snd (fst s)))"
  shows "\<exists>i c st' ms. conn_of_fd fd (snd (fst s)) = Some i \<and> map_of (bs_connections (snd (fst s))) i = Some c \<and>
    stream_fd (cn_stream c) = fd \<and> snd (fst s') = put_conn i st' (snd (fst s)) \<and> stream_fd st' = fd \<and>
    snd s' = snd s \<and> cs = ms @ [Poll_Resubmit fd] \<and> set ms \<subseteq> range (Reactor_Modify fd)"
proof -
  obtain i wb' where i: "conn_of_fd fd (snd (fst s)) = Some i"
    and p: "conn_poll ok unpack encode i m (no_calls (fst s)) = Some wb'"
    and s': "s' = (wb', snd s)" "cs = w_calls (fst wb')"
    using assms(1,3) by (auto simp: binary_step_def split: option.splits)
  obtain c where c: "map_of (bs_connections (snd (fst s))) i = Some c" "stream_fd (cn_stream c) = fd"
    "distinct (map fst (bs_connections (snd (fst s))))" "0 \<le> fd"
    using conn_of_fd_Some [OF i] assms(2) by (auto simp: bloop_ok_def)
  show ?thesis
    using conn_poll_kept [OF p] i c s' by (auto simp: no_calls_def)
qed

lemma step_keeps:
  assumes "bloop_ok s" and "binary_step ok unpack encode fd m s = Some (s', cs)"
  shows "bloop_ok s' \<and> (0 \<le> fd \<longrightarrow> Poll_Resubmit fd \<in> set cs)"
proof (cases "fd = d_fd (bs_descriptor (snd (fst s)))")
  case True
  then obtain l where l: "listener_poll ok m (no_calls (fst s), snd s) = Some s'" "cs = w_calls (fst (fst s'))"
    using assms(2) by (auto simp: binary_step_def)
  have "bloop_ok (no_calls (fst s), snd s)" using assms(1) by (simp add: bloop_ok_def no_calls_def)
  then show ?thesis using listener_poll_ok [OF l(1)] l(2) True by (auto simp: no_calls_def)
next
  case False
  then show ?thesis
    using step_conn [OF assms(2,1) False] assms(1) by (auto simp: bloop_ok_def intro!: put_conn_ok)
qed

interpretation binary_loop: reactor_program id "binary_step ok unpack encode" bloop_ok for ok unpack encode
proof unfold_locales
  show "bloop_ok s'" if "bloop_ok s" "binary_step ok unpack encode h m s = Some (s', cs)" for s h m s' cs
    using step_keeps [OF that] by simp
  show "fd \<in> settled cs"
    if "bloop_ok s" "binary_step ok unpack encode (id (int fd)) m s = Some (s', cs)" "fd < REACTOR_MAX_FDS"
    for s fd m s' cs
    using step_keeps [of s ok unpack encode "int fd" m s' cs] that by (auto intro: settled_resubmit)
qed

end
