(* ===== verification/Reactor_Serving.thy ===== *)
theory Reactor_Serving
  imports Binary_Reactor
begin

text \<open>
  Clients of the binary server, served through the event loop: accepting them, and answering the bytes
  each of them sends, whatever the order in which they send.
\<close>

subsection \<open>One completed poll of a readable connection\<close>

lemma read_others:
  assumes "stream_socket_read ok (w, st) = Some (n, w', st')" and "j \<noteq> stream_fd st"
  shows "w_sock w' j = w_sock w j"
  using assms by (auto simp: stream_socket_read_def set_sock_def Let_def)

lemma conn_poll_reads:
  assumes "map_of (bs_connections bs) i = Some c" and "stream_view fd (w, cn_stream c) ins outs"
    and "k_recv (w_sock w fd) = [Some chunk, None]" and "length chunk \<le> read_size"
    and "length ins + length chunk + read_size \<le> 2 ^ 62"
    and "drain (parse_packet unpack encode) ins = ([], ins, False)"
    and "drain (parse_packet unpack encode) (ins @ chunk) = (rs, rest, False)" and "None \<notin> set rs"
    and "length outs + length (concat (map the rs)) \<le> 2 ^ 62"
  shows "\<exists>w' st'. conn_poll (\<lambda>_. True) unpack encode i 1 (w, bs) = Some (w', put_conn i st' bs) \<and>
    stream_view fd (w', st') rest (outs @ concat (map the rs)) \<and> (\<forall>j. j \<noteq> fd \<longrightarrow> w_sock w' j = w_sock w j)"
proof -
  have fd: "stream_fd (cn_stream c) = fd" "0 \<le> fd" using assms(2) by (auto simp: stream_view_def)
  obtain w1 st1 where r: "stream_socket_read (\<lambda>_. True) (w, cn_stream c) = Some (length chunk, w1, st1)"
    "stream_view fd (w1, st1) (ins @ chunk) outs"
    using read_chunk_run [OF assms(2-5)] by auto
  have o1: "w_sock w1 j = w_sock w j" if "j \<noteq> fd" for j using read_others [OF r(1)] that fd(1) by simp
  have here: "map_of (bs_connections (put_conn i st bs)) i = Some (c\<lparr>cn_stream := st\<rparr>)" for st
    using assms(1) by (simp add: map_of_put)
  have poll: "conn_poll (\<lambda>_. True) unpack encode i 1 (w, bs) =
      Some (w2\<lparr>w_calls := w_calls w2 @ [Poll_Resubmit fd]\<rparr>, put_conn i st2 bs)"
    if "conn_stream_event (\<lambda>_. True) unpack encode i Descriptor_Read (w, bs) = Some (w2, put_conn i st2 bs)"
      "stream_view fd (w2, st2) xs ys" for w2 st2 xs ys
    using that assms(1) here [of st2]
    by (auto simp: conn_poll_def descriptor_callback_def dispatch_if_def add_call_def stream_view_def stream_fd_def)
  have view: "stream_view fd (w2\<lparr>w_calls := cs\<rparr>, st2) xs ys" if "stream_view fd (w2, st2) xs ys" for w2 cs st2 xs ys
    using that by (simp add: stream_view_def)
  show ?thesis
  proof (cases "chunk = []")
    case True
    then have d: "rs = []" "rest = ins" using assms(6,7) by auto
    have ev: "conn_stream_event (\<lambda>_. True) unpack encode i Descriptor_Read (w, bs) = Some (w1, put_conn i st1 bs)"
      using assms(1) r(1) True by (simp add: conn_stream_event_def stream_socket_callback_def)
    show ?thesis using poll [OF ev r(2)] view [OF r(2)] o1 True d by fastforce
  next
    case False
    obtain w2 st2 where p: "binary_conn_process (\<lambda>_. True) unpack encode (w1, st1) = Some (Pkt_wait, w2, st2)"
      "stream_view fd (w2, st2) rest (outs @ concat (map the rs))" "same_others fd (w1, st1) (w2, st2)"
      using process_refines [OF r(2) assms(7-9)] by auto
    have ev: "conn_stream_event (\<lambda>_. True) unpack encode i Descriptor_Read (w, bs) = Some (w2, put_conn i st2 bs)"
      using assms(1) r(1) p(1) here [of st1] False
      by (simp add: conn_stream_event_def stream_socket_callback_def binary_conn_callback_def Let_def)
    have o2: "w_sock w2 j = w_sock w j" if "j \<noteq> fd" for j
      using o1 p(3) that by (simp add: same_others_def)
    show ?thesis using poll [OF ev p(2)] view [OF p(2)] o2 by fastforce
  qed
qed

subsection \<open>Clients\<close>

text \<open>The bytes of a client arrive: its socket has them for one \<open>recv\<close>, and its poll completes.\<close>

definition client_sends :: "int \<Rightarrow> byte list \<Rightarrow> bloop \<Rightarrow> bloop" where
  "client_sends fd chunk s =
     (case s of ((w, bs), sc) \<Rightarrow>
        ((set_sock fd ((w_sock w fd)\<lparr>k_recv := [Some chunk, None]\<rparr>) w, bs), sc))"

definition arrival ::
  "(byte list \<Rightarrow> mp_object option) \<Rightarrow> (pack_call \<Rightarrow> byte list) \<Rightarrow> int \<times> byte list \<Rightarrow>
     bloop \<times> int reactor \<Rightarrow> (bloop \<times> int reactor) option" where
  "arrival unpack encode a sr =
     map_option snd (reactor_loop_once id (binary_step (\<lambda>_. True) unpack encode)
       (readable_round (fst a) (snd sr)) (client_sends (fst a) (snd a) (fst sr), snd sr))"

text \<open>
  The server serves the clients \<open>fds\<close>: each has a registered connection, of whose bytes \<open>ins\<close> are not yet
  answered, because they wait for more, and to which \<open>outs\<close> were written.
\<close>

definition serving ::
  "(byte list \<Rightarrow> byte list option parsed) \<Rightarrow> (int \<Rightarrow> byte list) \<Rightarrow> (int \<Rightarrow> byte list) \<Rightarrow> bloop \<Rightarrow> bool" where
  "serving parse ins outs s \<longleftrightarrow> bloop_ok s \<and> distinct (conn_fds (snd (fst s))) \<and>
     d_fd (bs_descriptor (snd (fst s))) \<notin> set (conn_fds (snd (fst s))) \<and>
     (\<forall>i c. (i, c) \<in> set (bs_connections (snd (fst s))) \<longrightarrow>
        stream_view (stream_fd (cn_stream c)) (fst (fst s), cn_stream c)
          (ins (stream_fd (cn_stream c))) (outs (stream_fd (cn_stream c)))) \<and>
     (\<forall>fd. drain parse (ins fd) = ([], ins fd, False))"

lemma put_conn_fds [simp]:
  assumes "map_of (bs_connections bs) i = Some c" and "distinct (map fst (bs_connections bs))"
    and "stream_fd st = stream_fd (cn_stream c)"
  shows "conn_fds (put_conn i st bs) = conn_fds bs"
proof -
  have "d = c" if "(i, d) \<in> set (bs_connections bs)" for d
    using assms that by (metis map_of_is_SomeI option.inject)
  then show ?thesis using assms(3) by (auto simp: conn_fds_def put_conn_def)
qed

lemma conn_of_fd_distinct:
  assumes "(i, c) \<in> set (bs_connections bs)" and "distinct (conn_fds bs)"
  shows "conn_of_fd (stream_fd (cn_stream c)) bs = Some i"
proof -
  obtain j d where f: "find (\<lambda>(j, d). stream_fd (cn_stream d) = stream_fd (cn_stream c)) (bs_connections bs) = Some (j, d)"
    using assms(1) by (cases "find (\<lambda>(j, d). stream_fd (cn_stream d) = stream_fd (cn_stream c)) (bs_connections bs)")
      (auto simp: find_None_iff)
  then have "(j, d) \<in> set (bs_connections bs)" "stream_fd (cn_stream d) = stream_fd (cn_stream c)"
    using nth_mem by (fastforce simp: find_Some_iff)+
  then have "(j, d) = (i, c)"
    using inj_onD [of "\<lambda>(i, c). stream_fd (cn_stream c)" "set (bs_connections bs)" "(j, d)" "(i, c)"] assms
    by (simp add: conn_fds_def distinct_map)
  then show ?thesis using f by (simp add: conn_of_fd_def)
qed

text \<open>One arrival is answered with what the drain answers; the other clients see nothing of it.\<close>

lemma arrival_serves:
  assumes serv: "serving (parse_packet unpack encode) ins outs s" and re: "reactor_serves fds r"
    and fds: "fds = conn_fds (snd (fst s))" and fd: "fd \<in> set fds" and chunk: "length chunk \<le> read_size"
    and len: "length (ins fd) + length chunk + read_size \<le> 2 ^ 62"
    and d: "drain (parse_packet unpack encode) (ins fd @ chunk) = (rs, rest, False)" "None \<notin> set rs"
    and out: "length (outs fd) + length (concat (map the rs)) \<le> 2 ^ 62"
  shows "\<exists>s' r'. arrival unpack encode (fd, chunk) (s, r) = Some (s', r') \<and> reactor_serves fds r' \<and>
    fds = conn_fds (snd (fst s')) \<and>
    serving (parse_packet unpack encode) (ins(fd := rest)) (outs(fd := outs fd @ concat (map the rs))) s'"
proof -
  obtain w bs sc where s: "s = ((w, bs), sc)" by (metis surj_pair)
  have ok: "binary_server_ok bs" "bloop_ok s" and dist: "distinct (conn_fds bs)"
    and lis: "d_fd (bs_descriptor bs) \<notin> set (conn_fds bs)"
    and views: "\<And>i c. (i, c) \<in> set (bs_connections bs) \<Longrightarrow> stream_view (stream_fd (cn_stream c)) (w, cn_stream c)
        (ins (stream_fd (cn_stream c))) (outs (stream_fd (cn_stream c)))"
    and waits: "\<And>fd. drain (parse_packet unpack encode) (ins fd) = ([], ins fd, False)"
    using serv by (auto simp: serving_def s bloop_ok_def)
  obtain i c where ic: "(i, c) \<in> set (bs_connections bs)" "stream_fd (cn_stream c) = fd"
    using fd fds by (auto simp: s conn_fds_def)
  have keys: "distinct (map fst (bs_connections bs))" using ok(1) by (simp add: binary_server_ok_def)
  have c: "map_of (bs_connections bs) i = Some c" using ic(1) keys by simp
  let ?w = "(set_sock fd ((w_sock w fd)\<lparr>k_recv := [Some chunk, None]\<rparr>) w)\<lparr>w_calls := []\<rparr>"
  have "stream_view fd (?w, cn_stream c) (ins fd) (outs fd)"
    using views [OF ic(1)] ic(2) by (simp add: stream_view_def set_sock_def)
  moreover have "k_recv (w_sock ?w fd) = [Some chunk, None]" by (simp add: set_sock_def)
  ultimately obtain w' st' where p: "conn_poll (\<lambda>_. True) unpack encode i 1 (?w, bs) = Some (w', put_conn i st' bs)"
    "stream_view fd (w', st') rest (outs fd @ concat (map the rs))" "\<forall>j. j \<noteq> fd \<longrightarrow> w_sock w' j = w_sock ?w j"
    using conn_poll_reads [OF c _ _ chunk len waits d out] by blast
  have fd': "stream_fd st' = stream_fd (cn_stream c)" using p(2) ic(2) by (simp add: stream_view_def)
  let ?s1 = "client_sends fd chunk s" and ?s' = "((w', put_conn i st' bs), sc)"
  have lfd: "fd \<noteq> d_fd (bs_descriptor bs)" using lis ic by (force simp: conn_fds_def)
  have step: "binary_step (\<lambda>_. True) unpack encode fd 1 ?s1 = Some (?s', w_calls w')"
    using p(1) lfd conn_of_fd_distinct [OF ic(1) dist] ic(2)
    by (simp add: binary_step_def client_sends_def s no_calls_def)
  have ok1: "bloop_ok ?s1" using ok(2) by (simp add: bloop_ok_def client_sends_def s)
  obtain ms where ms: "w_calls w' = ms @ [Poll_Resubmit fd]" "set ms \<subseteq> range (Reactor_Modify fd)"
    using step_conn [OF step ok1] lfd by (auto simp: client_sends_def s)
  obtain sl where sl: "reactor_slot_find fd r = Some sl" using re fd by (auto simp: reactor_serves_def)
  have r: "reactor_ok id [] r" "polled UNIV r" "rc_cq r = []" "all_taken r"
    using re by (auto simp: reactor_serves_def)
  have good: "binary_loop.good True [] (?s1, r)" using ok1 r by (simp add: binary_loop.good_def)
  have "binary_step (\<lambda>_. True) unpack encode (id fd) 1 ?s1 = Some (?s', ms @ [Poll_Resubmit fd])"
    using step ms(1) by simp
  from binary_loop.readable_round_good [OF good r(3) sl this ms(2)]
  obtain r' where run: "reactor_loop_once id (binary_step (\<lambda>_. True) unpack encode) (readable_round fd r) (?s1, r) =
      Some (1, ?s', r')"
    and good': "binary_loop.good True [] (?s', r')" and r': "rc_cq r' = []" "rc_fds r' = rc_fds r" by blast
  have re': "reactor_serves fds r'"
    using good' r' by (intro serves_same [OF re]) (simp_all add: binary_loop.good_def)
  have fds': "conn_fds (put_conn i st' bs) = conn_fds bs" by (rule put_conn_fds [OF c keys fd'])
  have views': "stream_view (stream_fd (cn_stream d)) (w', cn_stream d)
      ((ins(fd := rest)) (stream_fd (cn_stream d)))
      ((outs(fd := outs fd @ concat (map the rs))) (stream_fd (cn_stream d)))"
    if "(j, d) \<in> set (bs_connections (put_conn i st' bs))" for j d
  proof (cases "j = i")
    case True
    then have "cn_stream d = st'" using that by (auto simp: put_conn_def split: if_splits)
    then show ?thesis using p(2) fd' ic(2) by simp
  next
    case False
    then have jd: "(j, d) \<in> set (bs_connections bs)" using that by (auto simp: put_conn_def)
    have ne: "stream_fd (cn_stream d) \<noteq> fd"
      using conn_of_fd_distinct [OF jd dist] conn_of_fd_distinct [OF ic(1) dist] ic(2) False by auto
    then show ?thesis
      using views [OF jd] p(3) by (simp add: stream_view_def set_sock_def)
  qed
  have waits': "drain (parse_packet unpack encode) rest = ([], rest, False)"
    using binary_parser.drain_rest_waits [OF d(1)] .
  have "serving (parse_packet unpack encode) (ins(fd := rest)) (outs(fd := outs fd @ concat (map the rs))) ?s'"
    using good' dist lis fds' views' waits waits'
    by (auto simp: serving_def binary_loop.good_def)
  then show ?thesis
    using run re' fds fds' by (auto simp: arrival_def s)
qed

text \<open>What the client on \<open>fd\<close> sends, of all that arrives.\<close>

definition sent_by :: "int \<Rightarrow> (int \<times> byte list) list \<Rightarrow> byte list" where
  "sent_by fd as = concat (map snd (filter (\<lambda>a. fst a = fd) as))"

lemma sent_by_simps [simp]:
  "sent_by fd [] = []" "sent_by fd (a # as) = (if fst a = fd then snd a @ sent_by fd as else sent_by fd as)"
  by (simp_all add: sent_by_def)

lemma arrivals_serve:
  assumes "serving (parse_packet unpack encode) ins outs s" and "reactor_serves fds r"
    and "fds = conn_fds (snd (fst s))" and "\<forall>(fd, chunk) \<in> set as. fd \<in> set fds \<and> length chunk \<le> read_size"
    and "\<And>fd. length (ins fd) + length (sent_by fd as) + read_size \<le> 2 ^ 62"
    and "\<And>fd. drain (parse_packet unpack encode) (ins fd @ sent_by fd as) = (rs fd, rest fd, False)"
    and "\<And>fd. None \<notin> set (rs fd)" and "\<And>fd. length (outs fd) + length (concat (map the (rs fd))) \<le> 2 ^ 62"
  shows "\<exists>s' r'. run_all (arrival unpack encode) as (s, r) = Some (s', r') \<and> reactor_serves fds r' \<and>
    fds = conn_fds (snd (fst s')) \<and>
    serving (parse_packet unpack encode) rest (\<lambda>fd. outs fd @ concat (map the (rs fd))) s'"
  using assms
proof (induction as arbitrary: ins outs s r rs)
  case Nil
  have "drain (parse_packet unpack encode) (ins fd) = ([], ins fd, False)" for fd
    using Nil.prems(1) by (simp add: serving_def)
  then have "rs fd = []" "rest fd = ins fd" for fd using Nil.prems(6) [of fd] by simp_all
  then have "rs = (\<lambda>_. [])" "rest = ins" by auto
  then show ?case using Nil.prems(1-3) by simp
next
  case (Cons a as)
  let ?parse = "parse_packet unpack encode"
  obtain fd chunk where a: "a = (fd, chunk)" by (cases a)
  obtain rs1 rest1 bad1 where d1: "drain ?parse (ins fd @ chunk) = (rs1, rest1, bad1)"
    by (cases "drain ?parse (ins fd @ chunk)")
  have whole: "drain ?parse ((ins fd @ chunk) @ sent_by fd as) = (rs fd, rest fd, False)"
    using Cons.prems(6) [of fd] a by simp
  then have bad1: "\<not> bad1" using binary_parser.drain_append [of unpack encode "ins fd @ chunk" "sent_by fd as"] d1
    by (auto split: if_splits)
  obtain rs2 where rs2: "drain ?parse (rest1 @ sent_by fd as) = (rs2, rest fd, False)" "rs fd = rs1 @ rs2"
    using binary_parser.drain_append [of unpack encode "ins fd @ chunk" "sent_by fd as"] whole d1 bad1
    by (auto split: prod.splits)
  have some: "None \<notin> set rs1" "None \<notin> set rs2" using Cons.prems(7) [of fd] rs2(2) by auto
  have lens: "length (ins fd) + length chunk + read_size \<le> 2 ^ 62"
    "length (outs fd) + length (concat (map the rs1)) \<le> 2 ^ 62"
    using Cons.prems(5,8) [of fd] by (simp_all add: a rs2(2))
  obtain s1 r1 where one: "arrival unpack encode (fd, chunk) (s, r) = Some (s1, r1)" "reactor_serves fds r1"
    "fds = conn_fds (snd (fst s1))"
    "serving ?parse (ins(fd := rest1)) (outs(fd := outs fd @ concat (map the rs1))) s1"
    using arrival_serves [OF Cons.prems(1-3), of fd chunk rs1 rest1] Cons.prems(4) lens d1 bad1 some(1)
    by (auto simp: a)
  have "length rest1 \<le> length (ins fd) + length chunk"
    using drain_length [of ?parse "ins fd @ chunk"] d1 by simp
  then have len': "length ((ins(fd := rest1)) f) + length (sent_by f as) + read_size \<le> 2 ^ 62" for f
    using Cons.prems(5) [of f] by (simp add: a split: if_splits)
  have dr': "drain ?parse ((ins(fd := rest1)) f @ sent_by f as) = ((rs(fd := rs2)) f, rest f, False)" for f
    using Cons.prems(6) [of f] rs2(1) by (simp add: a split: if_splits)
  have some': "None \<notin> set ((rs(fd := rs2)) f)" for f using some(2) Cons.prems(7) [of f] by simp
  have out': "length ((outs(fd := outs fd @ concat (map the rs1))) f) + length (concat (map the ((rs(fd := rs2)) f)))
      \<le> 2 ^ 62" for f
    using Cons.prems(8) [of f] by (cases "f = fd") (simp_all add: rs2(2))
  have same: "(\<lambda>f. (outs(fd := outs fd @ concat (map the rs1))) f @ concat (map the ((rs(fd := rs2)) f))) =
      (\<lambda>f. outs f @ concat (map the (rs f)))"
    by (auto simp: rs2(2))
  have later: "\<forall>(fd, chunk) \<in> set as. fd \<in> set fds \<and> length chunk \<le> read_size" using Cons.prems(4) by simp
  show ?case
    using Cons.IH [OF one(4,2,3) later len' dr' some' out', unfolded same] one(1) by (simp add: a)
qed

subsection \<open>Accepting\<close>

text \<open>A client: a valid new descriptor on a socket nothing was sent to, and memory for the connection.\<close>

definition fresh_client :: "byte world \<Rightarrow> accepted \<Rightarrow> bool" where
  "fresh_client w a \<longleftrightarrow> a_memory a \<and> a_fstat a \<noteq> None \<and> valid_fd (a_fd a) \<and>
     k_sent (w_sock w (a_fd a)) = [] \<and> Send_error \<notin> set (k_send (w_sock w (a_fd a)))"

definition fresh_views :: "byte world \<Rightarrow> binary_server \<Rightarrow> bool" where
  "fresh_views w bs \<longleftrightarrow> (\<forall>i c. (i, c) \<in> set (bs_connections bs) \<longrightarrow>
     stream_view (stream_fd (cn_stream c)) (w, cn_stream c) [] [])"

lemma conn_open_views:
  assumes "fresh_client w a" and "fresh_views w bs"
  shows "\<exists>w' bs'. binary_conn_open (\<lambda>_. True) a (w, bs) = Some (w', bs') \<and> w_sock w' = w_sock w \<and> fresh_views w' bs'"
proof -
  obtain b where b: "a_memory a" "a_fstat a = Some b" "0 \<le> a_fd a"
    "k_sent (w_sock w (a_fd a)) = []" "Send_error \<notin> set (k_send (w_sock w (a_fd a)))"
    using assms(1) by (auto simp: fresh_client_def valid_fd_def)
  let ?k = "w_sock w (a_fd a)"
  have "?k = \<lparr>k_recv = k_recv ?k, k_send = k_send ?k, k_sent = []\<rparr>" using b(4) by simp
  then obtain w' st where o: "Option.bind (stream_construct (\<lambda>_. True) w) (stream_open (Some b) (a_fd a) STREAM_READ) = Some (w', st)"
    "stream_view (a_fd a) (w', st) [] []" "w_sock w' = w_sock w"
    using construct_open_run [OF b(3) _ b(5), of w "k_recv ?k" STREAM_READ b] by auto
  then obtain ws where ws: "stream_construct (\<lambda>_. True) w = Some ws" "stream_open (Some b) (a_fd a) STREAM_READ ws = Some (w', st)"
    by (auto split: bind_splits)
  have run: "binary_conn_open (\<lambda>_. True) a (w, bs) = Some (w', add_conn st bs)"
    using ws b(1,2) by (simp add: binary_conn_open_def add_conn_def)
  have "stream_view fd (w', st') xs ys = stream_view fd (w, st') xs ys" for fd st' and xs ys :: "byte list"
    using o(3) by (simp add: stream_view_def)
  moreover have "stream_fd st = a_fd a" using o(2) by (simp add: stream_view_def)
  ultimately have "fresh_views w' (add_conn st bs)"
    using assms(2) o(2) by (auto simp: fresh_views_def add_conn_def)
  then show ?thesis using run o(3) by blast
qed

lemma accept_views:
  assumes "accept_loop (\<lambda>_. True) n script (w, bs) = Some (left, w', bs')"
    and "list_all (fresh_client w) script" and "fresh_views w bs"
  shows "fresh_views w' bs'"
  using assms
proof (induction n arbitrary: script w bs)
  case 0
  then show ?case by simp
next
  case (Suc n)
  show ?case
  proof (cases script)
    case Nil
    then show ?thesis using Suc.prems by simp
  next
    case (Cons a rest)
    obtain w1 bs1 where o: "binary_conn_open (\<lambda>_. True) a (w, bs) = Some (w1, bs1)" "w_sock w1 = w_sock w" "fresh_views w1 bs1"
      using conn_open_views [of w a bs] Suc.prems(2,3) Cons by auto
    have "fresh_client w1 = fresh_client w" by (simp add: fun_eq_iff fresh_client_def o(2))
    then have "list_all (fresh_client w1) rest" using Suc.prems(2) Cons by simp
    then show ?thesis using Suc.IH [of rest w1 bs1] Suc.prems(1) Cons o(1,3) by simp
  qed
qed

end
