(* ===== verification/Reactor_Properties.thy ===== *)
theory Reactor_Properties
  imports Reactor_Serving Binary_Properties
begin

text \<open>
  The properties of the event loop, and of the binary server running on it.
\<close>

subsection \<open>Starting the server\<close>

text \<open>
  A worker of the binary server before its loop: the reactor is constructed, the listener opened, and the
  clients \<open>sc\<close> will come.
\<close>

definition worker_start :: "int \<Rightarrow> byte world \<Rightarrow> nat \<Rightarrow> accepted list list \<Rightarrow> (bloop \<times> int reactor) option" where
  "worker_start fd w i sc =
     do { r \<leftarrow> reactor_construct True (True, False) [];
          let wb = binary_server_open fd (no_calls (w, binary_server_construct i));
          r \<leftarrow> run_calls id (w_calls (fst wb)) r;
          Some ((wb, sc), r) }"

lemma start_run:
  assumes "valid_fd fd"
  shows "\<exists>w' r. worker_start fd w i sc = Some (((w', (binary_server_construct i)\<lparr>bs_descriptor := \<lparr>d_fd = fd, d_mask = 1\<rparr>,
      bs_is_open := True\<rparr>), sc), r) \<and> w_sock w' = w_sock w \<and>
    reactor_ok id [] r \<and> all_taken r \<and> polled UNIV r \<and> rc_cq r = [] \<and> card (used_slots r) \<le> 1 \<and>
    reactor_slot_find fd r \<noteq> None"
proof -
  obtain r0 :: "int reactor" where c: "reactor_construct True (True, False) [] = Some r0"
    by (auto simp: reactor_construct_def)
  note r0 = construct_reactor [OF c]
  have "card (used_slots r0) + length [fd] \<le> REACTOR_RING_ENTRIES"
    by (simp add: r0(5) REACTOR_RING_ENTRIES_def)
  then obtain r1 where r1: "run_calls id (map (\<lambda>fd. Reactor_Add fd POLLIN) [fd]) r0 = Some r1" "reactor_ok id [] r1"
    "card (used_slots r1) \<le> card (used_slots r0) + length [fd]"
    "\<forall>f. reactor_slot_find f r0 \<noteq> None \<or> f \<in> set [fd] \<longrightarrow> reactor_slot_find f r1 \<noteq> None"
    using adds_register [OF r0(1), where fds = "[fd]" and m = POLLIN and own = id] assms by auto
  have pol: "all_taken r1" "polled UNIV r1"
    using run_calls_ok [OF r0(1), where own = id and cs = "map (\<lambda>fd. Reactor_Add fd POLLIN) [fd]" and A = UNIV]
      r1(1) r0(2) r0(3) [of UNIV] by auto
  have cq: "rc_cq r1 = []" using run_calls_cq [OF r1(1)] r0(4) by simp
  let ?w = "w\<lparr>w_calls := [Reactor_Add fd POLLIN]\<rparr>"
  have "worker_start fd w i sc = Some (((?w, (binary_server_construct i)\<lparr>bs_descriptor := \<lparr>d_fd = fd, d_mask = 1\<rparr>,
      bs_is_open := True\<rparr>), sc), r1)"
    using c r1(1)
    by (simp add: worker_start_def binary_server_open_def on_listener_def descriptor_open_def no_calls_def
        binary_server_construct_def zeroed_binary_server_def descriptor_construct_def descriptor_events_def Let_def
        split: bind_splits)
  then show ?thesis using r1(2-4) pol cq r0(5) by auto
qed

text \<open>The listener's poll accepts the clients and registers each of them.\<close>

lemma listener_accepts:
  assumes "list_all (fresh_client w) clients" and "length clients \<le> 32" and "bs_connections bs = []"
    and "d_fd (bs_descriptor bs) = fd" and "0 \<le> fd"
  shows "\<exists>w' bs'. binary_step (\<lambda>_. True) unpack encode fd 1 ((w, bs), [clients]) =
      Some (((w', bs'), [[]]),
        map (\<lambda>fd. Reactor_Add fd POLLIN) (map a_fd clients) @ [Poll_Resubmit fd]) \<and>
    conn_fds bs' = map a_fd clients \<and> fresh_views w' bs' \<and> d_fd (bs_descriptor bs') = fd"
proof -
  let ?w = "w\<lparr>w_calls := []\<rparr>"
  have ok: "binary_server_ok bs" using assms(3) by (simp add: binary_server_ok_def)
  have fresh: "list_all (\<lambda>a. a_memory a \<and> a_fstat a \<noteq> None \<and> 0 \<le> a_fd a) clients"
    using assms(1) by (auto simp: list_all_iff fresh_client_def valid_fd_def)
  obtain w' bs' where acc: "accept_loop (\<lambda>_. True) 32 clients (?w, bs) = Some (drop 32 clients, w', bs')"
    "conn_fds bs' = conn_fds bs @ map a_fd (take 32 clients)"
    "w_calls w' = w_calls ?w @ map (\<lambda>a. Reactor_Add (a_fd a) POLLIN) (take 32 clients)" "binary_server_ok bs'"
    using accept_loop_run [OF fresh ok, of 32 ?w] by (elim exE conjE) (rule that)
  have "fresh_client ?w = fresh_client w" by (simp add: fun_eq_iff fresh_client_def)
  then have views: "fresh_views w' bs'"
    using accept_views [OF acc(1)] assms(1,3) by (simp add: fresh_views_def)
  have desc: "bs_descriptor bs' = bs_descriptor bs"
    using accept_loop_ok [OF acc(1)] ok fresh by (simp add: list_all_iff)
  have ev: "listener_event (\<lambda>_. True) Descriptor_Read ((?w, bs), [clients]) = Some ((w', bs'), [[]])"
    using acc(1) assms(2) by (simp add: listener_event_def binary_listener_callback_def next_clients_def put_back_def)
  have "binary_step (\<lambda>_. True) unpack encode fd 1 ((w, bs), [clients]) =
      Some (((w'\<lparr>w_calls := w_calls w' @ [Poll_Resubmit fd]\<rparr>, bs'), [[]]), w_calls w' @ [Poll_Resubmit fd])"
    using ev assms(4,5) desc
    by (simp add: binary_step_def listener_poll_def descriptor_callback_def dispatch_if_def no_calls_def add_call_def)
  moreover have "fresh_views (w'\<lparr>w_calls := w_calls w' @ [Poll_Resubmit fd]\<rparr>) bs'"
    using views by (simp add: fresh_views_def stream_view_def)
  ultimately show ?thesis
    using acc(2,3) assms(2-4) desc by (auto simp: conn_fds_def comp_def)
qed

subsection \<open>Properties\<close>

text \<open>
  C2. The binary server on its reactor, from the construction on: it accepts up to 32 clients in one readiness
  event, and then answers every client, in whatever order and however cut the bytes of the clients
  arrive: each client is sent exactly the answers to its own complete packets, and what it sent
  of the next packet is kept.
\<close>

theorem clients_are_served:
  assumes "valid_fd fd" and "list_all (fresh_client w) clients" and "length clients \<le> 32"
    and "distinct (fd # map a_fd clients)"
    and "\<forall>(f, chunk) \<in> set as. f \<in> a_fd ` set clients \<and> length chunk \<le> read_size"
    and "\<And>f. drain (parse_packet unpack encode) (sent_by f as) = (rs f, rest f, False)"
    and "\<And>f. None \<notin> set (rs f)" and "\<And>f. length (concat (map the (rs f))) \<le> 2 ^ 62"
    and "\<And>f. length (sent_by f as) + read_size \<le> 2 ^ 62"
  shows "\<exists>s1 r1 s2 r2 w3 bs3 sc r3.
    worker_start fd w i [clients] = Some (s1, r1) \<and>
    reactor_loop_once id (binary_step (\<lambda>_. True) unpack encode) (readable_round fd r1) (s1, r1) = Some (1, s2, r2) \<and>
    run_all (arrival unpack encode) as (s2, r2) = Some (((w3, bs3), sc), r3) \<and>
    conn_fds bs3 = map a_fd clients \<and>
    (\<forall>(j, c) \<in> set (bs_connections bs3). stream_view (stream_fd (cn_stream c)) (w3, cn_stream c)
       (rest (stream_fd (cn_stream c))) (concat (map the (rs (stream_fd (cn_stream c))))))"
proof -
  let ?step = "binary_step (\<lambda>_. True) unpack encode" and ?parse = "parse_packet unpack encode"
  let ?bs = "(binary_server_construct i)\<lparr>bs_descriptor := \<lparr>d_fd = fd, d_mask = 1\<rparr>, bs_is_open := True\<rparr>"
  obtain w1 r1 where start: "worker_start fd w i [clients] = Some (((w1, ?bs), [clients]), r1)" "w_sock w1 = w_sock w"
    and r1: "reactor_ok id [] r1" "all_taken r1" "polled UNIV r1" "rc_cq r1 = []" "card (used_slots r1) \<le> 1"
      "reactor_slot_find fd r1 \<noteq> None"
    using start_run [OF assms(1), of w i "[clients]"] by (elim exE conjE) (rule that)
  have fd: "0 \<le> fd" using assms(1) by (simp add: valid_fd_def)
  have "fresh_client w1 = fresh_client w" by (simp add: fun_eq_iff fresh_client_def start(2))
  then have fresh: "list_all (fresh_client w1) clients" using assms(2) by simp
  have empty: "bs_connections ?bs = []" "d_fd (bs_descriptor ?bs) = fd"
    by (simp_all add: binary_server_construct_def zeroed_binary_server_def Let_def)
  let ?adds = "map (\<lambda>fd. Reactor_Add fd POLLIN) (map a_fd clients)"
  obtain w2 bs2 where acc: "?step fd 1 ((w1, ?bs), [clients]) = Some (((w2, bs2), [[]]), ?adds @ [Poll_Resubmit fd])"
    "conn_fds bs2 = map a_fd clients" "fresh_views w2 bs2" "d_fd (bs_descriptor bs2) = fd"
    using listener_accepts [OF fresh assms(3) empty fd, of unpack encode] by (elim exE conjE) (rule that)
  obtain sl where sl: "reactor_slot_find fd r1 = Some sl" using r1(6) by blast
  have step1: "?step (id fd) 1 ((w1, ?bs), [clients]) = Some (((w2, bs2), [[]]), ?adds @ [Poll_Resubmit fd])"
    using acc(1) by simp
  have valid: "list_all valid_fd (map a_fd clients)"
    using assms(2) by (auto simp: list_all_iff fresh_client_def)
  have room: "card (used_slots r1) + length (map a_fd clients) \<le> REACTOR_RING_ENTRIES"
    using r1(5) assms(3) by (simp add: REACTOR_RING_ENTRIES_def)
  have ok1: "bloop_ok ((w1, ?bs), [clients])"
    using assms(2) by (auto simp: bloop_ok_def binary_server_ok_def empty list_all_iff fresh_client_def valid_fd_def)
  then have good1: "binary_loop.good True [] (((w1, ?bs), [clients]), r1)"
    using r1(1-3) by (simp add: binary_loop.good_def)
  from binary_loop.adding_round_good [OF good1 r1(4) sl step1 room valid]
  obtain r2 where round: "reactor_loop_once id ?step (readable_round fd r1) (((w1, ?bs), [clients]), r1) =
      Some (1, ((w2, bs2), [[]]), r2)"
    and good: "binary_loop.good True [] (((w2, bs2), [[]]), r2)" and cq2: "rc_cq r2 = []"
    and found: "\<forall>f. reactor_slot_find f r1 \<noteq> None \<or> f \<in> set (map a_fd clients) \<longrightarrow> reactor_slot_find f r2 \<noteq> None"
    by blast
  have serves: "reactor_serves (map a_fd clients) r2"
    using good found cq2 by (simp add: reactor_serves_def binary_loop.good_def)
  have start2: "serving ?parse (\<lambda>_. []) (\<lambda>_. []) ((w2, bs2), [[]])"
    using good acc(2-4) assms(4)
    by (auto simp: serving_def binary_loop.good_def fresh_views_def drain.simps [of _ "[]"] parse_packet_def)
  have fds2: "map a_fd clients = conn_fds (snd (fst ((w2, bs2), [[] :: accepted list])))" using acc(2) by simp
  obtain s3 r3 where run: "run_all (arrival unpack encode) as (((w2, bs2), [[]]), r2) = Some (s3, r3)"
    "map a_fd clients = conn_fds (snd (fst s3))" "serving ?parse rest (\<lambda>f. [] @ concat (map the (rs f))) s3"
    using arrivals_serve [OF start2 serves fds2, of as rs rest] assms(5-9) by auto
  obtain w3 bs3 sc3 where s3: "s3 = ((w3, bs3), sc3)" by (metis surj_pair)
  show ?thesis using start(1) round run unfolding s3 by (auto simp: serving_def)
qed

text \<open>Two clients; the bytes of one arrive in two pieces, around those of the other.\<close>

definition two_clients :: "accepted list" where
  "two_clients = [\<lparr>a_fd = 10, a_memory = True, a_fstat = Some True\<rparr>, \<lparr>a_fd = 11, a_memory = True, a_fstat = Some True\<rparr>]"

definition two_arrivals :: "(int \<times> byte list) list" where
  "two_arrivals = [(10, take 3 ex_packet), (11, ex_packet @ [0]), (10, drop 3 ex_packet @ [0])]"

definition two_answers :: "int \<Rightarrow> byte list option list" where
  "two_answers f = (if f = 10 \<or> f = 11 then [Some ex_answer] else [])"

definition two_rests :: "int \<Rightarrow> byte list" where
  "two_rests f = (if f = 10 \<or> f = 11 then [0] else [])"

lemma clients_are_served_witness:
  "\<exists>s1 r1 s2 r2 w3 bs3 sc r3.
    worker_start 3 bin_world 0 [two_clients] = Some (s1, r1) \<and>
    reactor_loop_once id (binary_step (\<lambda>_. True) ex_unpack ex_encode) (readable_round 3 r1) (s1, r1) = Some (1, s2, r2) \<and>
    run_all (arrival ex_unpack ex_encode) two_arrivals (s2, r2) = Some (((w3, bs3), sc), r3) \<and>
    conn_fds bs3 = map a_fd two_clients \<and>
    (\<forall>(j, c) \<in> set (bs_connections bs3). stream_view (stream_fd (cn_stream c)) (w3, cn_stream c)
       (two_rests (stream_fd (cn_stream c))) (concat (map the (two_answers (stream_fd (cn_stream c))))))"
proof (rule clients_are_served)
  have whole: "take 3 ex_packet @ drop 3 ex_packet @ [0] = ex_packet @ [0]"
    by (metis append_take_drop_id append_assoc)
  show "drain (parse_packet ex_unpack ex_encode) (sent_by f two_arrivals) = (two_answers f, two_rests f, False)" for f
    using ex_packet_drain
    by (simp add: whole two_arrivals_def two_answers_def two_rests_def drain.simps [of _ "[]"] parse_packet_def)
  show "length (sent_by f two_arrivals) + read_size \<le> 2 ^ 62" for f
    by (simp add: two_arrivals_def ex_packet_def read_size_def)
qed (simp_all add: valid_fd_def REACTOR_MAX_FDS_def two_clients_def fresh_client_def bin_world_def two_arrivals_def
    ex_packet_def read_size_def two_answers_def ex_answer_def)

text \<open>
  C7. No registered descriptor is ever forgotten: in a worker whose kernel takes what is submitted, after any
  rounds of the loop, with any completions and signals in any order, a descriptor in the table has
  the slot of its own handler and an outstanding poll, which will report its next event; and the
  number of descriptors is the number of slots in use.
\<close>

theorem registered_descriptors_stay_polled:
  assumes "worker_start fd w i sc = Some (s1, r1)" and "valid_fd fd" and "list_all (list_all (\<lambda>a. 0 \<le> a_fd a)) sc"
    and "reactor_loop id (binary_step ok unpack encode) wrs 0 (s1, r1) = Some (n, s2, r2)"
    and "rc_fds r2 f = Some s"
  shows "Some s \<in># outstanding (rc_cq r2) r2 \<and> sl_handler (rc_slots r2 ! s) = Some (int f) \<and>
    unat (reactor_get_descriptor_count r2) = card (used_slots r2)"
proof -
  obtain w1 r where start: "worker_start fd w i sc = Some (((w1, (binary_server_construct i)
        \<lparr>bs_descriptor := \<lparr>d_fd = fd, d_mask = 1\<rparr>, bs_is_open := True\<rparr>), sc), r)"
    and r: "reactor_ok id [] r" "all_taken r" "polled UNIV r" "rc_cq r = []"
    using start_run [OF assms(2), of w i sc] by (elim exE conjE) (rule that)
  have "bloop_ok s1" "r1 = r"
    using assms(1,3) start
    by (auto simp: bloop_ok_def binary_server_ok_def binary_server_construct_def zeroed_binary_server_def Let_def)
  then have "binary_loop.good True (rc_cq (snd (s1, r1))) (s1, r1)" using r by (simp add: binary_loop.good_def)
  from binary_loop.good_loop [OF this assms(4)]
  have ok: "reactor_ok id (rc_cq r2) r2" "polled UNIV r2" by (simp_all add: binary_loop.good_def)
  show ?thesis
    using polled_outstanding [OF ok _ assms(5)] ok(1) assms(5) descriptor_count [of r2]
    by (auto simp: reactor_ok_def table_ok_def)
qed

lemma registered_descriptors_stay_polled_witness:
  "\<exists>s1 r1 s. worker_start 3 bin_world 0 [] = Some (s1, r1) \<and> rc_fds r1 3 = Some s \<and>
    Some s \<in># outstanding (rc_cq r1) r1 \<and> sl_handler (rc_slots r1 ! s) = Some (int 3) \<and>
    unat (reactor_get_descriptor_count r1) = card (used_slots r1)"
proof -
  have fd: "valid_fd 3" by (simp add: valid_fd_def REACTOR_MAX_FDS_def)
  obtain s1 r1 where start: "worker_start 3 bin_world 0 [] = Some (s1, r1)" "reactor_slot_find 3 r1 \<noteq> None"
    using start_run [OF fd, of bin_world 0 "[]"] by (elim exE conjE) (rule that)
  then obtain s where s: "rc_fds r1 3 = Some s" by (auto simp: find_valid)
  have run: "reactor_loop id (binary_step (\<lambda>_. True) ex_unpack ex_encode) [] 0 (s1, r1) = Some (0, s1, r1)" by simp
  show ?thesis
    using registered_descriptors_stay_polled [OF start(1) fd _ run s] start(1) s by simp
qed

text \<open>
  C33. A descriptor that is added is registered exactly when its number is below the table's size and one of the
  1024 slots is free. Otherwise the reactor is left as it was, without a report: the object is
  not told, and no event of the descriptor will ever reach it.
\<close>

theorem add_registers_iff:
  assumes "reactor_ok own cq r" and "reactor_slot_find fd r = None"
  shows "\<exists>r'. reactor_add (own fd) fd m r = Some r' \<and> reactor_ok own cq r' \<and>
    (reactor_slot_find fd r' \<noteq> None \<longleftrightarrow> 0 \<le> fd \<and> fd < 65536 \<and> card (used_slots r) < 1024) \<and>
    (reactor_slot_find fd r' = None \<longrightarrow> r' = r)"
proof -
  have slots: "slots_ok r" using assms(1) by (simp add: reactor_ok_def)
  have "all_used r \<longleftrightarrow> card (used_slots r) = REACTOR_RING_ENTRIES"
    using card_subset_eq [OF _ used_slots_bound [OF slots]] card_lessThan [of REACTOR_RING_ENTRIES]
    unfolding all_used_def by (metis finite_lessThan)
  then have full: "all_used r \<longleftrightarrow> card (used_slots r) = 1024" by (simp add: REACTOR_RING_ENTRIES_def)
  have le: "card (used_slots r) \<le> 1024" using used_slots_card [OF slots] by (simp add: REACTOR_RING_ENTRIES_def)
  have v: "valid_fd fd \<longleftrightarrow> 0 \<le> fd \<and> fd < 65536" by (simp add: valid_fd_def REACTOR_MAX_FDS_def)
  show ?thesis
  proof (cases "all_used r \<or> \<not> valid_fd fd")
    case True
    then show ?thesis using add_ignored [OF slots True] assms full v by auto
  next
    case False
    obtain r' s where r': "reactor_add (own fd) fd m r = Some r'" "reactor_ok own cq r'"
      "rc_fds r' = (rc_fds r)(nat fd := Some s)"
      using add_registers [OF assms(1), of fd m UNIV] False by auto
    have "reactor_slot_find fd r' = Some s" using False r'(3) by (simp add: find_valid)
    moreover have "card (used_slots r) < 1024" using False full le by linarith
    moreover have "0 \<le> fd \<and> fd < 65536" using False v by simp
    ultimately show ?thesis using r'(1,2) by (intro exI [of _ r']) simp
  qed
qed

text \<open>A reactor with all its slots in use.\<close>

definition full_reactor :: "int reactor" where
  "full_reactor = \<lparr>rc_active = True, rc_descriptors = 1024, rc_time = 0, rc_fds = (\<lambda>fd. if fd = 9 then Some 0 else None),
     rc_slots = replicate 1024 \<lparr>sl_handler = Some 9, sl_events = 1, sl_in_flight = 0\<rparr>,
     rc_slot_count = 1024, rc_next_free = 0, rc_sq = [], rc_ops = [Poll_Add 0 9 1], rc_cq = [], rc_takes = []\<rparr>"

lemma full_reactor_used [simp]: "used_slots full_reactor = {..<1024}"
  by (auto simp: full_reactor_def used_slots_def)

lemma full_reactor_ok [simp]: "reactor_ok id [] full_reactor"
proof -
  have "slots_ok full_reactor"
    using full_reactor_used by (simp add: slots_ok_def REACTOR_RING_ENTRIES_def) (simp add: full_reactor_def)
  moreover have "table_ok id full_reactor" by (simp add: full_reactor_def table_ok_def REACTOR_MAX_FDS_def)
  moreover have "flight_ok [] full_reactor" by (simp add: full_reactor_def flight_ok_def outstanding_def)
  ultimately show ?thesis by (simp add: reactor_ok_def)
qed

lemma add_registers_iff_witness:
  "\<exists>r'. reactor_add (id 12) 12 1 full_reactor = Some r' \<and> reactor_ok id [] r' \<and>
    (reactor_slot_find 12 r' \<noteq> None \<longleftrightarrow> 0 \<le> (12 :: int) \<and> (12 :: int) < 65536 \<and> card (used_slots full_reactor) < 1024) \<and>
    (reactor_slot_find 12 r' = None \<longrightarrow> r' = full_reactor)"
  by (rule add_registers_iff [OF full_reactor_ok]) (simp add: reactor_slot_find_def full_reactor_def)

text \<open>
  C21. A poll outlives its registration. With every slot in use, a descriptor that is deleted and another one that
  is then added share the slot: the poll of the first is still with the kernel, and its
  completion runs the handler of the second, with a result that is not about it.
\<close>

theorem stale_completion_reaches_new_owner:
  assumes "reactor_ok own cq r" and "card (used_slots r) = 1024" and "reactor_slot_find fd r = Some s"
    and "0 \<le> fd'" and "fd' < 65536" and "Poll_Add s fd e \<in> set (rc_ops r)"
  shows "\<exists>r1 r2 r3. reactor_delete fd r = Some r1 \<and> reactor_add (own fd') fd' m r1 = Some r2 \<and>
    reactor_slot_find fd' r2 = Some s \<and> Poll_Add s fd e \<in> set (rc_ops r2) \<and>
    take_completion (Some s) r2 = Some (Some (own fd'), r3)"
proof -
  have slots: "slots_ok r" using assms(1) by (simp add: reactor_ok_def)
  have all: "used_slots r = {..< REACTOR_RING_ENTRIES}"
    using card_subset_eq [OF _ used_slots_bound [OF slots]] assms(2) by (simp add: REACTOR_RING_ENTRIES_def)
  obtain r1 where r1: "reactor_delete fd r = Some r1" "reactor_ok own cq r1" "used_slots r1 = used_slots r - {s}"
    using delete_registered [OF assms(1,3), of UNIV] by (elim exE conjE) (rule that)
  have sN: "s < REACTOR_RING_ENTRIES"
    using assms(1,3) table_slot [OF slots] by (auto simp: find_valid reactor_ok_def)
  have free: "\<not> all_used r1" using r1(3) sN by (auto simp: all_used_def)
  have v: "valid_fd fd'" using assms(4,5) by (simp add: valid_fd_def REACTOR_MAX_FDS_def)
  obtain r2 t where r2: "reactor_add (own fd') fd' m r1 = Some r2" "reactor_ok own cq r2"
    "rc_fds r2 = (rc_fds r1)(nat fd' := Some t)" "used_slots r2 = insert t (used_slots r1)" "t \<notin> used_slots r1"
    using add_registers [OF r1(2) v free, of m UNIV] by (elim exE conjE) (rule that)
  have slots2: "slots_ok r2" "table_ok own r2" using r2(2) by (auto simp: reactor_ok_def)
  have "t < REACTOR_RING_ENTRIES" using used_slots_bound [OF slots2(1)] r2(4) by auto
  then have t: "t = s" using r2(5) r1(3) all by auto
  have find: "reactor_slot_find fd' r2 = Some s" using v r2(3) t by (simp add: find_valid)
  have ops: "Poll_Add s fd e \<in> set (rc_ops r2)"
    using run_call_ops [of own "Reactor_Delete fd" r r1] run_call_ops [of own "Reactor_Add fd' m" r1 r2] r1(1) r2(1) assms(6)
    by auto
  have "sl_handler (rc_slots r2 ! s) = Some (own fd')"
    using slots2(2) find v by (auto simp: table_ok_def find_valid valid_fd_def)
  then have "\<exists>r3. take_completion (Some s) r2 = Some (Some (own fd'), r3)"
    using slots2(1) sN by (simp add: take_completion_def Let_def)
  then show ?thesis using r1(1) r2(1) find ops by blast
qed

lemma stale_completion_reaches_new_owner_witness:
  "\<exists>r1 r2 r3. reactor_delete 9 full_reactor = Some r1 \<and> reactor_add (id 12) 12 1 r1 = Some r2 \<and>
    reactor_slot_find 12 r2 = Some 0 \<and> Poll_Add 0 9 1 \<in> set (rc_ops r2) \<and>
    take_completion (Some 0) r2 = Some (Some (id 12), r3)"
proof (rule stale_completion_reaches_new_owner [OF full_reactor_ok])
  show "reactor_slot_find 9 full_reactor = Some 0"
    by (simp add: reactor_slot_find_def full_reactor_def REACTOR_MAX_FDS_def)
  show "Poll_Add 0 9 1 \<in> set (rc_ops full_reactor)" by (simp add: full_reactor_def)
qed simp_all

text \<open>
  C20. A peer that has closed its sending side keeps the loop busy: its socket stays readable and \<open>recv\<close> returns
  0, which nobody notices; every poll is submitted again, so any number of rounds can follow,
  and after them the connection is neither closed nor any further.
\<close>

theorem half_closed_peer_spins:
  assumes "serving (parse_packet unpack encode) ins outs s" and "reactor_serves (conn_fds (snd (fst s))) r"
    and "fd \<in> set (conn_fds (snd (fst s)))"
    and "\<And>f. length (ins f) + read_size \<le> 2 ^ 62" and "\<And>f. length (outs f) \<le> 2 ^ 62"
  shows "\<exists>s' r'. run_all (arrival unpack encode) (replicate n (fd, [])) (s, r) = Some (s', r') \<and>
    conn_fds (snd (fst s')) = conn_fds (snd (fst s)) \<and> reactor_serves (conn_fds (snd (fst s'))) r' \<and>
    serving (parse_packet unpack encode) ins outs s'"
proof -
  have none: "sent_by f (replicate n (fd, [])) = []" for f by (induction n) auto
  have waits: "drain (parse_packet unpack encode) (ins f) = ([], ins f, False)" for f
    using assms(1) by (simp add: serving_def)
  show ?thesis
    using arrivals_serve [OF assms(1,2) refl, where as = "replicate n (fd, [])" and rs = "\<lambda>_. []" and rest = ins]
      assms(3-5) by (force simp: none waits)
qed

text \<open>A reactor with one connection.\<close>

definition one_reactor :: "int reactor" where
  "one_reactor = \<lparr>rc_active = True, rc_descriptors = 1, rc_time = 0, rc_fds = (\<lambda>fd. if fd = 9 then Some 0 else None),
     rc_slots = \<lparr>sl_handler = Some 9, sl_events = 1, sl_in_flight = 1\<rparr> #
       replicate 1023 \<lparr>sl_handler = None, sl_events = 0, sl_in_flight = 0\<rparr>,
     rc_slot_count = 1024, rc_next_free = 1, rc_sq = [], rc_ops = [Poll_Add 0 9 1], rc_cq = [], rc_takes = []\<rparr>"

lemma one_reactor_ok [simp]: "reactor_ok id [] one_reactor" "reactor_serves [9] one_reactor"
proof -
  have used: "used_slots one_reactor = {0}"
  proof (rule set_eqI)
    show "x \<in> used_slots one_reactor \<longleftrightarrow> x \<in> {0}" for x
      by (cases x) (auto simp: one_reactor_def used_slots_def)
  qed
  have "slots_ok one_reactor"
    using used by (simp add: slots_ok_def REACTOR_RING_ENTRIES_def) (simp add: one_reactor_def)
  moreover have "table_ok id one_reactor" by (simp add: one_reactor_def table_ok_def REACTOR_MAX_FDS_def)
  moreover have "flight_ok [] one_reactor"
    by (auto simp: one_reactor_def flight_ok_def outstanding_def nth_Cons split: nat.splits)
  ultimately show ok: "reactor_ok id [] one_reactor" by (simp add: reactor_ok_def)
  have "polled UNIV one_reactor" "all_taken one_reactor" "rc_cq one_reactor = []" "reactor_slot_find 9 one_reactor = Some 0"
    by (simp_all add: one_reactor_def polled_def all_taken_def reactor_slot_find_def REACTOR_MAX_FDS_def)
  then show "reactor_serves [9] one_reactor" using ok by (simp add: reactor_serves_def)
qed

lemma half_closed_peer_spins_witness:
  "\<exists>s' r'. run_all (arrival ex_unpack ex_encode) (replicate 1000 (9, [])) (((bin_world, bin_server []), []), one_reactor) =
      Some (s', r') \<and>
    conn_fds (snd (fst s')) = conn_fds (snd (fst ((bin_world, bin_server []), [] :: accepted list list))) \<and>
    reactor_serves (conn_fds (snd (fst s'))) r' \<and>
    serving (parse_packet ex_unpack ex_encode) (\<lambda>_. []) (\<lambda>_. []) s'"
proof (rule half_closed_peer_spins)
  have fds: "conn_fds (bin_server []) = [9]" by (simp add: conn_fds_def bin_server_def bin_stream_def stream_fd_def)
  show "reactor_serves (conn_fds (snd (fst ((bin_world, bin_server []), [])))) one_reactor" by (simp add: fds)
  show "9 \<in> set (conn_fds (snd (fst ((bin_world, bin_server []), []))))" by (simp add: fds)
  have conn: "bs_connections (bin_server []) = [(0, \<lparr>cn_stream = bin_stream [], cn_active = True\<rparr>)]"
    "d_fd (bs_descriptor (bin_server [])) = 3" "bs_next (bin_server []) = 1"
    by (simp_all add: bin_server_def)
  show "serving (parse_packet ex_unpack ex_encode) (\<lambda>_. []) (\<lambda>_. []) ((bin_world, bin_server []), [])"
    by (simp add: serving_def fds bloop_ok_def binary_server_ok_def conn drain.simps [of _ "[]"] parse_packet_def)
qed (simp_all add: read_size_def)

text \<open>
  C34. A termination signal that arrives while a worker waits ends its loop after the round: the events of the
  round are still handled, nothing that would come later is, and the loop returns the number of
  events it has handled.
\<close>

theorem signal_ends_loop:
  assumes "reactor_loop_once own d wr sr = Some (n, sr')" and "Term_signal \<in> set (wr_events wr)"
    and "rc_active (snd sr)" and "tot + n < 2 ^ 31"
  shows "reactor_loop own d (wr # wrs) tot sr = Some (tot + n, sr')"
proof -
  have stop: "\<not> rc_active (snd sr')" by (rule loop_once_signal [OF assms(1,2)])
  have "reactor_loop own d wrs (tot + n) sr' = Some (tot + n, sr')"
    using stop by (cases wrs) simp_all
  then show ?thesis using assms(1,3,4) by (simp add: INT_LIMIT_def)
qed

lemma signal_ends_loop_witness:
  "\<exists>sr'. reactor_loop id (binary_step (\<lambda>_. True) ex_unpack ex_encode)
      (\<lparr>wr_events = [Term_signal], wr_failed = False, wr_during = []\<rparr> # replicate 7 (readable_round 9 one_reactor)) 5
      (((bin_world, bin_server []), []), one_reactor) = Some (5 + 0, sr')"
proof -
  let ?wr = "\<lparr>wr_events = [Term_signal], wr_failed = False, wr_during = []\<rparr>"
  have cq: "rc_cq (io_uring_submit (one_reactor\<lparr>rc_time := 0\<rparr>)) = []" "rc_active one_reactor"
    by (simp_all add: one_reactor_def)
  obtain sr' where r: "reactor_loop_once id (binary_step (\<lambda>_. True) ex_unpack ex_encode) ?wr
      (((bin_world, bin_server []), []), one_reactor) = Some (0, sr')"
    using cq(1) by (simp add: reactor_loop_once_def kernel_steps_def kernel_step_def Let_def)
  show ?thesis
    by (rule exI, rule signal_ends_loop [OF r]) (simp_all add: cq(2))
qed

text \<open>
  Changing the events of a descriptor does not reach a poll that is outstanding: the kernel goes on watching the
  old events. From within the handler, where no poll is outstanding, the change submits a poll and
  the handler's return another one, so the next event will be reported twice.
\<close>

theorem changed_events_poll_twice:
  assumes "reactor_ok own cq r" and "reactor_slot_find fd r = Some s" and "length (rc_sq r) \<le> 1022"
    and "sl_events (rc_slots r ! s) \<noteq> to_poll_mask m"
  shows "(sl_in_flight (rc_slots r ! s) \<noteq> 0 \<longrightarrow>
      (\<exists>r'. reactor_modify h fd m r = Some r' \<and> rc_sq r' = rc_sq r \<and> rc_ops r' = rc_ops r)) \<and>
    (sl_in_flight (rc_slots r ! s) = 0 \<longrightarrow>
      (\<exists>r'. run_calls own [Reactor_Modify fd m, Poll_Resubmit fd] r = Some r' \<and>
         rc_sq r' = rc_sq r @ [Poll_Add s fd (to_poll_mask m), Poll_Add s fd (to_poll_mask m)] \<and>
         sl_in_flight (rc_slots r' ! s) = 2))"
proof -
  have slots: "slots_ok r" "table_ok own r" using assms(1) by (auto simp: reactor_ok_def)
  have len: "length (rc_slots r) = 1024" using slots(1) by (simp add: slots_ok_def REACTOR_RING_ENTRIES_def)
  have f: "rc_fds r (nat fd) = Some s" "valid_fd fd" using assms(2) by (auto simp: find_valid)
  have s: "s < 1024" "sl_handler (rc_slots r ! s) \<noteq> None"
    using slots(2) f(1) len by (auto simp: table_ok_def)
  have find: "reactor_slot_find fd r' = Some s" if "rc_fds r' = rc_fds r" for r' :: "'a reactor"
    using that f by (simp add: find_valid)
  let ?sl = "(rc_slots r ! s)\<lparr>sl_events := to_poll_mask m\<rparr>"
  show ?thesis
  proof (intro conjI impI)
    assume "sl_in_flight (rc_slots r ! s) \<noteq> 0"
    then show "\<exists>r'. reactor_modify h fd m r = Some r' \<and> rc_sq r' = rc_sq r \<and> rc_ops r' = rc_ops r"
      using assms(2,4) s len by (simp add: reactor_modify_def slot_at_def Let_def)
  next
    assume idle: "sl_in_flight (rc_slots r ! s) = 0"
    let ?r1 = "put_slot s (?sl\<lparr>sl_in_flight := 1\<rparr>) (put_sqe (Poll_Add s fd (to_poll_mask m)) (put_slot s ?sl r))"
    have one: "reactor_modify (own fd) fd m r = Some ?r1"
      using assms(2-4) s len idle
      by (simp add: reactor_modify_def reactor_poll_submit_fd_def slot_at_def sq_has_room_def REACTOR_RING_ENTRIES_def Let_def)
    have slot1: "rc_slots ?r1 ! s = ?sl\<lparr>sl_in_flight := 1\<rparr>" "length (rc_slots ?r1) = 1024" using s(1) len by simp_all
    have two: "reactor_poll_resubmit fd ?r1 =
        Some (put_slot s (?sl\<lparr>sl_in_flight := 2\<rparr>) (put_sqe (Poll_Add s fd (to_poll_mask m)) ?r1))"
      using find [of ?r1] assms(3) s slot1
      by (simp add: reactor_poll_resubmit_def reactor_poll_submit_fd_def slot_at_def sq_has_room_def
          REACTOR_RING_ENTRIES_def Let_def)
    show "\<exists>r'. run_calls own [Reactor_Modify fd m, Poll_Resubmit fd] r = Some r' \<and>
         rc_sq r' = rc_sq r @ [Poll_Add s fd (to_poll_mask m), Poll_Add s fd (to_poll_mask m)] \<and>
         sl_in_flight (rc_slots r' ! s) = 2"
      using one two s(1) len by simp
  qed
qed

lemma changed_events_poll_twice_witness:
  "sl_in_flight (rc_slots full_reactor ! 0) = 0 \<and>
    (\<exists>r'. run_calls id [Reactor_Modify 9 5, Poll_Resubmit 9] full_reactor = Some r' \<and>
       rc_sq r' = rc_sq full_reactor @ [Poll_Add 0 9 (to_poll_mask 5), Poll_Add 0 9 (to_poll_mask 5)] \<and>
       sl_in_flight (rc_slots r' ! 0) = 2)"
proof -
  have find: "reactor_slot_find 9 full_reactor = Some 0"
    by (simp add: reactor_slot_find_def full_reactor_def REACTOR_MAX_FDS_def)
  have "length (rc_sq full_reactor) \<le> 1022" by (simp add: full_reactor_def)
  moreover have "sl_events (rc_slots full_reactor ! 0) \<noteq> to_poll_mask 5"
    by (simp add: full_reactor_def to_poll_mask_def)
  moreover have idle: "sl_in_flight (rc_slots full_reactor ! 0) = 0" by (simp add: full_reactor_def)
  ultimately show ?thesis
    using changed_events_poll_twice [OF full_reactor_ok find, where m = 5] by blast
qed

end
