(* ===== verification/C_Time.thy ===== *)
theory C_Time
  imports Decimal
begin

text \<open>
  The broken-down UTC time the program formats. The kernel's clock is outside the program, so a
  routine that reads it takes the \<open>struct tm\<close> that \<open>gmtime_r (time (NULL))\<close> gave as an
  argument. \<open>strftime\<close> is modelled for the one format the sources use.
\<close>

record tm =
  tm_sec :: nat
  tm_min :: nat
  tm_hour :: nat
  tm_mday :: nat
  tm_mon :: nat
  tm_year :: nat
  tm_wday :: nat

text \<open>The ranges \<open>gmtime_r\<close> documents, and a year that prints with four digits.\<close>

definition tm_ok :: "tm \<Rightarrow> bool" where
  "tm_ok t \<longleftrightarrow> tm_sec t \<le> 60 \<and> tm_min t \<le> 59 \<and> tm_hour t \<le> 23 \<and>
     1 \<le> tm_mday t \<and> tm_mday t \<le> 31 \<and> tm_mon t \<le> 11 \<and> tm_wday t \<le> 6 \<and>
     tm_year t \<le> 8099"

definition pad2 :: "nat \<Rightarrow> string" where
  "pad2 n = [digit (n div 10), digit (n mod 10)]"

definition day_names :: "string list" where
  "day_names = [''Sun'', ''Mon'', ''Tue'', ''Wed'', ''Thu'', ''Fri'', ''Sat'']"

definition month_names :: "string list" where
  "month_names = [''Jan'', ''Feb'', ''Mar'', ''Apr'', ''May'', ''Jun'',
     ''Jul'', ''Aug'', ''Sep'', ''Oct'', ''Nov'', ''Dec'']"

text \<open>\<open>strftime\<close>'s text for \<open>%a\<close> and \<open>%b\<close> in the C locale; out of range it prints \<open>?\<close>.\<close>

definition name_of :: "string list \<Rightarrow> nat \<Rightarrow> string" where
  "name_of ns i = (if i < length ns then ns ! i else ''?'')"

text \<open>The text of \<open>"%a, %d %b %Y %H:%M:%S GMT"\<close>.\<close>

definition imf_date :: "tm \<Rightarrow> string" where
  "imf_date t =
     name_of day_names (tm_wday t) @ '', '' @ pad2 (tm_mday t) @ '' '' @
     name_of month_names (tm_mon t) @ '' '' @ dec (tm_year t + 1900) @ '' '' @
     pad2 (tm_hour t) @ '':'' @ pad2 (tm_min t) @ '':'' @ pad2 (tm_sec t) @ '' GMT''"

text \<open>\<open>strftime (buf, n, ...)\<close>: the text when it fits with its NUL, otherwise length 0.\<close>

definition strftime :: "nat \<Rightarrow> string \<Rightarrow> string" where
  "strftime n t = (if length t < n then t else [])"

lemma pad2_length [simp]: "length (pad2 n) = 2"
  by (simp add: pad2_def)

lemma name_of_length: "list_all (\<lambda>s. length s = 3) ns \<Longrightarrow> i < length ns \<Longrightarrow> length (name_of ns i) = 3"
  by (simp add: name_of_def list_all_length)

lemma imf_date_length: "tm_ok t \<Longrightarrow> length (imf_date t) = 29"
proof -
  assume t: "tm_ok t"
  then have w: "length (name_of day_names (tm_wday t)) = 3"
    and m: "length (name_of month_names (tm_mon t)) = 3"
    by (auto intro!: name_of_length simp: tm_ok_def day_names_def month_names_def)
  have "ndigits (tm_year t + 1900) = 4"
    using t ndigits_eqI [of 3 "tm_year t + 1900"] by (simp add: tm_ok_def)
  with w m show ?thesis by (simp add: imf_date_def length_dec)
qed

lemma digit_not_NUL: "d < 10 \<Longrightarrow> digit d \<noteq> NUL"
  using is_digit_not_NUL is_digit_digit by blast

lemma pad2_c_string: "n < 100 \<Longrightarrow> c_string (pad2 n)"
  by (auto simp: pad2_def digit_not_NUL)

lemma name_of_c_string: "list_all c_string ns \<Longrightarrow> c_string (name_of ns i)"
  by (auto simp: name_of_def list_all_length NUL_def)

lemma imf_date_c_string: "tm_ok t \<Longrightarrow> c_string (imf_date t)"
proof -
  assume t: "tm_ok t"
  have "c_string (name_of day_names (tm_wday t))" "c_string (name_of month_names (tm_mon t))"
    by (auto intro!: name_of_c_string simp: day_names_def month_names_def NUL_def)
  with t show ?thesis
    by (simp add: imf_date_def tm_ok_def pad2_c_string) (simp add: NUL_def)
qed

lemma strftime_date: "tm_ok t \<Longrightarrow> strftime 30 (imf_date t) = imf_date t"
  by (simp add: strftime_def imf_date_length)

end
