(* ===== verification/Http_Response.thy ===== *)
theory Http_Response
  imports C_Time
begin

text \<open>
  Component \<open>src/src/domain/http_response.c\<close> with \<open>include/domain/http_response.h\<close>: the
  response configuration, the caller's buffer, the size estimate and the bounded writer
  \<open>http_response_build\<close>, statement by statement with its early returns.
\<close>

subsection \<open>Data\<close>

datatype http_response_error =
    HTTP_RESPONSE_OK
  | HTTP_RESPONSE_ERROR_INVALID_PARAM
  | HTTP_RESPONSE_ERROR_MEMORY
  | HTTP_RESPONSE_ERROR_BUFFER_OVERFLOW

text \<open>
  The two C enums are integers that the code range-checks, so they are integers here, with the
  enumerators as abbreviations.
\<close>

type_synonym http_status = int

abbreviation (input) HTTP_STATUS_OK :: http_status where
  "HTTP_STATUS_OK \<equiv> 200"

abbreviation (input) HTTP_STATUS_NOT_FOUND :: http_status where
  "HTTP_STATUS_NOT_FOUND \<equiv> 404"

abbreviation (input) HTTP_STATUS_INTERNAL_ERROR :: http_status where
  "HTTP_STATUS_INTERNAL_ERROR \<equiv> 500"

type_synonym content_type = nat

abbreviation (input) CONTENT_TYPE_TEXT_PLAIN :: content_type where
  "CONTENT_TYPE_TEXT_PLAIN \<equiv> 0"

abbreviation (input) CONTENT_TYPE_APPLICATION_JSON :: content_type where
  "CONTENT_TYPE_APPLICATION_JSON \<equiv> 1"

text \<open>\<open>body\<close> is the object the pointer designates (\<open>None\<close> is NULL).\<close>

record http_response_config =
  status_code :: http_status
  content_type :: content_type
  body :: "string option"
  body_length :: size_t
  include_date_header :: bool

text \<open>\<open>rb_mem\<close> is the memory behind the \<open>buffer\<close> pointer, \<open>rb_size\<close> and \<open>rb_used\<close> the fields.\<close>

record http_response_buffer =
  rb_mem :: string
  rb_size :: size_t
  rb_used :: size_t

subsection \<open>Strings\<close>

definition content_type_strings :: "string list" where
  "content_type_strings = [''text/plain'', ''application/json'']"

definition http_response_content_type_string :: "content_type \<Rightarrow> string option" where
  "http_response_content_type_string t =
     (if t \<ge> length content_type_strings then None else Some (content_type_strings ! t))"

definition http_response_status_string :: "http_status \<Rightarrow> string option" where
  "http_response_status_string s =
     (if s = HTTP_STATUS_OK then Some (''HTTP/1.1 200 OK'' @ crlf)
      else if s = HTTP_STATUS_NOT_FOUND then Some (''HTTP/1.1 404 Not Found'' @ crlf)
      else if s = HTTP_STATUS_INTERNAL_ERROR
        then Some (''HTTP/1.1 500 Internal Server Error'' @ crlf)
      else None)"

text \<open>The thread-local \<open>date_header[38]\<close> as the program starts.\<close>

definition date_header_init :: string where
  "date_header_init = ''Date: Thu, 01 Jan 1970 00:00:00 GMT'' @ crlf @ [NUL]"

text \<open>\<open>http_date (0)\<close>: \<open>strftime\<close> into the 30-byte \<open>date_buffer\<close>.\<close>

definition http_date :: "tm \<Rightarrow> string" where
  "http_date now = strftime 30 (imf_date now)"

subsection \<open>Module and buffer operations\<close>

definition http_response_init :: http_response_error where
  "http_response_init = HTTP_RESPONSE_OK"

text \<open>\<open>http_response_buffer_init\<close>: the first argument tells whether \<open>buffer\<close> is NULL.\<close>

definition http_response_buffer_init ::
  "http_response_buffer option \<Rightarrow> string option \<Rightarrow> size_t \<Rightarrow>
     http_response_error \<times> http_response_buffer option" where
  "http_response_buffer_init b p n =
     (case (b, p) of
        (Some old, Some mem) \<Rightarrow>
          if n = 0 then (HTTP_RESPONSE_ERROR_INVALID_PARAM, b)
          else (HTTP_RESPONSE_OK, Some \<lparr>rb_mem = mem, rb_size = n, rb_used = 0\<rparr>)
      | _ \<Rightarrow> (HTTP_RESPONSE_ERROR_INVALID_PARAM, b))"

definition http_response_buffer_reset ::
  "http_response_buffer option \<Rightarrow> http_response_buffer option" where
  "http_response_buffer_reset b = map_option (\<lambda>b. b\<lparr>rb_used := 0\<rparr>) b"

subsection \<open>The size estimate\<close>

text \<open>All sums are \<open>size_t\<close> sums: they wrap.\<close>

definition http_response_calculate_size :: "http_response_config option \<Rightarrow> size_t" where
  "http_response_calculate_size c =
     (case c of None \<Rightarrow> 0 | Some cfg \<Rightarrow>
      (case http_response_status_string (status_code cfg) of None \<Rightarrow> 0 | Some st \<Rightarrow>
        let n = of_nat (length st);
            n = n + of_nat (length (''Server: L'' @ crlf));
            n = (if include_date_header cfg then n + 37 else n);
            n = n + of_nat (length ''Content-Type: '')
        in case http_response_content_type_string (content_type cfg) of None \<Rightarrow> 0 | Some ct \<Rightarrow>
          let n = n + of_nat (length ct) + 2;
              n = n + of_nat (length ''Content-Length: '') + 10 + 2;
              n = n + 2
          in n + body_length cfg))"

subsection \<open>The writer\<close>

text \<open>
  The locals of \<open>http_response_build\<close>: the memory, \<open>ptr\<close> as an offset into it,
  \<open>remaining\<close>, and the thread-local date header.
\<close>

record wstate =
  w_mem :: string
  w_off :: nat
  w_rem :: nat
  w_date :: string

text \<open>\<open>memcpy (ptr, s, len); ptr += len; remaining -= len\<close>\<close>

definition put :: "string \<Rightarrow> wstate \<Rightarrow> wstate option" where
  "put s w = map_option
     (\<lambda>m. w\<lparr>w_mem := m, w_off := w_off w + length s, w_rem := w_rem w - length s\<rparr>)
     (write_at (w_off w) s (w_mem w))"

fun puts :: "string list \<Rightarrow> wstate \<Rightarrow> wstate option" where
  "puts [] w = Some w"
| "puts (s # ss) w = Option.bind (put s w) (puts ss)"

text \<open>One guarded section: the overflow test over the section's whole length, then its copies.\<close>

definition emit :: "string list \<Rightarrow> wstate \<Rightarrow> (http_response_error, wstate) cstep" where
  "emit ss w =
     (if sum_list (map length ss) \<ge> w_rem w
      then creturn HTTP_RESPONSE_ERROR_BUFFER_OVERFLOW w else cstmt (puts ss w))"

text \<open>The date section first refreshes \<open>date_header\<close>, then emits it up to its NUL.\<close>

definition emit_date ::
  "tm \<Rightarrow> http_response_config \<Rightarrow> wstate \<Rightarrow> (http_response_error, wstate) cstep" where
  "emit_date now cfg w =
     (if include_date_header cfg then
        (case write_at 6 (http_date now @ crlf @ [NUL]) (w_date w) of None \<Rightarrow> None
         | Some h \<Rightarrow> emit [c_str h] (w\<lparr>w_date := h\<rparr>))
      else cnext w)"

definition emit_length ::
  "http_response_config \<Rightarrow> wstate \<Rightarrow> (http_response_error, wstate) cstep" where
  "emit_length cfg w =
     (let ls = dec (unat (body_length cfg))
      in if snprintf_ret ls < 0 \<or> snprintf_ret ls \<ge> 16
         then creturn HTTP_RESPONSE_ERROR_INVALID_PARAM w
         else emit [''Content-Length: '', ls, crlf] w)"

definition emit_body ::
  "http_response_config \<Rightarrow> wstate \<Rightarrow> (http_response_error, wstate) cstep" where
  "emit_body cfg w =
     (case body cfg of None \<Rightarrow> cnext w | Some b \<Rightarrow>
      if body_length cfg > 0 then
        (if unat (body_length cfg) \<ge> w_rem w
         then creturn HTTP_RESPONSE_ERROR_BUFFER_OVERFLOW w
         else case read_n (unat (body_length cfg)) b of None \<Rightarrow> None
              | Some s \<Rightarrow> cstmt (put s w))
      else cnext w)"

definition write_response ::
  "tm \<Rightarrow> http_response_config \<Rightarrow> wstate \<Rightarrow> (http_response_error, wstate) cstep" where
  "write_response now cfg w =
     (case http_response_status_string (status_code cfg) of
        None \<Rightarrow> creturn HTTP_RESPONSE_ERROR_INVALID_PARAM w
      | Some st \<Rightarrow>
          cthen (emit [st] w) (\<lambda>w.
          cthen (emit [''Server: L'' @ crlf] w) (\<lambda>w.
          cthen (emit_date now cfg w) (\<lambda>w.
          (case http_response_content_type_string (content_type cfg) of
             None \<Rightarrow> creturn HTTP_RESPONSE_ERROR_INVALID_PARAM w
           | Some ct \<Rightarrow>
               cthen (emit [''Content-Type: '', ct, crlf] w) (\<lambda>w.
               cthen (emit_length cfg w) (\<lambda>w.
               cthen (emit [crlf] w) (emit_body cfg))))))))"

text \<open>
  \<open>http_response_build\<close>: the result code, the buffer and the date header afterwards.
  \<open>used\<close> is only set on the path that falls through to the end.
\<close>

definition http_response_build ::
  "tm \<Rightarrow> string \<Rightarrow> http_response_buffer option \<Rightarrow> http_response_config option \<Rightarrow>
     (http_response_error \<times> http_response_buffer option \<times> string) option" where
  "http_response_build now dh buf cfg =
     (case (buf, cfg) of
        (Some b, Some c) \<Rightarrow>
          if rb_used b > 0 then Some (HTTP_RESPONSE_ERROR_INVALID_PARAM, buf, dh)
          else (case write_response now c
                       \<lparr>w_mem = rb_mem b, w_off = 0, w_rem = unat (rb_size b), w_date = dh\<rparr> of
                  None \<Rightarrow> None
                | Some (Inl (e, w)) \<Rightarrow> Some (e, Some (b\<lparr>rb_mem := w_mem w\<rparr>), w_date w)
                | Some (Inr w) \<Rightarrow>
                    Some (HTTP_RESPONSE_OK,
                          Some (b\<lparr>rb_mem := w_mem w, rb_used := rb_size b - of_nat (w_rem w)\<rparr>),
                          w_date w))
      | _ \<Rightarrow> Some (HTTP_RESPONSE_ERROR_INVALID_PARAM, buf, dh))"

subsection \<open>What a response is\<close>

text \<open>
  The abstract contract: the text of a response with the date text \<open>d\<close>, when both codes are
  known and the body pointer designates enough bytes.
\<close>

definition body_text :: "http_response_config \<Rightarrow> string" where
  "body_text c = (case body c of None \<Rightarrow> [] | Some b \<Rightarrow> take (unat (body_length c)) b)"

definition body_readable :: "http_response_config \<Rightarrow> bool" where
  "body_readable c \<longleftrightarrow> (case body c of None \<Rightarrow> True | Some b \<Rightarrow> unat (body_length c) \<le> length b)"

definition response_head :: "string \<Rightarrow> http_response_config \<Rightarrow> string \<Rightarrow> string \<Rightarrow> string" where
  "response_head d c st ct =
     st @ (''Server: L'' @ crlf) @
     (if include_date_header c then ''Date: '' @ d @ crlf else []) @
     (''Content-Type: '' @ ct @ crlf) @
     (''Content-Length: '' @ dec (unat (body_length c)) @ crlf) @ crlf"

definition render_response :: "string \<Rightarrow> http_response_config \<Rightarrow> string option" where
  "render_response d c =
     (case (http_response_status_string (status_code c),
            http_response_content_type_string (content_type c)) of
        (Some st, Some ct) \<Rightarrow>
          if body_readable c then Some (response_head d c st ct @ body_text c) else None
      | _ \<Rightarrow> None)"

text \<open>The thread-local buffer keeps its prefix and its length from call to call.\<close>

definition date_header_ok :: "string \<Rightarrow> bool" where
  "date_header_ok dh \<longleftrightarrow> length dh = 38 \<and> take 6 dh = ''Date: ''"

lemma date_header_init_ok: "date_header_ok date_header_init"
  by (simp add: date_header_ok_def date_header_init_def)

definition refreshed :: "tm \<Rightarrow> string" where
  "refreshed now = ''Date: '' @ imf_date now @ crlf @ [NUL]"

lemma refreshed_ok: "tm_ok now \<Longrightarrow> date_header_ok (refreshed now)"
  by (simp add: date_header_ok_def refreshed_def imf_date_length)

lemma date_refresh:
  assumes "tm_ok now" and "date_header_ok dh"
  shows "write_at 6 (http_date now @ crlf @ [NUL]) dh = Some (refreshed now)"
  using assms
  by (simp add: write_at_Some_iff http_date_def strftime_date imf_date_length date_header_ok_def refreshed_def)

lemma c_str_refreshed: "tm_ok now \<Longrightarrow> c_str (refreshed now) = ''Date: '' @ imf_date now @ crlf"
proof -
  assume "tm_ok now"
  then have "c_string (''Date: '' @ imf_date now @ crlf)"
    by (simp add: imf_date_c_string) (simp add: NUL_def)
  then have "c_str ((''Date: '' @ imf_date now @ crlf) @ NUL # []) = ''Date: '' @ imf_date now @ crlf"
    by (rule c_str_app_NUL)
  then show ?thesis by (simp add: refreshed_def)
qed

subsection \<open>The writer, equationally\<close>

text \<open>The writer's state once the text \<open>d\<close> has gone into the first bytes of \<open>m\<close>.\<close>

definition wst :: "string \<Rightarrow> nat \<Rightarrow> string \<Rightarrow> string \<Rightarrow> wstate" where
  "wst m n d dh = \<lparr>w_mem = d @ drop (length d) m, w_off = length d, w_rem = n - length d, w_date = dh\<rparr>"

lemma put_wst:
  "length d + length s \<le> length m \<Longrightarrow> put s (wst m n d dh) = Some (wst m n (d @ s) dh)"
  by (simp add: put_def wst_def write_at_def add.commute)

lemma puts_wst:
  "length d + length (concat ss) \<le> length m \<Longrightarrow> puts ss (wst m n d dh) = Some (wst m n (d @ concat ss) dh)"
  by (induction ss arbitrary: d) (simp_all add: put_wst)

lemma emit_wst:
  assumes "n \<le> length m" and "length d \<le> n"
  shows "emit ss (wst m n d dh) =
    (if n \<le> length d + length (concat ss)
     then creturn HTTP_RESPONSE_ERROR_BUFFER_OVERFLOW (wst m n d dh)
     else cnext (wst m n (d @ concat ss) dh))"
  using assms puts_wst [of d ss m n dh]
  by (auto simp: emit_def length_concat wst_def [of m n d dh] simp del: puts.simps)

fun emit_all :: "string list list \<Rightarrow> wstate \<Rightarrow> (http_response_error, wstate) cstep" where
  "emit_all [] w = cnext w"
| "emit_all (ss # sss) w = cthen (emit ss w) (emit_all sss)"

lemma emit_all_fits:
  assumes "n \<le> length m" and "length d \<le> n"
    and "sss = [] \<or> length d + length (concat (concat sss)) < n"
  shows "emit_all sss (wst m n d dh) = cnext (wst m n (d @ concat (concat sss)) dh)"
  using assms
proof (induction sss arbitrary: d)
  case Nil
  then show ?case by simp
next
  case (Cons ss sss)
  then show ?case
    using Cons.IH [of "d @ concat ss"] by (simp add: emit_wst)
qed

lemma emit_all_overflow:
  assumes "n \<le> length m" and "length d \<le> n" and "sss \<noteq> []"
    and "n \<le> length d + length (concat (concat sss))"
  shows "\<exists>d'. length d' \<le> n \<and>
    emit_all sss (wst m n d dh) = creturn HTTP_RESPONSE_ERROR_BUFFER_OVERFLOW (wst m n d' dh)"
  using assms
proof (induction sss arbitrary: d)
  case Nil
  then show ?case by simp
next
  case (Cons ss sss)
  show ?case
  proof (cases "n \<le> length d + length (concat ss)")
    case True
    then show ?thesis using Cons.prems by (auto simp: emit_wst)
  next
    case False
    then have "sss \<noteq> []" using Cons.prems by auto
    then show ?thesis
      using False Cons.prems Cons.IH [of "d @ concat ss"] by (simp add: emit_wst add.assoc)
  qed
qed

lemma emit_all_append: "emit_all (xs @ ys) w = cthen (emit_all xs w) (emit_all ys)"
proof (induction xs arbitrary: w)
  case Nil
  then show ?case by simp
next
  case (Cons x xs)
  then have "emit_all (xs @ ys) = (\<lambda>w. cthen (emit_all xs w) (emit_all ys))"
    by (simp add: fun_eq_iff)
  then show ?case by (simp add: cthen_assoc)
qed

lemma emit_all_Nil_fun [simp]: "emit_all [] = cnext"
  by (simp add: fun_eq_iff)

lemma emit_all_single [simp]: "emit_all [ss] = emit ss"
  by (simp add: fun_eq_iff)

lemma emit_all_Cons_fun: "emit_all (ss # sss) = (\<lambda>w. cthen (emit ss w) (emit_all sss))"
  by (simp add: fun_eq_iff)

text \<open>The sections before and after the point where the date header is refreshed.\<close>

definition sections1 :: "string \<Rightarrow> string list list" where
  "sections1 st = [[st], [''Server: L'' @ crlf]]"

definition sections2 :: "tm \<Rightarrow> http_response_config \<Rightarrow> string \<Rightarrow> string list list" where
  "sections2 now c ct =
     (if include_date_header c then [[''Date: '' @ imf_date now @ crlf]] else []) @
     [[''Content-Type: '', ct, crlf], [''Content-Length: '', dec (unat (body_length c)), crlf], [crlf]] @
     (if body c \<noteq> None \<and> body_length c > 0 then [[body_text c]] else [])"

lemma body_length_pos: "(0 < body_length c) = (0 < unat (body_length c))"
  by (simp add: word_less_nat_alt)

definition date_stage :: "tm \<Rightarrow> http_response_config \<Rightarrow> string \<Rightarrow> string" where
  "date_stage now c dh = (if include_date_header c then refreshed now else dh)"

lemma emit_date_sections:
  assumes "tm_ok now" and "date_header_ok (w_date w)"
  shows "emit_date now c w =
    emit_all (if include_date_header c then [[''Date: '' @ imf_date now @ crlf]] else [])
      (w\<lparr>w_date := date_stage now c (w_date w)\<rparr>)"
  unfolding emit_date_def date_refresh [OF assms] date_stage_def
  by (simp only: option.case c_str_refreshed [OF assms(1)] emit_all_single emit_all.simps(1)
      split: if_split) simp

lemma emit_body_sections:
  assumes "body_readable c"
  shows "emit_body c =
    emit_all (if body c \<noteq> None \<and> body_length c > 0 then [[body_text c]] else [])"
proof (cases "body c")
  case None
  then show ?thesis by (simp add: fun_eq_iff emit_body_def)
next
  case (Some b)
  have "puts [s] w = put s w" for s w
    by (cases "put s w") simp_all
  then show ?thesis
    using assms Some
    by (auto simp: fun_eq_iff emit_body_def emit_def body_text_def body_readable_def read_n_def
        body_length_pos simp del: puts.simps)
qed

lemma write_response_sections:
  assumes "http_response_status_string (status_code c) = Some st"
    and "http_response_content_type_string (content_type c) = Some ct"
    and "body_readable c" and "unat (body_length c) < 10 ^ 15"
    and "tm_ok now" and "date_header_ok (w_date w')"
    and "emit_all (sections1 st) w = cnext w'"
  shows "write_response now c w =
    emit_all (sections2 now c ct)
      (w'\<lparr>w_date := date_stage now c (w_date w')\<rparr>)"
proof -
  have nd: "ndigits (unat (body_length c)) \<le> 15"
    using assms(4) by (intro ndigits_le) simp_all
  have len: "emit_length c = emit [''Content-Length: '', dec (unat (body_length c)), crlf]"
    using nd by (auto simp: fun_eq_iff emit_length_def snprintf_ret_def length_dec)
  have e: "write_response now c w =
      cthen (emit_all (sections1 st) w) (\<lambda>w. cthen (emit_date now c w)
       (emit_all ([[''Content-Type: '', ct, crlf],
           [''Content-Length: '', dec (unat (body_length c)), crlf], [crlf]]
        @ (if body c \<noteq> None \<and> body_length c > 0 then [[body_text c]] else []))))"
    using assms(1-3)
    by (simp add: write_response_def sections1_def cthen_assoc len emit_body_sections
        emit_all_Cons_fun)
  show ?thesis
    unfolding e assms(7) cthen_cnext emit_date_sections [OF assms(5,6)] sections2_def
    by (simp only: emit_all_append append_assoc)
qed

lemma sections_text:
  "concat (concat (sections1 st @ sections2 now c ct)) =
     response_head (imf_date now) c st ct @ body_text c"
  by (auto simp: sections1_def sections2_def response_head_def body_text_def body_length_pos
      split: option.splits)

lemma wst_date: "(wst m n d dh)\<lparr>w_date := dh'\<rparr> = wst m n d dh'"
  by (simp add: wst_def)

lemma wst_w_date [simp]: "w_date (wst m n d dh) = dh"
  by (simp add: wst_def)

text \<open>What a caller must have set up: a fresh buffer, its memory, a printable length.\<close>

definition build_ready :: "tm \<Rightarrow> string \<Rightarrow> http_response_buffer \<Rightarrow> http_response_config \<Rightarrow> bool" where
  "build_ready now dh b c \<longleftrightarrow>
     rb_used b = 0 \<and> unat (rb_size b) \<le> length (rb_mem b) \<and> unat (body_length c) < 10 ^ 15 \<and>
     tm_ok now \<and> date_header_ok dh"

lemma write_response_result:
  assumes "build_ready now dh b c" and "render_response (imf_date now) c = Some r"
  shows "(length r < unat (rb_size b) \<longrightarrow>
      write_response now c (wst (rb_mem b) (unat (rb_size b)) [] dh) =
        cnext (wst (rb_mem b) (unat (rb_size b)) r (date_stage now c dh))) \<and>
    (unat (rb_size b) \<le> length r \<longrightarrow>
      (\<exists>d dh'. length d \<le> unat (rb_size b) \<and>
        write_response now c (wst (rb_mem b) (unat (rb_size b)) [] dh) =
        creturn HTTP_RESPONSE_ERROR_BUFFER_OVERFLOW (wst (rb_mem b) (unat (rb_size b)) d dh')))"
    (is "_ \<and> (_ \<longrightarrow> (\<exists>d dh'. ?overflow d dh'))")
proof -
  from assms(2) obtain st ct where
    st: "http_response_status_string (status_code c) = Some st" and
    ct: "http_response_content_type_string (content_type c) = Some ct" and
    rd: "body_readable c" and
    r: "r = response_head (imf_date now) c st ct @ body_text c"
    by (auto simp: render_response_def split: option.splits if_splits)
  let ?n = "unat (rb_size b)" and ?m = "rb_mem b"
  let ?d1 = "concat (concat (sections1 st))" and ?d2 = "concat (concat (sections2 now c ct))"
  have room: "?n \<le> length ?m" and fits: "unat (body_length c) < 10 ^ 15"
    and now: "tm_ok now" and dh: "date_header_ok dh"
    using assms(1) by (auto simp: build_ready_def)
  have r12: "r = ?d1 @ ?d2" unfolding r sections_text [symmetric] by simp
  have ne: "sections2 now c ct \<noteq> []" by (simp add: sections2_def)
  have run: "write_response now c (wst ?m ?n [] dh) =
      emit_all (sections2 now c ct) (wst ?m ?n ?d1 (date_stage now c dh))" if "length ?d1 < ?n"
    using that write_response_sections [OF st ct rd fits now, of "wst ?m ?n ?d1 dh" "wst ?m ?n [] dh"]
      emit_all_fits [OF room, of "[]" "sections1 st" dh] dh
    by (simp add: wst_date)
  have stop: "\<exists>d dh'. ?overflow d dh'" if small: "?n \<le> length ?d1"
  proof -
    from emit_all_overflow [OF room, of "[]" "sections1 st" dh] small
    obtain d where d: "length d \<le> ?n"
      "emit_all (sections1 st) (wst ?m ?n [] dh) =
        creturn HTTP_RESPONSE_ERROR_BUFFER_OVERFLOW (wst ?m ?n d dh)"
      by (auto simp: sections1_def)
    have "write_response now c (wst ?m ?n [] dh) =
        creturn HTTP_RESPONSE_ERROR_BUFFER_OVERFLOW (wst ?m ?n d dh)"
    proof -
      have "write_response now c w = cthen (emit_all (sections1 st) w) (\<lambda>w. the (Some (
          cthen (emit_date now c w) (\<lambda>w.
            cthen (emit [''Content-Type: '', ct, crlf] w) (\<lambda>w.
            cthen (emit_length c w) (\<lambda>w. cthen (emit [crlf] w) (emit_body c)))))))" for w
        using st ct by (simp add: write_response_def sections1_def cthen_assoc)
      then show ?thesis by (simp only: d(2) cthen_creturn)
    qed
    with d(1) show ?thesis by auto
  qed
  show ?thesis
  proof (cases "length ?d1 < ?n")
    case True
    show ?thesis
      using True run [OF True] emit_all_fits [OF room, of ?d1 "sections2 now c ct"]
        emit_all_overflow [OF room, of ?d1 "sections2 now c ct" "date_stage now c dh"] ne
      by (auto simp: r12)
  next
    case False
    with stop show ?thesis by (auto simp: r12)
  qed
qed

lemma http_response_build_run:
  assumes "rb_used b = 0"
  shows "http_response_build now dh (Some b) (Some c) =
    (case write_response now c (wst (rb_mem b) (unat (rb_size b)) [] dh) of
       None \<Rightarrow> None
     | Some (Inl (e, w)) \<Rightarrow> Some (e, Some (b\<lparr>rb_mem := w_mem w\<rparr>), w_date w)
     | Some (Inr w) \<Rightarrow>
         Some (HTTP_RESPONSE_OK,
               Some (b\<lparr>rb_mem := w_mem w, rb_used := rb_size b - of_nat (w_rem w)\<rparr>), w_date w))"
  using assms by (simp add: http_response_build_def wst_def)

lemma build_fits:
  assumes "build_ready now dh b c" and "render_response (imf_date now) c = Some r"
    and "length r < unat (rb_size b)"
  shows "http_response_build now dh (Some b) (Some c) =
    Some (HTTP_RESPONSE_OK,
          Some (b\<lparr>rb_mem := r @ drop (length r) (rb_mem b), rb_used := of_nat (length r)\<rparr>),
          date_stage now c dh)"
proof -
  have "rb_size b - of_nat (unat (rb_size b) - length r) = of_nat (length r)"
    using assms(3) by (simp add: of_nat_diff)
  with write_response_result [OF assms(1,2)] assms(1,3) show ?thesis
    by (simp add: http_response_build_run build_ready_def cnext_def wst_def [of _ _ r])
qed

lemma build_overflows:
  assumes "build_ready now dh b c" and "render_response (imf_date now) c = Some r"
    and "unat (rb_size b) \<le> length r"
  shows "\<exists>m dh'. http_response_build now dh (Some b) (Some c) =
      Some (HTTP_RESPONSE_ERROR_BUFFER_OVERFLOW, Some (b\<lparr>rb_mem := m\<rparr>), dh') \<and>
      length m = length (rb_mem b) \<and>
      drop (unat (rb_size b)) m = drop (unat (rb_size b)) (rb_mem b)"
proof -
  from write_response_result [OF assms(1,2)] assms(3) obtain d dh' where
    d: "length d \<le> unat (rb_size b)" and
    w: "write_response now c (wst (rb_mem b) (unat (rb_size b)) [] dh) =
      creturn HTTP_RESPONSE_ERROR_BUFFER_OVERFLOW (wst (rb_mem b) (unat (rb_size b)) d dh')"
    by blast
  have "length d \<le> length (rb_mem b)" using d assms(1) by (simp add: build_ready_def)
  with d w assms(1) show ?thesis
    by (auto simp: http_response_build_run build_ready_def creturn_def wst_def [of _ _ d])
qed

text \<open>
  C5. Given a fresh buffer that is large enough for the rendered response and one byte more,
  http_response_build succeeds, the buffer starts with exactly the response (status line, headers,
  length of the body, blank line, body), what lies behind it is untouched, and used is its length.
\<close>

theorem build_writes_response:
  assumes "build_ready now dh b c" and "render_response (imf_date now) c = Some r"
    and "length r < unat (rb_size b)"
  shows "http_response_build now dh (Some b) (Some c) =
    Some (HTTP_RESPONSE_OK,
          Some (b\<lparr>rb_mem := r @ drop (length r) (rb_mem b), rb_used := of_nat (length r)\<rparr>),
          date_stage now c dh)"
  using assms by (rule build_fits)

text \<open>
  C36. With a fresh buffer too small for the response and one byte more, http_response_build reports
  the overflow, leaves used at 0 so the buffer can be tried again, and writes no byte outside the
  size it was given.
\<close>

theorem build_overflow_safe:
  assumes "build_ready now dh b c" and "render_response (imf_date now) c = Some r"
    and "unat (rb_size b) \<le> length r"
  shows "\<exists>m dh'. http_response_build now dh (Some b) (Some c) =
      Some (HTTP_RESPONSE_ERROR_BUFFER_OVERFLOW, Some (b\<lparr>rb_mem := m\<rparr>), dh') \<and>
      length m = length (rb_mem b) \<and>
      drop (unat (rb_size b)) m = drop (unat (rb_size b)) (rb_mem b)"
  using assms by (rule build_overflows)

text \<open>A concrete response, for the witnesses below: \<open>200 OK\<close> with a 13-byte text body.\<close>

definition ex_now :: tm where
  "ex_now = \<lparr>tm_sec = 7, tm_min = 5, tm_hour = 23, tm_mday = 1, tm_mon = 0, tm_year = 126, tm_wday = 4\<rparr>"

definition ex_config :: http_response_config where
  "ex_config = \<lparr>status_code = HTTP_STATUS_OK, content_type = CONTENT_TYPE_TEXT_PLAIN,
     body = Some ''Hello, World!'', body_length = 13, include_date_header = True\<rparr>"

definition ex_buffer :: "nat \<Rightarrow> http_response_buffer" where
  "ex_buffer n = \<lparr>rb_mem = replicate n NUL, rb_size = of_nat n, rb_used = 0\<rparr>"

lemma ex_now_ok: "tm_ok ex_now"
  by (simp add: ex_now_def tm_ok_def)

lemma ex_ready: "n < 2 ^ 64 \<Longrightarrow> build_ready ex_now date_header_init (ex_buffer n) ex_config"
  by (simp add: build_ready_def ex_now_ok date_header_init_ok ex_buffer_def ex_config_def unat_size_of_nat)

definition ex_text :: string where
  "ex_text = ''HTTP/1.1 200 OK'' @ crlf @ ''Server: L'' @ crlf @
     ''Date: Thu, 01 Jan 2026 23:05:07 GMT'' @ crlf @ ''Content-Type: text/plain'' @ crlf @
     ''Content-Length: 13'' @ crlf @ crlf @ ''Hello, World!''"

lemma ex_render: "render_response (imf_date ex_now) ex_config = Some ex_text"
  by (simp add: render_response_def http_response_status_string_def
      http_response_content_type_string_def content_type_strings_def body_readable_def
      response_head_def body_text_def ex_config_def ex_now_def imf_date_def name_of_def
      day_names_def month_names_def pad2_def dec.simps ex_text_def)

lemma ex_text_length: "length ex_text = 126"
  by (simp add: ex_text_def)

lemma build_writes_response_witness:
  "http_response_build ex_now date_header_init (Some (ex_buffer 130)) (Some ex_config) =
    Some (HTTP_RESPONSE_OK,
      Some ((ex_buffer 130)\<lparr>rb_mem := ex_text @ replicate 4 NUL, rb_used := 126\<rparr>),
      refreshed ex_now)"
proof -
  have "length ex_text < unat (rb_size (ex_buffer 130))"
    by (simp add: ex_text_length ex_buffer_def)
  from build_writes_response [OF ex_ready ex_render this]
  show ?thesis by (simp add: ex_text_length ex_buffer_def date_stage_def ex_config_def)
qed

lemma build_overflow_safe_witness:
  "\<exists>m dh'. http_response_build ex_now date_header_init (Some (ex_buffer 126)) (Some ex_config) =
      Some (HTTP_RESPONSE_ERROR_BUFFER_OVERFLOW, Some ((ex_buffer 126)\<lparr>rb_mem := m\<rparr>), dh') \<and>
      length m = 126"
proof -
  have "unat (rb_size (ex_buffer 126)) \<le> length ex_text"
    by (simp add: ex_text_length ex_buffer_def)
  from build_overflow_safe [OF ex_ready ex_render this]
  show ?thesis by (auto simp: ex_buffer_def)
qed

subsection \<open>The size estimate against the writer\<close>

lemma calculate_size_sum:
  assumes "render_response (imf_date now) c = Some r" and "tm_ok now"
  shows "\<exists>k. http_response_calculate_size (Some c) = of_nat k + body_length c \<and> k \<le> 200 \<and>
    length r + 10 = k + ndigits (unat (body_length c)) + length (body_text c)"
proof -
  from assms(1) obtain st ct where
    st: "http_response_status_string (status_code c) = Some st" and
    ct: "http_response_content_type_string (content_type c) = Some ct" and
    r: "r = response_head (imf_date now) c st ct @ body_text c"
    by (auto simp: render_response_def split: option.splits if_splits)
  have small: "length st \<le> 36" "length ct \<le> 16"
    using st ct
    by (auto simp: http_response_status_string_def http_response_content_type_string_def
        content_type_strings_def less_Suc_eq nth_Cons' split: if_splits)
  let ?k = "length st + length ct + 57 + (if include_date_header c then 37 else 0)"
  have "http_response_calculate_size (Some c) = of_nat ?k + body_length c"
    using st ct by (simp add: http_response_calculate_size_def Let_def algebra_simps)
  moreover have "length r + 10 = ?k + ndigits (unat (body_length c)) + length (body_text c)"
    using assms(2) by (simp add: r response_head_def length_dec imf_date_length)
  ultimately show ?thesis using small by (intro exI [of _ ?k]) simp
qed

lemma unat_size_sum:
  "k \<le> 200 \<Longrightarrow> unat n < 10 ^ 15 \<Longrightarrow> unat (of_nat k + n :: size_t) = k + unat n"
  by (subst unat_size_add) (simp_all add: unat_size_of_nat)

text \<open>
  The size http_response_calculate_size promises is enough for http_response_build exactly when
  the body is shorter than 10^9 bytes: its ten reserved digits pay both for Content-Length and for
  the byte the strict overflow tests keep free, so a body whose length needs all ten digits gets a
  buffer that is one byte short.
\<close>

theorem calculated_size_suffices_iff:
  assumes "build_ready now dh b c" and "render_response (imf_date now) c = Some r"
    and "body c \<noteq> None" and "rb_size b = http_response_calculate_size (Some c)"
  shows "(\<exists>b' dh'. http_response_build now dh (Some b) (Some c) = Some (HTTP_RESPONSE_OK, b', dh'))
    \<longleftrightarrow> unat (body_length c) < 10 ^ 9"
proof -
  have now: "tm_ok now" and n15: "unat (body_length c) < 10 ^ 15"
    using assms(1) by (auto simp: build_ready_def)
  have body: "length (body_text c) = unat (body_length c)"
    using assms(2,3)
    by (auto simp: render_response_def body_text_def body_readable_def split: option.splits if_splits)
  obtain k where k: "unat (rb_size b) = k + unat (body_length c)"
    "length r + 10 = k + ndigits (unat (body_length c)) + length (body_text c)"
    using calculate_size_sum [OF assms(2) now] unat_size_sum [OF _ n15] assms(4) by auto
  then have "length r < unat (rb_size b) \<longleftrightarrow> ndigits (unat (body_length c)) \<le> 9"
    using body by linarith
  also have "\<dots> \<longleftrightarrow> unat (body_length c) < 10 ^ 9" by (rule ndigits_le_iff) simp
  finally show ?thesis
    using build_fits [OF assms(1,2)] build_overflows [OF assms(1,2)]
    by (cases "length r < unat (rb_size b)") auto
qed

lemma calculated_size_suffices_iff_witness:
  "(\<exists>b' dh'. http_response_build ex_now date_header_init (Some (ex_buffer 134)) (Some ex_config)
     = Some (HTTP_RESPONSE_OK, b', dh'))"
proof -
  have "rb_size (ex_buffer 134) = http_response_calculate_size (Some ex_config)"
    by (simp add: ex_buffer_def http_response_calculate_size_def ex_config_def Let_def
        http_response_status_string_def http_response_content_type_string_def content_type_strings_def)
  then show ?thesis
    by (subst calculated_size_suffices_iff [OF ex_ready ex_render]) (simp_all add: ex_config_def)
qed

subsection \<open>Reading a response back\<close>

text \<open>
  The other end of the wire, as HTTP/1.1 frames messages: lines up to an empty line, then as many
  body bytes as the one Content-Length line says. What follows belongs to the next response.
\<close>

fun split_line :: "string \<Rightarrow> (string \<times> string) option" where
  "split_line (a # b # s) =
     (if a = CHR 0x0D \<and> b = CHR 0x0A then Some ([], s)
      else map_option (\<lambda>(l, r). (a # l, r)) (split_line (b # s)))"
| "split_line _ = None"

lemma split_line_shorter: "split_line s = Some (l, r) \<Longrightarrow> length r < length s"
  by (induction s arbitrary: l rule: split_line.induct) (fastforce split: if_splits)+

function read_head :: "string \<Rightarrow> (string list \<times> string) option" where
  "read_head s =
     (case split_line s of None \<Rightarrow> None
      | Some (l, r) \<Rightarrow>
          if l = [] then Some ([], r) else map_option (\<lambda>(ls, b). (l # ls, b)) (read_head r))"
  by pat_completeness auto
termination
  by (relation "measure length") (auto dest: split_line_shorter)

declare read_head.simps [simp del]

definition content_lengths :: "string list \<Rightarrow> nat list" where
  "content_lengths ls =
     map (\<lambda>l. undec (drop 16 l)) (filter (\<lambda>l. take 16 l = ''Content-Length: '') ls)"

definition read_response :: "string \<Rightarrow> (string \<times> string \<times> string) option" where
  "read_response s =
     (case read_head s of
        Some (sl # ls, r) \<Rightarrow>
          (case content_lengths ls of
             [n] \<Rightarrow> if n \<le> length r then Some (sl, take n r, drop n r) else None
           | _ \<Rightarrow> None)
      | _ \<Rightarrow> None)"

definition no_cr :: "string \<Rightarrow> bool" where
  "no_cr s \<longleftrightarrow> CHR 0x0D \<notin> set s"

lemma no_cr_simps [simp]:
  "no_cr []" "no_cr (a # s) \<longleftrightarrow> a \<noteq> CHR 0x0D \<and> no_cr s" "no_cr (s @ t) \<longleftrightarrow> no_cr s \<and> no_cr t"
  by (auto simp: no_cr_def)

lemma split_line_line [simp]:
  "no_cr l \<Longrightarrow> split_line (l @ CHR 0x0D # CHR 0x0A # r) = Some (l, r)"
proof (induction l)
  case Nil
  then show ?case by simp
next
  case (Cons a l)
  then show ?case by (cases l) auto
qed

lemma read_head_lines:
  "list_all (\<lambda>l. l \<noteq> [] \<and> no_cr l) ls \<Longrightarrow>
     read_head (concat (map (\<lambda>l. l @ crlf) ls) @ crlf @ r) = Some (ls, r)"
  by (induction ls) (simp_all add: read_head.simps)

lemma is_digit_no_cr: "is_digit c \<Longrightarrow> c \<noteq> CHR 0x0D"
  by (auto simp: is_digit_def)

lemma dec_no_cr [simp]: "no_cr (dec n)"
  using dec_digits is_digit_no_cr by (auto simp: no_cr_def)

lemma digit_no_cr: "d < 10 \<Longrightarrow> digit d \<noteq> CHR 0x0D"
  using is_digit_no_cr is_digit_digit by blast

lemma pad2_no_cr: "n < 100 \<Longrightarrow> no_cr (pad2 n)"
  by (simp add: pad2_def digit_no_cr)

lemma name_of_no_cr: "list_all no_cr ns \<Longrightarrow> no_cr (name_of ns i)"
  by (auto simp: name_of_def list_all_length)

lemma imf_date_no_cr: "tm_ok t \<Longrightarrow> no_cr (imf_date t)"
proof -
  assume t: "tm_ok t"
  have "no_cr (name_of day_names (tm_wday t))" "no_cr (name_of month_names (tm_mon t))"
    by (auto intro!: name_of_no_cr simp: day_names_def month_names_def)
  with t show ?thesis by (simp add: imf_date_def tm_ok_def pad2_no_cr)
qed

lemma status_line:
  "http_response_status_string s = Some st \<Longrightarrow> \<exists>sl. st = sl @ crlf \<and> sl \<noteq> [] \<and> no_cr sl"
  unfolding http_response_status_string_def
  by (fastforce split: if_splits)

lemma content_type_no_cr: "http_response_content_type_string t = Some ct \<Longrightarrow> no_cr ct"
  by (auto simp: http_response_content_type_string_def content_type_strings_def less_Suc_eq nth_Cons'
      split: if_splits)

definition head_lines :: "string \<Rightarrow> http_response_config \<Rightarrow> string \<Rightarrow> string list" where
  "head_lines d c ct =
     [''Server: L''] @ (if include_date_header c then [''Date: '' @ d] else []) @
     [''Content-Type: '' @ ct, ''Content-Length: '' @ dec (unat (body_length c))]"

lemma response_head_lines:
  "response_head d c (sl @ crlf) ct = concat (map (\<lambda>l. l @ crlf) (sl # head_lines d c ct)) @ crlf"
  by (simp add: response_head_def head_lines_def)

lemma content_lengths_head: "content_lengths (head_lines d c ct) = [unat (body_length c)]"
  by (simp add: content_lengths_def head_lines_def)

lemma read_response_render:
  assumes "render_response (imf_date now) c = Some r" and "tm_ok now"
    and "body c = None \<longrightarrow> body_length c = 0"
  shows "\<exists>sl. http_response_status_string (status_code c) = Some (sl @ crlf) \<and>
    read_response (r @ rest) = Some (sl, body_text c, rest)"
proof -
  from assms(1) obtain st ct where
    st: "http_response_status_string (status_code c) = Some st" and
    ct: "http_response_content_type_string (content_type c) = Some ct" and
    rd: "body_readable c" and
    r: "r = response_head (imf_date now) c st ct @ body_text c"
    by (auto simp: render_response_def split: option.splits if_splits)
  obtain sl where sl: "st = sl @ crlf" "sl \<noteq> []" "no_cr sl"
    using status_line [OF st] by auto
  have n: "length (body_text c) = unat (body_length c)"
    using rd assms(3) by (auto simp: body_text_def body_readable_def split: option.splits)
  have "list_all (\<lambda>l. l \<noteq> [] \<and> no_cr l) (sl # head_lines (imf_date now) c ct)"
    using sl content_type_no_cr [OF ct] imf_date_no_cr [OF assms(2)] by (simp add: head_lines_def)
  from read_head_lines [OF this, of "body_text c @ rest"]
  have "read_head (r @ rest) = Some (sl # head_lines (imf_date now) c ct, body_text c @ rest)"
    by (simp add: r sl(1) response_head_lines)
  with st sl(1) n show ?thesis by (simp add: read_response_def content_lengths_head)
qed

text \<open>
  C22. What http_response_build wrote reads back: a peer that frames messages by Content-Length
  recovers the status line, exactly the body, and the untouched bytes of whatever follows, so
  responses can be pipelined.
\<close>

theorem build_reads_back:
  assumes "build_ready now dh b c" and "render_response (imf_date now) c = Some r"
    and "length r < unat (rb_size b)" and "body c = None \<longrightarrow> body_length c = 0"
  shows "\<exists>b' dh' sl. http_response_build now dh (Some b) (Some c) = Some (HTTP_RESPONSE_OK, Some b', dh') \<and>
    http_response_status_string (status_code c) = Some (sl @ crlf) \<and>
    read_response (take (unat (rb_used b')) (rb_mem b') @ rest) = Some (sl, body_text c, rest)"
proof -
  have now: "tm_ok now" using assms(1) by (simp add: build_ready_def)
  have "unat (of_nat (length r) :: size_t) = length r"
    using assms(3) by (rule unat_size_below)
  moreover obtain sl where
    "http_response_status_string (status_code c) = Some (sl @ crlf)"
    "read_response (r @ rest) = Some (sl, body_text c, rest)"
    using read_response_render [OF assms(2) now assms(4)] by blast
  moreover note build_fits [OF assms(1-3)]
  ultimately show ?thesis by auto
qed

lemma build_reads_back_witness:
  "\<exists>b' dh' sl.
    http_response_build ex_now date_header_init (Some (ex_buffer 130)) (Some ex_config) =
      Some (HTTP_RESPONSE_OK, Some b', dh') \<and>
    http_response_status_string HTTP_STATUS_OK = Some (sl @ crlf) \<and>
    read_response (take (unat (rb_used b')) (rb_mem b') @ ''HTTP/1.1'') =
      Some (sl, ''Hello, World!'', ''HTTP/1.1'')"
proof -
  have len: "length ex_text < unat (rb_size (ex_buffer 130))"
    by (simp add: ex_text_length ex_buffer_def)
  have body: "body ex_config = None \<longrightarrow> body_length ex_config = 0"
    by (simp add: ex_config_def)
  have "body_text ex_config = ''Hello, World!''" and "status_code ex_config = HTTP_STATUS_OK"
    by (simp_all add: body_text_def ex_config_def)
  with build_reads_back [OF ex_ready ex_render len body, of "''HTTP/1.1''"] show ?thesis by simp
qed

subsection \<open>Reusing a buffer\<close>

text \<open>
  A buffer serves one response at a time: a second http_response_build on a buffer that holds a
  response is refused and changes nothing, and after http_response_buffer_reset the buffer takes a
  new response as if it were fresh.
\<close>

theorem build_refuses_until_reset:
  assumes "build_ready now dh b c" and "render_response (imf_date now) c = Some r"
    and "length r < unat (rb_size b)" and "render_response (imf_date now) c2 = Some r2"
    and "length r2 < unat (rb_size b)" and "unat (body_length c2) < 10 ^ 15"
  shows "\<exists>b1 dh1. http_response_build now dh (Some b) (Some c) = Some (HTTP_RESPONSE_OK, Some b1, dh1) \<and>
    http_response_build now dh1 (Some b1) (Some c2) =
      Some (HTTP_RESPONSE_ERROR_INVALID_PARAM, Some b1, dh1) \<and>
    (\<exists>b2 dh2. http_response_build now dh1 (http_response_buffer_reset (Some b1)) (Some c2) =
      Some (HTTP_RESPONSE_OK, Some b2, dh2) \<and> take (unat (rb_used b2)) (rb_mem b2) = r2)"
proof -
  let ?b1 = "b\<lparr>rb_mem := r @ drop (length r) (rb_mem b), rb_used := of_nat (length r)\<rparr>"
  let ?dh1 = "date_stage now c dh"
  note small = unat_size_below [of _ "rb_size b"]
  have "r \<noteq> []"
    using assms(2) by (auto simp: render_response_def response_head_def split: option.splits if_splits)
  then have used: "0 < rb_used ?b1"
    using small [OF assms(3)] by (simp add: word_less_nat_alt)
  have "build_ready now ?dh1 (?b1\<lparr>rb_used := 0\<rparr>) c2"
    using assms(1,3,6) refreshed_ok by (auto simp: build_ready_def date_stage_def)
  from build_fits [OF assms(1-3)] used
    http_response_build_run [of "?b1\<lparr>rb_used := 0\<rparr>" now ?dh1 c2]
    write_response_result [OF this assms(4)] assms(5) small [OF assms(5)]
  show ?thesis
    by (simp add: http_response_build_def [of _ _ _ "Some c2"] http_response_buffer_reset_def
        cnext_def wst_def of_nat_diff)
qed

lemma build_refuses_until_reset_witness:
  "\<exists>b1 dh1. http_response_build ex_now date_header_init (Some (ex_buffer 130)) (Some ex_config) =
      Some (HTTP_RESPONSE_OK, Some b1, dh1) \<and>
    http_response_build ex_now dh1 (Some b1) (Some ex_config) =
      Some (HTTP_RESPONSE_ERROR_INVALID_PARAM, Some b1, dh1)"
proof -
  have len: "length ex_text < unat (rb_size (ex_buffer 130))"
    by (simp add: ex_text_length ex_buffer_def)
  have n: "unat (body_length ex_config) < 10 ^ 15"
    by (simp add: ex_config_def)
  from build_refuses_until_reset [OF ex_ready ex_render len ex_render len n]
  show ?thesis by auto
qed

end
