(* ===== verification/Http_Server.thy ===== *)
theory Http_Server
  imports Http_Response Data_Segment
begin

text \<open>
  Component \<open>src/src/domain/http_server.c\<close> with \<open>include/domain/http_server.h\<close>: the server
  instance with its prepared JSON text, the router, the request handler and the response
  configuration of a route. What the handler asks the reactor to send is recorded as a list of
  \<open>server_call\<close>s; \<open>server_ok\<close> is \<open>third_party/libreactor/src/reactor/server.c\<close>'s.
\<close>

subsection \<open>Data\<close>

datatype http_server_error =
    HTTP_SERVER_OK
  | HTTP_SERVER_ERROR_INVALID_PARAM
  | HTTP_SERVER_ERROR_MEMORY
  | HTTP_SERVER_ERROR_RESPONSE_BUILD

datatype http_route = ROUTE_PLAINTEXT | ROUTE_JSON | ROUTE_UNKNOWN

text \<open>A \<open>const char *\<close> field is the text it designates, \<open>None\<close> for NULL.\<close>

record http_server_config =
  plaintext_response :: "string option"
  json_message :: "string option"
  enable_date_headers :: bool

record http_server =
  server_config :: http_server_config
  json_buffer :: string
  json_buffer_size :: size_t

text \<open>What is asked of the reactor: status, type and body of a response.\<close>

datatype server_call = Server_respond string data data

definition cstr_object :: "string \<Rightarrow> string" where
  "cstr_object s = s @ [NUL]"

definition json_buffer_capacity :: nat where
  "json_buffer_capacity = 4096"

subsection \<open>Static segments\<close>

definition content_type_plain :: data where
  "content_type_plain = data_construct (Some (cstr_object ''text/plain'')) 10"

definition content_type_json :: data where
  "content_type_json = data_construct (Some (cstr_object ''application/json'')) 16"

definition not_found_response :: data where
  "not_found_response = data_construct (Some (cstr_object ''Not Found'')) 9"

subsection \<open>Instances\<close>

definition zeroed_config :: http_server_config where
  "zeroed_config =
     \<lparr>plaintext_response = None, json_message = None, enable_date_headers = False\<rparr>"

definition zeroed_server :: http_server where
  "zeroed_server =
     \<lparr>server_config = zeroed_config, json_buffer = replicate json_buffer_capacity NUL,
      json_buffer_size = 0\<rparr>"

definition http_server_init :: http_server_error where
  "http_server_init =
     (if http_response_init \<noteq> HTTP_RESPONSE_OK then HTTP_SERVER_ERROR_INVALID_PARAM
      else HTTP_SERVER_OK)"

definition json_text :: "string \<Rightarrow> string" where
  "json_text msg = ''{\"message\":\"'' @ msg @ ''\"}''"

text \<open>\<open>snprintf\<close> into the zeroed 4096-byte array, then the two error tests.\<close>

definition http_server_create ::
  "http_server option \<Rightarrow> http_server_config option \<Rightarrow> http_server_error \<times> http_server option" where
  "http_server_create srv cfg =
     (case (srv, cfg) of
        (Some old, Some c) \<Rightarrow>
          (let s = zeroed_server\<lparr>server_config := c\<rparr>
           in case json_message c of
                None \<Rightarrow> (HTTP_SERVER_OK, Some s)
              | Some msg \<Rightarrow>
                  let t = json_text msg;
                      written = snprintf_ret t;
                      st = snprintf_store json_buffer_capacity t;
                      s = s\<lparr>json_buffer := st @ drop (length st) (json_buffer s)\<rparr>
                  in if written < 0 \<or> written \<ge> int json_buffer_capacity
                     then (HTTP_SERVER_ERROR_MEMORY, Some s)
                     else (HTTP_SERVER_OK, Some (s\<lparr>json_buffer_size := of_int written\<rparr>)))
      | _ \<Rightarrow> (HTTP_SERVER_ERROR_INVALID_PARAM, srv))"

definition http_server_destroy :: "http_server option \<Rightarrow> http_server option" where
  "http_server_destroy srv = map_option (\<lambda>_. zeroed_server) srv"

subsection \<open>Routing\<close>

definition http_server_parse_route :: "data \<Rightarrow> http_route option" where
  "http_server_parse_route target =
     (if d_base target = None then Some ROUTE_UNKNOWN
      else Option.bind (data_string (Some (cstr_object ''/plaintext''))) (\<lambda>p.
           Option.bind (data_equal target p) (\<lambda>b.
           if b then Some ROUTE_PLAINTEXT
           else Option.bind (data_string (Some (cstr_object ''/json''))) (\<lambda>j.
                Option.bind (data_equal target j) (\<lambda>b.
                Some (if b then ROUTE_JSON else ROUTE_UNKNOWN))))))"

text \<open>\<open>server_ok (request, type, body)\<close> of the reactor's server.\<close>

definition server_ok :: "data \<Rightarrow> data \<Rightarrow> server_call list" where
  "server_ok ty bd = [Server_respond ''200 OK'' ty bd]"

text \<open>The request is its target segment; \<open>None\<close> is a NULL request.\<close>

definition http_server_handle_request ::
  "http_server option \<Rightarrow> data option \<Rightarrow> (http_server_error \<times> server_call list) option" where
  "http_server_handle_request srv request =
     (case (srv, request) of
        (Some s, Some target) \<Rightarrow>
          Option.bind (http_server_parse_route target) (\<lambda>route.
          case route of
            ROUTE_PLAINTEXT \<Rightarrow>
              Option.bind (data_string (map_option cstr_object (plaintext_response (server_config s))))
                (\<lambda>b. Some (HTTP_SERVER_OK, server_ok content_type_plain b))
          | ROUTE_JSON \<Rightarrow>
              Option.bind (data_string (Some (json_buffer s)))
                (\<lambda>b. Some (HTTP_SERVER_OK, server_ok content_type_json b))
          | ROUTE_UNKNOWN \<Rightarrow>
              Some (HTTP_SERVER_OK, server_ok content_type_plain not_found_response))
      | _ \<Rightarrow> Some (HTTP_SERVER_ERROR_INVALID_PARAM, []))"

text \<open>The configuration of a route's response; the last argument is the one to fill.\<close>

definition http_server_generate_response ::
  "http_server option \<Rightarrow> http_route \<Rightarrow> http_response_config option \<Rightarrow>
     http_server_error \<times> http_response_config option" where
  "http_server_generate_response srv route out =
     (case (srv, out) of
        (Some s, Some rc) \<Rightarrow>
          (let rc = rc\<lparr>status_code := HTTP_STATUS_OK,
                include_date_header := enable_date_headers (server_config s)\<rparr>
           in (HTTP_SERVER_OK, Some
            (case route of
               ROUTE_PLAINTEXT \<Rightarrow>
                 rc\<lparr>content_type := CONTENT_TYPE_TEXT_PLAIN,
                    body := map_option cstr_object (plaintext_response (server_config s)),
                    body_length :=
                      (case plaintext_response (server_config s) of None \<Rightarrow> 0
                       | Some p \<Rightarrow> of_nat (length p))\<rparr>
             | ROUTE_JSON \<Rightarrow>
                 rc\<lparr>content_type := CONTENT_TYPE_APPLICATION_JSON,
                    body := Some (json_buffer s),
                    body_length := json_buffer_size s\<rparr>
             | ROUTE_UNKNOWN \<Rightarrow>
                 rc\<lparr>status_code := HTTP_STATUS_NOT_FOUND,
                    content_type := CONTENT_TYPE_TEXT_PLAIN,
                    body := Some (cstr_object ''Not Found''),
                    body_length := of_nat (length ''Not Found'')\<rparr>)))
      | _ \<Rightarrow> (HTTP_SERVER_ERROR_INVALID_PARAM, out))"

subsection \<open>The prepared JSON text\<close>

lemma json_text_length: "length (json_text msg) = length msg + 14"
  by (simp add: json_text_def)

lemma json_text_c_string: "c_string msg \<Longrightarrow> c_string (json_text msg)"
  by (simp add: json_text_def NUL_def)

lemma create_json:
  assumes "json_message c = Some msg"
  shows "http_server_create (Some old) (Some c) =
    (if length msg < 4082
     then (HTTP_SERVER_OK,
       Some \<lparr>server_config = c,
         json_buffer = json_text msg @ replicate (4082 - length msg) NUL,
         json_buffer_size = of_nat (length msg + 14)\<rparr>)
     else (HTTP_SERVER_ERROR_MEMORY,
       Some \<lparr>server_config = c, json_buffer = take 4095 (json_text msg) @ [NUL],
         json_buffer_size = 0\<rparr>))"
proof (cases "length msg < 4082")
  case True
  then have "replicate (4082 - length msg) NUL = NUL # replicate (4081 - length msg) NUL"
    by (simp add: Suc_diff_le flip: replicate_Suc)
  with True assms show ?thesis
    by (simp add: http_server_create_def zeroed_server_def json_buffer_capacity_def Let_def
        snprintf_ret_def snprintf_store_fits json_text_length)
next
  case False
  with assms snprintf_fits [of 4096 "json_text msg"] show ?thesis
    by (simp add: http_server_create_def zeroed_server_def json_buffer_capacity_def Let_def
        snprintf_store_def json_text_length)
qed

text \<open>An instance that http_server_create prepared for serving both texts.\<close>

definition serves :: "http_server \<Rightarrow> string \<Rightarrow> string \<Rightarrow> bool" where
  "serves s p msg \<longleftrightarrow>
     plaintext_response (server_config s) = Some p \<and> c_string p \<and> length p < 2 ^ 63 \<and>
     c_string msg \<and> length msg < 4082 \<and>
     json_buffer s = json_text msg @ replicate (4082 - length msg) NUL \<and>
     json_buffer_size s = of_nat (length (json_text msg))"

lemma create_serves:
  assumes "http_server_create (Some old) (Some c) = (HTTP_SERVER_OK, Some s)"
    and "json_message c = Some msg" and "c_string msg"
    and "plaintext_response c = Some p" and "c_string p" and "length p < 2 ^ 63"
  shows "serves s p msg"
  using assms create_json [OF assms(2), of old]
  by (auto simp: serves_def json_text_length split: if_splits)

lemma serves_buffer: "serves s p msg \<Longrightarrow> \<exists>k. json_buffer s = json_text msg @ NUL # replicate k NUL"
  by (cases "4082 - length msg") (auto simp: serves_def)

lemma serves_json_segment:
  assumes "serves s p msg"
  shows "\<exists>d. data_string (Some (json_buffer s)) = Some d \<and> data_text d = Some (json_text msg)"
proof -
  obtain k where k: "json_buffer s = json_text msg @ NUL # replicate k NUL"
    using serves_buffer [OF assms] by blast
  have c: "c_string (json_text msg)" and len: "length (json_buffer s) < 2 ^ 64"
    using assms by (auto simp: serves_def json_text_length json_text_c_string)
  from data_string_text [OF c] k len obtain d where d: "data_string (Some (json_buffer s)) = Some d"
    by fastforce
  with data_text_string [OF d] len show ?thesis by (simp add: k c)
qed

lemma cstr_segment:
  assumes "c_string p" and "length p < 2 ^ 63"
  shows "\<exists>d. data_string (Some (cstr_object p)) = Some d \<and> data_text d = Some p"
proof -
  obtain d where d: "data_string (Some (cstr_object p)) = Some d"
    using data_string_text [OF assms(1), of "[]"] assms(2) by (auto simp: cstr_object_def)
  with data_text_string [OF d] assms show ?thesis by (simp add: cstr_object_def)
qed

subsection \<open>What each route answers\<close>

definition route_of_text :: "string \<Rightarrow> http_route" where
  "route_of_text t =
     (if t = ''/plaintext'' then ROUTE_PLAINTEXT
      else if t = ''/json'' then ROUTE_JSON else ROUTE_UNKNOWN)"

fun route_type :: "http_route \<Rightarrow> string" where
  "route_type ROUTE_PLAINTEXT = ''text/plain''"
| "route_type ROUTE_JSON = ''application/json''"
| "route_type ROUTE_UNKNOWN = ''text/plain''"

fun route_body :: "string \<Rightarrow> string \<Rightarrow> http_route \<Rightarrow> string" where
  "route_body p msg ROUTE_PLAINTEXT = p"
| "route_body p msg ROUTE_JSON = json_text msg"
| "route_body p msg ROUTE_UNKNOWN = ''Not Found''"

lemma static_segments:
  "data_text content_type_plain = Some ''text/plain''"
  "data_text content_type_json = Some ''application/json''"
  "data_text not_found_response = Some ''Not Found''"
  by (simp_all add: content_type_plain_def content_type_json_def not_found_response_def
      cstr_object_def data_construct_def data_text_def data_read_def read_n_def)

lemma parse_route_text:
  assumes "data_text target = Some t" and "d_base target \<noteq> None"
  shows "http_server_parse_route target = Some (route_of_text t)"
proof -
  have "c_string ''/plaintext''" "c_string ''/json''" by (simp_all add: NUL_def)
  then obtain dp dj where
    "data_string (Some (cstr_object ''/plaintext'')) = Some dp" "data_text dp = Some ''/plaintext''"
    "data_string (Some (cstr_object ''/json'')) = Some dj" "data_text dj = Some ''/json''"
    using cstr_segment [of "''/plaintext''"] cstr_segment [of "''/json''"] by auto
  with assms show ?thesis
    using data_equal_texts [OF assms(1), of dp] data_equal_texts [OF assms(1), of dj]
    by (auto simp: http_server_parse_route_def route_of_text_def)
qed

lemma parse_route_null: "d_base target = None \<Longrightarrow> http_server_parse_route target = Some ROUTE_UNKNOWN"
  by (simp add: http_server_parse_route_def)

lemma handle_serves:
  assumes "serves s p msg" and "http_server_parse_route target = Some route"
  shows "\<exists>ty bd. http_server_handle_request (Some s) (Some target) =
      Some (HTTP_SERVER_OK, [Server_respond ''200 OK'' ty bd]) \<and>
    data_text ty = Some (route_type route) \<and> data_text bd = Some (route_body p msg route)"
proof -
  have p: "plaintext_response (server_config s) = Some p" "c_string p" "length p < 2 ^ 63"
    using assms(1) by (auto simp: serves_def)
  obtain dp dj where
    "data_string (Some (cstr_object p)) = Some dp" "data_text dp = Some p"
    "data_string (Some (json_buffer s)) = Some dj" "data_text dj = Some (json_text msg)"
    using cstr_segment [OF p(2,3)] serves_json_segment [OF assms(1)] by auto
  with p(1) assms(2) show ?thesis
    by (cases route) (simp_all add: http_server_handle_request_def server_ok_def static_segments)
qed

lemma generate_serves:
  assumes "serves s p msg"
    and "http_server_generate_response (Some s) route (Some rc0) = (HTTP_SERVER_OK, Some rc)"
  shows "http_response_content_type_string (content_type rc) = Some (route_type route)"
    and "body_text rc = route_body p msg route" and "body_readable rc" and "body rc \<noteq> None"
    and "status_code rc = (if route = ROUTE_UNKNOWN then HTTP_STATUS_NOT_FOUND else HTTP_STATUS_OK)"
    and "unat (body_length rc) = length (route_body p msg route)"
    and "include_date_header rc = enable_date_headers (server_config s)"
proof -
  have p: "plaintext_response (server_config s) = Some p" "length p < 2 ^ 63"
    and j: "length msg < 4082" "json_buffer_size s = of_nat (length (json_text msg))"
      "json_buffer s = json_text msg @ replicate (4082 - length msg) NUL"
    using assms(1) by (auto simp: serves_def)
  have n: "unat (of_nat (length p) :: size_t) = length p"
    "unat (of_nat (length msg + 14) :: size_t) = length msg + 14"
    using p(2) j(1) by (intro unat_size_of_nat; simp)+
  show "http_response_content_type_string (content_type rc) = Some (route_type route)"
    "body_text rc = route_body p msg route" "body_readable rc" "body rc \<noteq> None"
    "status_code rc = (if route = ROUTE_UNKNOWN then HTTP_STATUS_NOT_FOUND else HTTP_STATUS_OK)"
    "unat (body_length rc) = length (route_body p msg route)"
    "include_date_header rc = enable_date_headers (server_config s)"
    using assms(2) p(1) j n
    by (cases route; auto simp: http_server_generate_response_def Let_def body_text_def
        body_readable_def cstr_object_def json_text_length http_response_content_type_string_def
        content_type_strings_def)+
qed

subsection \<open>Properties\<close>

text \<open>A concrete instance for the witnesses: the texts of the default configuration.\<close>

definition ex_server_config :: http_server_config where
  "ex_server_config =
     \<lparr>plaintext_response = Some ''Hello, World!'', json_message = Some ''Hello, World!'',
      enable_date_headers = True\<rparr>"

definition ex_server :: http_server where
  "ex_server = the (snd (http_server_create (Some zeroed_server) (Some ex_server_config)))"

lemma ex_create: "http_server_create (Some zeroed_server) (Some ex_server_config) = (HTTP_SERVER_OK, Some ex_server)"
  using create_json [of ex_server_config "''Hello, World!''" zeroed_server]
  by (simp add: ex_server_def ex_server_config_def)

lemma ex_serves: "serves ex_server ''Hello, World!'' ''Hello, World!''"
  by (rule create_serves [OF ex_create]) (simp_all add: ex_server_config_def NUL_def)

definition segment_of :: "string \<Rightarrow> data" where
  "segment_of t = data_construct (Some t) (of_nat (length t))"

lemma segment_of_text: "length t < 2 ^ 64 \<Longrightarrow> data_text (segment_of t) = Some t \<and> d_base (segment_of t) \<noteq> None"
  using data_text_construct [of "length t" t] by (simp add: segment_of_def data_construct_def)

text \<open>
  http_server_create accepts a JSON message exactly when the whole object and its NUL fit the
  4096-byte buffer; then the buffer holds the NUL-terminated object and its size field the object's
  length. A longer message is an error, never a truncated response.
\<close>

theorem create_prepares_json:
  assumes "json_message c = Some msg"
  shows "(length msg < 4082 \<longrightarrow>
      http_server_create (Some old) (Some c) =
        (HTTP_SERVER_OK, Some \<lparr>server_config = c,
           json_buffer = ''{\"message\":\"'' @ msg @ ''\"}'' @ replicate (4082 - length msg) NUL,
           json_buffer_size = of_nat (length msg + 14)\<rparr>)) \<and>
    (4082 \<le> length msg \<longrightarrow>
      (\<exists>s. http_server_create (Some old) (Some c) = (HTTP_SERVER_ERROR_MEMORY, Some s) \<and>
        length (json_buffer s) = 4096 \<and> json_buffer_size s = 0))"
  using create_json [OF assms, of old] by (auto simp: json_text_def min_def)

lemma create_prepares_json_witness:
  "http_server_create (Some zeroed_server) (Some ex_server_config) =
    (HTTP_SERVER_OK, Some \<lparr>server_config = ex_server_config,
      json_buffer = ''{\"message\":\"Hello, World!\"}'' @ replicate 4069 NUL,
      json_buffer_size = 27\<rparr>)"
  using create_prepares_json [of ex_server_config "''Hello, World!''" zeroed_server]
  by (simp add: ex_server_config_def)

text \<open>What a created server holds for the two texts, when they are set and when they are not.\<close>

definition json_content :: "http_server_config \<Rightarrow> string" where
  "json_content c = (case json_message c of None \<Rightarrow> [] | Some msg \<Rightarrow> ''{\"message\":\"'' @ msg @ ''\"}'')"

lemma created_texts:
  assumes "http_server_create (Some old) (Some c) = (HTTP_SERVER_OK, Some s)"
    and "\<forall>msg. json_message c = Some msg \<longrightarrow> c_string msg"
  shows "plaintext_response (server_config s) = plaintext_response c \<and>
    (\<exists>d. data_string (Some (json_buffer s)) = Some d \<and> data_text d = Some (json_content c))"
proof (cases "json_message c")
  case None
  then have s: "s = zeroed_server\<lparr>server_config := c\<rparr>" using assms(1) by (simp add: http_server_create_def)
  have z: "json_buffer s = NUL # replicate 4095 NUL"
    by (simp add: s zeroed_server_def json_buffer_capacity_def flip: replicate_Suc)
  have d: "data_string (Some (json_buffer s)) = Some (data_construct (Some (json_buffer s)) (of_nat 0))"
    using data_string_text [of "[]" "replicate 4095 NUL"] by (simp add: z)
  have "data_text (data_construct (Some (json_buffer s)) (of_nat 0)) = Some []"
    by (subst data_text_construct) simp_all
  then show ?thesis using d None by (simp add: s json_content_def)
next
  case (Some msg)
  then have len: "length msg < 4082" and s: "server_config s = c"
    "json_buffer s = json_text msg @ replicate (4082 - length msg) NUL"
    using assms(1) create_json [OF Some, of old] by (auto split: if_splits)
  have b: "json_buffer s = json_text msg @ NUL # replicate (4081 - length msg) NUL"
    using len by (simp add: s(2) Suc_diff_le flip: replicate_Suc)
  have cs: "c_string (json_text msg)" using assms(2) Some by (simp add: json_text_c_string)
  have "length (json_buffer s) < 2 ^ 64" using len by (simp add: b json_text_length)
  moreover obtain d where d: "data_string (Some (json_buffer s)) = Some d"
    using data_string_text [OF cs, of "replicate (4081 - length msg) NUL"] len by (auto simp: b json_text_length)
  ultimately have "data_text d = Some (json_text msg)" using data_text_string [OF d] cs by (simp add: b)
  then show ?thesis using d Some s(1) by (simp add: json_content_def json_text_def)
qed

text \<open>
  C6. A created server, whether its two texts are set or not, answers every request target with exactly one
  response: /plaintext gives the configured text, /json the JSON object (nothing, when no message is set),
  any other target, and a null one, Not Found, with the matching content type. The one exception is
  /plaintext when no text is set: then the handler takes the length of a NULL string, which is undefined.
\<close>

theorem handle_routes:
  assumes "http_server_create (Some old) (Some c) = (HTTP_SERVER_OK, Some s)"
    and "\<forall>msg. json_message c = Some msg \<longrightarrow> c_string msg"
    and "\<forall>p. plaintext_response c = Some p \<longrightarrow> c_string p \<and> length p < 2 ^ 63"
    and "d_base target = None \<and> t = [] \<or> d_base target \<noteq> None \<and> data_text target = Some t"
  shows "if t = ''/plaintext'' \<and> plaintext_response c = None
    then http_server_handle_request (Some s) (Some target) = None
    else \<exists>ty bd. http_server_handle_request (Some s) (Some target) =
        Some (HTTP_SERVER_OK, [Server_respond ''200 OK'' ty bd]) \<and>
      data_text ty = Some (if t = ''/json'' then ''application/json'' else ''text/plain'') \<and>
      data_text bd = Some (if t = ''/plaintext'' then the (plaintext_response c)
        else if t = ''/json'' then json_content c else ''Not Found'')"
proof -
  have route: "http_server_parse_route target = Some (route_of_text t)"
    using assms(4) parse_route_text [of target t] parse_route_null [of target] by (auto simp: route_of_text_def)
  note created = created_texts [OF assms(1,2)]
  show ?thesis
  proof (cases "t = ''/plaintext''")
    case plain: True
    then have route: "http_server_parse_route target = Some ROUTE_PLAINTEXT" using route by (simp add: route_of_text_def)
    show ?thesis
    proof (cases "plaintext_response c")
      case None
      then show ?thesis using route created plain
        by (simp add: http_server_handle_request_def data_string_def)
    next
      case (Some p)
      then show ?thesis using route created plain cstr_segment [of p] assms(3)
        by (auto simp: http_server_handle_request_def server_ok_def static_segments)
    qed
  next
    case False
    then show ?thesis using route created
      by (auto simp: http_server_handle_request_def server_ok_def static_segments route_of_text_def)
  qed
qed

lemma handle_routes_witness:
  "(\<exists>ty bd. http_server_handle_request (Some ex_server) (Some (segment_of ''/json'')) =
      Some (HTTP_SERVER_OK, [Server_respond ''200 OK'' ty bd]) \<and>
    data_text ty = Some ''application/json'' \<and>
    data_text bd = Some ''{\"message\":\"Hello, World!\"}'') \<and>
   (\<exists>ty bd. http_server_handle_request (Some ex_server) (Some data_null) =
      Some (HTTP_SERVER_OK, [Server_respond ''200 OK'' ty bd]) \<and> data_text bd = Some ''Not Found'') \<and>
   http_server_handle_request (Some (zeroed_server\<lparr>server_config := zeroed_config\<rparr>)) (Some (segment_of ''/plaintext'')) = None"
proof -
  have s: "\<forall>msg. json_message ex_server_config = Some msg \<longrightarrow> c_string msg"
    "\<forall>p. plaintext_response ex_server_config = Some p \<longrightarrow> c_string p \<and> length p < 2 ^ 63"
    by (simp_all add: ex_server_config_def NUL_def)
  have z: "http_server_create (Some zeroed_server) (Some zeroed_config) =
      (HTTP_SERVER_OK, Some (zeroed_server\<lparr>server_config := zeroed_config\<rparr>))"
    "\<forall>msg. json_message zeroed_config = Some msg \<longrightarrow> c_string msg"
    "\<forall>p. plaintext_response zeroed_config = Some p \<longrightarrow> c_string p \<and> length p < 2 ^ 63"
    by (simp_all add: http_server_create_def zeroed_config_def)
  have t: "d_base (segment_of u) = None \<and> u = [] \<or> d_base (segment_of u) \<noteq> None \<and> data_text (segment_of u) = Some u"
    if "length u < 2 ^ 64" for u
    using segment_of_text [OF that] by simp
  have n: "d_base data_null = None \<and> [] = ([] :: string) \<or> d_base data_null \<noteq> None \<and> data_text data_null = Some []"
    by (simp add: data_null_def)
  have "\<exists>ty bd. http_server_handle_request (Some ex_server) (Some (segment_of ''/json'')) =
      Some (HTTP_SERVER_OK, [Server_respond ''200 OK'' ty bd]) \<and>
    data_text ty = Some ''application/json'' \<and> data_text bd = Some ''{\"message\":\"Hello, World!\"}''"
    using handle_routes [OF ex_create s t, of "''/json''"] by (simp add: json_content_def ex_server_config_def)
  moreover have "\<exists>ty bd. http_server_handle_request (Some ex_server) (Some data_null) =
      Some (HTTP_SERVER_OK, [Server_respond ''200 OK'' ty bd]) \<and> data_text bd = Some ''Not Found''"
    using handle_routes [OF ex_create s n] by auto
  moreover have "http_server_handle_request (Some (zeroed_server\<lparr>server_config := zeroed_config\<rparr>)) (Some (segment_of ''/plaintext'')) = None"
    using handle_routes [OF z t, of "''/plaintext''"] by (simp add: zeroed_config_def)
  ultimately show ?thesis by blast
qed

text \<open>
  The two answers the component has for a route, the handler's and
  http_server_generate_response's, have the same type and body everywhere, but their status lines
  agree only on the known routes: an unknown route is 404 Not Found for the response configuration
  and 200 OK for the handler the server really runs.
\<close>

theorem handler_status_agrees_iff:
  assumes "serves s p msg" and "http_server_parse_route target = Some route"
    and "http_server_generate_response (Some s) route (Some rc0) = (HTTP_SERVER_OK, Some rc)"
  shows "\<exists>st ty bd. http_server_handle_request (Some s) (Some target) =
      Some (HTTP_SERVER_OK, [Server_respond st ty bd]) \<and>
    data_text ty = http_response_content_type_string (content_type rc) \<and>
    data_text bd = Some (body_text rc) \<and>
    (http_response_status_string (status_code rc) = Some (''HTTP/1.1 '' @ st @ crlf)
      \<longleftrightarrow> route \<noteq> ROUTE_UNKNOWN)"
  using handle_serves [OF assms(1,2)] generate_serves(1,2,5) [OF assms(1,3)]
  by (fastforce simp: http_response_status_string_def)

definition ex_rc :: "http_route \<Rightarrow> http_response_config" where
  "ex_rc route = the (snd (http_server_generate_response (Some ex_server) route (Some ex_config)))"

lemma ex_generate:
  "http_server_generate_response (Some ex_server) route (Some ex_config) = (HTTP_SERVER_OK, Some (ex_rc route))"
  by (cases route) (simp_all add: ex_rc_def http_server_generate_response_def Let_def)

lemma ex_unknown_route: "http_server_parse_route (segment_of ''/'') = Some ROUTE_UNKNOWN"
  using parse_route_text [of "segment_of ''/''" "''/''"] segment_of_text [of "''/''"]
  by (simp add: route_of_text_def)

lemma handler_status_agrees_iff_witness:
  "\<exists>st ty bd. http_server_handle_request (Some ex_server) (Some (segment_of ''/'')) =
      Some (HTTP_SERVER_OK, [Server_respond st ty bd]) \<and>
    data_text bd = Some (body_text (ex_rc ROUTE_UNKNOWN)) \<and>
    http_response_status_string (status_code (ex_rc ROUTE_UNKNOWN)) \<noteq> Some (''HTTP/1.1 '' @ st @ crlf)"
  using handler_status_agrees_iff [OF ex_serves ex_unknown_route ex_generate] by blast

text \<open>
  C23. The response configuration of any route goes through http_response_build: with a big enough
  fresh buffer the bytes on the wire read back as the route's status line and body.
\<close>

theorem route_response_on_the_wire:
  assumes "serves s p msg"
    and "http_server_generate_response (Some s) route (Some rc0) = (HTTP_SERVER_OK, Some rc)"
    and "tm_ok now" and "date_header_ok dh" and "length p < 10 ^ 9"
    and "rb_used b = 0" and "unat (rb_size b) \<le> length (rb_mem b)"
    and "length (route_body p msg route) + 200 < unat (rb_size b)"
  shows "\<exists>b' dh' sl. http_response_build now dh (Some b) (Some rc) =
      Some (HTTP_RESPONSE_OK, Some b', dh') \<and>
    sl = (if route = ROUTE_UNKNOWN then ''HTTP/1.1 404 Not Found'' else ''HTTP/1.1 200 OK'') \<and>
    read_response (take (unat (rb_used b')) (rb_mem b')) = Some (sl, route_body p msg route, [])"
proof -
  note g = generate_serves [OF assms(1,2)]
  have len: "unat (body_length rc) < 10 ^ 9"
    using g(6) assms(1,5) by (cases route) (auto simp: serves_def json_text_length)
  then have ready: "build_ready now dh b rc"
    using assms by (simp add: build_ready_def)
  have "\<exists>r. render_response (imf_date now) rc = Some r"
    using g(1,3,5)
    by (cases "route = ROUTE_UNKNOWN") (simp_all add: render_response_def http_response_status_string_def)
  then obtain r where r: "render_response (imf_date now) rc = Some r" by blast
  obtain k where "k \<le> 200" "length r + 10 = k + ndigits (unat (body_length rc)) + length (body_text rc)"
    using calculate_size_sum [OF r assms(3)] by blast
  moreover have "ndigits (unat (body_length rc)) \<le> 9"
    using len by (intro ndigits_le) simp_all
  ultimately have fits: "length r < unat (rb_size b)"
    using g(2) assms(8) by simp
  obtain sl where sl: "http_response_status_string (status_code rc) = Some (sl @ crlf)"
    "read_response (r @ []) = Some (sl, body_text rc, [])"
    using read_response_render [OF r assms(3), of "[]"] g(4) by blast
  have "sl = (if route = ROUTE_UNKNOWN then ''HTTP/1.1 404 Not Found'' else ''HTTP/1.1 200 OK'')"
    using sl(1) g(5) by (auto simp: http_response_status_string_def split: if_splits)
  with build_fits [OF ready r fits] sl(2) g(2) unat_size_below [OF fits] show ?thesis by simp
qed

lemma route_response_on_the_wire_witness:
  "\<exists>b' dh'. http_response_build ex_now date_header_init (Some (ex_buffer 300)) (Some (ex_rc ROUTE_JSON)) =
      Some (HTTP_RESPONSE_OK, Some b', dh') \<and>
    read_response (take (unat (rb_used b')) (rb_mem b')) =
      Some (''HTTP/1.1 200 OK'', ''{\"message\":\"Hello, World!\"}'', [])"
proof -
  have b: "rb_used (ex_buffer 300) = 0" "unat (rb_size (ex_buffer 300)) \<le> length (rb_mem (ex_buffer 300))"
    "length (route_body ''Hello, World!'' ''Hello, World!'' ROUTE_JSON) + 200 < unat (rb_size (ex_buffer 300))"
    by (simp_all add: ex_buffer_def json_text_def)
  have p: "length ''Hello, World!'' < 10 ^ 9" by simp
  from route_response_on_the_wire [OF ex_serves ex_generate ex_now_ok date_header_init_ok p b]
  show ?thesis by (simp add: json_text_def)
qed

subsection \<open>The JSON object read by a client\<close>

text \<open>
  A reader for one-member objects in RFC 8259 form: a string runs to its closing quote, a control
  character ends it with an error, and a backslash introduces one of the two-character escapes.
\<close>

definition json_unescape :: "char \<Rightarrow> char option" where
  "json_unescape c =
     map_of [(CHR 0x22, CHR 0x22), (CHR 0x5C, CHR 0x5C), (CHR ''/'', CHR ''/''), (CHR ''b'', CHR 0x08),
       (CHR ''f'', CHR 0x0C), (CHR ''n'', CHR 0x0A), (CHR ''r'', CHR 0x0D), (CHR ''t'', CHR 0x09)] c"

fun json_chars :: "string \<Rightarrow> (string \<times> string) option" where
  "json_chars [] = None"
| "json_chars [c] = (if c = CHR 0x22 then Some ([], []) else None)"
| "json_chars (c # d # s) =
     (if c = CHR 0x22 then Some ([], d # s)
      else if c = CHR 0x5C
        then (case json_unescape d of None \<Rightarrow> None
              | Some e \<Rightarrow> map_option (\<lambda>(v, r). (e # v, r)) (json_chars s))
      else if (of_char c :: nat) < 32 then None
      else map_option (\<lambda>(v, r). (c # v, r)) (json_chars (d # s)))"

definition json_message_of :: "string \<Rightarrow> string option" where
  "json_message_of s =
     (if take 12 s = ''{\"message\":\"''
      then (case json_chars (drop 12 s) of Some (v, r) \<Rightarrow> if r = ''}'' then Some v else None
            | None \<Rightarrow> None)
      else None)"

definition json_plain :: "char \<Rightarrow> bool" where
  "json_plain c \<longleftrightarrow> c \<noteq> CHR 0x22 \<and> c \<noteq> CHR 0x5C \<and> 32 \<le> (of_char c :: nat)"

lemma json_chars_plain:
  "list_all json_plain m \<Longrightarrow> json_chars (m @ CHR 0x22 # r) = Some (m, r)"
proof (induction m)
  case Nil
  then show ?case by (cases r) simp_all
next
  case (Cons c m)
  then show ?case by (cases m) (auto simp: json_plain_def)
qed

lemma json_plain_not_NUL: "json_plain c \<Longrightarrow> c \<noteq> NUL"
  by (auto simp: json_plain_def NUL_def)

text \<open>
  C39. The body served for /json is a well-formed JSON object whose message member is exactly the
  configured message, for every message of plain characters (no quote, backslash or control
  character) that http_server_create accepts.
\<close>

theorem json_route_carries_message:
  assumes "http_server_create (Some old) (Some c) = (HTTP_SERVER_OK, Some s)"
    and "json_message c = Some msg" and "list_all json_plain msg"
    and "http_server_parse_route target = Some ROUTE_JSON"
  shows "\<exists>ty bd t. http_server_handle_request (Some s) (Some target) =
      Some (HTTP_SERVER_OK, [Server_respond ''200 OK'' ty bd]) \<and>
    data_text bd = Some t \<and> json_message_of t = Some msg"
proof -
  have "c_string msg"
    using assms(3) json_plain_not_NUL by (auto simp: c_string_def list_all_iff)
  then have "serves (s\<lparr>server_config := c\<lparr>plaintext_response := Some []\<rparr>\<rparr>) [] msg"
    using assms(1,2) create_json [OF assms(2), of old] by (auto simp: serves_def json_text_length split: if_splits)
  from serves_json_segment [OF this] obtain d where
    "data_string (Some (json_buffer s)) = Some d" "data_text d = Some (json_text msg)"
    by auto
  moreover have "json_message_of (json_text msg) = Some msg"
    using json_chars_plain [OF assms(3), of "''}''"] by (simp add: json_message_of_def json_text_def)
  ultimately show ?thesis
    using assms(4) by (simp add: http_server_handle_request_def server_ok_def)
qed

lemma json_route_carries_message_witness:
  "\<exists>ty bd t. http_server_handle_request (Some ex_server) (Some (segment_of ''/json'')) =
      Some (HTTP_SERVER_OK, [Server_respond ''200 OK'' ty bd]) \<and>
    data_text bd = Some t \<and> json_message_of t = Some ''Hello, World!''"
proof -
  have m: "json_message ex_server_config = Some ''Hello, World!''"
    and pl: "list_all json_plain ''Hello, World!''"
    by (simp_all add: ex_server_config_def json_plain_def)
  have "http_server_parse_route (segment_of ''/json'') = Some ROUTE_JSON"
    using parse_route_text [of "segment_of ''/json''" "''/json''"] segment_of_text [of "''/json''"]
    by (simp add: route_of_text_def)
  from json_route_carries_message [OF ex_create m pl this] show ?thesis .
qed

text \<open>A message with a quote is accepted by the code and leaves the object: nothing is escaped.\<close>

lemma json_quote_breaks_object:
  "json_message_of (json_text [CHR ''a'', CHR 0x22, CHR ''b'']) = None"
  by (simp add: json_message_of_def json_text_def)

end
