(* ===== verification/Picohttp.thy ===== *)
theory Picohttp
  imports Framing
begin

text \<open>
  Component \<open>third_party/libreactor/src/picohttpparser/picohttpparser.c\<close>: the request parser. It
  works in place on the bytes of the stream's input buffer, so the model works on the memory from
  \<open>buf\<close> on, which goes further than \<open>buf_end\<close>: a read behind the end sees what the block holds
  there. A call of it with \<open>last_len = 0\<close>, as the library makes it, does not run \<open>is_complete\<close>.

  Two loops of the request line lack the \<open>CHECK_EOF\<close> that all the others have. The argument
  \<open>checked\<close> adds it: the code is \<open>checked = False\<close>, the specification is \<open>checked = True\<close>, and
  \<open>Picohttp_Spec\<close> compares them.
\<close>

subsection \<open>Parsers\<close>

text \<open>
  The distance \<open>buf_end - buf\<close> and the memory from \<open>buf\<close> on, a cell \<open>None\<close> being a byte that was
  never written. A parser is undefined, returns NULL with \<open>*ret\<close>, or moves on with a value.
\<close>

type_synonym cursor = "int \<times> char option list"
type_synonym 'a phr = "cursor \<Rightarrow> (int + 'a \<times> cursor) option"

definition phr_return :: "'a \<Rightarrow> 'a phr" where
  "phr_return a c = Some (Inr (a, c))"

definition phr_fail :: "int \<Rightarrow> 'a phr" where
  "phr_fail e c = Some (Inl e)"

definition phr_bind :: "'a phr \<Rightarrow> ('a \<Rightarrow> 'b phr) \<Rightarrow> 'b phr" where
  "phr_bind p f c =
     (case p c of None \<Rightarrow> None | Some (Inl e) \<Rightarrow> Some (Inl e) | Some (Inr (a, c)) \<Rightarrow> f a c)"

text \<open>\<open>CHECK_EOF\<close>, \<open>*buf\<close>, \<open>++buf\<close> and the two \<open>EXPECT_CHAR\<close>s.\<close>

definition check_eof :: "unit phr" where
  "check_eof c = (if fst c = 0 then Some (Inl (-2)) else Some (Inr ((), c)))"

definition deref :: "char phr" where
  "deref c = (case snd c of Some ch # _ \<Rightarrow> Some (Inr (ch, c)) | _ \<Rightarrow> None)"

definition advance :: "unit phr" where
  "advance c = (case snd c of [] \<Rightarrow> None | _ # cs \<Rightarrow> Some (Inr ((), fst c - 1, cs)))"

definition expect_char_no_check :: "char \<Rightarrow> unit phr" where
  "expect_char_no_check ch =
     phr_bind deref (\<lambda>x. phr_bind advance (\<lambda>_. if x \<noteq> ch then phr_fail (-1) else phr_return ()))"

definition expect_char :: "char \<Rightarrow> unit phr" where
  "expect_char ch = phr_bind check_eof (\<lambda>_. expect_char_no_check ch)"

subsection \<open>Characters\<close>

definition CR :: char where "CR = CHR 0x0D"
definition LF :: char where "LF = CHR 0x0A"

definition is_printable_ascii :: "char \<Rightarrow> bool" where
  "is_printable_ascii ch \<longleftrightarrow> 0x20 \<le> (of_char ch :: nat) \<and> (of_char ch :: nat) < 0x7F"

definition blank :: "char \<Rightarrow> bool" where
  "blank ch \<longleftrightarrow> ch = CHR '' '' \<or> ch = CHR 0x09"

definition token_char_map :: "nat list" where
  "token_char_map =
     replicate 32 0 @
     [0,1,0,1,1,1,1,1,0,0,1,1,0,1,1,0,1,1,1,1,1,1,1,1,1,1,0,0,0,0,0,0] @
     [0,1,1,1,1,1,1,1,1,1,1,1,1,1,1,1,1,1,1,1,1,1,1,1,1,1,1,0,0,0,1,1] @
     [1,1,1,1,1,1,1,1,1,1,1,1,1,1,1,1,1,1,1,1,1,1,1,1,1,1,1,0,1,0,1,0] @
     replicate 128 0"

definition token_char :: "char \<Rightarrow> bool" where
  "token_char ch \<longleftrightarrow> token_char_map ! (of_char ch) \<noteq> 0"

text \<open>What ends the method and the path, and what may not stand in them.\<close>

definition bad_in_token :: "char \<Rightarrow> bool" where
  "bad_in_token ch \<longleftrightarrow> \<not> is_printable_ascii ch \<and> ((of_char ch :: nat) < 0x20 \<or> ch = CHR 0x7F)"

text \<open>What ends a line: the control characters but the tab.\<close>

definition ends_line :: "char \<Rightarrow> bool" where
  "ends_line ch \<longleftrightarrow>
     \<not> is_printable_ascii ch \<and> ((of_char ch :: nat) < 0x20 \<and> ch \<noteq> CHR 0x09 \<or> ch = CHR 0x7F)"

subsection \<open>Scanning\<close>

text \<open>
  The scanning loops have one shape: at the end of the bytes wait for more, stop at a character
  of the first kind, fail at one of the second, go on otherwise. \<open>findchar_fast\<close> only skips bytes
  before \<open>buf_end\<close> over which the loop behind it goes on, so it is left out, as is the loop's
  unrolling in \<open>get_token_to_eol\<close>. The value is the text passed over.
\<close>

fun scan :: "(char \<Rightarrow> bool) \<Rightarrow> (char \<Rightarrow> bool) \<Rightarrow> int \<Rightarrow> char option list \<Rightarrow>
     (int + string \<times> cursor) option" where
  "scan stop bad d [] = (if d = 0 then Some (Inl (-2)) else None)"
| "scan stop bad d (None # cs) = (if d = 0 then Some (Inl (-2)) else None)"
| "scan stop bad d (Some ch # cs) =
     (if d = 0 then Some (Inl (-2))
      else if stop ch then Some (Inr ([], d, Some ch # cs))
      else if bad ch then Some (Inl (-1))
      else map_option (map_sum id (map_prod (Cons ch) id)) (scan stop bad (d - 1) cs))"

definition scanner :: "(char \<Rightarrow> bool) \<Rightarrow> (char \<Rightarrow> bool) \<Rightarrow> string phr" where
  "scanner stop bad c = scan stop bad (fst c) (snd c)"

definition advance_token :: "string phr" where
  "advance_token = scanner (\<lambda>ch. ch = CHR '' '') bad_in_token"

text \<open>\<open>do { ++buf; } while (*buf == ' ')\<close>.\<close>

fun skip_loop :: "bool \<Rightarrow> int \<Rightarrow> char option list \<Rightarrow> (int + unit \<times> cursor) option" where
  "skip_loop checked d [] = None"
| "skip_loop checked d (c # cs) =
     (if checked \<and> d - 1 = 0 then Some (Inl (-2))
      else case cs of
             Some ch # _ \<Rightarrow>
               if ch = CHR '' '' then skip_loop checked (d - 1) cs else Some (Inr ((), d - 1, cs))
           | _ \<Rightarrow> None)"

definition skip_spaces :: "bool \<Rightarrow> unit phr" where
  "skip_spaces checked c = skip_loop checked (fst c) (snd c)"

definition line_end :: "char \<Rightarrow> unit phr \<Rightarrow> unit phr" where
  "line_end ch other =
     (if ch = CR then phr_bind advance (\<lambda>_. expect_char LF)
      else if ch = LF then advance else other)"

definition get_token_to_eol :: "string phr" where
  "get_token_to_eol =
     phr_bind (scanner ends_line (\<lambda>_. False)) (\<lambda>token.
     phr_bind deref (\<lambda>ch.
     phr_bind (line_end ch (phr_fail (-1))) (\<lambda>_.
     phr_return token)))"

subsection \<open>Request line and headers\<close>

fun expect_chars :: "string \<Rightarrow> unit phr" where
  "expect_chars [] = phr_return ()"
| "expect_chars (ch # chs) = phr_bind (expect_char_no_check ch) (\<lambda>_. expect_chars chs)"

definition parse_int :: "int \<Rightarrow> int phr" where
  "parse_int mul =
     phr_bind deref (\<lambda>ch.
     if (of_char ch :: nat) < 0x30 \<or> 0x39 < (of_char ch :: nat) then phr_fail (-1)
     else phr_bind advance (\<lambda>_. phr_return (mul * (of_char ch - 0x30))))"

definition need_bytes :: "int \<Rightarrow> unit phr" where
  "need_bytes n c = (if fst c < n then Some (Inl (-2)) else Some (Inr ((), c)))"

definition parse_http_version :: "int phr" where
  "parse_http_version =
     phr_bind (need_bytes 9) (\<lambda>_. phr_bind (expect_chars ''HTTP/1.'') (\<lambda>_. parse_int 1))"

record phr_header =
  h_name :: "string option"
  h_value :: string

definition trim_end :: "string \<Rightarrow> string" where
  "trim_end v = rev (dropWhile blank (rev v))"

text \<open>A name (with the blanks behind its colon), or NULL on a continued line.\<close>

definition parse_header_name :: "bool \<Rightarrow> char \<Rightarrow> string option phr" where
  "parse_header_name first ch =
     (if first \<or> \<not> blank ch then
        phr_bind (scanner (\<lambda>ch. ch = CHR '':'') (\<lambda>ch. \<not> token_char ch)) (\<lambda>nm.
        if nm = [] then phr_fail (-1)
        else phr_bind advance (\<lambda>_.
             phr_bind (scanner (\<lambda>ch. \<not> blank ch) (\<lambda>_. False)) (\<lambda>_. phr_return (Some nm))))
      else phr_return None)"

definition parse_header :: "bool \<Rightarrow> char \<Rightarrow> phr_header phr" where
  "parse_header first ch =
     phr_bind (parse_header_name first ch) (\<lambda>nm.
     phr_bind get_token_to_eol (\<lambda>v.
     phr_return \<lparr>h_name = nm, h_value = trim_end v\<rparr>))"

text \<open>
  One round per header; \<open>left\<close> is \<open>max_headers - *num_headers\<close>, and \<open>first\<close> says that
  \<open>*num_headers\<close> is 0.
\<close>

fun parse_headers :: "bool \<Rightarrow> nat \<Rightarrow> phr_header list phr" where
  "parse_headers first left =
     phr_bind check_eof (\<lambda>_.
     phr_bind deref (\<lambda>ch.
     if ch = CR \<or> ch = LF then phr_bind (line_end ch (phr_return ())) (\<lambda>_. phr_return [])
     else case left of
            0 \<Rightarrow> phr_fail (-1)
          | Suc left \<Rightarrow>
              phr_bind (parse_header first ch) (\<lambda>h.
              phr_bind (parse_headers False left) (\<lambda>hs.
              phr_return (h # hs)))))"

declare parse_headers.simps [simp del]

record phr_request =
  q_method :: string
  q_path :: string
  q_minor :: int
  q_headers :: "phr_header list"

text \<open>An empty line in front is skipped.\<close>

definition skip_empty_line :: "unit phr" where
  "skip_empty_line =
     phr_bind check_eof (\<lambda>_. phr_bind deref (\<lambda>ch. line_end ch (phr_return ())))"

definition request_token :: "bool \<Rightarrow> string phr" where
  "request_token checked =
     phr_bind advance_token (\<lambda>t. phr_bind (skip_spaces checked) (\<lambda>_. phr_return t))"

definition parse_request :: "bool \<Rightarrow> nat \<Rightarrow> phr_request phr" where
  "parse_request checked max_headers =
     phr_bind skip_empty_line (\<lambda>_.
     phr_bind (request_token checked) (\<lambda>m.
     phr_bind (request_token checked) (\<lambda>p.
     if m = [] \<or> p = [] then phr_fail (-1)
     else phr_bind parse_http_version (\<lambda>v.
          phr_bind deref (\<lambda>ch.
          phr_bind (line_end ch (phr_fail (-1))) (\<lambda>_.
          phr_bind (parse_headers True max_headers) (\<lambda>hs.
          phr_return \<lparr>q_method = m, q_path = p, q_minor = v, q_headers = hs\<rparr>)))))))"

text \<open>
  The result is \<open>*ret\<close>, or the request with the number of its bytes, an \<open>int\<close>; the output
  arguments of a failing call are not used by any caller.
\<close>

definition phr_parse_request ::
  "bool \<Rightarrow> char option list \<Rightarrow> nat \<Rightarrow> nat \<Rightarrow> (int + phr_request \<times> int) option" where
  "phr_parse_request checked mem len max_headers =
     (case parse_request checked max_headers (int len, mem) of
        None \<Rightarrow> None
      | Some (Inl r) \<Rightarrow> Some (Inl r)
      | Some (Inr (q, d, _)) \<Rightarrow> Some (Inr (q, sint (word_of_int (int len - d) :: 32 word))))"

end
