(* ===== verification/Picohttp_Spec.thy ===== *)
theory Picohttp_Spec
  imports Picohttp
begin

text \<open>
  The request parser with all its end checks is an incremental parser: what it finds in some bytes
  it finds in every continuation of them, and it never looks behind their end. The rules below
  derive this along the parser's own structure. The parser of the source agrees with it whenever
  the bytes do not stop directly behind a space.
\<close>

subsection \<open>Stable parsers\<close>

text \<open>The bytes \<open>xs\<close> are before the parser, \<open>r\<close> is in memory behind them.\<close>

definition cur :: "string \<Rightarrow> char option list \<Rightarrow> cursor" where
  "cur xs r = (int (length xs), map Some xs @ r)"

definition waits :: "'a phr \<Rightarrow> string \<Rightarrow> bool" where
  "waits p xs \<longleftrightarrow> (\<forall>r. p (cur xs r) = Some (Inl (-2)))"

definition fails :: "'a phr \<Rightarrow> string \<Rightarrow> bool" where
  "fails p xs \<longleftrightarrow> (\<forall>ys r. p (cur (xs @ ys) r) = Some (Inl (-1)))"

definition yields :: "'a phr \<Rightarrow> string \<Rightarrow> 'a \<Rightarrow> nat \<Rightarrow> bool" where
  "yields p xs a n \<longleftrightarrow>
     n \<le> length xs \<and> (\<forall>ys r. p (cur (xs @ ys) r) = Some (Inr (a, cur (drop n xs @ ys) r)))"

lemma waitsD: "waits p xs \<Longrightarrow> p (cur xs r) = Some (Inl (-2))"
  by (simp add: waits_def)

lemma failsD: "fails p xs \<Longrightarrow> p (cur xs r) = Some (Inl (-1))"
  unfolding fails_def by (metis append_Nil2)

lemma yields_le: "yields p xs a n \<Longrightarrow> n \<le> length xs"
  by (simp add: yields_def)

lemma yieldsD: "yields p xs a n \<Longrightarrow> p (cur xs r) = Some (Inr (a, cur (drop n xs) r))"
  unfolding yields_def by (metis append_Nil2)

text \<open>
  From at least \<open>k\<close> bytes, \<open>p\<close> waits, fails or yields, the latter two for good; where it yields it
  has passed over at least \<open>m\<close> bytes and at least \<open>j\<close> are left.
\<close>

definition stable :: "nat \<Rightarrow> nat \<Rightarrow> nat \<Rightarrow> 'a phr \<Rightarrow> bool" where
  "stable k j m p \<longleftrightarrow>
     (\<forall>xs. k \<le> length xs \<longrightarrow>
        waits p xs \<or> fails p xs \<or> (\<exists>a n. yields p xs a n \<and> m \<le> n \<and> n + j \<le> length xs))"

named_theorems stable_rules \<comment> \<open>stability of the parsers, along their structure\<close>

lemma stableI:
  assumes "\<And>xs. k \<le> length xs \<Longrightarrow>
     waits p xs \<or> fails p xs \<or> (\<exists>a n. yields p xs a n \<and> m \<le> n \<and> n + j \<le> length xs)"
  shows "stable k j m p"
  using assms by (auto simp: stable_def)

lemma stable_cases:
  assumes "stable k j m p" and "k \<le> length xs"
  obtains "waits p xs" | "fails p xs"
  | a n where "yields p xs a n" "m \<le> n" "n + j \<le> length xs"
  using assms by (auto simp: stable_def)

lemma stable_weaken: "stable k j m p \<Longrightarrow> k \<le> k' \<Longrightarrow> j' \<le> j \<Longrightarrow> m' \<le> m \<Longrightarrow> stable k' j' m' p"
  unfolding stable_def by (meson add_left_mono le_trans)

lemma cur_append: "n \<le> length xs \<Longrightarrow> cur (drop n (xs @ ys)) r = cur (drop n xs @ ys) r"
  by simp

lemma bind_waits: "waits p xs \<Longrightarrow> waits (phr_bind p f) xs"
  by (simp add: waits_def phr_bind_def)

lemma bind_fails: "fails p xs \<Longrightarrow> fails (phr_bind p f) xs"
  by (simp add: fails_def phr_bind_def)

lemma bind_yields:
  assumes "yields p xs a n"
  shows "waits (f a) (drop n xs) \<Longrightarrow> waits (phr_bind p f) xs"
    and "fails (f a) (drop n xs) \<Longrightarrow> fails (phr_bind p f) xs"
    and "yields (f a) (drop n xs) b i \<Longrightarrow> yields (phr_bind p f) xs b (n + i)"
proof -
  have p: "n \<le> length xs" "p (cur (xs @ ys) r) = Some (Inr (a, cur (drop n xs @ ys) r))" for ys r
    using assms by (auto simp: yields_def)
  show "waits (f a) (drop n xs) \<Longrightarrow> waits (phr_bind p f) xs"
    using p(2) [of "[]"] by (simp add: waits_def phr_bind_def)
  show "fails (f a) (drop n xs) \<Longrightarrow> fails (phr_bind p f) xs"
    using p(2) by (simp add: fails_def phr_bind_def)
  show "yields (f a) (drop n xs) b i \<Longrightarrow> yields (phr_bind p f) xs b (n + i)"
    using p by (auto simp: yields_def phr_bind_def add.commute)
qed

lemma stable_bind:
  assumes p: "stable k j m p" and f: "\<And>a. stable j i l (f a)"
  shows "stable k i (m + l) (phr_bind p f)"
proof (rule stableI)
  fix xs :: string assume "k \<le> length xs"
  with p show "waits (phr_bind p f) xs \<or> fails (phr_bind p f) xs \<or>
    (\<exists>a n. yields (phr_bind p f) xs a n \<and> m + l \<le> n \<and> n + i \<le> length xs)"
  proof (cases rule: stable_cases)
    case (3 a n)
    then have "j \<le> length (drop n xs)" by simp
    with f [of a] show ?thesis
    proof (cases rule: stable_cases)
      case Y: (3 b i)
      then show ?thesis
        using bind_yields(3) [where f = f, OF \<open>yields p xs a n\<close> Y(1)] \<open>m \<le> n\<close> \<open>n + j \<le> length xs\<close>
        by (intro disjI2 exI [of _ b] exI [of _ "n + i"]) auto
    qed (auto dest: bind_yields(1,2) [OF \<open>yields p xs a n\<close>])
  qed (auto dest: bind_waits bind_fails)
qed

lemma stable_return [stable_rules]: "stable k k 0 (phr_return a)"
  by (rule stableI) (auto simp: yields_def phr_return_def)

lemma stable_fail [stable_rules]: "stable k j m (phr_fail (-1))"
  by (rule stableI) (auto simp: fails_def phr_fail_def)

lemma stable_if [stable_rules]:
  "stable k j m p \<Longrightarrow> stable k j m q \<Longrightarrow> stable k j m (if b then p else q)"
  by simp

lemma stable_check_eof: "stable k (max k 1) 0 check_eof"
proof (rule stableI)
  fix xs :: string assume "k \<le> length xs"
  then show "waits check_eof xs \<or> fails check_eof xs \<or>
      (\<exists>a n. yields check_eof xs a n \<and> 0 \<le> n \<and> n + max k 1 \<le> length xs)"
    by (cases xs) (auto simp: waits_def yields_def check_eof_def cur_def intro!: exI [of _ 0])
qed

lemma stable_deref: "1 \<le> k \<Longrightarrow> stable k k 0 deref"
proof (rule stableI)
  fix xs :: string assume "1 \<le> k" "k \<le> length xs"
  then show "waits deref xs \<or> fails deref xs \<or>
      (\<exists>a n. yields deref xs a n \<and> 0 \<le> n \<and> n + k \<le> length xs)"
    by (cases xs) (auto simp: yields_def deref_def cur_def intro!: exI [of _ 0])
qed

lemma stable_advance: "1 \<le> k \<Longrightarrow> stable k (k - 1) 1 advance"
proof (rule stableI)
  fix xs :: string assume "1 \<le> k" "k \<le> length xs"
  then show "waits advance xs \<or> fails advance xs \<or>
      (\<exists>a n. yields advance xs a n \<and> 1 \<le> n \<and> n + (k - 1) \<le> length xs)"
    by (cases xs) (auto simp: yields_def advance_def cur_def intro!: exI [of _ 1])
qed

lemma stable_need_bytes: "stable k (max k n) 0 (need_bytes (int n))"
proof (rule stableI)
  fix xs :: string assume "k \<le> length xs"
  then show "waits (need_bytes (int n)) xs \<or> fails (need_bytes (int n)) xs \<or>
      (\<exists>a i. yields (need_bytes (int n)) xs a i \<and> 0 \<le> i \<and> i + max k n \<le> length xs)"
    by (cases "length xs < n")
      (auto simp: waits_def yields_def need_bytes_def cur_def intro!: exI [of _ 0])
qed

text \<open>The same for sequences, with what each step needs as a side condition.\<close>

lemma stable_then:
  "stable k j 0 p \<Longrightarrow> (\<And>a. stable j i m (f a)) \<Longrightarrow> stable k i m (phr_bind p f)"
  using stable_bind [of k j 0 p i m f] by simp

lemma stable_then_any:
  "stable k j m p \<Longrightarrow> (\<And>a. stable j i 0 (f a)) \<Longrightarrow> stable k i m (phr_bind p f)"
  using stable_bind [of k j m p i 0 f] by simp

lemma stable_check_then [stable_rules]:
  "stable (max k 1) i m (f ()) \<Longrightarrow> stable k i m (phr_bind check_eof f)"
  using stable_then [OF stable_check_eof [of k], of i m f] by auto

lemma stable_deref_then [stable_rules]:
  "1 \<le> k \<Longrightarrow> (\<And>ch. stable k i m (f ch)) \<Longrightarrow> stable k i m (phr_bind deref f)"
  using stable_then [OF stable_deref [of k], of i m f] by auto

lemma stable_advance_then [stable_rules]:
  "1 \<le> k \<Longrightarrow> stable (k - 1) i m (f ()) \<Longrightarrow> stable k i m (phr_bind advance f)"
  using stable_then [of k "k - 1" advance i m f] stable_weaken [OF stable_advance [of k], of k "k - 1" 0]
  by auto

lemma stable_need_then [stable_rules]:
  "stable (max k n) i m (f ()) \<Longrightarrow> stable k i m (phr_bind (need_bytes (int n)) f)"
  using stable_then [OF stable_need_bytes [of k n], of i m f] by auto

lemma stable_expect_char_no_check: "1 \<le> k \<Longrightarrow> stable k (k - 1) 0 (expect_char_no_check ch)"
  unfolding expect_char_no_check_def by (intro stable_rules) simp_all

lemma stable_expect_char: "stable k (k - 1) 0 (expect_char ch)"
  unfolding expect_char_def
  by (intro stable_rules stable_weaken [OF stable_expect_char_no_check [of "max k 1"]]) auto

lemma stable_expect_chars: "length chs \<le> k \<Longrightarrow> stable k (k - length chs) 0 (expect_chars chs)"
proof (induction chs arbitrary: k)
  case Nil
  then show ?case by (simp add: stable_return)
next
  case (Cons ch chs)
  then have "stable (k - 1) (k - 1 - length chs) 0 (expect_chars chs)" by (intro Cons.IH) simp
  moreover have "stable k (k - 1) 0 (expect_char_no_check ch)"
    using Cons.prems by (intro stable_expect_char_no_check) simp
  ultimately show ?case by (auto intro: stable_then)
qed

subsection \<open>The loops\<close>

lemma scan_yields:
  "yields (scanner stop bad) xs a n \<Longrightarrow> \<not> stop ch \<Longrightarrow> \<not> bad ch \<Longrightarrow>
     yields (scanner stop bad) (ch # xs) (ch # a) (Suc n)"
  by (auto simp: yields_def scanner_def cur_def)

text \<open>Over some text without a character of either kind, then at one that stops.\<close>

lemma scan_over:
  "\<forall>ch\<in>set t. \<not> stop ch \<and> \<not> bad ch \<Longrightarrow> stop c \<Longrightarrow>
     yields (scanner stop bad) (t @ c # xs) t (length t)"
proof (induction t)
  case Nil
  then show ?case by (simp add: yields_def scanner_def cur_def)
next
  case (Cons ch t)
  then show ?case using scan_yields [of stop bad "t @ c # xs" t "length t" ch] by simp
qed

lemma scan_waits: "\<forall>ch\<in>set t. \<not> stop ch \<and> \<not> bad ch \<Longrightarrow> waits (scanner stop bad) t"
proof (induction t)
  case Nil
  have "scan stop bad 0 cs = Some (Inl (-2))" for cs by (cases "(stop, bad, 0 :: int, cs)" rule: scan.cases) auto
  then show ?case by (simp add: waits_def scanner_def cur_def)
qed (auto simp: waits_def scanner_def cur_def)

lemma scan_fails:
  "\<forall>ch\<in>set t. \<not> stop ch \<and> \<not> bad ch \<Longrightarrow> \<not> stop c \<Longrightarrow> bad c \<Longrightarrow>
     fails (scanner stop bad) (t @ c # xs)"
  by (induction t) (auto simp: fails_def scanner_def cur_def)

text \<open>A scan decides at the first character that stops it or is bad.\<close>

lemma scan_split:
  obtains (none) "\<forall>ch\<in>set xs. \<not> stop ch \<and> \<not> bad ch"
  | (first) t c zs where "xs = t @ c # zs" "\<forall>ch\<in>set t. \<not> stop ch \<and> \<not> bad ch" "stop c \<or> bad c"
  using split_list_first_prop [of xs "\<lambda>c. stop c \<or> bad c"] by fast

lemma stable_scanner: "stable k 1 0 (scanner stop bad)"
proof (rule stableI)
  fix xs :: string
  show "waits (scanner stop bad) xs \<or> fails (scanner stop bad) xs \<or>
      (\<exists>a n. yields (scanner stop bad) xs a n \<and> 0 \<le> n \<and> n + 1 \<le> length xs)"
  proof (cases rule: scan_split [of xs stop bad])
    case none
    then show ?thesis by (simp add: scan_waits)
  next
    case (first t c zs)
    then show ?thesis
      using scan_over [of t stop bad c zs] scan_fails [of t stop bad c zs]
      by (cases "stop c") (auto intro!: exI [of _ t] exI [of _ "length t"])
  qed
qed

text \<open>Skipping spaces, with the check: at least the space under the cursor is passed over.\<close>

lemma skip_step:
  "skip_spaces checked (cur (c # ch # xs) r) =
     (if ch = CHR '' '' then skip_spaces checked (cur (ch # xs) r) else Some (Inr ((), cur (ch # xs) r)))"
  by (simp add: skip_spaces_def cur_def)

lemma skip_over:
  "c \<noteq> CHR '' '' \<Longrightarrow>
     skip_spaces checked (cur (CHR '' '' # replicate i (CHR '' '') @ c # xs) r) =
       Some (Inr ((), cur (c # xs) r))"
  by (induction i) (simp_all add: skip_step)

lemma skip_waits: "waits (skip_spaces True) (x # replicate i (CHR '' ''))"
proof (induction i arbitrary: x)
  case 0
  then show ?case by (simp add: waits_def skip_spaces_def cur_def)
next
  case (Suc i)
  then show ?case by (simp add: waits_def skip_step)
qed

lemma spaces_split:
  obtains (all) "xs = replicate (length xs) (CHR '' '')"
  | (some) i c zs where "xs = replicate i (CHR '' '') @ c # zs" "c \<noteq> CHR '' ''"
proof (cases "\<forall>c\<in>set xs. c = CHR '' ''")
  case True
  then have "xs = replicate (length xs) (CHR '' '')" by (simp add: replicate_length_same)
  then show ?thesis by (rule all)
next
  case False
  then obtain t c zs where t: "xs = t @ c # zs" "c \<noteq> CHR '' ''" "\<forall>c\<in>set t. \<not> c \<noteq> CHR '' ''"
    using split_list_first_prop [of xs "\<lambda>c. c \<noteq> CHR '' ''"] by auto
  then have "t = replicate (length t) (CHR '' '')" by (simp add: replicate_length_same)
  with t(1,2) show ?thesis by (metis some)
qed

lemma stable_skip_spaces: "1 \<le> k \<Longrightarrow> stable k 1 1 (skip_spaces True)"
proof (rule stableI)
  fix xs :: string
  assume "1 \<le> k" "k \<le> length xs"
  then obtain x zs where xs: "xs = x # zs" by (cases xs) auto
  show "waits (skip_spaces True) xs \<or> fails (skip_spaces True) xs \<or>
      (\<exists>a n. yields (skip_spaces True) xs a n \<and> 1 \<le> n \<and> n + 1 \<le> length xs)"
  proof (cases rule: spaces_split [of zs])
    case all
    then show ?thesis using skip_waits [of x "length zs"] xs by simp
  next
    case (some i c ys)
    have "skip_spaces True (cur (x # replicate i (CHR '' '') @ c # ys) r) =
        Some (Inr ((), cur (c # ys) r))" for ys r
      using some(2) by (induction i arbitrary: x) (simp_all add: skip_step)
    then have "yields (skip_spaces True) xs () (Suc i)"
      by (simp add: yields_def xs some)
    then show ?thesis using xs some(1) by (intro disjI2 exI [of _ "()"] exI [of _ "Suc i"]) simp
  qed
qed

subsection \<open>The request\<close>

lemma stable_line_end:
  "1 \<le> k \<Longrightarrow> stable k 0 0 other \<Longrightarrow> stable k 0 0 (line_end ch other)"
  unfolding line_end_def
  by (intro stable_rules stable_weaken [OF stable_expect_char [of "k - 1" LF]]
      stable_weaken [OF stable_advance [of k]]) auto

lemma stable_get_token_to_eol: "stable k 0 0 get_token_to_eol"
  unfolding get_token_to_eol_def
  by (intro stable_then [OF stable_scanner] stable_rules stable_line_end
      stable_then [where j = 0, OF stable_line_end]) auto

lemma stable_parse_int: "1 \<le> k \<Longrightarrow> stable k (k - 1) 0 (parse_int mul)"
  unfolding parse_int_def by (intro stable_rules) auto

lemma stable_http_version: "stable k 1 0 parse_http_version"
proof -
  have "stable (max k 9) 1 0 (phr_bind (expect_chars ''HTTP/1.'') (\<lambda>_. parse_int 1))"
    by (intro stable_then [where j = "max k 9 - 7"] stable_weaken [OF stable_parse_int [of "max k 9 - 7"]]
        stable_weaken [OF stable_expect_chars [of _ "max k 9"]]) auto
  then show ?thesis
    unfolding parse_http_version_def using stable_need_then [of k 9] by simp
qed

lemma stable_header_name: "1 \<le> k \<Longrightarrow> stable k 0 0 (parse_header_name first ch)"
  unfolding parse_header_name_def
  by (intro stable_rules stable_then [where j = 1, OF stable_scanner]
     stable_weaken [OF stable_return [of 0]] stable_then [where j = 0, OF stable_weaken [OF stable_scanner]]) auto

lemma stable_parse_header: "1 \<le> k \<Longrightarrow> stable k 0 0 (parse_header first ch)"
  unfolding parse_header_def
  by (intro stable_then [where j = 0, OF stable_header_name] stable_then [OF stable_get_token_to_eol]
      stable_return) auto

lemma stable_return_any: "stable k 0 0 (phr_return a)"
  using stable_weaken [OF stable_return [of 0 a]] by auto

lemma stable_parse_headers: "stable k 0 0 (parse_headers first left)"
proof (induction left arbitrary: first k)
  case 0
  have "stable (max k 1) 0 0 (phr_bind (line_end ch (phr_return ())) (\<lambda>_. phr_return []))" for ch
    by (intro stable_then [where j = 0, OF stable_line_end] stable_return_any) auto
  then show ?case
    by (simp only: parse_headers.simps [of first 0] nat.case) (intro stable_rules; simp)
next
  case (Suc left)
  have "stable (max k 1) 0 0 (phr_bind (line_end ch (phr_return ())) (\<lambda>_. phr_return []))" for ch
    by (intro stable_then [where j = 0, OF stable_line_end] stable_return_any) auto
  moreover have "stable (max k 1) 0 0 (phr_bind (parse_header first ch) (\<lambda>h.
      phr_bind (parse_headers False left) (\<lambda>hs. phr_return (h # hs))))" for ch
    by (rule stable_then [OF stable_parse_header]) (simp, intro stable_then [OF Suc.IH] stable_return)
  ultimately show ?case
    by (simp only: parse_headers.simps [of first "Suc left"] nat.case) (intro stable_rules; simp)
qed

lemma stable_skip_empty_line: "stable k 0 0 skip_empty_line"
  unfolding skip_empty_line_def
  by (intro stable_rules stable_line_end stable_return_any) auto

lemma stable_request_token: "stable k 1 1 (request_token True)"
  unfolding request_token_def advance_token_def
  by (intro stable_then [OF stable_scanner] stable_then_any [OF stable_skip_spaces] stable_return) auto

lemma stable_parse_request: "stable 0 0 1 (parse_request True max_headers)"
  unfolding parse_request_def
  by (intro stable_then [OF stable_skip_empty_line] stable_then_any [OF stable_request_token]
      stable_then [where j = 1, OF stable_weaken [OF stable_request_token]] stable_rules
      stable_then [OF stable_http_version] stable_then [where j = 0, OF stable_line_end]
      stable_then [OF stable_parse_headers] stable_return) auto

subsection \<open>The parser as a framing\<close>

text \<open>What the parser with all its checks finds in the bytes \<open>xs\<close>, and nothing else in memory.\<close>

definition parse_http :: "nat \<Rightarrow> string \<Rightarrow> phr_request parsed" where
  "parse_http max_headers xs =
     (case parse_request True max_headers (cur xs []) of
        Some (Inr (q, d, _)) \<Rightarrow> Packet (length xs - nat d) q
      | Some (Inl e) \<Rightarrow> if e = -2 then Need_more else Malformed
      | None \<Rightarrow> Malformed)"

lemma parse_http_waits: "waits (parse_request True m) xs \<Longrightarrow> parse_http m xs = Need_more"
  by (simp add: parse_http_def waitsD)

lemma parse_http_fails: "fails (parse_request True m) xs \<Longrightarrow> parse_http m xs = Malformed"
  by (simp add: parse_http_def failsD)

lemma parse_http_yields: "yields (parse_request True m) xs q n \<Longrightarrow> parse_http m xs = Packet n q"
  using yieldsD [of "parse_request True m" xs q n "[]"]
    yields_le [of "parse_request True m" xs q n]
  by (simp add: parse_http_def cur_def nat_diff_distrib)

lemma parse_http_cases:
  obtains "waits (parse_request True m) xs" "parse_http m xs = Need_more"
  | "fails (parse_request True m) xs" "parse_http m xs = Malformed"
  | q n where "yields (parse_request True m) xs q n" "parse_http m xs = Packet n q" "0 < n" "n \<le> length xs"
  using stable_parse_request [of m, THEN stable_cases, of xs] parse_http_waits parse_http_fails
    parse_http_yields
  by (metis Suc_le_eq One_nat_def add_0_right le0)

lemma fails_append: "fails p xs \<Longrightarrow> fails p (xs @ ys)"
  by (simp add: fails_def)

lemma yields_append: "yields p xs a n \<Longrightarrow> yields p (xs @ ys) a n"
  by (simp add: yields_def)

interpretation request_parser: incremental_parser "parse_http m" for m
proof
  fix xs :: string and n and q :: phr_request
  assume P: "parse_http m xs = Packet n q"
  show "0 < n \<and> n \<le> length xs" by (rule parse_http_cases [of m xs]) (use P in auto)
  fix ys
  show "parse_http m (xs @ ys) = Packet n q"
    by (rule parse_http_cases [of m xs])
      (use P yields_append [THEN parse_http_yields] in auto)
next
  fix xs ys :: string
  assume P: "parse_http m xs = Malformed"
  show "parse_http m (xs @ ys) = Malformed"
    by (rule parse_http_cases [of m xs])
      (use P fails_append [THEN parse_http_fails] in auto)
qed

subsection \<open>The parser of the source\<close>

text \<open>The bytes do not stop directly behind a space.\<close>

definition clean :: "string \<Rightarrow> bool" where
  "clean xs \<longleftrightarrow> xs = [] \<or> last xs \<noteq> CHR '' ''"

definition agrees :: "'a phr \<Rightarrow> 'a phr \<Rightarrow> bool" where
  "agrees p q \<longleftrightarrow> (\<forall>xs r. clean xs \<longrightarrow> p (cur xs r) = q (cur xs r))"

lemma agrees_refl: "agrees p p"
  by (simp add: agrees_def)

lemma agrees_bind:
  assumes "agrees p p'" and "stable 0 j m p'" and f: "\<And>a. agrees (f a) (f' a)"
  shows "agrees (phr_bind p f) (phr_bind p' f')"
  unfolding agrees_def
proof (intro allI impI)
  fix xs r assume xs: "clean xs"
  then have p: "p (cur xs r) = p' (cur xs r)" using assms(1) by (simp add: agrees_def)
  show "phr_bind p f (cur xs r) = phr_bind p' f' (cur xs r)"
  proof (cases rule: stable_cases [OF assms(2) le0 [of "length xs"]])
    case (3 a n)
    moreover have "clean (drop n xs)" using xs by (cases "n < length xs") (auto simp: clean_def)
    ultimately show ?thesis using f [of a] p by (simp add: yieldsD phr_bind_def agrees_def)
  qed (use p in \<open>simp_all add: phr_bind_def waitsD failsD\<close>)
qed

lemma request_token_agrees: "agrees (request_token checked) (request_token True)"
  unfolding agrees_def
proof (intro allI impI)
  fix xs r assume xs: "clean xs"
  let ?stop = "\<lambda>ch. ch = CHR '' ''"
  show "request_token checked (cur xs r) = request_token True (cur xs r)"
  proof (cases rule: scan_split [of xs ?stop bad_in_token])
    case none
    then have "advance_token (cur xs r) = Some (Inl (-2))"
      using scan_waits [of xs ?stop bad_in_token] by (simp add: advance_token_def waits_def)
    then show ?thesis by (simp add: request_token_def phr_bind_def)
  next
    case (first t c zs)
    show ?thesis
    proof (cases "?stop c")
      case False
      then have "advance_token (cur xs r) = Some (Inl (-1))"
        using first failsD [OF scan_fails [of t ?stop bad_in_token c zs]]
        by (simp add: advance_token_def)
      then show ?thesis by (simp add: request_token_def phr_bind_def)
    next
      case True
      obtain i d ys where zs: "zs = replicate i (CHR '' '') @ d # ys" "d \<noteq> CHR '' ''"
      proof (cases rule: spaces_split [of zs])
        case all
        have "last xs = CHR '' ''" using True first(1) arg_cong [OF all, of last] by (cases zs) auto
        then show ?thesis using xs first(1) by (simp add: clean_def)
      qed (rule that)
      have "skip_spaces b (cur (c # zs) r) = Some (Inr ((), cur (d # ys) r))" for b
        using skip_over [OF zs(2)] True zs(1) by simp
      moreover have "advance_token (cur xs r) = Some (Inr (t, cur (drop (length t) xs) r))"
        using yieldsD [OF scan_over [of t ?stop bad_in_token c zs]] first True
        by (simp add: advance_token_def)
      ultimately show ?thesis by (simp add: request_token_def phr_bind_def first(1))
    qed
  qed
qed

lemma token_then_agrees:
  assumes "\<And>t. agrees (f t) (f' t)"
  shows "agrees (phr_bind (request_token checked) f) (phr_bind (request_token True) f')"
  using agrees_bind [where f = f and f' = f', OF request_token_agrees stable_request_token assms] .

lemma empty_line_then_agrees:
  assumes "\<And>t. agrees (f t) (f' t)"
  shows "agrees (phr_bind skip_empty_line f) (phr_bind skip_empty_line f')"
  using agrees_bind [where f = f and f' = f', OF agrees_refl stable_skip_empty_line assms] .

lemma parse_request_agrees: "agrees (parse_request checked m) (parse_request True m)"
  unfolding parse_request_def
  by (rule empty_line_then_agrees, rule token_then_agrees, rule token_then_agrees, rule agrees_refl)

text \<open>On clean bytes the source returns what the framing finds, whatever lies behind them.\<close>

lemma int_of_size: "n < 2 ^ 31 \<Longrightarrow> sint (word_of_nat n :: 32 word) = int n"
  using signed_of_int [of "int n", where 'b = 32, where 'a = int]
  by (simp add: signed_of_nat signed_take_bit_int_eq_self)

lemma phr_parse_request_clean:
  assumes "clean xs" and "length xs < 2 ^ 31"
  shows "phr_parse_request checked (map Some xs @ r) (length xs) m =
    Some (case parse_http m xs of
            Need_more \<Rightarrow> Inl (-2) | Malformed \<Rightarrow> Inl (-1) | Packet n q \<Rightarrow> Inr (q, int n))"
proof -
  have P: "parse_request checked m (int (length xs), map Some xs @ r) =
      parse_request True m (cur xs r)"
    using parse_request_agrees [of checked m] assms(1) by (simp add: agrees_def cur_def)
  show ?thesis
  proof (cases rule: parse_http_cases [of m xs])
    case (3 q n)
    then have "parse_request True m (cur xs r) = Some (Inr (q, cur (drop n xs) r))"
      by (simp add: yieldsD)
    moreover have "int (length xs) - int (length (drop n xs)) = int n" using 3(4) by simp
    ultimately show ?thesis
      using P 3 assms(2) by (simp add: phr_parse_request_def cur_def int_of_size of_nat_diff)
  qed (simp_all add: phr_parse_request_def P waitsD failsD)
qed

subsection \<open>Printing and parsing a request\<close>

definition header_text :: "string \<times> string \<Rightarrow> string" where
  "header_text h = fst h @ '': '' @ snd h @ crlf"

definition request_text :: "string \<Rightarrow> string \<Rightarrow> (string \<times> string) list \<Rightarrow> string" where
  "request_text m p hs =
     m @ '' '' @ p @ '' HTTP/1.1'' @ crlf @ concat (map header_text hs) @ crlf"

definition token_ok :: "string \<Rightarrow> bool" where
  "token_ok t \<longleftrightarrow> t \<noteq> [] \<and> (\<forall>ch\<in>set t. ch \<noteq> CHR '' '' \<and> \<not> bad_in_token ch)"

definition header_ok :: "string \<times> string \<Rightarrow> bool" where
  "header_ok h \<longleftrightarrow>
     fst h \<noteq> [] \<and> (\<forall>ch\<in>set (fst h). ch \<noteq> CHR '':'' \<and> token_char ch) \<and>
     (\<forall>ch\<in>set (snd h). \<not> ends_line ch) \<and>
     (snd h \<noteq> [] \<longrightarrow> \<not> blank (hd (snd h)) \<and> \<not> blank (last (snd h)))"

lemma bind_run [simp]: "p c = Some (Inr (a, c')) \<Longrightarrow> phr_bind p f c = f a c'"
  by (simp add: phr_bind_def)

lemma basic_runs [simp]:
  "check_eof (cur (ch # xs) r) = Some (Inr ((), cur (ch # xs) r))"
  "deref (cur (ch # xs) r) = Some (Inr (ch, cur (ch # xs) r))"
  "advance (cur (ch # xs) r) = Some (Inr ((), cur xs r))"
  by (simp_all add: check_eof_def deref_def advance_def cur_def)

lemma expect_runs [simp]:
  "expect_char_no_check ch (cur (ch # xs) r) = Some (Inr ((), cur xs r))"
  "expect_char ch (cur (ch # xs) r) = Some (Inr ((), cur xs r))"
  by (simp_all add: expect_char_def expect_char_no_check_def phr_return_def)

lemma expect_chars_run: "expect_chars chs (cur (chs @ xs) r) = Some (Inr ((), cur xs r))"
  by (induction chs) (simp_all add: phr_return_def)

lemma scanner_run:
  "\<forall>ch\<in>set t. \<not> stop ch \<and> \<not> bad ch \<Longrightarrow> stop c \<Longrightarrow>
     scanner stop bad (cur (t @ c # xs) r) = Some (Inr (t, cur (c # xs) r))"
  using yieldsD [OF scan_over] by simp

lemma line_end_run: "line_end CR other (cur (CR # LF # xs) r) = Some (Inr ((), cur xs r))"
  by (simp add: line_end_def)

lemma chars_apart: "CR \<noteq> LF" "CR \<noteq> CHR '' ''" "LF \<noteq> CHR '' ''" "ends_line CR" "\<not> blank CR"
  "blank (CHR '' '')" "\<not> token_char CR" "\<not> token_char LF" "bad_in_token CR" "bad_in_token LF"
  by code_simp+

lemma blank_not_token: "blank ch \<Longrightarrow> \<not> token_char ch"
proof -
  have "\<not> token_char (CHR '' '')" "\<not> token_char (CHR 0x09)" by code_simp+
  then show "blank ch \<Longrightarrow> \<not> token_char ch" by (auto simp: blank_def)
qed

lemma get_token_run:
  assumes "\<forall>ch\<in>set v. \<not> ends_line ch"
  shows "get_token_to_eol (cur (v @ CR # LF # xs) r) = Some (Inr (v, cur xs r))"
proof -
  have "scanner ends_line (\<lambda>_. False) (cur (v @ CR # LF # xs) r) = Some (Inr (v, cur (CR # LF # xs) r))"
    using assms by (intro scanner_run) (simp_all add: chars_apart)
  then show ?thesis
    by (simp add: get_token_to_eol_def) (simp add: phr_bind_def line_end_run phr_return_def)
qed

lemma trim_end_id: "v = [] \<or> \<not> blank (last v) \<Longrightarrow> trim_end v = v"
  by (cases v rule: rev_cases) (auto simp: trim_end_def)

lemma parse_header_run:
  assumes "header_ok (nm, v)"
  shows "parse_header first (hd nm) (cur (header_text (nm, v) @ xs) r) =
    Some (Inr (\<lparr>h_name = Some nm, h_value = v\<rparr>, cur xs r))"
proof -
  have nm: "nm \<noteq> []" "\<forall>ch\<in>set nm. ch \<noteq> CHR '':'' \<and> \<not> \<not> token_char ch"
    and v: "\<forall>ch\<in>set v. \<not> ends_line ch" "v = [] \<or> \<not> blank (hd v) \<and> \<not> blank (last v)"
    using assms by (auto simp: header_ok_def)
  have "token_char (hd nm)" using nm by (cases nm) auto
  then have b: "\<not> blank (hd nm)" using blank_not_token by blast
  obtain c zs where c: "v @ CR # LF # xs = c # zs" "\<not> blank c"
    using v(2) by (cases v) (auto simp: chars_apart)
  have colon: "scanner (\<lambda>ch. ch = CHR '':'') (\<lambda>ch. \<not> token_char ch)
      (cur (nm @ CHR '':'' # CHR '' '' # c # zs) r) = Some (Inr (nm, cur (CHR '':'' # CHR '' '' # c # zs) r))"
    using nm(2) by (intro scanner_run) simp_all
  have space: "scanner (\<lambda>ch. \<not> blank ch) (\<lambda>_. False) (cur ([CHR '' ''] @ c # zs) r) =
      Some (Inr ([CHR '' ''], cur (c # zs) r))"
    using c(2) by (intro scanner_run) (simp_all add: chars_apart)
  have "parse_header_name first (hd nm) (cur (nm @ CHR '':'' # CHR '' '' # c # zs) r) =
      Some (Inr (Some nm, cur (c # zs) r))"
    using nm(1) b colon space by (simp add: parse_header_name_def phr_return_def)
  moreover have "get_token_to_eol (cur (c # zs) r) = Some (Inr (v, cur xs r))"
    using get_token_run [OF v(1), of xs r] by (simp only: c(1))
  moreover have "header_text (nm, v) @ xs = nm @ CHR '':'' # CHR '' '' # c # zs"
    using c(1) by (simp add: header_text_def CR_def LF_def)
  moreover have "trim_end v = v" using v(2) by (intro trim_end_id) auto
  ultimately show ?thesis by (simp add: parse_header_def phr_return_def)
qed

lemma parse_headers_run:
  "\<forall>h\<in>set hs. header_ok h \<Longrightarrow> length hs \<le> left \<Longrightarrow>
     parse_headers first left (cur (concat (map header_text hs) @ crlf @ xs) r) =
       Some (Inr (map (\<lambda>h. \<lparr>h_name = Some (fst h), h_value = snd h\<rparr>) hs, cur xs r))"
proof (induction hs arbitrary: first left)
  case Nil
  then show ?case
    using line_end_run [of "phr_return ()" xs r]
    by (subst parse_headers.simps) (simp add: phr_return_def CR_def LF_def)
next
  case (Cons h hs)
  obtain nm v where h: "h = (nm, v)" by (cases h)
  obtain n where left: "left = Suc n" using Cons.prems(2) by (cases left) auto
  have ok: "header_ok (nm, v)" "nm \<noteq> []" using Cons.prems(1) by (auto simp: h header_ok_def)
  have "token_char (hd nm)" using ok by (cases nm) (auto simp: header_ok_def)
  then have nl: "hd nm \<noteq> CR" "hd nm \<noteq> LF" using chars_apart by auto
  let ?rest = "concat (map header_text hs) @ crlf @ xs"
  have "parse_header first (hd nm) (cur (header_text (nm, v) @ ?rest) r) =
      Some (Inr (\<lparr>h_name = Some nm, h_value = v\<rparr>, cur ?rest r))"
    by (rule parse_header_run [OF ok(1)])
  moreover obtain ys where "header_text (nm, v) @ ?rest = hd nm # ys"
    using ok(2) by (cases nm) (auto simp: header_text_def)
  ultimately show ?case
    using Cons.IH [of n False] Cons.prems nl
    by (subst parse_headers.simps) (simp add: h left phr_return_def)
qed

text \<open>
  The printed request reads back, its bytes are all consumed, and neither what follows it nor the
  memory behind it matters.
\<close>

lemma request_token_run:
  assumes "token_ok t" and "c \<noteq> CHR '' ''"
  shows "request_token checked (cur (t @ CHR '' '' # c # xs) r) = Some (Inr (t, cur (c # xs) r))"
proof -
  have "advance_token (cur (t @ CHR '' '' # c # xs) r) = Some (Inr (t, cur (CHR '' '' # c # xs) r))"
    using assms(1) unfolding advance_token_def token_ok_def by (intro scanner_run) auto
  moreover have "skip_spaces checked (cur (CHR '' '' # c # xs) r) = Some (Inr ((), cur (c # xs) r))"
    using skip_over [OF assms(2), of checked 0] by simp
  ultimately show ?thesis by (simp add: request_token_def phr_return_def)
qed

lemma http_version_run:
  "parse_http_version (cur (''HTTP/1.1'' @ crlf @ xs) r) = Some (Inr (1, cur (crlf @ xs) r))"
proof -
  have "need_bytes 9 (cur (''HTTP/1.1'' @ crlf @ xs) r) = Some (Inr ((), cur (''HTTP/1.1'' @ crlf @ xs) r))"
    by (simp add: need_bytes_def cur_def)
  moreover have "expect_chars ''HTTP/1.'' (cur (''HTTP/1.1'' @ crlf @ xs) r) =
      Some (Inr ((), cur (''1'' @ crlf @ xs) r))"
    using expect_chars_run [of "''HTTP/1.''" "''1'' @ crlf @ xs" r] by simp
  ultimately show ?thesis
    by (simp add: parse_http_version_def parse_int_def phr_return_def)
qed

lemma parse_request_run:
  assumes "token_ok m" and "token_ok p" and "\<forall>h\<in>set hs. header_ok h" and "length hs \<le> max_headers"
  shows "parse_request checked max_headers (cur (request_text m p hs @ xs) r) =
    Some (Inr (\<lparr>q_method = m, q_path = p, q_minor = 1,
                q_headers = map (\<lambda>h. \<lparr>h_name = Some (fst h), h_value = snd h\<rparr>) hs\<rparr>, cur xs r))"
proof -
  let ?hs = "concat (map header_text hs) @ crlf @ xs"
  let ?v = "''HTTP/1.1'' @ crlf @ ?hs"
  have t: "request_text m p hs @ xs = m @ CHR '' '' # p @ CHR '' '' # ?v"
    by (simp add: request_text_def)
  obtain m0 m' where m: "m = m0 # m'" "m0 \<noteq> CR" "m0 \<noteq> LF"
    using assms(1) chars_apart by (cases m) (auto simp: token_ok_def)
  obtain p0 p' where p: "p = p0 # p'" "p0 \<noteq> CHR '' ''" "p \<noteq> []"
    using assms(2) by (cases p) (auto simp: token_ok_def)
  have skip: "skip_empty_line (cur (m @ ys) r) = Some (Inr ((), cur (m @ ys) r))" for ys
    using m(2,3) by (simp add: skip_empty_line_def line_end_def phr_return_def m(1))
  have ne: "m \<noteq> []" by (simp add: m(1))
  have one: "request_token checked (cur (m @ CHR '' '' # p @ CHR '' '' # ?v) r) =
      Some (Inr (m, cur (p @ CHR '' '' # ?v) r))"
    using request_token_run [OF assms(1) p(2)] by (simp add: p(1))
  have ends: "line_end (CHR 0x0D) other (cur (crlf @ ys) r) = Some (Inr ((), cur ys r))" for other ys
    using line_end_run [of other ys r] by (simp add: CR_def LF_def)
  have two: "request_token checked (cur (p @ CHR '' '' # ?v) r) = Some (Inr (p, cur ?v r))"
    using request_token_run [OF assms(2), of "CHR ''H''"] by simp
  show ?thesis
    using skip [of "CHR '' '' # p @ CHR '' '' # ?v"] one two p(3) ne
      http_version_run [of ?hs r] parse_headers_run [OF assms(3,4), of True xs r]
      ends [of "phr_fail (-1)" ?hs]
    by (simp add: t parse_request_def phr_return_def)
qed

lemma parse_http_request:
  assumes "token_ok m" and "token_ok p" and "\<forall>h\<in>set hs. header_ok h" and "length hs \<le> max_headers"
  shows "parse_http max_headers (request_text m p hs @ xs) =
    Packet (length (request_text m p hs))
      \<lparr>q_method = m, q_path = p, q_minor = 1,
       q_headers = map (\<lambda>h. \<lparr>h_name = Some (fst h), h_value = snd h\<rparr>) hs\<rparr>"
  using parse_request_run [OF assms, of True xs "[]"] by (simp add: parse_http_def cur_def)

subsection \<open>Properties\<close>

text \<open>A request that stops behind the method: everything depends on the first token.\<close>

lemma first_token_decides:
  assumes "token_ok m"
  shows "phr_parse_request checked (map Some (m @ '' '') @ r) (length m + 1) k =
    (case skip_spaces checked (1, Some (CHR '' '') # r) of
       None \<Rightarrow> None
     | Some (Inl e) \<Rightarrow> Some (Inl e)
     | Some (Inr (_, c)) \<Rightarrow> phr_parse_request checked (map Some (m @ '' '') @ r) (length m + 1) k)"
    and "skip_spaces checked (1, Some (CHR '' '') # r) = Some (Inr ((), c)) \<Longrightarrow>
      advance_token c = Some (Inl e) \<Longrightarrow>
      phr_parse_request checked (map Some (m @ '' '') @ r) (length m + 1) k = Some (Inl e)"
proof -
  have m: "(int (length m + 1), map Some (m @ '' '') @ r) = cur (m @ '' '') r"
    by (simp add: cur_def)
  obtain m0 m' where m0: "m = m0 # m'" "m0 \<noteq> CR" "m0 \<noteq> LF"
    using assms chars_apart by (cases m) (auto simp: token_ok_def)
  have skip: "skip_empty_line (cur (m @ '' '') r) = Some (Inr ((), cur (m @ '' '') r))"
    using m0(2,3) by (simp add: skip_empty_line_def line_end_def phr_return_def m0(1))
  have tok: "advance_token (cur (m @ '' '') r) = Some (Inr (m, 1, Some (CHR '' '') # r))"
    using assms scanner_run [of m "\<lambda>ch. ch = CHR '' ''" bad_in_token "CHR '' ''" "[]" r]
    by (simp add: advance_token_def token_ok_def) (simp add: cur_def)
  have first: "phr_bind skip_empty_line f (cur (m @ '' '') r) = f () (cur (m @ '' '') r)" for f :: "unit \<Rightarrow> phr_request phr"
    using skip by simp
  note run = phr_parse_request_def parse_request_def m first request_token_def
  show "phr_parse_request checked (map Some (m @ '' '') @ r) (length m + 1) k =
    (case skip_spaces checked (1, Some (CHR '' '') # r) of
       None \<Rightarrow> None
     | Some (Inl e) \<Rightarrow> Some (Inl e)
     | Some (Inr (_, c)) \<Rightarrow> phr_parse_request checked (map Some (m @ '' '') @ r) (length m + 1) k)"
    by (simp only: run) (simp add: phr_bind_def tok split: option.split sum.split prod.split)
  show "phr_parse_request checked (map Some (m @ '' '') @ r) (length m + 1) k = Some (Inl e)"
    if "skip_spaces checked (1, Some (CHR '' '') # r) = Some (Inr ((), c))" "advance_token c = Some (Inl e)"
    by (simp only: run) (simp add: phr_bind_def tok that phr_return_def)
qed

text \<open>
  C38. The loop that skips the spaces behind the method reads one byte behind the received bytes when
  they end there. What it finds decides: in memory that was never written the parse is undefined; a
  space of older traffic followed by a line feed makes the unfinished request malformed; any other
  character lets the parser wait, as the specification does in all three cases.
\<close>

theorem partial_method_reads_behind:
  assumes "token_ok m" and "ch \<noteq> CHR '' ''"
  shows "phr_parse_request False (map Some (m @ '' '') @ None # r) (length m + 1) k = None \<and>
    phr_parse_request False (map Some (m @ '' '') @ Some (CHR '' '') # Some LF # r) (length m + 1) k =
      Some (Inl (-1)) \<and>
    phr_parse_request False (map Some (m @ '' '') @ Some ch # r) (length m + 1) k = Some (Inl (-2)) \<and>
    phr_parse_request True (map Some (m @ '' '') @ r') (length m + 1) k = Some (Inl (-2))"
proof (intro conjI)
  show "phr_parse_request False (map Some (m @ '' '') @ None # r) (length m + 1) k = None"
    by (subst first_token_decides(1) [OF assms(1)]) (simp add: skip_spaces_def)
  show "phr_parse_request True (map Some (m @ '' '') @ r') (length m + 1) k = Some (Inl (-2))"
    by (subst first_token_decides(1) [OF assms(1)]) (simp add: skip_spaces_def)
  show "phr_parse_request False (map Some (m @ '' '') @ Some ch # r) (length m + 1) k = Some (Inl (-2))"
    using assms(2) by (intro first_token_decides(2) [OF assms(1), where c = "(0, Some ch # r)"])
      (simp_all add: skip_spaces_def advance_token_def scanner_def)
  show "phr_parse_request False (map Some (m @ '' '') @ Some (CHR '' '') # Some LF # r) (length m + 1) k =
      Some (Inl (-1))"
    using chars_apart by (intro first_token_decides(2) [OF assms(1), where c = "(-1, Some LF # r)"])
      (simp_all add: skip_spaces_def advance_token_def scanner_def)
qed

lemma partial_method_reads_behind_witness:
  "phr_parse_request False (map Some ''POST '' @ Some (CHR '' '') # Some LF # []) (length ''POST'' + 1) 16 = Some (Inl (-1)) \<and>
   phr_parse_request True (map Some ''POST '' @ []) (length ''POST'' + 1) 16 = Some (Inl (-2))"
proof -
  have "token_ok ''POST''" by code_simp
  moreover have "CHR ''x'' \<noteq> CHR '' ''" by simp
  ultimately show ?thesis
    using partial_method_reads_behind [of "''POST''" "CHR ''x''" "[]" 16 "[]"] by simp
qed

end
