(* ===== verification/Http_Protocol.thy ===== *)
theory Http_Protocol
  imports Picohttp_Spec Stream Utility_U32
begin

text \<open>
  Components \<open>third_party/libreactor/src/reactor/http.c\<close> and \<open>pointer.c\<close>: requests and responses
  written through a pointer into space allocated at the end of a stream's output buffer, and the
  calls of the request parser on its input buffer. A pointer is an offset into the block it walks
  over; writing outside that block is undefined.
\<close>

subsection \<open>Pointers\<close>

type_synonym pointer = "nat \<times> char option list"

definition pointer_write :: "string \<Rightarrow> pointer \<Rightarrow> pointer option" where
  "pointer_write s pc =
     map_option (Pair (fst pc + length s)) (write_at (fst pc) (map Some s) (snd pc))"

definition pointer_push :: "data \<Rightarrow> pointer \<Rightarrow> pointer option" where
  "pointer_push d pc = Option.bind (data_text d) (\<lambda>s. pointer_write s pc)"

definition pointer_push_byte :: "char \<Rightarrow> pointer \<Rightarrow> pointer option" where
  "pointer_push_byte ch = pointer_write [ch]"

subsection \<open>Fields\<close>

record http_field =
  f_name :: data
  f_value :: data

definition http_field_construct :: "data \<Rightarrow> data \<Rightarrow> http_field" where
  "http_field_construct n v = \<lparr>f_name = n, f_value = v\<rparr>"

definition http_field_push :: "http_field \<Rightarrow> pointer \<Rightarrow> pointer option" where
  "http_field_push f =
     run_all (\<lambda>push. push)
       [pointer_push (f_name f), pointer_push_byte (CHR '':''), pointer_push_byte (CHR '' ''),
        pointer_push (f_value f), pointer_push_byte CR, pointer_push_byte LF]"

text \<open>\<open>strncasecmp\<close> in the C locale, on texts of equal length without a NUL.\<close>

definition to_lower :: "char \<Rightarrow> char" where
  "to_lower ch =
     (if 0x41 \<le> (of_char ch :: nat) \<and> (of_char ch :: nat) \<le> 0x5A
      then char_of ((of_char ch :: nat) + 0x20) else ch)"

fun http_field_lookup :: "http_field list \<Rightarrow> data \<Rightarrow> data option" where
  "http_field_lookup [] name = Some data_null"
| "http_field_lookup (f # fs) name =
     (if d_size (f_name f) = d_size name then
        Option.bind (data_text (f_name f)) (\<lambda>a.
        Option.bind (data_text name) (\<lambda>b.
        if map to_lower a = map to_lower b then Some (f_value f) else http_field_lookup fs name))
      else http_field_lookup fs name)"

subsection \<open>Requests\<close>

text \<open>
  The parser leaves pointers into the input buffer; the segments here hold the same bytes. The
  result of a call is its return value with the method, the target and the fields.
\<close>

definition text_data :: "string \<Rightarrow> data" where
  "text_data s = data_construct (Some s) (of_nat (length s))"

definition field_of :: "phr_header \<Rightarrow> http_field" where
  "field_of h =
     http_field_construct
       (case h_name h of None \<Rightarrow> data_null | Some n \<Rightarrow> text_data n) (text_data (h_value h))"

definition http_read_request_data ::
  "char option list \<Rightarrow> nat \<Rightarrow> nat \<Rightarrow> (int \<times> data \<times> data \<times> http_field list) option" where
  "http_read_request_data mem len fields_count =
     map_option (\<lambda>r. case r of
         Inl e \<Rightarrow> (e, data_null, data_null, [])
       | Inr (q, n) \<Rightarrow> (n, text_data (q_method q), text_data (q_path q), map field_of (q_headers q)))
       (phr_parse_request False mem len fields_count)"

definition http_read_request ::
  "char stream \<Rightarrow> nat \<Rightarrow> (int \<times> data \<times> data \<times> http_field list) option" where
  "http_read_request st fields_count =
     http_read_request_data (buf_cells (st_input st)) (buf_size (st_input st)) fields_count"

text \<open>The length of the body in decimal; \<open>storage\<close> is read only where it was written.\<close>

definition length_text :: "data \<Rightarrow> data option" where
  "length_text bd =
     (let n = ucast (d_size bd) :: u32; len = utility_u32_len n
      in map_option (\<lambda>(storage, _). data_construct (Some storage) (of_nat len))
           (utility_u32_sprint (unat n) (replicate 16 NUL, len)))"

text \<open>Writes at the offset \<open>off\<close> of the output buffer's block.\<close>

definition write_output ::
  "(pointer \<Rightarrow> pointer option) \<Rightarrow> nat \<times> char world \<times> char stream \<Rightarrow>
     (char world \<times> char stream) option" where
  "write_output push ows =
     (case ows of (off, w, st) \<Rightarrow>
      map_option (\<lambda>(_, cells). (w, st\<lparr>st_output := (st_output st)\<lparr>buf_cells := cells\<rparr>\<rparr>))
        (push (off, buf_cells (st_output st))))"

definition literal :: "string \<Rightarrow> data" where
  "literal s = data_construct (Some (s @ [NUL])) (of_nat (length s))"

definition http_write_request ::
  "(nat \<Rightarrow> bool) \<Rightarrow> data \<Rightarrow> data \<Rightarrow> data \<Rightarrow> data \<Rightarrow> data \<Rightarrow> char world \<times> char stream \<Rightarrow>
     (char world \<times> char stream) option" where
  "http_write_request ok method target host ty bd ws =
     Option.bind (length_text bd) (\<lambda>len.
     let total = d_size method + 1 + d_size target + 11 + 6 + d_size host + 2 +
           (if d_size bd \<noteq> 0 then 14 + d_size ty + 2 + 16 + d_size len + 2 else 0) + 2 + d_size bd
     in Option.bind (stream_allocate ok (unat total) ws)
          (write_output (run_all (\<lambda>push. push)
             ([pointer_push method, pointer_push_byte (CHR '' ''), pointer_push target,
               pointer_push (literal ('' HTTP/1.1'' @ crlf)),
               http_field_push (http_field_construct (literal ''Host'') host)] @
              (if d_size bd \<noteq> 0
               then [http_field_push (http_field_construct (literal ''Content-Type'') ty),
                     http_field_push (http_field_construct (literal ''Content-Length'') len)]
               else []) @
              [pointer_push (literal crlf), pointer_push bd]))))"

subsection \<open>Responses\<close>

definition http_write_response ::
  "(nat \<Rightarrow> bool) \<Rightarrow> data \<Rightarrow> data \<Rightarrow> data \<Rightarrow> data \<Rightarrow> char world \<times> char stream \<Rightarrow>
     (char world \<times> char stream) option" where
  "http_write_response ok status date ty bd ws =
     Option.bind (length_text bd) (\<lambda>len.
     let total = 9 + d_size status + 2 + 17 + 37 + (if data_empty ty then 0 else 16 + d_size ty) +
           (18 + d_size len) + 2 + d_size bd
     in Option.bind (stream_allocate ok (unat total) ws)
          (write_output (run_all (\<lambda>push. push)
             ([pointer_write ''HTTP/1.1 '', pointer_push status, pointer_write crlf,
               pointer_write (''Server: reactor'' @ crlf),
               pointer_write ''Date: '', pointer_push date, pointer_write crlf] @
              (if \<not> data_empty ty
               then [pointer_write ''Content-Type: '', pointer_push ty, pointer_write crlf]
               else []) @
              [pointer_write ''Content-Length: '', pointer_push len, pointer_write crlf,
               pointer_write crlf, pointer_push bd]))))"

subsection \<open>What the pointers write\<close>

definition writes :: "(pointer \<Rightarrow> pointer option) \<Rightarrow> string \<Rightarrow> bool" where
  "writes push t \<longleftrightarrow>
     (\<forall>p cells. p + length t \<le> length cells \<longrightarrow>
        push (p, cells) = Some (p + length t, take p cells @ map Some t @ drop (p + length t) cells))"

lemma writesD:
  "writes push t \<Longrightarrow> p + length t \<le> length cells \<Longrightarrow>
     push (p, cells) = Some (p + length t, take p cells @ map Some t @ drop (p + length t) cells)"
  by (simp add: writes_def)

named_theorems writes_rules \<comment> \<open>what each push writes\<close>

lemma writes_pointer_write [writes_rules]: "writes (pointer_write s) s"
  by (simp add: writes_def pointer_write_def write_at_def)

lemma writes_push [writes_rules]: "data_text d = Some s \<Longrightarrow> writes (pointer_push d) s"
  using writes_pointer_write [of s] by (simp add: writes_def pointer_push_def)

lemma writes_push_byte [writes_rules]: "writes (pointer_push_byte ch) [ch]"
  by (simp add: pointer_push_byte_def writes_pointer_write)

lemma writes_all: "list_all2 writes pushes ts \<Longrightarrow> writes (run_all (\<lambda>push. push) pushes) (concat ts)"
proof (induction rule: list_all2_induct)
  case Nil
  then show ?case by (simp add: writes_def)
next
  case (Cons push pushes t ts)
  show ?case
    unfolding writes_def
  proof (intro allI impI)
    fix p and cells :: "char option list"
    assume len: "p + length (concat (t # ts)) \<le> length cells"
    let ?cells = "take p cells @ map Some t @ drop (p + length t) cells"
    have "push (p, cells) = Some (p + length t, ?cells)"
      using len by (intro writesD [OF Cons.hyps(1)]) simp
    moreover have "run_all (\<lambda>push. push) pushes (p + length t, ?cells) =
        Some (p + length t + length (concat ts),
          take (p + length t) ?cells @ map Some (concat ts) @ drop (p + length t + length (concat ts)) ?cells)"
      using len by (intro writesD [OF Cons.IH]) simp
    ultimately show "run_all (\<lambda>push. push) (push # pushes) (p, cells) =
        Some (p + length (concat (t # ts)),
          take p cells @ map Some (concat (t # ts)) @ drop (p + length (concat (t # ts))) cells)"
      using len by (simp add: ac_simps)
  qed
qed

lemma writes_field [writes_rules]:
  assumes "data_text (f_name f) = Some n" and "data_text (f_value f) = Some v"
  shows "writes (http_field_push f) (header_text (n, v))"
proof -
  have "writes (http_field_push f) (concat [n, '':'', '' '', v, [CR], [LF]])"
    unfolding http_field_push_def
    by (rule writes_all) (simp add: writes_rules assms)
  then show ?thesis by (simp add: header_text_def CR_def LF_def)
qed

text \<open>A whole message at the end of the output.\<close>

lemma resize_run:
  assumes "holds b xs" and "length xs + n \<le> 2 ^ 62"
  shows "\<exists>h' b'. buffer_resize (\<lambda>_. True) (length xs + n) (h, b) = Some (h', b') \<and>
    buf_size b' = length xs + n \<and> length xs + n \<le> buf_capacity b' \<and>
    length (buf_cells b') = buf_capacity b' \<and> buf_capacity b' \<le> 2 ^ 62 \<and>
    (buf_block b' = None \<longrightarrow> buf_capacity b' = 0) \<and> take (length xs) (buf_cells b') = map Some xs"
proof -
  obtain h1 b1 where r: "buffer_reserve (\<lambda>_. True) (length xs + n) (h, b) = Some (h1, b1)"
    "holds b1 xs" "length xs + n \<le> buf_capacity b1"
    using reserve_run [where ok = "\<lambda>_. True" and cap = "length xs + n" and h = h, OF assms(1)] assms(2)
    by auto
  have keep: "buffer_reserve (\<lambda>_. True) (length xs + n) (h, b) = Some (h, b)"
    if "\<not> length xs + n > buf_capacity b"
    using that by (simp add: buffer_reserve_def)
  have "buffer_resize (\<lambda>_. True) (length xs + n) (h, b) = Some (h1, b1\<lparr>buf_size := length xs + n\<rparr>)"
    using r(1) keep by (auto simp: buffer_resize_def)
  then show ?thesis
    using r(3) holdsD [OF r(2)] holds_None [OF r(2)] by auto
qed

lemma message_run:
  assumes "stream_view fd ws ins outs" and "length outs + length t \<le> 2 ^ 62" and "writes push t"
    and "unat count = length t"
  shows "\<exists>ws'. Option.bind (stream_allocate (\<lambda>_. True) (unat count) ws) (write_output push) = Some ws' \<and>
    stream_view fd ws' ins (outs @ t) \<and> same_others fd ws ws' \<and> st_input (snd ws') = st_input (snd ws)"
proof -
  obtain w st where ws: "ws = (w, st)" by (cases ws)
  obtain pending where p: "holds (st_output st) pending"
    "k_sent (w_sock w fd) @ map Some pending = map Some outs"
    using assms(1) by (auto simp: stream_view_def ws)
  have len: "length pending \<le> length outs" using arg_cong [OF p(2), of length] by simp
  have size: "buf_size (st_output st) = length pending" by (rule holdsD(3) [OF p(1)])
  have add: "size_add (length pending) (length t) = length pending + length t"
    using len assms(2) by (intro size_add_small) simp
  obtain h' b' where r: "buffer_resize (\<lambda>_. True) (length pending + length t) (w_heap w, st_output st) =
      Some (h', b')" "buf_size b' = length pending + length t" "buf_size b' \<le> buf_capacity b'"
    "length (buf_cells b') = buf_capacity b'" "buf_capacity b' \<le> 2 ^ 62"
    "buf_block b' = None \<longrightarrow> buf_capacity b' = 0" "take (length pending) (buf_cells b') = map Some pending"
    using resize_run [OF p(1), of "length t" "w_heap w"] len assms(2) by auto
  let ?cells = "take (length pending) (buf_cells b') @ map Some t @
      drop (length pending + length t) (buf_cells b')"
  have push: "push (length pending, buf_cells b') = Some (length pending + length t, ?cells)"
    using r by (intro writesD [OF assms(3)]) simp
  let ?b = "b'\<lparr>buf_cells := ?cells\<rparr>"
  have "holds ?b (pending @ t)"
    using r by (intro holdsI) (simp_all add: min_absorb2)
  then have "stream_view fd (w\<lparr>w_heap := h'\<rparr>, st\<lparr>st_output := ?b\<rparr>) ins (outs @ t)"
    using assms(1) p(2)
    by (auto simp: stream_view_def ws stream_fd_def intro!: exI [of _ "pending @ t"])
  moreover have "Option.bind (stream_allocate (\<lambda>_. True) (unat count) ws) (write_output push) =
      Some (w\<lparr>w_heap := h'\<rparr>, st\<lparr>st_output := ?b\<rparr>)"
    using r(1) push
    by (simp add: stream_allocate_def ws size add assms(4) on_output_def write_output_def)
  ultimately show ?thesis by (auto simp: same_others_def ws)
qed

subsection \<open>The texts of requests and responses\<close>

text \<open>\<open>is_text d t\<close>: a segment of fewer than \<open>2 ^ 32\<close> bytes.\<close>

definition is_text :: "data \<Rightarrow> string \<Rightarrow> bool" where
  "is_text d t \<longleftrightarrow> data_text d = Some t \<and> length t < 2 ^ 32"

lemma is_textD:
  assumes "is_text d t"
  shows "data_text d = Some t" and "unat (d_size d) = length t" and "d_size d = of_nat (length t)"
    and "d_size d \<noteq> 0 \<longleftrightarrow> t \<noteq> []"
proof -
  show t: "data_text d = Some t" and u: "unat (d_size d) = length t"
    using assms data_text_length [of d t] by (auto simp: is_text_def)
  have "length t < 2 ^ 64" using assms by (simp add: is_text_def)
  then show "d_size d = of_nat (length t)" by (simp add: word_unat_eq_iff u unat_of_nat)
  then show "d_size d \<noteq> 0 \<longleftrightarrow> t \<noteq> []" using u by (auto simp: unat_eq_zero)
qed

lemma literal_text: "length s < 2 ^ 32 \<Longrightarrow> is_text (literal s) s"
  by (simp add: is_text_def literal_def data_text_construct)

lemma text_data_text: "length s < 2 ^ 32 \<Longrightarrow> is_text (text_data s) s"
  by (simp add: is_text_def text_data_def data_text_construct)

lemma data_null_text: "is_text data_null []"
  by (simp add: is_text_def data_null_def data_text_def data_read_def)

lemma length_text_run:
  assumes "is_text bd b"
  shows "\<exists>len. length_text bd = Some len \<and> is_text len (dec (length b))"
proof -
  have n: "unat (ucast (d_size bd) :: u32) = length b"
    using is_textD(2) [OF assms] assms by (simp add: is_text_def unsigned_ucast_eq take_bit_nat_eq_self)
  have d: "ndigits (length b) \<le> 10" using u32_ndigits [of "ucast (d_size bd)"] n by simp
  have "utility_u32_sprint (length b) (replicate 16 NUL, ndigits (length b)) =
      Some (dec (length b) @ drop (ndigits (length b)) (replicate 16 NUL), 0)"
    using sprint_run [of "length b" "ndigits (length b)" "replicate 16 NUL"] d by simp
  moreover have "is_text (data_construct (Some (dec (length b) @ drop (ndigits (length b)) (replicate 16 NUL)))
      (of_nat (ndigits (length b)))) (dec (length b))"
    using d by (simp add: is_text_def data_text_construct length_dec)
  ultimately show ?thesis by (simp add: length_text_def n utility_u32_len_ndigits Let_def)
qed

definition response_text :: "string \<Rightarrow> string \<Rightarrow> string \<Rightarrow> string \<Rightarrow> string" where
  "response_text status date ty bd =
     ''HTTP/1.1 '' @ status @ crlf @ ''Server: reactor'' @ crlf @ ''Date: '' @ date @ crlf @
     (if ty \<noteq> [] then ''Content-Type: '' @ ty @ crlf else []) @
     ''Content-Length: '' @ dec (length bd) @ crlf @ crlf @ bd"

lemma write_response_run:
  assumes "stream_view fd ws ins outs" and "is_text status s" and "is_text date d" and "length d = 29"
    and "is_text ty t" and "is_text bd b"
    and "length outs + length (response_text s d t b) \<le> 2 ^ 62"
  shows "\<exists>ws'. http_write_response (\<lambda>_. True) status date ty bd ws = Some ws' \<and>
    stream_view fd ws' ins (outs @ response_text s d t b) \<and> same_others fd ws ws' \<and>
    st_input (snd ws') = st_input (snd ws)"
proof -
  obtain len where len: "length_text bd = Some len" "is_text len (dec (length b))"
    using length_text_run [OF assms(6)] by blast
  note T = is_textD [OF assms(2)] is_textD [OF assms(3)] is_textD [OF assms(5)]
    is_textD [OF assms(6)] is_textD [OF len(2)]
  let ?n = "9 + d_size status + 2 + 17 + 37 + (if data_empty ty then 0 else 16 + d_size ty) +
      (18 + d_size len) + 2 + d_size bd"
  let ?pushes = "[pointer_write ''HTTP/1.1 '', pointer_push status, pointer_write crlf,
      pointer_write (''Server: reactor'' @ crlf),
      pointer_write ''Date: '', pointer_push date, pointer_write crlf] @
      (if \<not> data_empty ty
       then [pointer_write ''Content-Type: '', pointer_push ty, pointer_write crlf] else []) @
      [pointer_write ''Content-Length: '', pointer_push len, pointer_write crlf,
       pointer_write crlf, pointer_push bd]"
  have e: "data_empty ty \<longleftrightarrow> t = []" using T(12) by (simp add: data_empty_def)
  have "writes (run_all (\<lambda>push. push) ?pushes) (concat ([''HTTP/1.1 '', s, crlf,
      ''Server: reactor'' @ crlf, ''Date: '', d, crlf] @
      (if t \<noteq> [] then [''Content-Type: '', t, crlf] else []) @
      [''Content-Length: '', dec (length b), crlf, crlf, b]))"
    unfolding e by (rule writes_all) (simp add: writes_rules T)
  moreover have "concat ([''HTTP/1.1 '', s, crlf, ''Server: reactor'' @ crlf, ''Date: '', d, crlf] @
      (if t \<noteq> [] then [''Content-Type: '', t, crlf] else []) @
      [''Content-Length: '', dec (length b), crlf, crlf, b]) = response_text s d t b"
    by (simp add: response_text_def)
  ultimately have w: "writes (run_all (\<lambda>push. push) ?pushes) (response_text s d t b)" by simp
  have "?n = of_nat (length (response_text s d t b))"
    by (simp add: response_text_def e T assms(4))
  then have n: "unat ?n = length (response_text s d t b)"
    using assms(7) by (simp only:) (intro unat_size_of_nat, simp)
  show ?thesis
    using message_run [OF assms(1,7) w n] by (simp add: http_write_response_def len(1) Let_def)
qed

text \<open>The same for a request.\<close>

definition request_fields :: "string \<Rightarrow> string \<Rightarrow> string \<Rightarrow> (string \<times> string) list" where
  "request_fields h t b =
     (''Host'', h) # (if b \<noteq> [] then [(''Content-Type'', t), (''Content-Length'', dec (length b))] else [])"

lemma write_request_run:
  assumes "stream_view fd ws ins outs" and "is_text method m" and "is_text target p" and "is_text host h"
    and "is_text ty t" and "is_text bd b"
    and "length outs + length (request_text m p (request_fields h t b) @ b) \<le> 2 ^ 62"
  shows "\<exists>ws'. http_write_request (\<lambda>_. True) method target host ty bd ws = Some ws' \<and>
    stream_view fd ws' ins (outs @ request_text m p (request_fields h t b) @ b) \<and> same_others fd ws ws'"
proof -
  obtain len where len: "length_text bd = Some len" "is_text len (dec (length b))"
    using length_text_run [OF assms(6)] by blast
  note T = is_textD [OF assms(2)] is_textD [OF assms(3)] is_textD [OF assms(4)] is_textD [OF assms(5)]
    is_textD [OF assms(6)] is_textD [OF len(2)]
  have lit: "data_text (literal s) = Some s" if "length s < 2 ^ 32" for s
    using is_textD(1) [OF literal_text [OF that]] .
  let ?n = "d_size method + 1 + d_size target + 11 + 6 + d_size host + 2 +
      (if d_size bd \<noteq> 0 then 14 + d_size ty + 2 + 16 + d_size len + 2 else 0) + 2 + d_size bd"
  let ?pushes = "[pointer_push method, pointer_push_byte (CHR '' ''), pointer_push target,
      pointer_push (literal ('' HTTP/1.1'' @ crlf)),
      http_field_push (http_field_construct (literal ''Host'') host)] @
     (if d_size bd \<noteq> 0
      then [http_field_push (http_field_construct (literal ''Content-Type'') ty),
            http_field_push (http_field_construct (literal ''Content-Length'') len)] else []) @
     [pointer_push (literal crlf), pointer_push bd]"
  let ?text = "request_text m p (request_fields h t b) @ b"
  have e: "d_size bd \<noteq> 0 \<longleftrightarrow> b \<noteq> []" by (rule T(20))
  have "writes (run_all (\<lambda>push. push) ?pushes) (concat ([m, '' '', p, '' HTTP/1.1'' @ crlf, header_text (''Host'', h)] @
      (if b \<noteq> [] then [header_text (''Content-Type'', t), header_text (''Content-Length'', dec (length b))]
       else []) @ [crlf, b]))"
    unfolding e by (rule writes_all) (simp add: writes_rules T lit http_field_construct_def)
  moreover have "concat ([m, '' '', p, '' HTTP/1.1'' @ crlf, header_text (''Host'', h)] @
      (if b \<noteq> [] then [header_text (''Content-Type'', t), header_text (''Content-Length'', dec (length b))]
       else []) @ [crlf, b]) = ?text"
    by (simp add: request_text_def request_fields_def)
  ultimately have w: "writes (run_all (\<lambda>push. push) ?pushes) ?text" by (simp only:)
  have "?n = of_nat (length ?text)"
    unfolding e by (simp add: request_text_def request_fields_def header_text_def T)
  then have n: "unat ?n = length ?text"
    using assms(7) by (simp only:) (intro unat_size_of_nat, simp)
  have "http_write_request (\<lambda>_. True) method target host ty bd ws =
      Option.bind (stream_allocate (\<lambda>_. True) (unat ?n) ws) (write_output (run_all (\<lambda>push. push) ?pushes))"
    by (simp only: http_write_request_def len(1) Option.bind.simps Let_def)
  then show ?thesis using message_run [OF assms(1,7) w n] by auto
qed

subsection \<open>Properties\<close>

text \<open>
  C16. What a client writes with \<open>http_write_request\<close> the parser of the server reads back: the method,
  the target and the fields, the last with the length of the body, are those written, exactly the
  bytes before the body are consumed, and neither the body nor older memory behind it is looked at.
\<close>

theorem written_request_reads_back:
  assumes "stream_view fd ws ins []" and "is_text method m" and "is_text target p" and "is_text host h"
    and "is_text ty t" and "is_text bd b"
    and "token_ok m" and "token_ok p" and "list_all header_ok (request_fields h t b)"
    and "length (request_text m p (request_fields h t b)) + length b < 2 ^ 31"
  shows "\<exists>ws' sent. http_write_request (\<lambda>_. True) method target host ty bd ws = Some ws' \<and>
    stream_view fd ws' ins sent \<and>
    phr_parse_request False (map Some sent @ r) (length sent) 16 =
      Some (Inr (\<lparr>q_method = m, q_path = p, q_minor = 1,
        q_headers = map (\<lambda>f. \<lparr>h_name = Some (fst f), h_value = snd f\<rparr>) (request_fields h t b)\<rparr>,
        int (length sent - length b))) \<and>
    drop (length sent - length b) sent = b"
proof -
  let ?t = "request_text m p (request_fields h t b)"
  have room: "length ([] :: string) + length (?t @ b) \<le> 2 ^ 62" using assms(10) by simp
  obtain ws' where ws': "http_write_request (\<lambda>_. True) method target host ty bd ws = Some ws'"
    "stream_view fd ws' ins ([] @ ?t @ b)"
    using write_request_run [OF assms(1-6) room] by blast
  have "\<forall>f\<in>set (request_fields h t b). header_ok f" "length (request_fields h t b) \<le> 16"
    using assms(9) by (simp_all add: list_all_iff request_fields_def)
  from parse_request_run [OF assms(7,8) this, of False b r]
  have "phr_parse_request False (map Some (?t @ b) @ r) (length (?t @ b)) 16 =
      Some (Inr (\<lparr>q_method = m, q_path = p, q_minor = 1,
        q_headers = map (\<lambda>f. \<lparr>h_name = Some (fst f), h_value = snd f\<rparr>) (request_fields h t b)\<rparr>,
        int (length ?t)))"
    using assms(10) by (simp add: phr_parse_request_def cur_def int_of_size)
  then show ?thesis using ws' by (intro exI [of _ ws'] exI [of _ "?t @ b"]) simp
qed

lemma written_request_reads_back_witness:
  "\<exists>ws' sent. http_write_request (\<lambda>_. True) (literal ''POST'') (literal ''/x'') (literal ''h'')
      (literal ''text/plain'') (literal ''hello'') (ex_world\<lparr>w_sock := (\<lambda>_. \<lparr>k_recv = [], k_send = [], k_sent = []\<rparr>)\<rparr>,
        ex_stream\<lparr>st_output := buffer_construct\<rparr>) = Some ws' \<and>
    stream_view 7 ws' [] sent \<and> drop (length sent - length ''hello'') sent = ''hello''"
proof -
  have v: "stream_view 7 (ex_world\<lparr>w_sock := (\<lambda>_. \<lparr>k_recv = [], k_send = [], k_sent = []\<rparr>)\<rparr>,
      ex_stream\<lparr>st_output := buffer_construct\<rparr>) [] []"
    by (auto simp: stream_view_def ex_stream_def stream_fd_def intro: exI [of _ "[]"])
  have lit: "is_text (literal ''POST'') ''POST''" "is_text (literal ''/x'') ''/x''" "is_text (literal ''h'') ''h''"
    "is_text (literal ''text/plain'') ''text/plain''" "is_text (literal ''hello'') ''hello''"
    by (intro literal_text; simp)+
  have ok: "token_ok ''POST''" "token_ok ''/x''" "list_all header_ok (request_fields ''h'' ''text/plain'' ''hello'')"
    by code_simp+
  have short: "length (request_text ''POST'' ''/x'' (request_fields ''h'' ''text/plain'' ''hello'')) + length ''hello'' < 2 ^ 31"
    by (simp add: request_text_def request_fields_def header_text_def dec.simps)
  show ?thesis using written_request_reads_back [OF v lit ok short, of "[]"] by auto
qed

end
