(* ===== verification/Http_Connection.thy ===== *)
theory Http_Connection
  imports Http_Server Http_Protocol "HOL-Library.Monad_Syntax"
begin

text \<open>
  Component \<open>third_party/libreactor/src/reactor/server.c\<close>, without TLS: the HTTP connections. A
  connection is a \<open>server_request\<close>, counted by references and freed by the last release: the state
  of an operation holds the request or \<open>None\<close> once it has been freed, and touching it then is
  undefined. The request handler is an argument: it maps the target to the calls it makes on the
  request; the program's own handler is \<open>http_server_handle_request\<close>.
\<close>

subsection \<open>The date\<close>

definition date_template :: "tm \<Rightarrow> string" where
  "date_template t =
     ''---, '' @ pad2 (tm_mday t) @ '' --- '' @ dec (tm_year t + 1900) @ '' '' @
     pad2 (tm_hour t) @ '':'' @ pad2 (tm_min t) @ '':'' @ pad2 (tm_sec t) @ '' GMT''"

text \<open>A text that does not fit leaves the array unspecified.\<close>

definition server_date_update :: "tm \<Rightarrow> string \<Rightarrow> string option" where
  "server_date_update t m =
     (if length (date_template t) < 30 \<and> tm_wday t < 7 \<and> tm_mon t < 12 then
        do { m \<leftarrow> write_at 0 (date_template t @ [NUL]) m;
             m \<leftarrow> write_at 0 (day_names ! tm_wday t) m;
             write_at 8 (month_names ! tm_mon t) m }
      else None)"

definition server_date :: "string \<Rightarrow> data" where
  "server_date m = data_construct (Some m) 29"

subsection \<open>Requests\<close>

datatype server_state =
  SERVER_REQUEST_NEED_MORE_DATA
| SERVER_REQUEST_READ
| SERVER_REQUEST_HANDLING
| SERVER_REQUEST_CLOSED

record server_request =
  rq_ref :: nat
  rq_state :: server_state
  rq_event_triggered :: bool
  rq_stream :: "char stream"
  rq_method :: data
  rq_target :: data
  rq_fields :: "http_field list"
  rq_consumed :: nat

type_synonym rstate = "char world \<times> server_request option"

text \<open>What the operations use of their surroundings: memory, the date string and the handler.\<close>

record server_env =
  se_memory :: "nat \<Rightarrow> bool"
  se_date :: string
  se_handler :: "data \<Rightarrow> server_call list option"

definition live :: "rstate \<Rightarrow> (char world \<times> server_request) option" where
  "live s = map_option (Pair (fst s)) (snd s)"

definition SERVER_BUFFER_CLEANUP_THRESHOLD :: nat where
  "SERVER_BUFFER_CLEANUP_THRESHOLD = 65536 * 3"

definition server_hold :: "rstate \<Rightarrow> rstate option" where
  "server_hold s = do { (w, r) \<leftarrow> live s; Some (w, Some (r\<lparr>rq_ref := size_add (rq_ref r) 1\<rparr>)) }"

text \<open>The last release closes the stream and frees the request; \<open>--\<close> of 0 would wrap.\<close>

definition server_release :: "rstate \<Rightarrow> rstate option" where
  "server_release s =
     do { (w, r) \<leftarrow> live s;
          let n = size_add (rq_ref r) (2 ^ 64 - 1);
          if n \<noteq> 0 then Some (w, Some (r\<lparr>rq_ref := n\<rparr>))
          else Some (fst (stream_destruct (w, rq_stream r)), None) }"

definition server_close :: "rstate \<Rightarrow> rstate option" where
  "server_close s =
     do { (w, r) \<leftarrow> live s;
          if rq_state r \<noteq> SERVER_REQUEST_CLOSED then
            (case stream_close (w, rq_stream r) of (w, st) \<Rightarrow>
               server_release (w, Some (r\<lparr>rq_stream := st, rq_state := SERVER_REQUEST_CLOSED\<rparr>)))
          else Some s }"

subsection \<open>Responding\<close>

text \<open>
  Outside an event \<open>server_respond\<close> goes on with \<open>server_request_update\<close>, which is the argument
  \<open>update\<close> here.
\<close>

definition server_respond ::
  "(rstate \<Rightarrow> rstate option) \<Rightarrow> server_env \<Rightarrow> data \<Rightarrow> data \<Rightarrow> data \<Rightarrow> rstate \<Rightarrow> rstate option" where
  "server_respond update e status ty bd s =
     do { (w, r) \<leftarrow> live s;
          s \<leftarrow> (if rq_state r \<noteq> SERVER_REQUEST_CLOSED then
                 do { ws \<leftarrow> http_write_response (se_memory e) status (server_date (se_date e)) ty bd
                              (w, rq_stream r);
                      (w, st) \<leftarrow> (if rq_consumed r > 0 then stream_consume (rq_consumed r) ws
                                  else Some ws);
                      let r = r\<lparr>rq_stream := st, rq_consumed := 0\<rparr>;
                      if rq_event_triggered r then Some (w, Some (r\<lparr>rq_state := SERVER_REQUEST_READ\<rparr>))
                      else do { (w, st) \<leftarrow> stream_flush (w, st);
                                update (w, Some (r\<lparr>rq_stream := st,
                                                   rq_state := SERVER_REQUEST_NEED_MORE_DATA\<rparr>)) } }
               else Some s);
          server_release s }"

definition server_not_found ::
  "(rstate \<Rightarrow> rstate option) \<Rightarrow> server_env \<Rightarrow> rstate \<Rightarrow> rstate option" where
  "server_not_found update e s = server_respond update e (literal ''404 Not Found'') data_null data_null s"

definition server_bad_request :: "server_env \<Rightarrow> rstate \<Rightarrow> rstate option" where
  "server_bad_request e s =
     do { (w, r) \<leftarrow> live s;
          s \<leftarrow> (if rq_state r \<noteq> SERVER_REQUEST_CLOSED then
                 do { ws \<leftarrow> http_write_response (se_memory e) (literal ''400 Bad Request'')
                              (server_date (se_date e)) data_null data_null (w, rq_stream r);
                      (w, st) \<leftarrow> stream_flush ws;
                      server_close (w, Some (r\<lparr>rq_stream := st\<rparr>)) }
               else Some s);
          server_release s }"

text \<open>The dispatch to the handler; \<open>server_ok\<close> is \<open>server_respond\<close> with the status \<open>200 OK\<close>.\<close>

definition run_server_call ::
  "(rstate \<Rightarrow> rstate option) \<Rightarrow> server_env \<Rightarrow> server_call \<Rightarrow> rstate \<Rightarrow> rstate option" where
  "run_server_call update e call s =
     (case call of Server_respond status ty bd \<Rightarrow> server_respond update e (literal status) ty bd s)"

definition dispatch_request ::
  "(rstate \<Rightarrow> rstate option) \<Rightarrow> server_env \<Rightarrow> rstate \<Rightarrow> rstate option" where
  "dispatch_request update e s =
     do { (w, r) \<leftarrow> live s;
          calls \<leftarrow> se_handler e (rq_target r);
          run_all (run_server_call update e) calls s }"

subsection \<open>Reading\<close>

definition server_request_read ::
  "(rstate \<Rightarrow> rstate option) \<Rightarrow> server_env \<Rightarrow> rstate \<Rightarrow> rstate option" where
  "server_request_read update e s =
     do { (w, r) \<leftarrow> live s;
          let inp = st_input (rq_stream r);
          if buf_size inp = 0 then Some (w, Some (r\<lparr>rq_state := SERVER_REQUEST_NEED_MORE_DATA\<rparr>))
          else do { (n, m, t, fs) \<leftarrow> http_read_request_data (buf_cells inp) (buf_size inp) 16;
                    let r = r\<lparr>rq_method := m, rq_target := t, rq_fields := fs\<rparr>;
                    if n = -2 then Some (w, Some (r\<lparr>rq_state := SERVER_REQUEST_NEED_MORE_DATA\<rparr>))
                    else do { (w, r) \<leftarrow> Option.bind (server_hold (w, Some (r\<lparr>rq_state := SERVER_REQUEST_HANDLING\<rparr>))) live;
                              if n = -1 then server_bad_request e (w, Some r)
                              else dispatch_request update e
                                     (w, Some (r\<lparr>rq_consumed := unat (word_of_int n :: size_t)\<rparr>)) } } }"

text \<open>The loop over the state \<open>READ\<close>, with fuel; no fuel left is undefined.\<close>

fun read_loop :: "nat \<Rightarrow> (rstate \<Rightarrow> rstate option) \<Rightarrow> rstate \<Rightarrow> rstate option" where
  "read_loop 0 step s = None"
| "read_loop (Suc n) step s =
     do { (w, r) \<leftarrow> live s;
          if rq_state r = SERVER_REQUEST_READ then Option.bind (step s) (read_loop n step) else Some s }"

definition finish_event :: "rstate \<Rightarrow> rstate option" where
  "finish_event s =
     do { (w, r) \<leftarrow> live s;
          (w, r) \<leftarrow> (if rq_state r \<noteq> SERVER_REQUEST_CLOSED then
                      do { (w, r) \<leftarrow> (if buf_size (st_input (rq_stream r)) > SERVER_BUFFER_CLEANUP_THRESHOLD
                                      then do { (w, st) \<leftarrow> stream_consume (rq_consumed r) (w, rq_stream r);
                                                Some (w, r\<lparr>rq_stream := st, rq_consumed := 0\<rparr>) }
                                      else Some (w, r));
                           (w, st) \<leftarrow> stream_flush (w, rq_stream r);
                           Some (w, r\<lparr>rq_stream := st\<rparr>) }
                    else Some (w, r));
          server_release (w, Some (r\<lparr>rq_event_triggered := False\<rparr>)) }"

primrec server_request_update :: "nat \<Rightarrow> server_env \<Rightarrow> rstate \<Rightarrow> rstate option" where
  "server_request_update 0 e s = None"
| "server_request_update (Suc n) e s =
     do { (w, r) \<leftarrow> live s;
          if rq_state r \<noteq> SERVER_REQUEST_NEED_MORE_DATA \<or> buf_size (st_input (rq_stream r)) = 0 then Some s
          else do { (w, r) \<leftarrow> Option.bind (server_hold s) live;
                    s \<leftarrow> read_loop n (server_request_read (server_request_update n e) e)
                          (w, Some (r\<lparr>rq_event_triggered := True, rq_consumed := 0,
                                      rq_state := SERVER_REQUEST_READ\<rparr>));
                    finish_event s } }"

text \<open>The stream's handler: \<open>STREAM_WRITE\<close> falls under the default, which closes.\<close>

definition server_request_callback ::
  "nat \<Rightarrow> server_env \<Rightarrow> stream_event \<Rightarrow> rstate \<Rightarrow> rstate option" where
  "server_request_callback fuel e ev s =
     (if ev = Stream_Read then server_request_update fuel e s else server_close s)"

text \<open>A descriptor event on the request's stream, through \<open>stream_socket_callback\<close>.\<close>

definition request_event :: "nat \<Rightarrow> server_env \<Rightarrow> descriptor_event \<Rightarrow> rstate \<Rightarrow> rstate option" where
  "request_event fuel e ev s =
     do { (w, r) \<leftarrow> live s;
          (sev, w, st) \<leftarrow> stream_socket_callback (se_memory e) ev (w, rq_stream r);
          let s = (w, Some (r\<lparr>rq_stream := st\<rparr>));
          case sev of None \<Rightarrow> Some s | Some sev \<Rightarrow> server_request_callback fuel e sev s }"

subsection \<open>The server\<close>

text \<open>Requests are identified by their addresses; the list holds the allocated ones.\<close>

record server =
  sv_is_open :: bool
  sv_descriptor :: descriptor
  sv_timer :: descriptor
  sv_requests :: "(nat \<times> server_request) list"
  sv_next :: nat
  sv_date :: string

type_synonym hstate = "char world \<times> server"

definition put_request :: "nat \<Rightarrow> server_request option \<Rightarrow> server \<Rightarrow> server" where
  "put_request i r sv =
     sv\<lparr>sv_requests :=
          (case r of None \<Rightarrow> filter (\<lambda>(j, _). j \<noteq> i) (sv_requests sv)
           | Some r \<Rightarrow> map (\<lambda>(j, r'). (j, if j = i then r else r')) (sv_requests sv))\<rparr>"

definition on_request :: "(rstate \<Rightarrow> rstate option) \<Rightarrow> nat \<Rightarrow> hstate \<Rightarrow> hstate option" where
  "on_request f i ws =
     do { r \<leftarrow> map_of (sv_requests (snd ws)) i;
          (w, r) \<leftarrow> f (fst ws, Some r);
          Some (w, put_request i r (snd ws)) }"

definition call_reactor :: "reactor_call \<Rightarrow> hstate \<Rightarrow> hstate" where
  "call_reactor c ws = ((fst ws)\<lparr>w_calls := w_calls (fst ws) @ [c]\<rparr>, snd ws)"

text \<open>A completed poll on a request's socket, through \<open>descriptor_callback\<close>.\<close>

definition request_poll :: "nat \<Rightarrow> server_env \<Rightarrow> nat \<Rightarrow> u32 \<Rightarrow> hstate \<Rightarrow> hstate option" where
  "request_poll fuel e i =
     descriptor_callback
       (\<lambda>ws. map_option (\<lambda>r. st_desc (rq_stream r)) (map_of (sv_requests (snd ws)) i))
       (\<lambda>ev. on_request (request_event fuel e ev) i) call_reactor"

text \<open>
  \<open>accept4\<close>'s descriptor, whether there is memory for the list item, and \<open>fstat\<close>'s answer. Without
  memory \<open>list_push_back\<close> returns NULL, which is written to.
\<close>

record http_accepted =
  ha_fd :: int
  ha_memory :: bool
  ha_fstat :: "bool option"

definition new_request :: "char stream \<Rightarrow> server_request" where
  "new_request st =
     \<lparr>rq_ref = 1, rq_state = SERVER_REQUEST_NEED_MORE_DATA, rq_event_triggered = False, rq_stream = st,
      rq_method = data_null, rq_target = data_null, rq_fields = [], rq_consumed = 0\<rparr>"

definition server_socket_accept :: "(nat \<Rightarrow> bool) \<Rightarrow> http_accepted \<Rightarrow> hstate \<Rightarrow> hstate option" where
  "server_socket_accept ok a ws =
     (if \<not> ha_memory a then None
      else do { wst \<leftarrow> stream_construct ok (fst ws);
                (w, st) \<leftarrow> stream_open (ha_fstat a) (ha_fd a) STREAM_READ wst;
                Some (w, (snd ws)\<lparr>sv_requests := sv_requests (snd ws) @ [(sv_next (snd ws), new_request st)],
                                  sv_next := Suc (sv_next (snd ws))\<rparr>) })"

fun http_accept_loop ::
  "(nat \<Rightarrow> bool) \<Rightarrow> nat \<Rightarrow> http_accepted list \<Rightarrow> hstate \<Rightarrow> (http_accepted list \<times> hstate) option" where
  "http_accept_loop ok 0 script ws = Some (script, ws)"
| "http_accept_loop ok (Suc n) [] ws = Some ([], ws)"
| "http_accept_loop ok (Suc n) (a # script) ws =
     Option.bind (server_socket_accept ok a ws) (http_accept_loop ok n script)"

definition server_socket_descriptor_callback ::
  "(nat \<Rightarrow> bool) \<Rightarrow> http_accepted list \<Rightarrow> hstate \<Rightarrow> (http_accepted list \<times> hstate) option" where
  "server_socket_descriptor_callback ok script ws = http_accept_loop ok 32 script ws"

definition on_timer ::
  "(reactor_call list \<times> descriptor \<Rightarrow> reactor_call list \<times> descriptor) \<Rightarrow> hstate \<Rightarrow> hstate" where
  "on_timer f ws =
     (case f (w_calls (fst ws), sv_timer (snd ws)) of
        (c, d) \<Rightarrow> ((fst ws)\<lparr>w_calls := c\<rparr>, (snd ws)\<lparr>sv_timer := d\<rparr>))"

definition on_server_descriptor ::
  "(reactor_call list \<times> descriptor \<Rightarrow> reactor_call list \<times> descriptor) \<Rightarrow> hstate \<Rightarrow> hstate" where
  "on_server_descriptor f ws =
     (case f (w_calls (fst ws), sv_descriptor (snd ws)) of
        (c, d) \<Rightarrow> ((fst ws)\<lparr>w_calls := c\<rparr>, (snd ws)\<lparr>sv_descriptor := d\<rparr>))"

text \<open>
  \<open>timer_set\<close> creates the timer's descriptor on its first use; \<open>tfd\<close> is what \<open>timerfd_create\<close>
  returns, and setting the time is asserted to succeed.
\<close>

definition timer_set :: "int \<Rightarrow> hstate \<Rightarrow> hstate option" where
  "timer_set tfd ws =
     (if d_fd (sv_timer (snd ws)) = -1 then
        (if tfd = -1 then None else Some (on_timer (descriptor_open tfd DESCRIPTOR_READ) ws))
      else Some ws)"

definition timer_clear :: "hstate \<Rightarrow> hstate" where
  "timer_clear ws = on_timer descriptor_close ws"

text \<open>
  \<open>timer_callback\<close> sums up the expirations that its reads give until \<open>EAGAIN\<close> and asserts that
  there was one; then the server's date is brought up to date.
\<close>

definition timer_expired :: "nat list \<Rightarrow> tm \<Rightarrow> hstate \<Rightarrow> hstate option" where
  "timer_expired expirations t ws =
     (if sum_list expirations mod 2 ^ 64 = 0 then None
      else map_option (\<lambda>m. (fst ws, (snd ws)\<lparr>sv_date := m\<rparr>)) (server_date_update t (sv_date (snd ws))))"

definition zero_server :: "nat \<Rightarrow> string \<Rightarrow> server" where
  "zero_server i m =
     \<lparr>sv_is_open = False, sv_descriptor = \<lparr>d_fd = 0, d_mask = 0\<rparr>, sv_timer = \<lparr>d_fd = 0, d_mask = 0\<rparr>,
      sv_requests = [], sv_next = i, sv_date = m\<rparr>"

definition server_construct :: "tm \<Rightarrow> nat \<Rightarrow> string \<Rightarrow> server option" where
  "server_construct t i m =
     (let sv = zero_server i m; sv = sv\<lparr>sv_timer := descriptor_construct (sv_timer sv)\<rparr>
      in map_option (\<lambda>m. sv\<lparr>sv_date := m\<rparr>) (server_date_update t m))"

definition server_open :: "int \<Rightarrow> int \<Rightarrow> hstate \<Rightarrow> hstate option" where
  "server_open tfd fd ws =
     do { (w, sv) \<leftarrow> timer_set tfd ws;
          (case on_server_descriptor (\<lambda>(c, d). descriptor_open fd DESCRIPTOR_READ (c, descriptor_construct d)) (w, sv) of
             (w, sv) \<Rightarrow> Some (w, sv\<lparr>sv_is_open := True\<rparr>)) }"

fun release_all :: "nat list \<Rightarrow> hstate \<Rightarrow> hstate option" where
  "release_all [] ws = Some ws"
| "release_all (i # is) ws = Option.bind (on_request server_release i ws) (release_all is)"

definition server_shutdown :: "hstate \<Rightarrow> hstate option" where
  "server_shutdown ws =
     do { ws \<leftarrow> release_all (map fst (sv_requests (snd ws))) ws;
          (case timer_clear ws of (w, sv) \<Rightarrow>
             Some (if sv_is_open sv
                   then on_server_descriptor descriptor_destruct (w, sv\<lparr>sv_is_open := False\<rparr>)
                   else (w, sv))) }"

definition server_destruct :: "hstate \<Rightarrow> hstate option" where
  "server_destruct ws = map_option timer_clear (server_shutdown ws)"

end
