(* ===== verification/Http_Serving.thy ===== *)
theory Http_Serving
  imports Http_Connection
begin

text \<open>
  What an HTTP connection does with the bytes of its peer: the refinement of the request loop to the
  drain of the framing specification, and the properties that follow for requests, malformed bytes,
  slow peers, accepting and shutting down.
\<close>

subsection \<open>The date string\<close>

lemma date_update_run:
  assumes "tm_ok t" and "length m = 30"
  shows "server_date_update t m = Some (imf_date t @ [NUL])"
proof -
  let ?d = "name_of day_names (tm_wday t)" and ?m = "name_of month_names (tm_mon t)"
  have i: "tm_wday t < 7" "tm_mon t < 12" using assms(1) by (auto simp: tm_ok_def)
  then have l: "length ?d = 3" "length ?m = 3"
    by (auto intro!: name_of_length simp: day_names_def month_names_def)
  have n: "day_names ! tm_wday t = ?d" "month_names ! tm_mon t = ?m"
    using i by (simp_all add: name_of_def day_names_def month_names_def)
  let ?rest = "'' '' @ dec (tm_year t + 1900) @ '' '' @ pad2 (tm_hour t) @ '':'' @
      pad2 (tm_min t) @ '':'' @ pad2 (tm_sec t) @ '' GMT''"
  have tmpl: "date_template t = ''---'' @ '', '' @ pad2 (tm_mday t) @ '' '' @ ''---'' @ ?rest"
    by (simp add: date_template_def)
  have date: "imf_date t = ?d @ '', '' @ pad2 (tm_mday t) @ '' '' @ ?m @ ?rest"
    by (simp add: imf_date_def)
  have "length (date_template t) = length (imf_date t)" by (simp only: tmpl date length_append l) simp
  then have len: "length (date_template t) = 29" by (simp add: imf_date_length [OF assms(1)])
  obtain a b c where d: "?d = [a, b, c]" using l(1) by (auto simp: numeral_3_eq_3 length_Suc_conv)
  obtain x y z where mo: "?m = [x, y, z]" using l(2) by (auto simp: numeral_3_eq_3 length_Suc_conv)
  obtain u v where p: "pad2 (tm_mday t) = [u, v]" by (simp add: pad2_def)
  have "write_at 0 (date_template t @ [NUL]) m = Some (date_template t @ [NUL])"
    using assms(2) len by (simp add: write_at_def)
  moreover have "write_at 0 ?d (date_template t @ [NUL]) =
      Some (?d @ '', '' @ pad2 (tm_mday t) @ '' '' @ ''---'' @ ?rest @ [NUL])"
    by (simp add: tmpl d write_at_def)
  moreover have "write_at 8 ?m (?d @ '', '' @ pad2 (tm_mday t) @ '' '' @ ''---'' @ ?rest @ [NUL]) =
      Some (imf_date t @ [NUL])"
    by (simp add: date d mo p write_at_def)
  ultimately show ?thesis
    using i len by (simp add: server_date_update_def n)
qed

subsection \<open>The operations on a request\<close>

text \<open>The request lives, in this state, with these counts, and its stream carries these bytes.\<close>

definition request_at ::
  "int \<Rightarrow> server_state \<Rightarrow> nat \<Rightarrow> bool \<Rightarrow> nat \<Rightarrow> rstate \<Rightarrow> string \<Rightarrow> string \<Rightarrow> bool" where
  "request_at fd q n trig c s ins outs \<longleftrightarrow>
     (\<exists>w r. s = (w, Some r) \<and> rq_state r = q \<and> rq_ref r = n \<and> rq_event_triggered r = trig \<and>
        rq_consumed r = c \<and> stream_view fd (w, rq_stream r) ins outs)"

lemma request_atI:
  "rq_state r = q \<Longrightarrow> rq_ref r = n \<Longrightarrow> rq_event_triggered r = trig \<Longrightarrow> rq_consumed r = c \<Longrightarrow>
     stream_view fd (w, rq_stream r) ins outs \<Longrightarrow> request_at fd q n trig c (w, Some r) ins outs"
  by (auto simp: request_at_def)

text \<open>The surroundings of a running server.\<close>

definition env_ok :: "server_env \<Rightarrow> string \<Rightarrow> bool" where
  "env_ok e date \<longleftrightarrow>
     se_memory e = (\<lambda>_. True) \<and> length date = 29 \<and> se_date e = date @ [NUL]"

lemma server_date_text: "env_ok e date \<Longrightarrow> is_text (server_date (se_date e)) date"
  using data_text_construct [of 29 "date @ [NUL]"] by (simp add: env_ok_def is_text_def server_date_def)

text \<open>The handler answers the request \<open>q\<close> at once, with this text on the wire.\<close>

definition answers :: "server_env \<Rightarrow> string \<Rightarrow> phr_request \<Rightarrow> string \<Rightarrow> bool" where
  "answers e date q t \<longleftrightarrow>
     (\<exists>status ty bd ty' bd'. se_handler e (text_data (q_path q)) = Some [Server_respond status ty bd] \<and>
        length status < 2 ^ 32 \<and> is_text ty ty' \<and> is_text bd bd' \<and>
        t = response_text status date ty' bd')"

lemma hold_run: "n + 1 < 2 ^ 64 \<Longrightarrow> request_at fd q n trig c s ins outs \<Longrightarrow>
    \<exists>s'. server_hold s = Some s' \<and> request_at fd q (n + 1) trig c s' ins outs"
  by (auto simp: request_at_def server_hold_def live_def size_add_small)

lemma size_add_pred: "0 < n \<Longrightarrow> n < 2 ^ 64 \<Longrightarrow> size_add n (2 ^ 64 - 1) = n - 1"
proof -
  assume n: "0 < n" "n < 2 ^ 64"
  then have "n + (2 ^ 64 - 1) = (n - 1) + 2 ^ 64" by simp
  then show ?thesis using n unfolding size_add_def by (simp only: mod_add_self2) simp
qed

lemma release_run:
  assumes "request_at fd q n trig c s ins outs" and "1 < n" and "n < 2 ^ 64"
  shows "\<exists>s'. server_release s = Some s' \<and> request_at fd q (n - 1) trig c s' ins outs"
  using assms size_add_pred [of n]
  by (auto simp: request_at_def server_release_def live_def Let_def)

lemma respond_run:
  assumes "request_at fd q n True c s ins outs" and "q \<noteq> SERVER_REQUEST_CLOSED" and "1 < n" and "n < 2 ^ 64"
    and "env_ok e date" and "length status < 2 ^ 32" and "is_text ty t" and "is_text bd b"
    and "length outs + length (response_text status date t b) \<le> 2 ^ 62"
  shows "\<exists>s'. server_respond update e (literal status) ty bd s = Some s' \<and>
    request_at fd SERVER_REQUEST_READ (n - 1) True 0 s' (drop c ins) (outs @ response_text status date t b)"
proof -
  obtain w r where s: "s = (w, Some r)" "rq_state r = q" "rq_ref r = n" "rq_event_triggered r"
    "rq_consumed r = c" and v: "stream_view fd (w, rq_stream r) ins outs"
    using assms(1) by (auto simp: request_at_def)
  have date: "length date = 29" "se_memory e = (\<lambda>_. True)" using assms(5) by (auto simp: env_ok_def)
  obtain ws1 where ws1: "http_write_response (\<lambda>_. True) (literal status) (server_date (se_date e)) ty bd
      (w, rq_stream r) = Some ws1" "stream_view fd ws1 ins (outs @ response_text status date t b)"
    using write_response_run [OF v literal_text [OF assms(6)] server_date_text [OF assms(5)] date(1)
        assms(7-9)] by blast
  obtain ws2 where ws2: "(if c > 0 then stream_consume c ws1 else Some ws1) = Some ws2"
    "stream_view fd ws2 (drop c ins) (outs @ response_text status date t b)"
    using consume_run [OF ws1(2), of c] ws1(2) by (cases "c = 0") auto
  obtain w2 st2 where w2: "ws2 = (w2, st2)" by (cases ws2)
  have "server_release (w2, Some (r\<lparr>rq_stream := st2, rq_consumed := 0, rq_state := SERVER_REQUEST_READ\<rparr>)) =
      Some (w2, Some (r\<lparr>rq_stream := st2, rq_consumed := 0, rq_state := SERVER_REQUEST_READ, rq_ref := n - 1\<rparr>))"
    using assms(3,4) s(3) size_add_pred [of n] by (simp add: server_release_def live_def Let_def)
  then have "server_respond update e (literal status) ty bd s =
      Some (w2, Some (r\<lparr>rq_stream := st2, rq_consumed := 0, rq_state := SERVER_REQUEST_READ, rq_ref := n - 1\<rparr>))"
    using s assms(2) ws1(1) ws2(1) date(2)
    by (cases "c = 0") (simp_all add: server_respond_def live_def w2 Let_def)
  then show ?thesis using ws2(2) s(4) by (auto intro!: request_atI simp: w2)
qed

text \<open>A closed stream keeps what the kernel took.\<close>

definition bad_request_text :: "string \<Rightarrow> string" where
  "bad_request_text date = response_text ''400 Bad Request'' date [] []"

definition closed_request :: "int \<Rightarrow> nat \<Rightarrow> bool \<Rightarrow> rstate \<Rightarrow> string \<Rightarrow> bool" where
  "closed_request fd n trig s outs \<longleftrightarrow>
     (\<exists>w r calls lost. s = (w, Some r) \<and> rq_state r = SERVER_REQUEST_CLOSED \<and> rq_ref r = n \<and>
        rq_event_triggered r = trig \<and> w_calls w = calls @ [Reactor_Delete fd, Close_Fd fd] \<and>
        \<not> descriptor_is_open (st_desc (rq_stream r)) \<and>
        map Some outs = k_sent (w_sock w fd) @ lost)"

lemma bad_request_run:
  assumes "request_at fd q n trig c s ins outs" and "q \<noteq> SERVER_REQUEST_CLOSED" and "2 < n" and "n < 2 ^ 64"
    and "env_ok e date" and "length outs + length (bad_request_text date) \<le> 2 ^ 62"
  shows "\<exists>s'. server_bad_request e s = Some s' \<and>
    closed_request fd (n - 2) trig s' (outs @ bad_request_text date)"
proof -
  obtain w r where s: "s = (w, Some r)" "rq_state r = q" "rq_ref r = n" "rq_event_triggered r = trig"
    and v: "stream_view fd (w, rq_stream r) ins outs"
    using assms(1) by (auto simp: request_at_def)
  have date: "length date = 29" "se_memory e = (\<lambda>_. True)" using assms(5) by (auto simp: env_ok_def)
  obtain ws1 where ws1: "http_write_response (\<lambda>_. True) (literal ''400 Bad Request'')
      (server_date (se_date e)) data_null data_null (w, rq_stream r) = Some ws1"
    "stream_view fd ws1 ins (outs @ bad_request_text date)"
    using write_response_run [OF v literal_text server_date_text [OF assms(5)] date(1) data_null_text
        data_null_text, of "''400 Bad Request''"] assms(6) by (auto simp: bad_request_text_def)
  obtain w2 st2 where ws2: "stream_flush ws1 = Some (w2, st2)"
    "stream_view fd (w2, st2) ins (outs @ bad_request_text date)"
    using flush_run [OF ws1(2)] by auto
  obtain w3 st3 where close: "stream_close (w2, st2) = (w3, st3)" by (cases "stream_close (w2, st2)")
  have w3: "w_calls w3 = w_calls w2 @ [Reactor_Delete fd, Close_Fd fd]" "w_sock w3 = w_sock w2"
    "\<not> descriptor_is_open (st_desc st3)"
    using close close_run [OF ws2(2)] by (auto simp: Let_def descriptor_is_open_def)
  let ?r = "r\<lparr>rq_stream := st3, rq_state := SERVER_REQUEST_CLOSED\<rparr>"
  have "server_bad_request e s = Some (w3, Some (?r\<lparr>rq_ref := n - 2\<rparr>))"
    using s assms(2-4) ws1(1) ws2(1) date(2) close size_add_pred [of n] size_add_pred [of "n - 1"]
    by (simp add: server_bad_request_def server_close_def server_release_def live_def Let_def
        numeral_2_eq_2)
  moreover have "\<exists>lost. map Some (outs @ bad_request_text date) = k_sent (w_sock w3 fd) @ lost"
    using ws2(2) w3(2) unfolding stream_view_def by (metis fst_conv)
  ultimately show ?thesis using s(4) w3 by (auto simp: closed_request_def)
qed

subsection \<open>The request loop is the drain\<close>

lemma read_parses:
  assumes "stream_view fd (w, st) ins outs" and "clean ins" and "length ins < 2 ^ 31"
  shows "http_read_request_data (buf_cells (st_input st)) (buf_size (st_input st)) 16 =
    Some (case parse_http 16 ins of
            Need_more \<Rightarrow> (-2, data_null, data_null, [])
          | Malformed \<Rightarrow> (-1, data_null, data_null, [])
          | Packet n q \<Rightarrow> (int n, text_data (q_method q), text_data (q_path q), map field_of (q_headers q)))"
proof -
  have h: "holds (st_input st) ins" using assms(1) by (simp add: stream_view_def)
  have "http_read_request_data (map Some ins @ drop (length ins) (buf_cells (st_input st))) (length ins) 16 =
    Some (case parse_http 16 ins of
            Need_more \<Rightarrow> (-2, data_null, data_null, [])
          | Malformed \<Rightarrow> (-1, data_null, data_null, [])
          | Packet n q \<Rightarrow> (int n, text_data (q_method q), text_data (q_path q), map field_of (q_headers q)))"
    using phr_parse_request_clean [OF assms(2,3)]
    by (simp add: http_read_request_data_def split: parsed.splits)
  then show ?thesis using cells_split [OF h] holdsD(3) [OF h] by simp
qed

lemma request_at_view:
  assumes "request_at fd q n trig c s ins outs"
  obtains w r where "s = (w, Some r)" "rq_state r = q" "rq_ref r = n" "rq_event_triggered r = trig"
    "rq_consumed r = c" "stream_view fd (w, rq_stream r) ins outs"
    "buf_size (st_input (rq_stream r)) = length ins"
proof -
  obtain w r where s: "s = (w, Some r)" "rq_state r = q" "rq_ref r = n" "rq_event_triggered r = trig"
    "rq_consumed r = c" "stream_view fd (w, rq_stream r) ins outs"
    using assms by (auto simp: request_at_def)
  moreover have "buf_size (st_input (rq_stream r)) = length ins"
    using s(6) holdsD(3) by (auto simp: stream_view_def)
  ultimately show ?thesis by (rule that)
qed

lemma parse_http_empty: "parse_http m [] = Need_more"
  using request_parser.packet_bounds [of m "[]"] request_parser.malformed_stable [of m "[]"]
  by (intro parse_http_waits) (simp add: waits_def parse_request_def skip_empty_line_def phr_bind_def
      check_eof_def cur_def)

lemma read_waits:
  assumes "request_at fd q n trig c s ins outs" and "clean ins" and "length ins < 2 ^ 31"
    and "parse_http 16 ins = Need_more"
  shows "\<exists>s'. server_request_read update e s = Some s' \<and>
    request_at fd SERVER_REQUEST_NEED_MORE_DATA n trig c s' ins outs"
  using assms(1)
proof (rule request_at_view)
  fix w r
  assume r: "s = (w, Some r)" "rq_state r = q" "rq_ref r = n" "rq_event_triggered r = trig"
    "rq_consumed r = c" "stream_view fd (w, rq_stream r) ins outs"
    "buf_size (st_input (rq_stream r)) = length ins"
  show ?thesis
    using r read_parses [OF r(6) assms(2,3)] assms(4)
    by (cases "ins = []") (auto simp: server_request_read_def live_def Let_def intro!: request_atI)
qed

lemma read_malformed:
  assumes "request_at fd q n trig c s ins outs" and "clean ins" and "length ins < 2 ^ 31"
    and "parse_http 16 ins = Malformed" and "1 < n" and "n + 1 < 2 ^ 64"
    and "env_ok e date" and "length outs + length (bad_request_text date) \<le> 2 ^ 62"
  shows "\<exists>s'. server_request_read update e s = Some s' \<and>
    closed_request fd (n - 1) trig s' (outs @ bad_request_text date)"
  using assms(1)
proof (rule request_at_view)
  fix w r
  assume r: "s = (w, Some r)" "rq_state r = q" "rq_ref r = n" "rq_event_triggered r = trig"
    "rq_consumed r = c" "stream_view fd (w, rq_stream r) ins outs"
    "buf_size (st_input (rq_stream r)) = length ins"
  have ne: "ins \<noteq> []" using assms(4) parse_http_empty by auto
  let ?r = "r\<lparr>rq_method := data_null, rq_target := data_null, rq_fields := [],
      rq_state := SERVER_REQUEST_HANDLING\<rparr>"
  have "request_at fd SERVER_REQUEST_HANDLING (n + 1) trig c (w, Some (?r\<lparr>rq_ref := n + 1\<rparr>)) ins outs"
    using r by (intro request_atI) simp_all
  then obtain s' where s': "server_bad_request e (w, Some (?r\<lparr>rq_ref := n + 1\<rparr>)) = Some s'"
    "closed_request fd (n - 1) trig s' (outs @ bad_request_text date)"
    using bad_request_run [where n = "n + 1" and e = e and date = date] assms(5-8) by fastforce
  have "server_hold (w, Some ?r) = Some (w, Some (?r\<lparr>rq_ref := n + 1\<rparr>))"
    using r(3) assms(6) by (simp add: server_hold_def live_def size_add_small)
  then show ?thesis
    using r(1,7) ne read_parses [OF r(6) assms(2,3)] assms(4) s'
    by (simp add: server_request_read_def live_def Let_def)
qed

lemma read_answers:
  assumes "request_at fd st n True c s ins outs" and "clean ins" and "length ins < 2 ^ 31"
    and "parse_http 16 ins = Packet k q" and "0 < n" and "n + 1 < 2 ^ 64"
    and "env_ok e date" and "answers e date q t" and "length outs + length t \<le> 2 ^ 62"
  shows "\<exists>s'. server_request_read update e s = Some s' \<and>
    request_at fd SERVER_REQUEST_READ n True 0 s' (drop k ins) (outs @ t)"
  using assms(1)
proof (rule request_at_view)
  fix w r
  assume r: "s = (w, Some r)" "rq_state r = st" "rq_ref r = n" "rq_event_triggered r = True"
    "rq_consumed r = c" "stream_view fd (w, rq_stream r) ins outs"
    "buf_size (st_input (rq_stream r)) = length ins"
  have k: "0 < k" "k \<le> length ins" using request_parser.packet_bounds [OF assms(4)] by auto
  obtain status ty bd ty' bd' where h: "se_handler e (text_data (q_path q)) = Some [Server_respond status ty bd]"
    "length status < 2 ^ 32" "is_text ty ty'" "is_text bd bd'" "t = response_text status date ty' bd'"
    using assms(8) by (auto simp: answers_def)
  let ?r = "r\<lparr>rq_method := text_data (q_method q), rq_target := text_data (q_path q),
      rq_fields := map field_of (q_headers q), rq_state := SERVER_REQUEST_HANDLING\<rparr>"
  let ?r' = "?r\<lparr>rq_ref := n + 1, rq_consumed := k\<rparr>"
  have "request_at fd SERVER_REQUEST_HANDLING (n + 1) True k (w, Some ?r') ins outs"
    using r by (intro request_atI) simp_all
  then obtain s' where s': "server_respond update e (literal status) ty bd (w, Some ?r') = Some s'"
    "request_at fd SERVER_REQUEST_READ n True 0 s' (drop k ins) (outs @ t)"
    using respond_run [where n = "n + 1" and e = e and date = date and update = update, OF _ _ _ _ assms(7) h(2-4)]
      assms(5,6,9) h(5) by fastforce
  have hold: "server_hold (w, Some ?r) = Some (w, Some (?r\<lparr>rq_ref := n + 1\<rparr>))"
    using r(3) assms(6) by (simp add: server_hold_def live_def size_add_small)
  have u: "unat (word_of_nat k :: size_t) = k" using k assms(3) by (intro unat_size_of_nat) simp
  have "server_request_read update e s = dispatch_request update e (w, Some ?r')"
    using r(1,7) k read_parses [OF r(6) assms(2,3)] assms(4) hold u
    by (auto simp: server_request_read_def live_def Let_def)
  then show ?thesis
    using s' h(1) by (simp add: dispatch_request_def live_def run_server_call_def)
qed

text \<open>The loop, from a \<open>READ\<close> state with the reference of the running event.\<close>

lemma loop_refines:
  assumes "request_at fd SERVER_REQUEST_READ 2 True 0 s ins outs" and "clean ins" and "length ins < 2 ^ 31"
    and "drain (parse_http 16) ins = (qs, rest, bad)" and "env_ok e date"
    and "list_all2 (answers e date) qs ts" and "length qs + 2 \<le> fuel"
    and "length outs + length (concat ts) + length (bad_request_text date) \<le> 2 ^ 62"
  shows "\<exists>s'. read_loop fuel (server_request_read update e) s = Some s' \<and>
    (if bad then closed_request fd 1 True s' (outs @ concat ts @ bad_request_text date)
     else request_at fd SERVER_REQUEST_NEED_MORE_DATA 2 True 0 s' rest (outs @ concat ts))"
  using assms
proof (induction ins arbitrary: s outs qs ts fuel rule: measure_induct_rule [of length])
  case (less ins)
  obtain f where fuel: "fuel = Suc (Suc f)" using less.prems(7) by (metis add_2_eq_Suc' le_Suc_ex add_Suc)
  obtain w r where s: "s = (w, Some r)" "rq_state r = SERVER_REQUEST_READ"
    using less.prems(1) by (auto simp: request_at_def)
  have step: "read_loop fuel (server_request_read update e) s =
      Option.bind (server_request_read update e s) (read_loop (Suc f) (server_request_read update e))"
    using s by (simp add: fuel live_def)
  have stop: "read_loop (Suc f) step (w, Some r) = Some (w, Some r)"
    if "rq_state r \<noteq> SERVER_REQUEST_READ" for w r step
    using that by (simp add: live_def)
  show ?case
  proof (cases "parse_http 16 ins")
    case Need_more
    then have d: "qs = []" "rest = ins" "\<not> bad" using less.prems(4) request_parser.drain_need by auto
    obtain s' where s': "server_request_read update e s = Some s'"
      "request_at fd SERVER_REQUEST_NEED_MORE_DATA 2 True 0 s' ins outs"
      using read_waits [OF less.prems(1-3) Need_more] by blast
    then show ?thesis using step stop d less.prems(6) by (auto simp: request_at_def)
  next
    case Malformed
    then have d: "qs = []" "bad" using less.prems(4) request_parser.drain_malformed by auto
    obtain s' where s': "server_request_read update e s = Some s'"
      "closed_request fd 1 True s' (outs @ bad_request_text date)"
      using read_malformed [OF less.prems(1-3) Malformed _ _ less.prems(5)] less.prems(6,8) d by fastforce
    then show ?thesis using step stop d less.prems(6) by (auto simp: closed_request_def)
  next
    case (Packet k q)
    obtain qs' where qs: "qs = q # qs'" "drain (parse_http 16) (drop k ins) = (qs', rest, bad)"
      using less.prems(4) request_parser.drain_packet [OF Packet] by (auto split: prod.splits)
    obtain t ts' where ts: "ts = t # ts'" "answers e date q t" "list_all2 (answers e date) qs' ts'"
      using less.prems(6) by (auto simp: qs(1) list_all2_Cons1)
    have k: "0 < k" "k \<le> length ins" using request_parser.packet_bounds [OF Packet] by auto
    obtain s1 where s1: "server_request_read update e s = Some s1"
      "request_at fd SERVER_REQUEST_READ 2 True 0 s1 (drop k ins) (outs @ t)"
      using read_answers [OF less.prems(1-3) Packet _ _ less.prems(5) ts(2)] less.prems(8) ts(1) by fastforce
    have "clean (drop k ins)"
      using less.prems(2) by (cases "k < length ins") (auto simp: clean_def)
    then have "\<exists>s'. read_loop (Suc f) (server_request_read update e) s1 = Some s' \<and>
      (if bad then closed_request fd 1 True s' ((outs @ t) @ concat ts' @ bad_request_text date)
       else request_at fd SERVER_REQUEST_NEED_MORE_DATA 2 True 0 s' rest ((outs @ t) @ concat ts'))"
      using less.prems(3,7,8) k fuel qs ts
      by (intro less.IH [OF _ s1(2) _ _ qs(2) less.prems(5) ts(3)]) simp_all
    then obtain s' where "read_loop (Suc f) (server_request_read update e) s1 = Some s'"
      "if bad then closed_request fd 1 True s' (outs @ concat ts @ bad_request_text date)
       else request_at fd SERVER_REQUEST_NEED_MORE_DATA 2 True 0 s' rest (outs @ concat ts)"
      by (cases bad) (auto simp: ts(1) simp del: read_loop.simps)
    then show ?thesis using step s1(1) by (intro exI [of _ s']) (simp del: read_loop.simps)
  qed
qed

declare read_loop.simps [simp del]

subsection \<open>A whole event\<close>

text \<open>The last release: the request is gone, and what the kernel took stays with the socket.\<close>

definition freed_request :: "int \<Rightarrow> rstate \<Rightarrow> string \<Rightarrow> bool" where
  "freed_request fd s outs \<longleftrightarrow>
     snd s = None \<and> (\<exists>calls. w_calls (fst s) = calls @ [Reactor_Delete fd, Close_Fd fd]) \<and>
     (\<exists>lost. map Some outs = k_sent (w_sock (fst s) fd) @ lost)"

lemma destruct_closed:
  "\<not> descriptor_is_open (st_desc st) \<Longrightarrow>
     w_calls (fst (stream_destruct (w, st))) = w_calls w \<and> w_sock (fst (stream_destruct (w, st))) = w_sock w"
  by (simp add: stream_destruct_def stream_close_def buffer_destruct_def buffer_clear_def on_desc_def
      descriptor_destruct_def descriptor_close_def)

lemma finish_run:
  assumes "request_at fd SERVER_REQUEST_NEED_MORE_DATA 2 True 0 s ins outs"
  shows "\<exists>s'. finish_event s = Some s' \<and>
    request_at fd SERVER_REQUEST_NEED_MORE_DATA 1 False 0 s' ins outs"
proof -
  obtain w r where s: "s = (w, Some r)" "rq_state r = SERVER_REQUEST_NEED_MORE_DATA" "rq_ref r = 2"
    "rq_consumed r = 0" and v: "stream_view fd (w, rq_stream r) ins outs"
    using assms by (auto simp: request_at_def)
  obtain w1 st1 where c: "stream_consume 0 (w, rq_stream r) = Some (w1, st1)"
    "stream_view fd (w1, st1) ins outs"
    using consume_run [OF v, of 0] by auto
  obtain w2 st2 where f: "stream_flush (w, rq_stream r) = Some (w2, st2)" "stream_view fd (w2, st2) ins outs"
    using flush_run [OF v] by auto
  obtain w3 st3 where g: "stream_flush (w1, st1) = Some (w3, st3)" "stream_view fd (w3, st3) ins outs"
    using flush_run [OF c(2)] by auto
  have "size_add 2 (2 ^ 64 - 1) = 1" using size_add_pred [of 2] by simp
  then show ?thesis
    using s c(1) f g
    by (cases "buf_size (st_input (rq_stream r)) > SERVER_BUFFER_CLEANUP_THRESHOLD")
      (auto simp: finish_event_def live_def server_release_def Let_def intro!: request_atI)
qed

lemma finish_closed:
  assumes "closed_request fd 1 True s outs"
  shows "\<exists>s'. finish_event s = Some s' \<and> freed_request fd s' outs"
proof -
  obtain w r calls lost where s: "s = (w, Some r)" "rq_state r = SERVER_REQUEST_CLOSED" "rq_ref r = 1"
    "w_calls w = calls @ [Reactor_Delete fd, Close_Fd fd]" "\<not> descriptor_is_open (st_desc (rq_stream r))"
    "map Some outs = k_sent (w_sock w fd) @ lost"
    using assms by (auto simp: closed_request_def)
  have "size_add 1 (2 ^ 64 - 1) = 0" using size_add_pred [of 1] by simp
  then show ?thesis
    using s destruct_closed [OF s(5), of w]
    by (auto simp: finish_event_def live_def server_release_def Let_def freed_request_def)
qed

lemma update_refines:
  assumes "request_at fd SERVER_REQUEST_NEED_MORE_DATA 1 False c s ins outs" and "clean ins"
    and "length ins < 2 ^ 31" and "drain (parse_http 16) ins = (qs, rest, bad)" and "env_ok e date"
    and "list_all2 (answers e date) qs ts" and "length qs + 3 \<le> fuel" and "ins \<noteq> []"
    and "length outs + length (concat ts) + length (bad_request_text date) \<le> 2 ^ 62"
  shows "\<exists>s'. server_request_update fuel e s = Some s' \<and>
    (if bad then freed_request fd s' (outs @ concat ts @ bad_request_text date)
     else request_at fd SERVER_REQUEST_NEED_MORE_DATA 1 False 0 s' rest (outs @ concat ts))"
  using assms(1)
proof (rule request_at_view)
  fix w r
  assume r: "s = (w, Some r)" "rq_state r = SERVER_REQUEST_NEED_MORE_DATA" "rq_ref r = 1"
    "rq_event_triggered r = False" "rq_consumed r = c" "stream_view fd (w, rq_stream r) ins outs"
    "buf_size (st_input (rq_stream r)) = length ins"
  obtain f where fuel: "fuel = Suc f" "length qs + 2 \<le> f" using assms(7) by (cases fuel) auto
  let ?r = "r\<lparr>rq_ref := 2, rq_event_triggered := True, rq_consumed := 0, rq_state := SERVER_REQUEST_READ\<rparr>"
  have "request_at fd SERVER_REQUEST_READ 2 True 0 (w, Some ?r) ins outs"
    using r by (intro request_atI) simp_all
  then obtain s1 where s1: "read_loop f (server_request_read (server_request_update f e) e) (w, Some ?r) = Some s1"
    "if bad then closed_request fd 1 True s1 (outs @ concat ts @ bad_request_text date)
     else request_at fd SERVER_REQUEST_NEED_MORE_DATA 2 True 0 s1 rest (outs @ concat ts)"
    using loop_refines [OF _ assms(2-6) fuel(2) assms(9)] by blast
  have "size_add 1 1 = 2" by (simp add: size_add_def)
  then have "server_request_update fuel e s = finish_event s1"
    using r(1-3,7) assms(8) s1(1) by (simp add: fuel(1) live_def server_hold_def)
  then show ?thesis
    using s1(2) finish_run finish_closed by (auto split: if_splits)
qed

subsection \<open>Arrival after arrival\<close>

text \<open>The bytes \<open>chunk\<close> arrive on the socket, and its descriptor becomes readable.\<close>

definition http_arrive :: "nat \<Rightarrow> server_env \<Rightarrow> string \<Rightarrow> rstate \<Rightarrow> rstate option" where
  "http_arrive fuel e chunk s =
     do { (w, r) \<leftarrow> live s;
          let fd = stream_fd (rq_stream r);
          request_event fuel e Descriptor_Read
            (set_sock fd ((w_sock w fd)\<lparr>k_recv := [Some chunk, None]\<rparr>) w, Some r) }"

lemma arrive_run:
  assumes "request_at fd SERVER_REQUEST_NEED_MORE_DATA 1 False c s ins outs" and "env_ok e date"
    and "chunk \<noteq> []" and "clean chunk" and "length chunk \<le> read_size" and "length ins + length chunk < 2 ^ 31"
    and "drain (parse_http 16) (ins @ chunk) = (qs, rest, bad)" and "list_all2 (answers e date) qs ts"
    and "length qs + 3 \<le> fuel"
    and "length outs + length (concat ts) + length (bad_request_text date) \<le> 2 ^ 62"
  shows "\<exists>s'. http_arrive fuel e chunk s = Some s' \<and>
    (if bad then freed_request fd s' (outs @ concat ts @ bad_request_text date)
     else request_at fd SERVER_REQUEST_NEED_MORE_DATA 1 False 0 s' rest (outs @ concat ts))"
proof -
  obtain w r where r: "s = (w, Some r)" "rq_state r = SERVER_REQUEST_NEED_MORE_DATA" "rq_ref r = 1"
    "\<not> rq_event_triggered r" "rq_consumed r = c" and v: "stream_view fd (w, rq_stream r) ins outs"
    using assms(1) by (auto simp: request_at_def)
  let ?w = "set_sock fd ((w_sock w fd)\<lparr>k_recv := [Some chunk, None]\<rparr>) w"
  have fd: "stream_fd (rq_stream r) = fd" using v by (simp add: stream_view_def)
  have "stream_view fd (?w, rq_stream r) ins outs" using v by (simp add: stream_view_recv)
  moreover have "k_recv (w_sock ?w fd) = [Some chunk, None]" by (simp add: set_sock_def)
  moreover have "length ins + length chunk + read_size \<le> 2 ^ 62" using assms(6) by (simp add: read_size_def)
  ultimately obtain w1 st1 where rd: "stream_socket_read (\<lambda>_. True) (?w, rq_stream r) =
      Some (length chunk, w1, st1)" "stream_view fd (w1, st1) (ins @ chunk) outs"
    using read_chunk_run [where chunk = chunk] assms(5) by fastforce
  let ?s = "(w1, Some (r\<lparr>rq_stream := st1\<rparr>))"
  have "request_at fd SERVER_REQUEST_NEED_MORE_DATA 1 False c ?s (ins @ chunk) outs"
    using r rd(2) by (intro request_atI) simp_all
  moreover have "clean (ins @ chunk)" using assms(3,4) by (simp add: clean_def)
  moreover have "http_arrive fuel e chunk s = server_request_update fuel e ?s"
    using r(1) rd(1) assms(2,3) fd
    by (simp add: http_arrive_def live_def request_event_def stream_socket_callback_def Let_def env_ok_def
        server_request_callback_def)
  ultimately show ?thesis
    using update_refines [OF _ _ _ assms(7,2,8,9)] assms(3,6,10) by simp
qed

lemma http_arrivals_run:
  assumes "request_at fd SERVER_REQUEST_NEED_MORE_DATA 1 False c s ins outs" and "env_ok e date"
    and "\<forall>chunk\<in>set chunks. chunk \<noteq> [] \<and> clean chunk \<and> length chunk \<le> read_size"
    and "length ins + length (concat chunks) < 2 ^ 31"
    and "drain (parse_http 16) ins = ([], ins, False)"
    and "drain (parse_http 16) (ins @ concat chunks) = (qs, rest, False)" and "list_all2 (answers e date) qs ts"
    and "length qs + 3 \<le> fuel"
    and "length outs + length (concat ts) + length (bad_request_text date) \<le> 2 ^ 62"
  shows "\<exists>s' c'. run_all (http_arrive fuel e) chunks s = Some s' \<and>
    request_at fd SERVER_REQUEST_NEED_MORE_DATA 1 False c' s' rest (outs @ concat ts)"
  using assms
proof (induction chunks arbitrary: c s ins outs qs ts)
  case Nil
  then show ?case by (auto simp: list_all2_Nil)
next
  case (Cons chunk chunks)
  obtain qs1 rest1 bad1 where d1: "drain (parse_http 16) (ins @ chunk) = (qs1, rest1, bad1)"
    by (cases "drain (parse_http 16) (ins @ chunk)")
  have good: "\<not> bad1"
    using request_parser.drain_good_prefix [of 16 "ins @ chunk" "concat chunks"] Cons.prems(6) d1 by auto
  obtain qs2 where d2: "drain (parse_http 16) (rest1 @ concat chunks) = (qs2, rest, False)" "qs = qs1 @ qs2"
    using request_parser.drain_append [of 16 "ins @ chunk" "concat chunks"] Cons.prems(6) d1 good
    by (auto split: prod.splits)
  obtain ts1 ts2 where ts: "ts = ts1 @ ts2" "list_all2 (answers e date) qs1 ts1"
    "list_all2 (answers e date) qs2 ts2"
    using Cons.prems(7) by (auto simp: d2(2) list_all2_append1)
  obtain s1 where s1: "http_arrive fuel e chunk s = Some s1"
    "request_at fd SERVER_REQUEST_NEED_MORE_DATA 1 False 0 s1 rest1 (outs @ concat ts1)"
    using arrive_run [OF Cons.prems(1,2) _ _ _ _ d1 ts(2), of fuel] Cons.prems(3,4,8,9) good
    by (auto simp: d2(2) ts(1))
  have waits: "drain (parse_http 16) rest1 = ([], rest1, False)"
    using d1 good by (auto intro: request_parser.drain_rest_waits)
  have "length rest1 \<le> length ins + length chunk"
    using drain_length [of "parse_http 16" "ins @ chunk"] d1 by simp
  then have "\<exists>s' c'. run_all (http_arrive fuel e) chunks s1 = Some s' \<and>
      request_at fd SERVER_REQUEST_NEED_MORE_DATA 1 False c' s' rest ((outs @ concat ts1) @ concat ts2)"
    using Cons.prems(3,4,8,9)
    by (intro Cons.IH [OF s1(2) Cons.prems(2) _ _ waits d2(1) ts(3)]) (simp_all add: d2(2) ts(1))
  then show ?case using s1(1) by (simp add: ts(1))
qed

text \<open>Closing an idle connection frees it.\<close>

lemma close_idle:
  assumes "request_at fd q 1 trig c s ins outs" and "q \<noteq> SERVER_REQUEST_CLOSED"
  shows "\<exists>s'. server_close s = Some s' \<and> freed_request fd s' outs \<and>
    w_sock (fst s') = w_sock (fst s)"
proof -
  obtain w r where r: "s = (w, Some r)" "rq_state r = q" "rq_ref r = 1"
    and v: "stream_view fd (w, rq_stream r) ins outs"
    using assms(1) by (auto simp: request_at_def)
  obtain w1 st1 where close: "stream_close (w, rq_stream r) = (w1, st1)"
    by (cases "stream_close (w, rq_stream r)")
  have w1: "w_calls w1 = w_calls w @ [Reactor_Delete fd, Close_Fd fd]" "w_sock w1 = w_sock w"
    "\<not> descriptor_is_open (st_desc st1)"
    using close close_run [OF v] by (auto simp: Let_def descriptor_is_open_def)
  have "size_add 1 (2 ^ 64 - 1) = 0" using size_add_pred [of 1] by simp
  then have "server_close s = Some (fst (stream_destruct (w1, st1)), None)"
    using r assms(2) close by (simp add: server_close_def live_def server_release_def Let_def)
  moreover have "\<exists>lost. map Some outs = k_sent (w_sock w fd) @ lost"
    using v unfolding stream_view_def by (metis fst_conv)
  ultimately show ?thesis
    using destruct_closed [OF w1(3), of w1] w1(1,2) r(1) by (simp add: freed_request_def)
qed

end
