(* ===== verification/Http_Reactor.thy ===== *)
theory Http_Reactor
  imports Http_Serving Reactor_Rounds
begin

text \<open>
  The HTTP server on the reactor: the completions of \<open>core.c\<close> reach the listener, the timer and the
  connections of \<open>server.c\<close> through \<open>descriptor.c\<close>. Between two events a request is idle: it waits for
  data, and only the list refers to it.
\<close>

subsection \<open>An event leaves a request idle, or frees it\<close>

definition idle_request :: "server_request \<Rightarrow> bool" where
  "idle_request r \<longleftrightarrow> rq_state r = SERVER_REQUEST_NEED_MORE_DATA \<and> rq_ref r = 1 \<and> \<not> rq_event_triggered r"

definition idle_or_gone :: "char world \<times> char stream \<Rightarrow> rstate \<Rightarrow> bool" where
  "idle_or_gone ws s \<longleftrightarrow>
     (case snd s of None \<Rightarrow> True | Some r \<Rightarrow> idle_request r \<and> stream_quiet ws (fst s, rq_stream r))"

text \<open>Within an event: the event holds a reference too, and a closed request has lost that of the list.\<close>

definition in_event :: "char world \<times> char stream \<Rightarrow> rstate \<Rightarrow> bool" where
  "in_event ws s \<longleftrightarrow>
     (case snd s of None \<Rightarrow> False
      | Some r \<Rightarrow> rq_event_triggered r \<and>
          (if rq_state r = SERVER_REQUEST_CLOSED then rq_ref r = 1
           else rq_state r \<noteq> SERVER_REQUEST_HANDLING \<and> rq_ref r = 2 \<and> stream_quiet ws (fst s, rq_stream r)))"

text \<open>The handler responds at once, and once.\<close>

definition responds_once :: "server_env \<Rightarrow> bool" where
  "responds_once e \<longleftrightarrow> (\<forall>t calls. se_handler e t = Some calls \<longrightarrow> (\<exists>status ty bd. calls = [Server_respond status ty bd]))"

lemma counts: "size_add 1 1 = 2" "size_add 2 1 = 3" "size_add 3 (2 ^ 64 - 1) = 2" "size_add 2 (2 ^ 64 - 1) = 1"
  "size_add 1 (2 ^ 64 - 1) = 0" "size_add (Suc 0) (Suc 0) = 2" "size_add 2 (Suc 0) = 3"
  "size_add 3 18446744073709551615 = 2" "size_add 2 18446744073709551615 = Suc 0"
  "size_add (Suc 0) 18446744073709551615 = 0"
  by (simp_all add: size_add_def)

lemma quiet_write_response:
  assumes "http_write_response ok status date ty bd ws = Some ws'"
  shows "stream_quiet ws ws'"
proof -
  obtain n push o1 w1 st1 where a: "stream_allocate ok n ws = Some (o1, w1, st1)"
    and w: "write_output push (o1, w1, st1) = Some ws'"
    using assms by (auto simp: http_write_response_def Let_def split: bind_splits)
  have "stream_quiet ws (w1, st1)"
    using a by (auto simp: stream_allocate_def Let_def intro: quiet_on_output)
  moreover have "stream_quiet (w1, st1) ws'"
    using w by (auto simp: write_output_def stream_fd_def intro!: quiet_same)
  ultimately show ?thesis by (rule quiet_trans)
qed

lemma quiet_consume: "stream_consume n ws = Some ws' \<Longrightarrow> stream_quiet ws ws'"
  by (simp add: stream_consume_def quiet_on_input)

lemma respond_in_event:
  assumes "server_respond update e status ty bd (w, Some r) = Some s'"
    and "rq_event_triggered r" and "rq_state r = SERVER_REQUEST_HANDLING" and "rq_ref r = 3"
  shows "in_event (w, rq_stream r) s'"
proof -
  obtain ws1 ws2 where w1: "http_write_response (se_memory e) status (server_date (se_date e)) ty bd (w, rq_stream r) = Some ws1"
    and w2: "(if rq_consumed r > 0 then stream_consume (rq_consumed r) ws1 else Some ws1) = Some ws2"
    and s': "s' = (fst ws2, Some (r\<lparr>rq_stream := snd ws2, rq_consumed := 0, rq_state := SERVER_REQUEST_READ, rq_ref := 2\<rparr>))"
    using assms
    by (auto simp: server_respond_def live_def server_release_def counts Let_def split: bind_splits if_splits)
  have "stream_quiet ws1 ws2" using w2 by (auto intro: quiet_consume split: if_splits)
  then have "stream_quiet (w, rq_stream r) ws2" using quiet_trans [OF quiet_write_response [OF w1]] by blast
  then show ?thesis using assms(2) by (simp add: in_event_def s')
qed

lemma bad_request_in_event:
  assumes "server_bad_request e (w, Some r) = Some s'"
    and "rq_event_triggered r" and "rq_state r = SERVER_REQUEST_HANDLING" and "rq_ref r = 3"
  shows "in_event ws s'"
  using assms
  by (auto simp: server_bad_request_def live_def server_close_def server_release_def counts in_event_def Let_def
      split: bind_splits if_splits prod.splits)

lemma in_event_trans:
  "stream_quiet ws ws1 \<Longrightarrow> in_event ws1 s \<Longrightarrow> in_event ws s"
  by (auto simp: in_event_def intro: quiet_trans split: option.splits if_splits)

lemma read_in_event:
  assumes "server_request_read update e (w, Some r) = Some s'" and "responds_once e"
    and "in_event ws (w, Some r)" and "rq_state r = SERVER_REQUEST_READ"
  shows "in_event ws s'"
proof -
  have r: "rq_event_triggered r" "rq_ref r = 2" "stream_quiet ws (w, rq_stream r)"
    using assms(3,4) by (auto simp: in_event_def)
  show ?thesis
  proof (cases "buf_size (st_input (rq_stream r)) = 0")
    case True
    then show ?thesis
      using assms(1) r by (auto simp: server_request_read_def live_def in_event_def Let_def)
  next
    case False
    obtain n m t fs where p: "http_read_request_data (buf_cells (st_input (rq_stream r))) (buf_size (st_input (rq_stream r))) 16 =
        Some (n, m, t, fs)"
      using assms(1) False by (auto simp: server_request_read_def live_def Let_def split: bind_splits)
    let ?r = "r\<lparr>rq_method := m, rq_target := t, rq_fields := fs, rq_state := SERVER_REQUEST_HANDLING, rq_ref := 3\<rparr>"
    consider "n = -2" | "n = -1" | "n \<noteq> -2" "n \<noteq> -1" by blast
    then show ?thesis
    proof cases
      case 1
      then show ?thesis
        using assms(1) False p r by (auto simp: server_request_read_def live_def in_event_def Let_def)
    next
      case 2
      then have "server_bad_request e (w, Some ?r) = Some s'"
        using assms(1) False p r by (simp add: server_request_read_def live_def server_hold_def counts Let_def)
      then show ?thesis by (rule bad_request_in_event) (use r in simp_all)
    next
      case 3
      let ?q = "?r\<lparr>rq_consumed := unat (word_of_int n :: size_t)\<rparr>"
      have d: "dispatch_request update e (w, Some ?q) = Some s'"
        using assms(1) False p r 3 by (simp add: server_request_read_def live_def server_hold_def counts Let_def)
      then obtain calls where calls: "se_handler e t = Some calls"
        by (auto simp: dispatch_request_def live_def split: bind_splits)
      then obtain status ty bd where "calls = [Server_respond status ty bd]"
        using assms(2) unfolding responds_once_def by blast
      with calls have "se_handler e t = Some [Server_respond status ty bd]" by simp
      then have "server_respond update e (literal status) ty bd (w, Some ?q) = Some s'"
        using d by (auto simp: dispatch_request_def live_def run_server_call_def split: bind_splits)
      then have "in_event (w, rq_stream ?q) s'" by (rule respond_in_event) (use r in simp_all)
      then show ?thesis using in_event_trans [OF r(3)] by simp
    qed
  qed
qed

lemma loop_in_event:
  assumes "read_loop n (server_request_read update e) s = Some s'" and "responds_once e" and "in_event ws s"
  shows "in_event ws s' \<and> rq_state (the (snd s')) \<noteq> SERVER_REQUEST_READ"
  using assms(1,3)
proof (induction n arbitrary: s)
  case 0
  then show ?case by (simp add: read_loop.simps)
next
  case (Suc n)
  obtain w r where s: "s = (w, Some r)" using Suc.prems(2) by (cases s) (auto simp: in_event_def split: option.splits)
  show ?case
  proof (cases "rq_state r = SERVER_REQUEST_READ")
    case True
    then obtain s1 where s1: "server_request_read update e (w, Some r) = Some s1"
      "read_loop n (server_request_read update e) s1 = Some s'"
      using Suc.prems(1) by (auto simp: s read_loop.simps live_def split: bind_splits)
    show ?thesis
      by (rule Suc.IH [OF s1(2)]) (rule read_in_event [OF s1(1) assms(2) _ True], use Suc.prems(2) s in simp)
  next
    case False
    then show ?thesis using Suc.prems by (auto simp: s read_loop.simps live_def)
  qed
qed

lemma finish_in_event:
  assumes "finish_event s = Some s'" and "in_event ws s" and "rq_state (the (snd s)) \<noteq> SERVER_REQUEST_READ"
  shows "idle_or_gone ws s'"
proof -
  obtain w r where s: "s = (w, Some r)" using assms(2) by (cases s) (auto simp: in_event_def split: option.splits)
  show ?thesis
  proof (cases "rq_state r = SERVER_REQUEST_CLOSED")
    case True
    then show ?thesis
      using assms(1,2) s
      by (auto simp: finish_event_def live_def server_release_def in_event_def counts idle_or_gone_def Let_def)
  next
    case False
    then have r: "rq_state r = SERVER_REQUEST_NEED_MORE_DATA" "rq_ref r = 2" "stream_quiet ws (w, rq_stream r)"
      using assms(2,3) s by (cases "rq_state r"; auto simp: in_event_def)+
    have "\<exists>st1 c w1 st2. stream_quiet (w, rq_stream r) (w1, st1) \<and> stream_flush (w1, st1) = Some (fst s', st2) \<and>
        snd s' = Some (r\<lparr>rq_stream := st2, rq_consumed := c, rq_event_triggered := False, rq_ref := 1\<rparr>)"
    proof (cases "buf_size (st_input (rq_stream r)) > SERVER_BUFFER_CLEANUP_THRESHOLD")
      case True
      then obtain w1 st1 w2 st2 where c: "stream_consume (rq_consumed r) (w, rq_stream r) = Some (w1, st1)"
        "stream_flush (w1, st1) = Some (w2, st2)"
        "s' = (w2, Some (r\<lparr>rq_stream := st2, rq_consumed := 0, rq_event_triggered := False, rq_ref := 1\<rparr>))"
        using assms(1) s r(1,2)
        by (auto simp: finish_event_def live_def server_release_def counts Let_def split: bind_splits)
      then show ?thesis using quiet_consume [OF c(1)] by fastforce
    next
      case small: False
      then obtain w2 st2 where c: "stream_flush (w, rq_stream r) = Some (w2, st2)"
        "s' = (w2, Some (r\<lparr>rq_stream := st2, rq_event_triggered := False, rq_ref := 1\<rparr>))"
        using assms(1) s r(1,2)
        by (auto simp: finish_event_def live_def server_release_def counts Let_def split: bind_splits)
      have "r\<lparr>rq_stream := st2, rq_consumed := rq_consumed r, rq_event_triggered := False, rq_ref := 1\<rparr> =
          r\<lparr>rq_stream := st2, rq_event_triggered := False, rq_ref := 1\<rparr>" by simp
      then show ?thesis using c by (metis fst_conv snd_conv quiet_refl)
    qed
    then obtain st1 c w1 st2 where f: "stream_quiet (w, rq_stream r) (w1, st1)" "stream_flush (w1, st1) = Some (fst s', st2)"
      "snd s' = Some (r\<lparr>rq_stream := st2, rq_consumed := c, rq_event_triggered := False, rq_ref := 1\<rparr>)"
      by blast
    have "stream_quiet ws (fst s', st2)"
      using quiet_trans [OF r(3) quiet_trans [OF f(1) quiet_flush [OF f(2)]]] .
    then show ?thesis using f(3) r(1) by (simp add: idle_or_gone_def idle_request_def)
  qed
qed

lemma update_idle:
  assumes "server_request_update fuel e (w, Some r) = Some s'" and "responds_once e" and "idle_request r"
  shows "idle_or_gone (w, rq_stream r) s'"
proof (cases fuel)
  case (Suc n)
  let ?r = "r\<lparr>rq_ref := 2, rq_event_triggered := True, rq_consumed := 0, rq_state := SERVER_REQUEST_READ\<rparr>"
  show ?thesis
  proof (cases "buf_size (st_input (rq_stream r)) = 0")
    case True
    then have "s' = (w, Some r)" using assms(1) by (simp add: Suc live_def)
    then show ?thesis using assms(3) by (simp add: idle_or_gone_def)
  next
    case False
    then obtain s1 where s1: "read_loop n (server_request_read (server_request_update n e) e) (w, Some ?r) = Some s1"
      "finish_event s1 = Some s'"
      using assms(1,3) by (auto simp: Suc live_def server_hold_def idle_request_def counts split: bind_splits)
    have "in_event (w, rq_stream r) (w, Some ?r)" by (simp add: in_event_def)
    from loop_in_event [OF s1(1) assms(2) this] show ?thesis by (intro finish_in_event [OF s1(2)]) simp_all
  qed
qed (use assms(1) in simp)

lemma request_event_idle:
  assumes "request_event fuel e ev (w, Some r) = Some s'" and "responds_once e" and "idle_request r"
  shows "idle_or_gone (w, rq_stream r) s'"
proof -
  obtain sev w1 st1 where cb: "stream_socket_callback (se_memory e) ev (w, rq_stream r) = Some (sev, w1, st1)"
    and rest: "(case sev of None \<Rightarrow> Some (w1, Some (r\<lparr>rq_stream := st1\<rparr>))
      | Some sev \<Rightarrow> server_request_callback fuel e sev (w1, Some (r\<lparr>rq_stream := st1\<rparr>))) = Some s'"
    using assms(1) by (auto simp: request_event_def live_def Let_def split: bind_splits)
  have q: "stream_quiet (w, rq_stream r) (w1, st1)" by (rule quiet_socket_callback [OF cb])
  have idle: "idle_request (r\<lparr>rq_stream := st1\<rparr>)" using assms(3) by (simp add: idle_request_def)
  show ?thesis
  proof (cases sev)
    case None
    then show ?thesis using rest q idle by (auto simp: idle_or_gone_def)
  next
    case (Some sv)
    show ?thesis
    proof (cases "sv = Stream_Read")
      case True
      then have "idle_or_gone (w1, st1) s'"
        using update_idle [OF _ assms(2) idle, of fuel w1 s'] rest Some by (simp add: server_request_callback_def)
      then show ?thesis using quiet_trans [OF q] by (auto simp: idle_or_gone_def split: option.splits)
    next
      case False
      then have "snd s' = None"
        using rest Some idle
        by (auto simp: server_request_callback_def server_close_def live_def server_release_def counts idle_request_def Let_def
            split: prod.splits)
      then show ?thesis by (simp add: idle_or_gone_def)
    qed
  qed
qed

subsection \<open>The server's program\<close>

text \<open>
  Besides the connections that wait in the listener's queue, for every expiration of the timer what its reads
  return and the time it is then.
\<close>

type_synonym hloop = "hstate \<times> http_accepted list list \<times> (nat list \<times> tm) list"

definition accept_event :: "(nat \<Rightarrow> bool) \<Rightarrow> descriptor_event \<Rightarrow> hloop \<Rightarrow> hloop option" where
  "accept_event ok ev s =
     (if ev \<noteq> Descriptor_Read then None
      else map_option (\<lambda>(left, ws). (ws, put_back left (fst (snd s)), snd (snd s)))
             (server_socket_descriptor_callback ok (next_clients (fst (snd s))) (fst s)))"

definition accept_poll :: "(nat \<Rightarrow> bool) \<Rightarrow> u32 \<Rightarrow> hloop \<Rightarrow> hloop option" where
  "accept_poll ok =
     descriptor_callback (\<lambda>s. Some (sv_descriptor (snd (fst s)))) (accept_event ok)
       (\<lambda>c s. (call_reactor c (fst s), snd s))"

text \<open>A timer that was polled without having expired has nothing to read.\<close>

definition timer_event :: "hloop \<Rightarrow> hloop option" where
  "timer_event s =
     (case snd (snd s) of
        [] \<Rightarrow> None
      | (expirations, t) # ts \<Rightarrow>
          map_option (\<lambda>ws. (ws, fst (snd s), ts)) (timer_expired expirations t (fst s)))"

definition timer_poll :: "u32 \<Rightarrow> hloop \<Rightarrow> hloop option" where
  "timer_poll =
     descriptor_callback (\<lambda>s. Some (sv_timer (snd (fst s)))) (\<lambda>_. timer_event)
       (\<lambda>c s. (call_reactor c (fst s), snd s))"

definition request_of_fd :: "int \<Rightarrow> server \<Rightarrow> nat option" where
  "request_of_fd fd sv =
     map_option fst (find (\<lambda>(i, r). stream_fd (rq_stream r) = fd) (sv_requests sv))"

definition no_server_calls :: "hstate \<Rightarrow> hstate" where
  "no_server_calls ws = ((fst ws)\<lparr>w_calls := []\<rparr>, snd ws)"

text \<open>The surroundings of a request at this moment: the date is the one of the last expiration.\<close>

definition env_now :: "(nat \<Rightarrow> bool) \<Rightarrow> (data \<Rightarrow> server_call list option) \<Rightarrow> server \<Rightarrow> server_env" where
  "env_now ok h sv = \<lparr>se_memory = ok, se_date = sv_date sv, se_handler = h\<rparr>"

definition http_step ::
  "(nat \<Rightarrow> bool) \<Rightarrow> (data \<Rightarrow> server_call list option) \<Rightarrow> nat \<Rightarrow> (int, hloop) dispatch" where
  "http_step ok h fuel fd m s =
     (let sv = snd (fst s); s0 = (no_server_calls (fst s), snd s)
      in map_option (\<lambda>s'. (s', w_calls (fst (fst s'))))
        (if fd = d_fd (sv_descriptor sv) then accept_poll ok m s0
         else if fd = d_fd (sv_timer sv) then timer_poll m s0
         else case request_of_fd fd sv of
           None \<Rightarrow> None
         | Some i \<Rightarrow> map_option (\<lambda>ws. (ws, snd s)) (request_poll fuel (env_now ok h sv) i m (fst s0))))"

definition http_requests_ok :: "server \<Rightarrow> bool" where
  "http_requests_ok sv \<longleftrightarrow> distinct (map fst (sv_requests sv)) \<and>
     list_all (\<lambda>(i, r). i < sv_next sv \<and> idle_request r \<and> 0 \<le> stream_fd (rq_stream r)) (sv_requests sv)"

definition hloop_ok :: "hloop \<Rightarrow> bool" where
  "hloop_ok s \<longleftrightarrow> http_requests_ok (snd (fst s)) \<and> list_all (list_all (\<lambda>a. 0 \<le> ha_fd a)) (fst (snd s))"

subsection \<open>A completed poll of a request\<close>

lemma put_request_put [simp]:
  "put_request i (Some r') (put_request i (Some r) sv) = put_request i (Some r') sv"
  by (simp add: put_request_def comp_def case_prod_beta cong: if_cong)

lemma put_request_keys [simp]: "map fst (sv_requests (put_request i (Some r) sv)) = map fst (sv_requests sv)"
  by (simp add: put_request_def comp_def case_prod_beta)

lemma put_request_fields [simp]:
  "sv_descriptor (put_request i r sv) = sv_descriptor sv" "sv_timer (put_request i r sv) = sv_timer sv"
  "sv_next (put_request i r sv) = sv_next sv" "sv_date (put_request i r sv) = sv_date sv"
  "sv_is_open (put_request i r sv) = sv_is_open sv"
  by (simp_all add: put_request_def)

lemma map_of_put_some:
  "map_of (sv_requests sv) i = Some r \<Longrightarrow> map_of (sv_requests (put_request i r' sv)) i = r'"
proof (cases r')
  case None
  have "map_of (filter (\<lambda>(j, _). j \<noteq> i) rs) i = None" for rs :: "(nat \<times> server_request) list"
    by (induction rs) auto
  then show ?thesis using None by (simp add: put_request_def)
next
  case (Some q)
  assume "map_of (sv_requests sv) i = Some r"
  moreover have "map_of rs i = Some r \<Longrightarrow> map_of (map (\<lambda>(j, r'). (j, if j = i then q else r')) rs) i = Some q" for rs
    by (induction rs) (auto split: if_splits)
  ultimately show ?thesis using Some by (simp add: put_request_def)
qed

lemma put_request_same:
  assumes "map_of (sv_requests sv) i = Some r" and "distinct (map fst (sv_requests sv))"
  shows "put_request i (Some r) sv = sv"
proof -
  have "q = r" if "(i, q) \<in> set (sv_requests sv)" for q
    using assms that by (metis map_of_is_SomeI option.inject)
  then have "map (\<lambda>(j, q). (j, if j = i then r else q)) (sv_requests sv) = sv_requests sv"
    by (intro map_idI) auto
  then show ?thesis by (simp add: put_request_def)
qed

lemma put_request_ok:
  assumes "http_requests_ok sv" and "idle_request r" and "0 \<le> stream_fd (rq_stream r)"
  shows "http_requests_ok (put_request i (Some r) sv)"
proof -
  have "list_all (\<lambda>(j, q). j < sv_next sv \<and> idle_request q \<and> 0 \<le> stream_fd (rq_stream q))
      (sv_requests (put_request i (Some r) sv))"
    using assms by (auto simp: http_requests_ok_def put_request_def list_all_iff)
  then show ?thesis using assms(1) by (simp add: http_requests_ok_def del: map_map)
qed

text \<open>The descriptor's callback on a request, step by step, as long as the request is there.\<close>

definition request_kept :: "nat \<Rightarrow> server_request \<Rightarrow> hstate \<Rightarrow> hstate \<Rightarrow> bool" where
  "request_kept i r ws ws' \<longleftrightarrow>
     (\<exists>r'. snd ws' = put_request i (Some r') (snd ws) \<and> idle_request r' \<and>
        stream_quiet (fst ws, rq_stream r) (fst ws', rq_stream r'))"

lemma request_dispatch_kept:
  assumes "dispatch_if b (\<lambda>ws. map_option (\<lambda>r. st_desc (rq_stream r)) (map_of (sv_requests (snd ws)) i))
      (\<lambda>ev. on_request (request_event fuel e ev) i) ev ws1 = Some ws2"
    and "responds_once e" and "map_of (sv_requests (snd ws)) i = Some r"
    and "map_of (sv_requests (snd ws1)) i = None \<or> request_kept i r ws ws1"
  shows "map_of (sv_requests (snd ws2)) i = None \<or> request_kept i r ws ws2"
proof (cases b)
  case False
  then show ?thesis using assms by (simp add: dispatch_if_def)
next
  case True
  then have there: "map_of (sv_requests (snd ws1)) i \<noteq> None"
    and run: "on_request (request_event fuel e ev) i ws1 = Some ws2"
    using assms(1) by (auto simp: dispatch_if_def split: option.splits)
  then obtain r1 where r1: "snd ws1 = put_request i (Some r1) (snd ws)" "idle_request r1"
    "stream_quiet (fst ws, rq_stream r) (fst ws1, rq_stream r1)"
    using assms(4) by (auto simp: request_kept_def)
  have m1: "map_of (sv_requests (snd ws1)) i = Some r1" using map_of_put_some [OF assms(3)] by (simp add: r1(1))
  then obtain w2 q where ev: "request_event fuel e ev (fst ws1, Some r1) = Some (w2, q)" "ws2 = (w2, put_request i q (snd ws1))"
    using run by (auto simp: on_request_def split: bind_splits)
  have idle: "idle_or_gone (fst ws1, rq_stream r1) (w2, q)" by (rule request_event_idle [OF ev(1) assms(2) r1(2)])
  show ?thesis
  proof (cases q)
    case None
    then show ?thesis using map_of_put_some [OF m1] by (simp add: ev(2))
  next
    case (Some r2)
    then have "idle_request r2" "stream_quiet (fst ws, rq_stream r) (w2, rq_stream r2)"
      using idle quiet_trans [OF r1(3)] by (auto simp: idle_or_gone_def)
    then show ?thesis using Some r1(1) by (auto simp: request_kept_def ev(2))
  qed
qed

lemma request_poll_kept:
  assumes "request_poll fuel e i m ws = Some ws'" and "responds_once e" and "map_of (sv_requests (snd ws)) i = Some r"
    and "http_requests_ok (snd ws)"
  shows "\<exists>r' cs. snd ws' = put_request i (Some r') (snd ws) \<and> idle_request r' \<and>
    stream_fd (rq_stream r') = stream_fd (rq_stream r) \<and> 0 \<le> stream_fd (rq_stream r) \<and>
    w_calls (fst ws') = w_calls (fst ws) @ cs @ [Poll_Resubmit (stream_fd (rq_stream r))] \<and>
    set cs \<subseteq> range (Reactor_Modify (stream_fd (rq_stream r)))"
proof -
  let ?desc = "\<lambda>ws :: hstate. map_option (\<lambda>r. st_desc (rq_stream r)) (map_of (sv_requests (snd ws)) i)"
  let ?h = "\<lambda>ev. on_request (request_event fuel e ev) i"
  obtain ws1 ws2 ws3 d where
    d1: "dispatch_if (m AND POLLIN \<noteq> 0) ?desc ?h Descriptor_Read ws = Some ws1" and
    d2: "dispatch_if (m AND POLLOUT \<noteq> 0) ?desc ?h Descriptor_Write ws1 = Some ws2" and
    d3: "dispatch_if (m AND NOT (POLLIN OR POLLOUT) \<noteq> 0) ?desc ?h Descriptor_Close ws2 = Some ws3" and
    d: "?desc ws3 = Some d" "ws' = (if d_fd d \<ge> 0 then call_reactor (Poll_Resubmit (d_fd d)) ws3 else ws3)"
    using assms(1) by (auto simp: request_poll_def descriptor_callback_def split: bind_splits option.splits)
  have dist: "distinct (map fst (sv_requests (snd ws)))" using assms(4) by (simp add: http_requests_ok_def)
  have r: "idle_request r" "0 \<le> stream_fd (rq_stream r)"
    using map_of_SomeD [OF assms(3)] assms(4) by (auto simp: http_requests_ok_def list_all_iff)
  have k0: "request_kept i r ws ws"
    using put_request_same [OF assms(3) dist] quiet_refl r(1) unfolding request_kept_def by metis
  note k1 = request_dispatch_kept [OF d1 assms(2,3) disjI2 [OF k0]]
  note k2 = request_dispatch_kept [OF d2 assms(2,3) k1]
  have "request_kept i r ws ws3" using request_dispatch_kept [OF d3 assms(2,3) k2] d(1) by auto
  then obtain r' where r': "snd ws3 = put_request i (Some r') (snd ws)" "idle_request r'"
    "stream_quiet (fst ws, rq_stream r) (fst ws3, rq_stream r')"
    by (auto simp: request_kept_def)
  have fd: "d_fd d = stream_fd (rq_stream r)"
    using d(1) r' map_of_put_some [OF assms(3)] by (auto simp: stream_quiet_def stream_fd_def)
  show ?thesis
    using r' d(2) fd r(2) by (auto simp: call_reactor_def stream_quiet_def)
qed

subsection \<open>The listener and the timer\<close>

definition add_request :: "char stream \<Rightarrow> server \<Rightarrow> server" where
  "add_request st sv =
     sv\<lparr>sv_requests := sv_requests sv @ [(sv_next sv, new_request st)], sv_next := Suc (sv_next sv)\<rparr>"

lemma add_request_fields [simp]:
  "sv_descriptor (add_request st sv) = sv_descriptor sv" "sv_timer (add_request st sv) = sv_timer sv"
  "sv_date (add_request st sv) = sv_date sv"
  by (simp_all add: add_request_def)

lemma add_request_ok: "http_requests_ok sv \<Longrightarrow> 0 \<le> stream_fd st \<Longrightarrow> http_requests_ok (add_request st sv)"
  by (fastforce simp: http_requests_ok_def add_request_def new_request_def idle_request_def list_all_iff)

lemma accept_adds:
  assumes "server_socket_accept ok a ws = Some ws'"
  shows "\<exists>st. snd ws' = add_request st (snd ws) \<and> stream_fd st = ha_fd a"
  using assms
  by (cases ws)
    (auto simp: server_socket_accept_def stream_open_def stream_socket_open_def on_desc_def add_request_def
      descriptor_open_def Let_def stream_fd_def split: bind_splits if_splits option.splits)

lemma http_accept_loop_ok:
  assumes "http_accept_loop ok n script ws = Some (left, ws')" and "http_requests_ok (snd ws)"
    and "list_all (\<lambda>a. 0 \<le> ha_fd a) script"
  shows "http_requests_ok (snd ws') \<and> sv_descriptor (snd ws') = sv_descriptor (snd ws) \<and>
    sv_timer (snd ws') = sv_timer (snd ws) \<and> sv_date (snd ws') = sv_date (snd ws) \<and> list_all (\<lambda>a. 0 \<le> ha_fd a) left"
  using assms
proof (induction ok n script ws rule: http_accept_loop.induct)
  case (3 ok n a script ws)
  obtain ws1 where o: "server_socket_accept ok a ws = Some ws1" and rest: "http_accept_loop ok n script ws1 = Some (left, ws')"
    using "3.prems"(1) by (auto split: bind_splits)
  obtain st where st: "snd ws1 = add_request st (snd ws)" "stream_fd st = ha_fd a" using accept_adds [OF o] by blast
  then have "http_requests_ok (snd ws1)" using "3.prems"(2,3) by (simp add: add_request_ok)
  then show ?case using "3.IH" [OF o rest] "3.prems"(3) st(1) by simp
qed auto

text \<open>What both of them keep of the program's state.\<close>

definition hloop_kept :: "hloop \<Rightarrow> hloop \<Rightarrow> bool" where
  "hloop_kept s s' \<longleftrightarrow> hloop_ok s' \<and> sv_descriptor (snd (fst s')) = sv_descriptor (snd (fst s)) \<and>
     sv_timer (snd (fst s')) = sv_timer (snd (fst s))"

lemma accept_event_kept:
  assumes "accept_event ok ev s = Some s'" and "hloop_ok s"
  shows "hloop_kept s s'"
proof -
  obtain left ws where a: "http_accept_loop ok 32 (next_clients (fst (snd s))) (fst s) = Some (left, ws)"
    "s' = (ws, put_back left (fst (snd s)), snd (snd s))"
    using assms(1) by (auto simp: accept_event_def server_socket_descriptor_callback_def split: if_splits)
  have "list_all (\<lambda>a. 0 \<le> ha_fd a) (next_clients (fst (snd s)))"
    using assms(2) by (auto simp: hloop_ok_def next_clients_def split: list.splits)
  then show ?thesis
    using http_accept_loop_ok [OF a(1)] assms(2) a(2)
    by (auto simp: hloop_kept_def hloop_ok_def put_back_def split: list.splits)
qed

lemma timer_event_kept:
  assumes "timer_event s = Some s'" and "hloop_ok s"
  shows "hloop_kept s s'"
  using assms
  by (cases "snd (snd s)")
    (auto simp: timer_event_def timer_expired_def hloop_kept_def hloop_ok_def http_requests_ok_def split: if_splits)

lemma dispatch_kept:
  assumes "dispatch_if b d h ev s1 = Some s2" and "hloop_kept s s1"
    and "\<And>s s'. h ev s = Some s' \<Longrightarrow> hloop_ok s \<Longrightarrow> hloop_kept s s'"
  shows "hloop_kept s s2"
proof (cases b)
  case True
  then have "h ev s1 = Some s2" using assms(1) by (auto simp: dispatch_if_def split: option.splits)
  then have "hloop_kept s1 s2" using assms(2,3) by (simp add: hloop_kept_def)
  then show ?thesis using assms(2) by (simp add: hloop_kept_def)
qed (use assms in \<open>simp add: dispatch_if_def\<close>)

lemma callback_kept:
  assumes "descriptor_callback (\<lambda>s. Some (d (fst s))) h (\<lambda>c s. (call_reactor c (fst s), snd s)) m s = Some s'"
    and "hloop_ok s" and "\<And>ev s s'. h ev s = Some s' \<Longrightarrow> hloop_ok s \<Longrightarrow> hloop_kept s s'"
    and d: "\<And>s s'. hloop_kept s s' \<Longrightarrow> d (fst s') = d (fst s)"
  shows "hloop_kept s s' \<and> (0 \<le> d_fd (d (fst s)) \<longrightarrow> Poll_Resubmit (d_fd (d (fst s))) \<in> set (w_calls (fst (fst s'))))"
proof -
  let ?desc = "\<lambda>s :: hloop. Some (d (fst s))"
  obtain s1 s2 s3 where
    d1: "dispatch_if (m AND POLLIN \<noteq> 0) ?desc h Descriptor_Read s = Some s1" and
    d2: "dispatch_if (m AND POLLOUT \<noteq> 0) ?desc h Descriptor_Write s1 = Some s2" and
    d3: "dispatch_if (m AND NOT (POLLIN OR POLLOUT) \<noteq> 0) ?desc h Descriptor_Close s2 = Some s3" and
    s': "s' = (if d_fd (d (fst s3)) \<ge> 0 then (call_reactor (Poll_Resubmit (d_fd (d (fst s3)))) (fst s3), snd s3) else s3)"
    using assms(1) by (auto simp: descriptor_callback_def split: bind_splits)
  have k0: "hloop_kept s s" using assms(2) by (simp add: hloop_kept_def)
  have k3: "hloop_kept s s3"
    by (rule dispatch_kept [OF d3 dispatch_kept [OF d2 dispatch_kept [OF d1 k0]]]) (use assms(3) in blast)+
  have same: "d (fst s3) = d (fst s)" by (rule d [OF k3])
  have "hloop_kept s (call_reactor c (fst s3), snd s3)" for c
    using k3 by (simp add: hloop_kept_def hloop_ok_def call_reactor_def)
  then show ?thesis using k3 s' same by (auto simp: call_reactor_def)
qed

subsection \<open>The contract\<close>

lemma request_of_fd_Some:
  assumes "request_of_fd fd sv = Some i" and "http_requests_ok sv"
  shows "\<exists>r. map_of (sv_requests sv) i = Some r \<and> stream_fd (rq_stream r) = fd"
proof -
  obtain r where f: "find (\<lambda>(i, r). stream_fd (rq_stream r) = fd) (sv_requests sv) = Some (i, r)"
    using assms(1) by (auto simp: request_of_fd_def)
  have r: "(i, r) \<in> set (sv_requests sv)" "stream_fd (rq_stream r) = fd"
    using f nth_mem by (fastforce simp: find_Some_iff)+
  then show ?thesis using assms(2) by (auto simp: http_requests_ok_def)
qed

lemma http_step_request:
  assumes "http_step ok h fuel fd m s = Some (s', cs)" and "hloop_ok s" and "responds_once (env_now ok h (snd (fst s)))"
    and "fd \<noteq> d_fd (sv_descriptor (snd (fst s)))" and "fd \<noteq> d_fd (sv_timer (snd (fst s)))"
  shows "\<exists>i r r' ms. request_of_fd fd (snd (fst s)) = Some i \<and> map_of (sv_requests (snd (fst s))) i = Some r \<and>
    stream_fd (rq_stream r) = fd \<and> snd (fst s') = put_request i (Some r') (snd (fst s)) \<and> idle_request r' \<and>
    stream_fd (rq_stream r') = fd \<and> 0 \<le> fd \<and> snd s' = snd s \<and> cs = ms @ [Poll_Resubmit fd] \<and>
    set ms \<subseteq> range (Reactor_Modify fd)"
proof -
  let ?e = "env_now ok h (snd (fst s))"
  obtain i ws' where i: "request_of_fd fd (snd (fst s)) = Some i"
    and p: "request_poll fuel ?e i m (no_server_calls (fst s)) = Some ws'"
    and s': "s' = (ws', snd s)" "cs = w_calls (fst ws')"
    using assms(1,4,5) by (auto simp: http_step_def Let_def split: option.splits)
  have ok: "http_requests_ok (snd (fst s))" using assms(2) by (simp add: hloop_ok_def)
  obtain r where r: "map_of (sv_requests (snd (fst s))) i = Some r" "stream_fd (rq_stream r) = fd"
    using request_of_fd_Some [OF i ok] by blast
  have "map_of (sv_requests (snd (no_server_calls (fst s)))) i = Some r" "http_requests_ok (snd (no_server_calls (fst s)))"
    using r(1) ok by (simp_all add: no_server_calls_def)
  from request_poll_kept [OF p assms(3) this] show ?thesis
    using i r s' by (auto simp: no_server_calls_def)
qed

lemma http_step_keeps:
  assumes "hloop_ok s" and "http_step ok h fuel fd m s = Some (s', cs)" and "responds_once (env_now ok h (snd (fst s)))"
  shows "hloop_ok s' \<and> (0 \<le> fd \<longrightarrow> Poll_Resubmit fd \<in> set cs)"
proof -
  have ok0: "hloop_ok (no_server_calls (fst s), snd s)" using assms(1) by (simp add: hloop_ok_def no_server_calls_def)
  consider (listener) "fd = d_fd (sv_descriptor (snd (fst s)))"
    | (timer) "fd \<noteq> d_fd (sv_descriptor (snd (fst s)))" "fd = d_fd (sv_timer (snd (fst s)))"
    | (request) "fd \<noteq> d_fd (sv_descriptor (snd (fst s)))" "fd \<noteq> d_fd (sv_timer (snd (fst s)))" by blast
  then show ?thesis
  proof cases
    case listener
    then have l: "accept_poll ok m (no_server_calls (fst s), snd s) = Some s'" "cs = w_calls (fst (fst s'))"
      using assms(2) by (auto simp: http_step_def Let_def)
    have "hloop_kept (no_server_calls (fst s), snd s) s' \<and>
        (0 \<le> d_fd (sv_descriptor (snd (fst (no_server_calls (fst s), snd s)))) \<longrightarrow>
           Poll_Resubmit (d_fd (sv_descriptor (snd (fst (no_server_calls (fst s), snd s))))) \<in> set (w_calls (fst (fst s'))))"
      by (rule callback_kept [where d = "\<lambda>ws. sv_descriptor (snd ws)", OF l(1) [unfolded accept_poll_def] ok0])
        (erule (1) accept_event_kept, simp add: hloop_kept_def)
    then show ?thesis using l(2) listener by (simp add: hloop_kept_def no_server_calls_def)
  next
    case timer
    then have l: "timer_poll m (no_server_calls (fst s), snd s) = Some s'" "cs = w_calls (fst (fst s'))"
      using assms(2) by (auto simp: http_step_def Let_def)
    have "hloop_kept (no_server_calls (fst s), snd s) s' \<and>
        (0 \<le> d_fd (sv_timer (snd (fst (no_server_calls (fst s), snd s)))) \<longrightarrow>
           Poll_Resubmit (d_fd (sv_timer (snd (fst (no_server_calls (fst s), snd s))))) \<in> set (w_calls (fst (fst s'))))"
      by (rule callback_kept [where d = "\<lambda>ws. sv_timer (snd ws)", OF l(1) [unfolded timer_poll_def] ok0])
        (erule (1) timer_event_kept, simp add: hloop_kept_def)
    then show ?thesis using l(2) timer by (simp add: hloop_kept_def no_server_calls_def)
  next
    case request
    obtain i r' ms where r: "snd (fst s') = put_request i (Some r') (snd (fst s))" "idle_request r'"
      "stream_fd (rq_stream r') = fd" "0 \<le> fd" "snd s' = snd s" "cs = ms @ [Poll_Resubmit fd]"
      using http_step_request [OF assms(2,1,3) request] by blast
    then have "http_requests_ok (snd (fst s'))"
      using assms(1) by (simp add: hloop_ok_def put_request_ok)
    then show ?thesis using assms(1) r by (simp add: hloop_ok_def)
  qed
qed

text \<open>The handler of the program, \<open>server_infrastructure_request_handler\<close> on the routes of \<open>http_server\<close>.\<close>

definition route_handler :: "http_server \<Rightarrow> data \<Rightarrow> server_call list option" where
  "route_handler s target = map_option snd (http_server_handle_request (Some s) (Some target))"

lemma route_handler_once: "responds_once (env_now ok (route_handler s) sv)"
  by (auto simp: responds_once_def env_now_def route_handler_def http_server_handle_request_def server_ok_def
      split: bind_splits http_route.splits)

interpretation http_loop: reactor_program id "http_step ok (route_handler s) fuel" hloop_ok for ok s fuel
proof unfold_locales
  show "hloop_ok z'" if "hloop_ok z" "http_step ok (route_handler s) fuel h m z = Some (z', cs)" for z h m z' cs
    using http_step_keeps [OF that route_handler_once] by simp
  show "fd \<in> settled cs"
    if "hloop_ok z" "http_step ok (route_handler s) fuel (id (int fd)) m z = Some (z', cs)" "fd < REACTOR_MAX_FDS"
    for z fd m z' cs
    using http_step_keeps [of z ok "route_handler s" fuel "int fd" m z' cs] route_handler_once that
    by (auto intro: settled_resubmit)
qed

end
