(* ===== verification/Http_Properties.thy ===== *)
theory Http_Properties
  imports Http_Serving
begin

text \<open>
  The properties of the HTTP server as a whole: the reactor's connections (\<open>Http_Serving\<close>) running
  the program's handler (\<open>Http_Server\<close>) over the request parser (\<open>Picohttp_Spec\<close>).
\<close>

subsection \<open>Requests on the wire\<close>

text \<open>A request is its method, its target and its header fields.\<close>

type_synonym wire_request = "string \<times> string \<times> (string \<times> string) list"

definition wire_text :: "wire_request \<Rightarrow> string" where
  "wire_text q = (case q of (m, p, hs) \<Rightarrow> request_text m p hs)"

definition wire_ok :: "wire_request \<Rightarrow> bool" where
  "wire_ok q \<longleftrightarrow>
     (case q of (m, p, hs) \<Rightarrow> token_ok m \<and> token_ok p \<and> (\<forall>h\<in>set hs. header_ok h) \<and> length hs \<le> 16)"

definition parsed_request :: "wire_request \<Rightarrow> phr_request" where
  "parsed_request q =
     (case q of (m, p, hs) \<Rightarrow>
        \<lparr>q_method = m, q_path = p, q_minor = 1,
         q_headers = map (\<lambda>h. \<lparr>h_name = Some (fst h), h_value = snd h\<rparr>) hs\<rparr>)"

lemma parse_wire:
  "wire_ok q \<Longrightarrow> parse_http 16 (wire_text q @ xs) = Packet (length (wire_text q)) (parsed_request q)"
  by (cases q) (simp add: wire_ok_def wire_text_def parsed_request_def parse_http_request)

lemma drain_wire:
  "\<forall>q\<in>set qs. wire_ok q \<Longrightarrow>
     drain (parse_http 16) (concat (map wire_text qs)) = (map parsed_request qs, [], False)"
proof (induction qs)
  case Nil
  then show ?case by (simp add: request_parser.drain_need parse_http_empty)
next
  case (Cons q qs)
  then show ?case
    using request_parser.drain_packet [OF parse_wire [of q "concat (map wire_text qs)"]] by simp
qed

lemma path_length: "length (fst (snd q)) \<le> length (wire_text q)"
  by (cases q) (simp add: wire_text_def request_text_def)

lemma drain_empty: "drain (parse_http m) [] = ([], [], False)"
  by (simp add: request_parser.drain_need parse_http_empty)

lemma bad_request_length: "length date = 29 \<Longrightarrow> length (bad_request_text date) \<le> 1000"
  by (simp add: bad_request_text_def response_text_def dec.simps)

subsection \<open>The handler of the program\<close>

definition program_env :: "string \<Rightarrow> http_server \<Rightarrow> server_env" where
  "program_env date s =
     \<lparr>se_memory = (\<lambda>_. True), se_date = date @ [NUL],
      se_handler = (\<lambda>target. map_option snd (http_server_handle_request (Some s) (Some target)))\<rparr>"

text \<open>What a request is answered with.\<close>

definition answer_text :: "string \<Rightarrow> string \<Rightarrow> string \<Rightarrow> wire_request \<Rightarrow> string" where
  "answer_text date p msg q =
     (let route = route_of_text (fst (snd q))
      in response_text ''200 OK'' date (route_type route) (route_body p msg route))"

lemma program_answers_route:
  assumes "serves s p msg" and "length p < 2 ^ 32"
    and "http_server_parse_route (text_data (q_path q)) = Some route"
  shows "answers (program_env date s) date q
    (response_text ''200 OK'' date (route_type route) (route_body p msg route))"
proof -
  obtain ty bd where h: "http_server_handle_request (Some s) (Some (text_data (q_path q))) =
      Some (HTTP_SERVER_OK, [Server_respond ''200 OK'' ty bd])"
    "data_text ty = Some (route_type route)" "data_text bd = Some (route_body p msg route)"
    using handle_serves [OF assms(1,3)] by blast
  have "length (route_type route) < 2 ^ 32" by (cases route) simp_all
  moreover have "length (route_body p msg route) < 2 ^ 32"
    using assms(1,2) by (cases route) (simp_all add: serves_def json_text_length)
  ultimately show ?thesis
    using h unfolding answers_def
    by (intro exI [of _ "''200 OK''"] exI [of _ ty] exI [of _ bd] exI [of _ "route_type route"]
        exI [of _ "route_body p msg route"])
      (auto simp: program_env_def is_text_def)
qed

lemma program_answers:
  assumes "serves s p msg" and "length p < 2 ^ 32" and "length (fst (snd q)) < 2 ^ 32"
  shows "answers (program_env date s) date (parsed_request q) (answer_text date p msg q)"
proof -
  obtain m t hs where q: "q = (m, t, hs)" by (cases q)
  have "data_text (text_data t) = Some t" "d_base (text_data t) \<noteq> None"
    using text_data_text [of t] assms(3) by (auto simp: is_text_def q text_data_def data_construct_def)
  then have "http_server_parse_route (text_data t) = Some (route_of_text t)" by (rule parse_route_text)
  then show ?thesis
    using program_answers_route [OF assms(1,2), of "parsed_request q"]
    by (simp add: q parsed_request_def answer_text_def Let_def)
qed

lemma answer_length:
  assumes "serves s p msg" and "length p < 2 ^ 20" and "length date = 29"
  shows "length (answer_text date p msg q) \<le> 2 ^ 20 + 10000"
proof -
  let ?r = "route_of_text (fst (snd q))"
  have r: "length (route_type ?r) \<le> 16" "length (route_body p msg ?r) \<le> 2 ^ 20"
    using assms(1,2) by (cases ?r; simp add: serves_def json_text_length)+
  moreover have "ndigits (length (route_body p msg ?r)) \<le> 10"
    using r(2) by (intro ndigits_le) simp_all
  ultimately show ?thesis
    using assms(3) by (simp add: answer_text_def response_text_def Let_def length_dec)
qed

lemma program_answers_all:
  assumes "serves s p msg" and "length p < 2 ^ 32" and "length (concat (map wire_text qs)) < 2 ^ 31"
  shows "list_all2 (answers (program_env date s) date) (map parsed_request qs)
    (map (answer_text date p msg) qs)"
proof -
  have "answers (program_env date s) date (parsed_request q) (answer_text date p msg q)" if "q \<in> set qs" for q
  proof -
    have "length (wire_text q) \<le> length (concat (map wire_text qs))"
      using member_le_sum_list [of "length (wire_text q)" "map length (map wire_text qs)"] that
      by (auto simp: length_concat)
    moreover have "length (fst (snd q)) \<le> length (wire_text q)" by (rule path_length)
    ultimately show ?thesis using assms(3) by (intro program_answers [OF assms(1,2)]) simp
  qed
  then show ?thesis by (simp add: list.rel_map list_all2_same)
qed

lemma program_env_ok: "length date = 29 \<Longrightarrow> env_ok (program_env date s) date"
  by (simp add: env_ok_def program_env_def)

subsection \<open>A connection among the others\<close>

lemma map_of_put_request:
  "map_of (sv_requests (put_request i r sv)) j =
     (if j = i then (if map_of (sv_requests sv) i = None then None else r)
      else map_of (sv_requests sv) j)"
proof -
  have "map_of (map (\<lambda>(k, r'). (k, if k = i then r else r')) rs) j =
      (if j = i then (if map_of rs i = None then None else Some r) else map_of rs j)"
    for rs and r :: server_request
    by (induction rs) auto
  moreover have "map_of (filter (\<lambda>(k, _). k \<noteq> i) rs) j = (if j = i then None else map_of rs j)"
    for rs :: "(nat \<times> server_request) list"
    by (induction rs) auto
  ultimately show ?thesis by (cases r) (simp_all add: put_request_def)
qed

lemma run_on_request:
  assumes "\<And>c w. f c (w, None) = None" and "run_all f cs (w, Some r) = Some (w', Some r')"
    and "map_of (sv_requests sv) i = Some r"
  shows "\<exists>sv'. run_all (\<lambda>c. on_request (f c) i) cs (w, sv) = Some (w', sv') \<and>
    map_of (sv_requests sv') i = Some r' \<and>
    (\<forall>j. j \<noteq> i \<longrightarrow> map_of (sv_requests sv') j = map_of (sv_requests sv) j)"
  using assms(2,3)
proof (induction cs arbitrary: w r sv)
  case Nil
  then show ?case by simp
next
  case (Cons c cs)
  obtain w1 r1 where 1: "f c (w, Some r) = Some (w1, r1)" "run_all f cs (w1, r1) = Some (w', Some r')"
    using Cons.prems(1) by (auto split: bind_splits)
  then obtain r2 where r2: "r1 = Some r2" using assms(1) by (cases cs; cases r1) auto
  let ?sv = "put_request i r1 sv"
  have "map_of (sv_requests ?sv) i = Some r2"
    using Cons.prems(2) r2 by (simp add: map_of_put_request)
  then obtain sv' where "run_all (\<lambda>c. on_request (f c) i) cs (w1, ?sv) = Some (w', sv')"
    "map_of (sv_requests sv') i = Some r'"
    "\<forall>j. j \<noteq> i \<longrightarrow> map_of (sv_requests sv') j = map_of (sv_requests ?sv) j"
    using Cons.IH 1(2) r2 by blast
  moreover have "on_request (f c) i (w, sv) = Some (w1, ?sv)"
    using 1(1) Cons.prems(2) by (simp add: on_request_def)
  ultimately show ?case by (simp add: map_of_put_request)
qed

lemma accept_run:
  assumes "ha_memory a" and "ha_fstat a = Some b" and "0 \<le> ha_fd a"
    and "k_sent (w_sock w (ha_fd a)) = []" and "Send_error \<notin> set (k_send (w_sock w (ha_fd a)))"
    and "map_of (sv_requests sv) (sv_next sv) = None"
  shows "\<exists>w' st. server_socket_accept (\<lambda>_. True) a (w, sv) =
      Some (w', sv\<lparr>sv_requests := sv_requests sv @ [(sv_next sv, new_request st)],
                   sv_next := Suc (sv_next sv)\<rparr>) \<and>
    request_at (ha_fd a) SERVER_REQUEST_NEED_MORE_DATA 1 False 0 (w', Some (new_request st)) [] [] \<and>
    w_sock w' = w_sock w \<and> w_calls w' = w_calls w @ [Reactor_Add (ha_fd a) POLLIN]"
proof -
  let ?k = "w_sock w (ha_fd a)"
  have "?k = \<lparr>k_recv = k_recv ?k, k_send = k_send ?k, k_sent = []\<rparr>" using assms(4) by simp
  then obtain w' st where
    o: "Option.bind (stream_construct (\<lambda>_. True) w) (stream_open (Some b) (ha_fd a) STREAM_READ) = Some (w', st)"
    and v: "stream_view (ha_fd a) (w', st) [] []" "w_sock w' = w_sock w"
    and c: "w_calls w' = w_calls w @ [Reactor_Add (ha_fd a) (descriptor_events \<lparr>d_fd = ha_fd a, d_mask = STREAM_READ\<rparr>)]"
    using construct_open_run [OF assms(3) _ assms(5), of w "k_recv ?k" STREAM_READ b] by auto
  show ?thesis
    using assms(1,2) o v c
    by (auto simp: descriptor_events_def server_socket_accept_def new_request_def intro!: request_atI split: bind_splits)
qed

subsection \<open>Properties\<close>

lemma arrive_freed: "http_arrive fuel e chunk (w, None) = None"
  by (simp add: http_arrive_def live_def)

text \<open>
  C4. The HTTP server answers every request of a connection, in order, as long as its events are arrivals of
  bytes. However the bytes of well-formed requests are cut into arrivals of at most 65536 bytes, none of
  which ends in a space, and however much of the output the kernel takes at a time, short of an error,
  what the peer of an accepted connection was sent, together with what waits in the output buffer, is for each
  request exactly the response of its route with the texts the server was created with; no byte is left
  unread, the connection stays open for more, and the other connections are untouched.
\<close>

theorem pipelined_requests_answered:
  assumes "serves s p msg" and "length p < 2 ^ 32" and "length date = 29"
    and "list_all wire_ok qs" and "concat chunks = concat (map wire_text qs)"
    and "list_all (\<lambda>chunk. chunk \<noteq> [] \<and> last chunk \<noteq> CHR '' '' \<and> length chunk \<le> 65536) chunks"
    and "length (concat chunks) < 2 ^ 31" and "length qs + 3 \<le> fuel"
    and "length (concat (map (answer_text date p msg) qs)) \<le> 2 ^ 61"
    and "ha_memory a" and "ha_fstat a = Some b" and "0 \<le> ha_fd a"
    and "k_sent (w_sock w (ha_fd a)) = []" and "Send_error \<notin> set (k_send (w_sock w (ha_fd a)))"
    and "map_of (sv_requests sv) (sv_next sv) = None"
  shows "\<exists>ws' w2 sv2 r. server_socket_accept (\<lambda>_. True) a (w, sv) = Some ws' \<and>
    run_all (\<lambda>chunk. on_request (http_arrive fuel (program_env date s) chunk) (sv_next sv)) chunks ws' =
      Some (w2, sv2) \<and>
    map_of (sv_requests sv2) (sv_next sv) = Some r \<and>
    rq_state r = SERVER_REQUEST_NEED_MORE_DATA \<and> rq_ref r = 1 \<and>
    stream_view (ha_fd a) (w2, rq_stream r) [] (concat (map (answer_text date p msg) qs)) \<and>
    (\<forall>j. j \<noteq> sv_next sv \<longrightarrow> map_of (sv_requests sv2) j = map_of (sv_requests sv) j)"
proof -
  let ?i = "sv_next sv" and ?e = "program_env date s" and ?fd = "ha_fd a"
  let ?ts = "map (answer_text date p msg) qs"
  obtain w1 st ev where acc: "server_socket_accept (\<lambda>_. True) a (w, sv) =
      Some (w1, sv\<lparr>sv_requests := sv_requests sv @ [(?i, new_request st)], sv_next := Suc ?i\<rparr>)"
    "request_at ?fd SERVER_REQUEST_NEED_MORE_DATA 1 False 0 (w1, Some (new_request st)) [] []"
    using accept_run [OF assms(10-15)] by blast
  let ?sv = "sv\<lparr>sv_requests := sv_requests sv @ [(?i, new_request st)], sv_next := Suc ?i\<rparr>"
  have chunks: "\<forall>chunk\<in>set chunks. chunk \<noteq> [] \<and> clean chunk \<and> length chunk \<le> read_size"
    using assms(6) by (auto simp: list_all_iff clean_def read_size_def)
  have len: "length ([] :: string) + length (concat chunks) < 2 ^ 31" using assms(7) by simp
  have drained: "drain (parse_http 16) ([] @ concat chunks) = (map parsed_request qs, [], False)"
    using drain_wire [of qs] assms(4,5) by (simp add: list_all_iff)
  have answered: "list_all2 (answers ?e date) (map parsed_request qs) ?ts"
    using program_answers_all [OF assms(1,2), of qs date] assms(5,7) by simp
  have room: "length ([] :: string) + length (concat ?ts) + length (bad_request_text date) \<le> 2 ^ 62"
    using assms(9) bad_request_length [OF assms(3)] by simp
  have fuel: "length (map parsed_request qs) + 3 \<le> fuel" using assms(8) by simp
  obtain s' c' where run: "run_all (http_arrive fuel ?e) chunks (w1, Some (new_request st)) = Some s'"
    "request_at ?fd SERVER_REQUEST_NEED_MORE_DATA 1 False c' s' [] ([] @ concat ?ts)"
    using http_arrivals_run [OF acc(2) program_env_ok [OF assms(3)] chunks len drain_empty drained answered fuel room]
    by blast
  obtain w2 r where r: "s' = (w2, Some r)" "rq_state r = SERVER_REQUEST_NEED_MORE_DATA" "rq_ref r = 1"
    "stream_view ?fd (w2, rq_stream r) [] (concat ?ts)"
    using run(2) unfolding append_Nil by (auto simp: request_at_def)
  have here: "map_of (sv_requests ?sv) ?i = Some (new_request st)" using assms(15) by (simp add: map_add_def)
  obtain sv2 where "run_all (\<lambda>chunk. on_request (http_arrive fuel ?e chunk) ?i) chunks (w1, ?sv) = Some (w2, sv2)"
    "map_of (sv_requests sv2) ?i = Some r"
    "\<forall>j. j \<noteq> ?i \<longrightarrow> map_of (sv_requests sv2) j = map_of (sv_requests ?sv) j"
    using run_on_request [where f = "http_arrive fuel ?e", OF arrive_freed _ here] run(1) r(1) by blast
  then show ?thesis using acc(1) r by (auto simp: map_add_def split: option.splits)
qed

text \<open>Two requests, cut inside the first target; the kernel takes seven bytes, then no more.\<close>

definition ex_requests :: "wire_request list" where
  "ex_requests = [(''GET'', ''/json'', [(''Host'', ''a'')]), (''GET'', ''/plaintext'', [])]"

definition ex_http_world :: "char world" where
  "ex_http_world = \<lparr>w_heap = ex_heap, w_calls = [],
     w_sock = (\<lambda>_. \<lparr>k_recv = [], k_send = [Sent 7, Send_again], k_sent = []\<rparr>)\<rparr>"

definition ex_date :: string where
  "ex_date = ''Thu, 01 Jan 1970 00:00:00 GMT''"

definition ex_accepted :: http_accepted where
  "ex_accepted = \<lparr>ha_fd = 9, ha_memory = True, ha_fstat = Some True\<rparr>"

lemma pipelined_requests_answered_witness:
  "\<exists>ws' w2 sv2 r. server_socket_accept (\<lambda>_. True) ex_accepted (ex_http_world, zero_server 5 []) = Some ws' \<and>
    run_all (\<lambda>chunk. on_request (http_arrive 5 (program_env ex_date ex_server) chunk) 5)
      [''GET /j'', ''son HTTP/1.1'' @ crlf @ ''Host: a'' @ crlf @ crlf @
         ''GET /plaintext HTTP/1.1'' @ crlf @ crlf] ws' = Some (w2, sv2) \<and>
    map_of (sv_requests sv2) 5 = Some r \<and>
    stream_view 9 (w2, rq_stream r) []
      (concat (map (answer_text ex_date ''Hello, World!'' ''Hello, World!'') ex_requests))"
proof -
  let ?chunks = "[''GET /j'', ''son HTTP/1.1'' @ crlf @ ''Host: a'' @ crlf @ crlf @
      ''GET /plaintext HTTP/1.1'' @ crlf @ crlf]"
  have "list_all wire_ok ex_requests" "length ex_date = 29" by code_simp+
  moreover have "concat ?chunks = concat (map wire_text ex_requests)" by code_simp
  moreover have "list_all (\<lambda>chunk. chunk \<noteq> [] \<and> last chunk \<noteq> CHR '' '' \<and> length chunk \<le> 65536) ?chunks"
    "length (concat ?chunks) < 2 ^ 31" by simp_all
  moreover have "length (concat (map (answer_text ex_date ''Hello, World!'' ''Hello, World!'') ex_requests)) \<le> 2 ^ 61"
    by (simp add: ex_requests_def answer_text_def response_text_def route_of_text_def json_text_def
        ex_date_def dec.simps)
  ultimately show ?thesis
    using pipelined_requests_answered [OF ex_serves, of ex_date ex_requests ?chunks 5 ex_accepted True
        ex_http_world "zero_server 5 []"]
    by (simp add: ex_requests_def ex_accepted_def ex_http_world_def zero_server_def) blast
qed

text \<open>The handler answers whatever the parser may find.\<close>

definition seen_target :: "phr_request \<Rightarrow> string" where
  "seen_target q = take (length (q_path q) mod 2 ^ 64) (q_path q)"

lemma program_answers_any:
  assumes "serves s p msg" and "length p < 2 ^ 32"
  shows "answers (program_env date s) date q (answer_text date p msg ([], seen_target q, []))"
proof -
  let ?d = "text_data (q_path q)"
  have "unat (of_nat n :: size_t) = n mod 2 ^ 64" for n by (simp add: unat_of_nat)
  then have "data_text ?d = Some (seen_target q)"
    by (auto simp: text_data_def data_construct_def data_text_def data_read_def read_n_def seen_target_def)
  moreover have "d_base ?d \<noteq> None" by (simp add: text_data_def data_construct_def)
  ultimately have "http_server_parse_route ?d = Some (route_of_text (seen_target q))" by (rule parse_route_text)
  then show ?thesis
    using program_answers_route [OF assms] by (simp add: answer_text_def Let_def)
qed

text \<open>
  C11. Whatever bytes a peer sends, as long as the last one is no space, the event that reads them ends: the loop over
  them needs no more rounds than there are bytes, and two for the frame around it. Afterwards the
  request is freed, or it waits for more with the one reference of the list and nothing to consume.
\<close>

theorem update_terminates:
  assumes "serves s p msg" and "length p < 2 ^ 20" and "length date = 29"
    and "request_at fd SERVER_REQUEST_NEED_MORE_DATA 1 False c rs ins outs"
    and "ins \<noteq> []" and "last ins \<noteq> CHR '' ''" and "length ins < 2 ^ 31" and "length outs \<le> 2 ^ 61"
  shows "\<exists>rs'. server_request_update (length ins + 3) (program_env date s) rs = Some rs' \<and>
    (snd rs' = None \<or>
     (\<exists>rest outs'. request_at fd SERVER_REQUEST_NEED_MORE_DATA 1 False 0 rs' rest outs'))"
proof -
  let ?e = "program_env date s" and ?f = "\<lambda>q. answer_text date p msg ([], seen_target q, [])"
  obtain qs rest bad where d: "drain (parse_http 16) ins = (qs, rest, bad)"
    by (cases "drain (parse_http 16) ins")
  have p: "length p < 2 ^ 32" using assms(2) by simp
  have answered: "list_all2 (answers ?e date) qs (map ?f qs)"
    using program_answers_any [OF assms(1) p] by (auto simp: list.rel_map list_all2_same)
  have n: "length qs \<le> length ins" using request_parser.drain_count [of 16 ins] d by simp
  have "length (?f q) \<le> 2 ^ 21" for q
    using answer_length [OF assms(1-3), of "([], seen_target q, [])"] by simp
  then have "length (concat (map ?f qs)) \<le> length qs * 2 ^ 21"
    by (induction qs) (simp_all add: add_le_mono)
  also have "\<dots> \<le> 2 ^ 31 * 2 ^ 21" using n assms(7) by (intro mult_le_mono) simp_all
  finally have room: "length outs + length (concat (map ?f qs)) + length (bad_request_text date) \<le> 2 ^ 62"
    using assms(8) bad_request_length [OF assms(3)] by simp
  have fuel: "length qs + 3 \<le> length ins + 3" using n by simp
  have "clean ins" using assms(6) by (simp add: clean_def)
  from update_refines [OF assms(4) this assms(7) d program_env_ok [OF assms(3)] answered fuel assms(5) room]
  show ?thesis by (auto simp: freed_request_def split: if_splits)
qed

definition ex_input :: "string \<Rightarrow> char buffer" where
  "ex_input xs = \<lparr>buf_block = Some 1, buf_cells = map Some xs, buf_size = length xs, buf_capacity = length xs\<rparr>"

lemma ex_input_holds: "xs \<noteq> [] \<Longrightarrow> length xs \<le> 2 ^ 62 \<Longrightarrow> holds (ex_input xs) xs"
  by (intro holdsI) (simp_all add: ex_input_def)

lemma update_terminates_witness:
  "\<exists>rs'. server_request_update (length ''GET /json HTTP/1.1'' + 3) (program_env ex_date ex_server)
      (ex_world, Some (new_request (ex_stream\<lparr>st_input := ex_input ''GET /json HTTP/1.1''\<rparr>))) = Some rs'"
proof -
  have "request_at 7 SERVER_REQUEST_NEED_MORE_DATA 1 False 0
      (ex_world, Some (new_request (ex_stream\<lparr>st_input := ex_input ''GET /json HTTP/1.1''\<rparr>)))
      ''GET /json HTTP/1.1'' ''abc''"
    using ex_view ex_input_holds [of "''GET /json HTTP/1.1''"]
    by (auto simp: request_at_def new_request_def stream_view_def stream_fd_def)
  moreover have "length ex_date = 29" by code_simp
  ultimately show ?thesis
    using update_terminates [OF ex_serves, of ex_date 7 0] by fastforce
qed

text \<open>
  A malformed request is answered with 400 after the answers of the good requests before it, its
  connection is closed and freed by the event that read it, and the poll callback that delivered
  this event then reads the descriptor of the freed object.
\<close>

theorem malformed_request_uses_freed_memory:
  assumes "map_of (sv_requests sv) i = Some r"
    and "request_at fd SERVER_REQUEST_NEED_MORE_DATA 1 False c (w, Some r) ins outs"
    and "env_ok e date" and "k_recv (w_sock w fd) = [Some chunk, None]"
    and "chunk \<noteq> []" and "clean chunk" and "length chunk \<le> read_size" and "length ins + length chunk < 2 ^ 31"
    and "drain (parse_http 16) (ins @ chunk) = (qs, rest, True)" and "list_all2 (answers e date) qs ts"
    and "length qs + 3 \<le> fuel"
    and "length outs + length (concat ts) + length (bad_request_text date) \<le> 2 ^ 62"
    and "revents AND POLLIN \<noteq> 0"
  shows "\<exists>w' lost. on_request (request_event fuel e Descriptor_Read) i (w, sv) = Some (w', put_request i None sv) \<and>
      map Some (outs @ concat ts @ bad_request_text date) = k_sent (w_sock w' fd) @ lost \<and>
      (\<exists>calls. w_calls w' = calls @ [Reactor_Delete fd, Close_Fd fd]) \<and>
      request_poll fuel e i revents (w, sv) = None"
proof -
  have fd: "stream_fd (rq_stream r) = fd" using assms(2) by (auto simp: request_at_def stream_view_def)
  have same: "set_sock fd ((w_sock w fd)\<lparr>k_recv := [Some chunk, None]\<rparr>) w = w"
    using assms(4) by (simp add: set_sock_def flip: assms(4))
  obtain s' where s': "http_arrive fuel e chunk (w, Some r) = Some s'"
    "freed_request fd s' (outs @ concat ts @ bad_request_text date)"
    using arrive_run [OF assms(2,3,5-12)] by auto
  have ev: "request_event fuel e Descriptor_Read (w, Some r) = Some s'"
    using s'(1) by (simp add: http_arrive_def live_def fd same)
  obtain w' where w': "s' = (w', None)" using s'(2) by (cases s') (auto simp: freed_request_def)
  have on: "on_request (request_event fuel e Descriptor_Read) i (w, sv) = Some (w', put_request i None sv)"
    using assms(1) ev w' by (simp add: on_request_def)
  moreover have "map_of (sv_requests (put_request i None sv)) i = None"
    by (simp add: map_of_put_request)
  then have "request_poll fuel e i revents (w, sv) = None"
    using on assms(1,13)
    by (auto simp: request_poll_def descriptor_callback_def dispatch_if_def split: bind_splits)
  ultimately show ?thesis using s'(2) w' by (auto simp: freed_request_def)
qed

definition bad_http_world :: "string \<Rightarrow> char world" where
  "bad_http_world chunk = ex_world\<lparr>w_sock := (\<lambda>_. \<lparr>k_recv = [Some chunk, None], k_send = [Sent 2], k_sent = []\<rparr>)\<rparr>"

definition ex_listener :: server where
  "ex_listener = (zero_server 6 [])\<lparr>sv_requests := [(5, new_request ex_stream)]\<rparr>"

lemma bad_world_request:
  "request_at 7 SERVER_REQUEST_NEED_MORE_DATA 1 False 0 (bad_http_world chunk, Some (new_request ex_stream)) [] ''abc''"
  using ex_view
  by (auto simp: request_at_def new_request_def stream_view_def bad_http_world_def ex_world_def)

lemma malformed_request_uses_freed_memory_witness:
  "request_poll 3 (program_env ex_date ex_server) 5 1 (bad_http_world [CHR 0x01, LF], ex_listener) = None"
proof -
  have "parse_http 16 [CHR 0x01, LF] = Malformed" by code_simp
  then have d: "drain (parse_http 16) ([] @ [CHR 0x01, LF]) = ([], [CHR 0x01, LF], True)"
    by (simp add: request_parser.drain_malformed)
  have date: "length ex_date = 29" by code_simp
  show ?thesis
    using malformed_request_uses_freed_memory [OF _ bad_world_request program_env_ok [OF date] _ _ _ _ _ d,
        where sv = ex_listener and i = 5 and ts = "[]" and fuel = 3 and revents = 1]
      bad_request_length [OF date]
    by (auto simp: ex_listener_def bad_http_world_def clean_def LF_def read_size_def)
qed

text \<open>
  C37. A peer that takes its answers slowly loses its connection: once the rest of the output has been
  sent by a write event, the stream reports \<open>STREAM_WRITE\<close>, which the server treats as a close. The
  answers are complete, but the idle keep-alive connection is closed and freed, and the poll callback
  goes on with the freed object.
\<close>

theorem slow_peer_is_dropped:
  assumes "map_of (sv_requests sv) i = Some r"
    and "request_at fd SERVER_REQUEST_NEED_MORE_DATA 1 trig c (w, Some r) ins outs"
    and "k_send (w_sock w fd) = Sent n # script" and "length outs \<le> n"
    and "revents AND POLLIN = 0" and "revents AND POLLOUT \<noteq> 0"
  shows "\<exists>w'. on_request (request_event fuel e Descriptor_Write) i (w, sv) = Some (w', put_request i None sv) \<and>
      k_sent (w_sock w' fd) = map Some outs \<and>
      (\<exists>calls. w_calls w' = calls @ [Reactor_Delete fd, Close_Fd fd]) \<and>
      request_poll fuel e i revents (w, sv) = None"
proof -
  have r: "rq_state r = SERVER_REQUEST_NEED_MORE_DATA" "rq_ref r = 1"
    and v: "stream_view fd (w, rq_stream r) ins outs"
    using assms(2) by (auto simp: request_at_def)
  obtain w1 st1 where w1: "stream_socket_write (w, rq_stream r) = Some (w1, st1)"
    "stream_view fd (w1, st1) ins outs" "k_sent (w_sock w1 fd) = map Some outs" "buf_size (st_output st1) = 0"
    using socket_write_all [OF v] assms(3,4) by auto
  let ?u = "stream_socket_update (w1, st1\<lparr>st_notify := False\<rparr>)"
  have "stream_view fd (w1, st1\<lparr>st_notify := False\<rparr>) ins outs"
    using w1(2) by (simp add: stream_view_def stream_fd_def)
  then have "stream_view fd ?u ins outs" by simp
  then have "request_at fd SERVER_REQUEST_NEED_MORE_DATA 1 (rq_event_triggered r) (rq_consumed r)
      (fst ?u, Some (r\<lparr>rq_stream := snd ?u\<rparr>)) ins outs"
    using r by (intro request_atI) simp_all
  then obtain s' where s': "server_close (fst ?u, Some (r\<lparr>rq_stream := snd ?u\<rparr>)) = Some s'"
    "freed_request fd s' outs" "w_sock (fst s') = w_sock (fst ?u)"
    using close_idle by fastforce
  have "request_event fuel e Descriptor_Write (w, Some r) = Some s'"
    using w1(1,4) s'(1)
    by (simp add: request_event_def live_def stream_socket_callback_def server_request_callback_def
        case_prod_beta)
  moreover obtain w' where w': "s' = (w', None)" using s'(2) by (cases s') (auto simp: freed_request_def)
  ultimately have on: "on_request (request_event fuel e Descriptor_Write) i (w, sv) =
      Some (w', put_request i None sv)"
    using assms(1) by (simp add: on_request_def)
  moreover have "request_poll fuel e i revents (w, sv) = None"
    using on assms(1,5,6) map_of_put_request [of i None sv i]
    by (auto simp: request_poll_def descriptor_callback_def dispatch_if_def split: bind_splits)
  moreover have "k_sent (w_sock w' fd) = map Some outs"
    using s'(3) w1(3) w' update_run(1) [of "(w1, st1\<lparr>st_notify := False\<rparr>)"] by simp
  ultimately show ?thesis using s'(2) w' by (auto simp: freed_request_def)
qed

lemma slow_peer_is_dropped_witness:
  "request_poll 3 (program_env ex_date ex_server) 5 4
     (ex_world\<lparr>w_sock := (\<lambda>_. \<lparr>k_recv = [], k_send = [Sent 3], k_sent = []\<rparr>)\<rparr>, ex_listener) = None"
proof -
  let ?w = "ex_world\<lparr>w_sock := (\<lambda>_. \<lparr>k_recv = [], k_send = [Sent 3], k_sent = []\<rparr>)\<rparr>"
  have "request_at 7 SERVER_REQUEST_NEED_MORE_DATA 1 False 0 (?w, Some (new_request ex_stream)) [] ''abc''"
    using ex_view by (auto simp: request_at_def new_request_def stream_view_def ex_world_def)
  from slow_peer_is_dropped [OF _ this, of ex_listener 5 3 "[]" 4] show ?thesis
    by (auto simp: ex_listener_def)
qed

text \<open>Between events every request of the list is held by the list alone, on an open descriptor.\<close>

definition server_idle :: "server \<Rightarrow> bool" where
  "server_idle sv \<longleftrightarrow>
     distinct (map fst (sv_requests sv)) \<and>
     list_all (\<lambda>(i, r). rq_ref r = 1 \<and> 0 \<le> stream_fd (rq_stream r)) (sv_requests sv)"

lemma release_all_run:
  assumes "server_idle sv"
  shows "\<exists>w'. release_all (map fst (sv_requests sv)) (w, sv) = Some (w', sv\<lparr>sv_requests := []\<rparr>) \<and>
    w_calls w' = w_calls w @ concat (map (\<lambda>(i, r). close_calls (stream_fd (rq_stream r))) (sv_requests sv)) \<and>
    set (h_live (w_heap w')) = set (h_live (w_heap w)) - (\<Union>(i, r) \<in> set (sv_requests sv). stream_blocks (rq_stream r))"
  using assms
proof (induction "sv_requests sv" arbitrary: sv w)
  case Nil
  then have "sv\<lparr>sv_requests := []\<rparr> = sv" by simp
  then show ?case using Nil by simp
next
  case (Cons ir rs)
  obtain i r where ir: "ir = (i, r)" by (cases ir)
  note reqs = Cons.hyps(2) [symmetric, unfolded ir]
  have r: "rq_ref r = 1" "0 \<le> stream_fd (rq_stream r)" "i \<notin> fst ` set rs"
    using Cons.prems by (auto simp: server_idle_def reqs)
  let ?w = "fst (stream_destruct (w, rq_stream r))" and ?sv = "put_request i None sv"
  have "filter (\<lambda>(j, _). j \<noteq> i) rs = rs" using r(3) by (force simp: filter_id_conv)
  then have sv: "?sv = sv\<lparr>sv_requests := rs\<rparr>" by (simp add: put_request_def reqs)
  have "size_add 1 (2 ^ 64 - 1) = 0" using size_add_pred [of 1] by simp
  then have "on_request server_release i (w, sv) = Some (?w, ?sv)"
    using r(1) by (simp add: on_request_def reqs server_release_def live_def Let_def)
  moreover have "server_idle ?sv" using Cons.prems by (auto simp: server_idle_def reqs sv)
  ultimately show ?case
    using Cons.hyps(1) [of ?sv ?w] stream_destruct_open [OF r(2), of w]
    by (auto simp: reqs sv)
qed

text \<open>
  C27. Shutting the server down closes every connection, the timer and the listening socket exactly once,
  in this order, frees the buffers of all connections and leaves the list empty; a second shutdown,
  as in \<open>server_destruct\<close>, asks for nothing more.
\<close>

theorem server_shutdown_closes_all:
  assumes "server_idle sv" and "sv_is_open sv" and "0 \<le> d_fd (sv_timer sv)" and "0 \<le> d_fd (sv_descriptor sv)"
  shows "\<exists>w' sv'. server_shutdown (w, sv) = Some (w', sv') \<and> sv_requests sv' = [] \<and> \<not> sv_is_open sv' \<and>
    w_calls w' = w_calls w @ concat (map (\<lambda>(i, r). close_calls (stream_fd (rq_stream r))) (sv_requests sv)) @
      close_calls (d_fd (sv_timer sv)) @ close_calls (d_fd (sv_descriptor sv)) \<and>
    set (h_live (w_heap w')) =
      set (h_live (w_heap w)) - (\<Union>(i, r) \<in> set (sv_requests sv). stream_blocks (rq_stream r)) \<and>
    server_destruct (w, sv) = Some (w', sv') \<and> server_shutdown (w', sv') = Some (w', sv')"
proof -
  obtain w1 where w1: "release_all (map fst (sv_requests sv)) (w, sv) = Some (w1, sv\<lparr>sv_requests := []\<rparr>)"
    "w_calls w1 = w_calls w @ concat (map (\<lambda>(i, r). close_calls (stream_fd (rq_stream r))) (sv_requests sv))"
    "set (h_live (w_heap w1)) =
      set (h_live (w_heap w)) - (\<Union>(i, r) \<in> set (sv_requests sv). stream_blocks (rq_stream r))"
    using release_all_run [OF assms(1)] by blast
  let ?w = "w1\<lparr>w_calls := w_calls w1 @ close_calls (d_fd (sv_timer sv)) @ close_calls (d_fd (sv_descriptor sv))\<rparr>"
  let ?d = "\<lparr>d_fd = -1, d_mask = 0\<rparr>"
  let ?sv = "sv\<lparr>sv_requests := [], sv_timer := ?d, sv_is_open := False, sv_descriptor := ?d\<rparr>"
  note D = server_shutdown_def server_destruct_def timer_clear_def on_timer_def on_server_descriptor_def
    descriptor_close_def descriptor_destruct_def descriptor_is_open_def close_calls_def
  have "server_shutdown (w, sv) = Some (?w, ?sv)"
    using w1(1) assms by (simp add: D) 
  moreover have "server_shutdown (?w, ?sv) = Some (?w, ?sv)" "timer_clear (?w, ?sv) = (?w, ?sv)"
    by (simp_all add: D)
  ultimately show ?thesis using w1(2,3) by (simp add: server_destruct_def)
qed

lemma server_shutdown_closes_all_witness:
  "\<exists>w' sv'. server_shutdown (ex_world, ex_listener\<lparr>sv_is_open := True, sv_timer := \<lparr>d_fd = 3, d_mask = 1\<rparr>,
      sv_descriptor := \<lparr>d_fd = 4, d_mask = 1\<rparr>\<rparr>) = Some (w', sv') \<and>
    w_calls w' = [Reactor_Delete 7, Close_Fd 7, Reactor_Delete 3, Close_Fd 3, Reactor_Delete 4, Close_Fd 4]"
proof -
  let ?sv = "ex_listener\<lparr>sv_is_open := True, sv_timer := \<lparr>d_fd = 3, d_mask = 1\<rparr>,
      sv_descriptor := \<lparr>d_fd = 4, d_mask = 1\<rparr>\<rparr>"
  have "server_idle ?sv"
    by (simp add: server_idle_def ex_listener_def new_request_def ex_stream_def stream_fd_def)
  from server_shutdown_closes_all [OF this, of ex_world] show ?thesis
    by (auto simp: ex_listener_def new_request_def ex_stream_def stream_fd_def close_calls_def ex_world_def)
qed

end
