(* ===== verification/Http_Reactor_Serving.thy ===== *)
theory Http_Reactor_Serving
  imports Http_Reactor Http_Properties
begin

text \<open>
  The HTTP server served through the event loop, against an abstract server that knows only the date, the
  bytes of each client that wait for more and the bytes each client was sent. An arrival of bytes and
  an expiration of the timer are one round of the loop each.
\<close>

subsection \<open>The abstract server\<close>

text \<open>Its own descriptors, listener and timer, and those of its clients in the order they came.\<close>

record http_view =
  vw_own :: "int list"
  vw_fds :: "int list"
  vw_date :: string
  vw_in :: "int \<Rightarrow> string"
  vw_out :: "int \<Rightarrow> string"

text \<open>
  New clients, each with the results that \<open>send\<close> will have on its socket; bytes of a client; what the timer's
  reads return and the time it is.
\<close>

datatype http_arrival =
    Clients "(http_accepted \<times> send_result list) list"
  | Bytes int string
  | Tick "nat list" tm

definition client_fds :: "(http_accepted \<times> send_result list) list \<Rightarrow> int list" where
  "client_fds cs = map (\<lambda>c. ha_fd (fst c)) cs"

definition new_client :: "http_accepted \<times> send_result list \<Rightarrow> bool" where
  "new_client c \<longleftrightarrow> ha_memory (fst c) \<and> ha_fstat (fst c) \<noteq> None \<and> valid_fd (ha_fd (fst c)) \<and>
     Send_error \<notin> set (snd c)"

text \<open>
  What the specification speaks of: not more clients than the reactor has slots, bytes that no request ends
  in the space of and that are no malformed request, a timer that has expired.
\<close>

fun in_scope :: "http_arrival \<Rightarrow> http_view \<Rightarrow> bool" where
  "in_scope (Clients cs) v \<longleftrightarrow> length cs \<le> 32 \<and> list_all new_client cs \<and>
     distinct (vw_own v @ vw_fds v @ client_fds cs) \<and>
     length (vw_own v @ vw_fds v @ client_fds cs) \<le> REACTOR_RING_ENTRIES"
| "in_scope (Bytes fd chunk) v \<longleftrightarrow> fd \<in> set (vw_fds v) \<and> chunk \<noteq> [] \<and> last chunk \<noteq> CHR '' '' \<and>
     length chunk \<le> 65536 \<and> \<not> snd (snd (drain (parse_http 16) (vw_in v fd @ chunk)))"
| "in_scope (Tick expirations t) v \<longleftrightarrow> sum_list expirations mod 2 ^ 64 \<noteq> 0 \<and> tm_ok t"

definition route_answer :: "string \<Rightarrow> string \<Rightarrow> string \<Rightarrow> phr_request \<Rightarrow> string" where
  "route_answer p msg date q = answer_text date p msg ([], seen_target q, [])"

text \<open>Every request that is complete is answered, with the date of this moment.\<close>

fun http_serve :: "string \<Rightarrow> string \<Rightarrow> http_arrival \<Rightarrow> http_view \<Rightarrow> http_view" where
  "http_serve p msg (Clients cs) v = v\<lparr>vw_fds := vw_fds v @ client_fds cs\<rparr>"
| "http_serve p msg (Bytes fd chunk) v =
     (case drain (parse_http 16) (vw_in v fd @ chunk) of
        (qs, rest, _) \<Rightarrow>
          v\<lparr>vw_in := (vw_in v)(fd := rest),
            vw_out := (vw_out v)(fd := vw_out v fd @ concat (map (route_answer p msg (vw_date v)) qs))\<rparr>)"
| "http_serve p msg (Tick expirations t) v = v\<lparr>vw_date := imf_date t\<rparr>"

definition http_spec :: "string \<Rightarrow> string \<Rightarrow> http_arrival \<Rightarrow> http_view \<Rightarrow> http_view option" where
  "http_spec p msg a v = (if in_scope a v then Some (http_serve p msg a v) else None)"

subsection \<open>The rounds of the loop\<close>

definition peer_sends :: "int \<Rightarrow> string \<Rightarrow> hloop \<Rightarrow> hloop" where
  "peer_sends fd chunk z =
     (case z of ((w, sv), sc) \<Rightarrow>
        ((set_sock fd ((w_sock w fd)\<lparr>k_recv := [Some chunk, None]\<rparr>) w, sv), sc))"

fun new_socks :: "(http_accepted \<times> send_result list) list \<Rightarrow> char world \<Rightarrow> char world" where
  "new_socks [] w = w"
| "new_socks (c # cs) w =
     new_socks cs (set_sock (ha_fd (fst c)) \<lparr>k_recv = [], k_send = snd c, k_sent = []\<rparr> w)"

definition peers_connect :: "(http_accepted \<times> send_result list) list \<Rightarrow> hloop \<Rightarrow> hloop" where
  "peers_connect cs z = ((new_socks cs (fst (fst z)), snd (fst z)), [map fst cs], snd (snd z))"

fun ready_fd :: "http_arrival \<Rightarrow> server \<Rightarrow> int" where
  "ready_fd (Clients cs) sv = d_fd (sv_descriptor sv)"
| "ready_fd (Bytes fd chunk) sv = fd"
| "ready_fd (Tick expirations t) sv = d_fd (sv_timer sv)"

fun surroundings :: "http_arrival \<Rightarrow> hloop \<Rightarrow> hloop" where
  "surroundings (Clients cs) z = peers_connect cs z"
| "surroundings (Bytes fd chunk) z = peer_sends fd chunk z"
| "surroundings (Tick expirations t) z = (fst z, fst (snd z), (expirations, t) # snd (snd z))"

definition http_round :: "http_server \<Rightarrow> nat \<Rightarrow> http_arrival \<Rightarrow> hloop \<times> int reactor \<Rightarrow> (hloop \<times> int reactor) option" where
  "http_round s fuel a zr =
     map_option snd (reactor_loop_once id (http_step (\<lambda>_. True) (route_handler s) fuel)
       (readable_round (ready_fd a (snd (fst (fst zr)))) (snd zr)) (surroundings a (fst zr), snd zr))"

definition request_fds :: "server \<Rightarrow> int list" where
  "request_fds sv = map (\<lambda>(i, r). stream_fd (rq_stream r)) (sv_requests sv)"

text \<open>The simulation: the server shows each of its clients what the abstract one does.\<close>

definition displays :: "http_view \<Rightarrow> hloop \<Rightarrow> bool" where
  "displays v z \<longleftrightarrow> hloop_ok z \<and> request_fds (snd (fst z)) = vw_fds v \<and>
     vw_own v = [d_fd (sv_descriptor (snd (fst z))), d_fd (sv_timer (snd (fst z)))] \<and>
     distinct (vw_own v @ vw_fds v) \<and> length (vw_date v) = 29 \<and> sv_date (snd (fst z)) = vw_date v @ [NUL] \<and>
     (\<forall>i r. (i, r) \<in> set (sv_requests (snd (fst z))) \<longrightarrow>
        stream_view (stream_fd (rq_stream r)) (fst (fst z), rq_stream r)
          (vw_in v (stream_fd (rq_stream r))) (vw_out v (stream_fd (rq_stream r)))) \<and>
     (\<forall>fd. drain (parse_http 16) (vw_in v fd) = ([], vw_in v fd, False)) \<and>
     (\<forall>fd. fd \<notin> set (vw_fds v) \<longrightarrow> vw_in v fd = [] \<and> vw_out v fd = [])"

lemma displaysI:
  assumes "displays v z" and "hloop_ok z'" and "vw_own v' = vw_own v"
    and "sv_descriptor (snd (fst z')) = sv_descriptor (snd (fst z))" and "sv_timer (snd (fst z')) = sv_timer (snd (fst z))"
    and "request_fds (snd (fst z')) = vw_fds v'" and "distinct (vw_own v' @ vw_fds v')"
    and "length (vw_date v') = 29" and "sv_date (snd (fst z')) = vw_date v' @ [NUL]"
    and "\<And>i r. (i, r) \<in> set (sv_requests (snd (fst z'))) \<Longrightarrow>
        stream_view (stream_fd (rq_stream r)) (fst (fst z'), rq_stream r)
          (vw_in v' (stream_fd (rq_stream r))) (vw_out v' (stream_fd (rq_stream r)))"
    and "\<And>fd. drain (parse_http 16) (vw_in v' fd) = ([], vw_in v' fd, False)"
    and "\<And>fd. fd \<notin> set (vw_fds v') \<Longrightarrow> vw_in v' fd = [] \<and> vw_out v' fd = []"
  shows "displays v' z'"
  using assms unfolding displays_def by simp

lemma displaysD:
  assumes "displays v z"
  shows "hloop_ok z" and "http_requests_ok (snd (fst z))" and "request_fds (snd (fst z)) = vw_fds v"
    and "vw_own v = [d_fd (sv_descriptor (snd (fst z))), d_fd (sv_timer (snd (fst z)))]"
    and "distinct (vw_own v @ vw_fds v)" and "length (vw_date v) = 29" and "sv_date (snd (fst z)) = vw_date v @ [NUL]"
    and "(i, r) \<in> set (sv_requests (snd (fst z))) \<Longrightarrow>
        stream_view (stream_fd (rq_stream r)) (fst (fst z), rq_stream r)
          (vw_in v (stream_fd (rq_stream r))) (vw_out v (stream_fd (rq_stream r)))"
    and "drain (parse_http 16) (vw_in v fd) = ([], vw_in v fd, False)"
    and "fd \<notin> set (vw_fds v) \<Longrightarrow> vw_in v fd = [] \<and> vw_out v fd = []"
  using assms unfolding displays_def hloop_ok_def by blast+

definition http_simulates :: "http_view \<Rightarrow> hloop \<times> int reactor \<Rightarrow> bool" where
  "http_simulates v zr \<longleftrightarrow> displays v (fst zr) \<and> reactor_serves (vw_own v @ vw_fds v) (snd zr) \<and>
     card (used_slots (snd zr)) \<le> length (vw_own v @ vw_fds v)"

subsection \<open>One completed poll of a readable connection\<close>

lemma env_of_program: "env_now (\<lambda>_. True) (route_handler s) sv = program_env date s"
  if "sv_date sv = date @ [NUL]"
  using that by (simp add: env_now_def program_env_def fun_eq_iff route_handler_def)

lemma request_poll_reads:
  assumes "map_of (sv_requests sv) i = Some r" and "idle_request r" and "stream_view fd (w, rq_stream r) ins outs"
    and "env_ok e date" and "responds_once e"
    and "chunk \<noteq> []" and "clean chunk" and "length chunk \<le> read_size" and "length ins + length chunk < 2 ^ 31"
    and "drain (parse_http 16) (ins @ chunk) = (qs, rest, False)" and "list_all2 (answers e date) qs ts"
    and "length qs + 3 \<le> fuel" and "length outs + length (concat ts) + length (bad_request_text date) \<le> 2 ^ 62"
  shows "\<exists>w' r'. request_poll fuel e i 1 (set_sock fd ((w_sock w fd)\<lparr>k_recv := [Some chunk, None]\<rparr>) w, sv) =
      Some (w', put_request i (Some r') sv) \<and> idle_request r' \<and>
    stream_view fd (w', rq_stream r') rest (outs @ concat ts) \<and> (\<forall>j. j \<noteq> fd \<longrightarrow> w_sock w' j = w_sock w j)"
proof -
  let ?w = "set_sock fd ((w_sock w fd)\<lparr>k_recv := [Some chunk, None]\<rparr>) w"
  have fd: "stream_fd (rq_stream r) = fd" "0 \<le> fd" using assms(3) by (auto simp: stream_view_def)
  have "request_at fd SERVER_REQUEST_NEED_MORE_DATA 1 False (rq_consumed r) (w, Some r) ins outs"
    using assms(2,3) by (intro request_atI) (simp_all add: idle_request_def)
  from arrive_run [OF this assms(4,6-13)]
  obtain s' where "http_arrive fuel e chunk (w, Some r) = Some s'"
    "request_at fd SERVER_REQUEST_NEED_MORE_DATA 1 False 0 s' rest (outs @ concat ts)" by auto
  then obtain w1 r1 where ev: "request_event fuel e Descriptor_Read (?w, Some r) = Some (w1, Some r1)"
    and v1: "stream_view fd (w1, rq_stream r1) rest (outs @ concat ts)"
    using fd(1) by (auto simp: http_arrive_def live_def request_at_def Let_def)
  have "idle_or_gone (?w, rq_stream r) (w1, Some r1)" by (rule request_event_idle [OF ev assms(5,2)])
  then have idle: "idle_request r1" "stream_quiet (?w, rq_stream r) (w1, rq_stream r1)"
    by (auto simp: idle_or_gone_def)
  have others: "w_sock w1 j = w_sock w j" if "j \<noteq> fd" for j
    using idle(2) that fd(1) by (simp add: stream_quiet_def set_sock_def)
  have here: "map_of (sv_requests (put_request i (Some r1) sv)) i = Some r1" by (rule map_of_put_some [OF assms(1)])
  have fd1: "stream_fd (rq_stream r1) = fd" using v1 by (simp add: stream_view_def)
  have "on_request (request_event fuel e Descriptor_Read) i (?w, sv) = Some (w1, put_request i (Some r1) sv)"
    using assms(1) ev by (simp add: on_request_def)
  then have "request_poll fuel e i 1 (?w, sv) =
      Some (w1\<lparr>w_calls := w_calls w1 @ [Poll_Resubmit fd]\<rparr>, put_request i (Some r1) sv)"
    using assms(1) here fd1 fd(2)
    by (simp add: request_poll_def descriptor_callback_def dispatch_if_def call_reactor_def stream_fd_def)
  moreover have "stream_view fd (w1\<lparr>w_calls := w_calls w1 @ [Poll_Resubmit fd]\<rparr>, rq_stream r1) rest (outs @ concat ts)"
    using v1 by (simp add: stream_view_def)
  ultimately show ?thesis using idle(1) others by (intro exI conjI) auto
qed

subsection \<open>A round with bytes\<close>

lemma request_of_fd_distinct:
  assumes "(i, r) \<in> set (sv_requests sv)" and "distinct (request_fds sv)"
  shows "request_of_fd (stream_fd (rq_stream r)) sv = Some i"
proof -
  obtain j q where f: "find (\<lambda>(j, q). stream_fd (rq_stream q) = stream_fd (rq_stream r)) (sv_requests sv) = Some (j, q)"
    using assms(1) by (cases "find (\<lambda>(j, q). stream_fd (rq_stream q) = stream_fd (rq_stream r)) (sv_requests sv)")
      (auto simp: find_None_iff)
  then have "(j, q) \<in> set (sv_requests sv)" "stream_fd (rq_stream q) = stream_fd (rq_stream r)"
    using nth_mem by (fastforce simp: find_Some_iff)+
  then have "(j, q) = (i, r)"
    using inj_onD [of "\<lambda>(i, r). stream_fd (rq_stream r)" "set (sv_requests sv)" "(j, q)" "(i, r)"] assms
    by (simp add: request_fds_def distinct_map)
  then show ?thesis using f by (simp add: request_of_fd_def)
qed

lemma put_request_fds:
  assumes "map_of (sv_requests sv) i = Some r" and "distinct (map fst (sv_requests sv))"
    and "stream_fd (rq_stream r') = stream_fd (rq_stream r)"
  shows "request_fds (put_request i (Some r') sv) = request_fds sv"
proof -
  have "q = r" if "(i, q) \<in> set (sv_requests sv)" for q
    using assms that by (metis map_of_is_SomeI option.inject)
  then show ?thesis using assms(3) by (auto simp: request_fds_def put_request_def)
qed

lemma poll_no_calls:
  "no_server_calls (set_sock fd k w, sv) = (set_sock fd k (w\<lparr>w_calls := []\<rparr>), sv)"
  by (simp add: no_server_calls_def set_sock_def)

lemma bytes_displayed:
  assumes disp: "displays v z" and sc: "in_scope (Bytes fd chunk) v"
    and srv: "serves s p msg" "length p < 2 ^ 32" and len: "length (vw_in v fd) + length chunk < 2 ^ 31"
    and fuel: "length (vw_in v fd) + length chunk + 3 \<le> fuel"
    and room: "length (vw_out (http_serve p msg (Bytes fd chunk) v) fd) \<le> 2 ^ 61"
  shows "\<exists>z' ms. http_step (\<lambda>_. True) (route_handler s) fuel fd 1 (peer_sends fd chunk z) = Some (z', ms @ [Poll_Resubmit fd]) \<and>
    set ms \<subseteq> range (Reactor_Modify fd) \<and> displays (http_serve p msg (Bytes fd chunk) v) z'"
proof -
  let ?v = "http_serve p msg (Bytes fd chunk) v"
  obtain w sv sc where z: "z = ((w, sv), sc)" by (metis surj_pair)
  have fd: "fd \<in> set (vw_fds v)" and chunk: "chunk \<noteq> []" "clean chunk" "length chunk \<le> read_size"
    using sc by (auto simp: clean_def read_size_def)
  obtain qs rest where d: "drain (parse_http 16) (vw_in v fd @ chunk) = (qs, rest, False)"
    using sc by (cases "drain (parse_http 16) (vw_in v fd @ chunk)") auto
  have v': "?v = v\<lparr>vw_in := (vw_in v)(fd := rest),
      vw_out := (vw_out v)(fd := vw_out v fd @ concat (map (route_answer p msg (vw_date v)) qs))\<rparr>"
    using d by simp
  have ok: "hloop_ok z" "http_requests_ok sv" and fds: "request_fds sv = vw_fds v" "distinct (vw_fds v)"
    and far: "fd \<noteq> d_fd (sv_descriptor sv)" "fd \<noteq> d_fd (sv_timer sv)"
    and date: "length (vw_date v) = 29" "sv_date sv = vw_date v @ [NUL]"
    and views: "\<And>i r. (i, r) \<in> set (sv_requests sv) \<Longrightarrow> stream_view (stream_fd (rq_stream r)) (w, rq_stream r)
        (vw_in v (stream_fd (rq_stream r))) (vw_out v (stream_fd (rq_stream r)))"
    and waits: "\<And>fd. drain (parse_http 16) (vw_in v fd) = ([], vw_in v fd, False)"
    using disp fd by (auto simp: displays_def z hloop_ok_def)
  obtain i r where ir: "(i, r) \<in> set (sv_requests sv)" "stream_fd (rq_stream r) = fd"
    using fd unfolding fds(1) [symmetric] by (auto simp: request_fds_def)
  have keys: "distinct (map fst (sv_requests sv))" using ok(2) by (simp add: http_requests_ok_def)
  have r: "map_of (sv_requests sv) i = Some r" "idle_request r"
    using ir(1) keys ok(2) by (auto simp: http_requests_ok_def list_all_iff)
  let ?e = "program_env (vw_date v) s" and ?w = "w\<lparr>w_calls := []\<rparr>" and ?ts = "map (route_answer p msg (vw_date v)) qs"
  have env: "env_now (\<lambda>_. True) (route_handler s) sv = ?e" by (rule env_of_program [OF date(2)])
  have view: "stream_view fd (?w, rq_stream r) (vw_in v fd) (vw_out v fd)"
    using views [OF ir(1)] ir(2) by (simp add: stream_view_def)
  have answered: "list_all2 (answers ?e (vw_date v)) qs ?ts"
    using program_answers_any [OF srv] by (auto simp: list.rel_map list_all2_same route_answer_def)
  have "length qs \<le> length (vw_in v fd @ chunk)" using request_parser.drain_count [of 16 "vw_in v fd @ chunk"] d by simp
  then have fuel': "length qs + 3 \<le> fuel" using fuel by simp
  have room': "length (vw_out v fd) + length (concat ?ts) + length (bad_request_text (vw_date v)) \<le> 2 ^ 62"
    using room bad_request_length [OF date(1)] d by simp
  have once: "responds_once ?e" using route_handler_once [of "\<lambda>_. True" s sv] env by simp
  obtain w' r' where p: "request_poll fuel ?e i 1 (set_sock fd ((w_sock ?w fd)\<lparr>k_recv := [Some chunk, None]\<rparr>) ?w, sv) =
      Some (w', put_request i (Some r') sv)" "idle_request r'"
    "stream_view fd (w', rq_stream r') rest (vw_out v fd @ concat ?ts)" "\<forall>j. j \<noteq> fd \<longrightarrow> w_sock w' j = w_sock ?w j"
    using request_poll_reads [OF r view program_env_ok [OF date(1)] once chunk len d answered fuel' room'] by blast
  have fd': "stream_fd (rq_stream r') = stream_fd (rq_stream r)" using p(3) ir(2) by (simp add: stream_view_def)
  let ?z = "peer_sends fd chunk z" and ?z' = "((w', put_request i (Some r') sv), sc)"
  have find: "request_of_fd fd sv = Some i" using request_of_fd_distinct [OF ir(1)] fds ir(2) by simp
  have step: "http_step (\<lambda>_. True) (route_handler s) fuel fd 1 ?z = Some (?z', w_calls w')"
    using p(1) find far by (simp add: http_step_def peer_sends_def z poll_no_calls env Let_def)
  have ok1: "hloop_ok ?z" using ok(1) by (simp add: hloop_ok_def peer_sends_def z)
  have sv1: "snd (fst ?z) = sv" by (simp add: peer_sends_def z)
  obtain ms where ms: "w_calls w' = ms @ [Poll_Resubmit fd]" "set ms \<subseteq> range (Reactor_Modify fd)"
    using http_step_request [OF step ok1] far once by (auto simp: sv1 env)
  have ok': "hloop_ok ?z'" using http_step_keeps [OF ok1 step] once by (simp add: sv1 env)
  have views': "stream_view (stream_fd (rq_stream q)) (w', rq_stream q)
      (vw_in ?v (stream_fd (rq_stream q))) (vw_out ?v (stream_fd (rq_stream q)))"
    if "(j, q) \<in> set (sv_requests (put_request i (Some r') sv))" for j q
  proof (cases "j = i")
    case True
    then have "q = r'" using that by (auto simp: put_request_def split: if_splits)
    then show ?thesis using p(3) fd' ir(2) by (simp add: d)
  next
    case False
    then have jq: "(j, q) \<in> set (sv_requests sv)" using that by (auto simp: put_request_def)
    have "stream_fd (rq_stream q) \<noteq> fd"
      using request_of_fd_distinct [OF jq] fds find False by auto
    then show ?thesis using views [OF jq] p(4) by (simp add: stream_view_def d)
  qed
  have waits': "drain (parse_http 16) rest = ([], rest, False)"
    using d by (auto intro: request_parser.drain_rest_waits)
  have "displays ?v ?z'"
  proof (rule displaysI [OF disp ok'])
    show "\<And>f. drain (parse_http 16) (vw_in ?v f) = ([], vw_in ?v f, False)" using waits waits' by (simp add: d)
    show "\<And>f. f \<notin> set (vw_fds ?v) \<Longrightarrow> vw_in ?v f = [] \<and> vw_out ?v f = []"
      using displaysD(10) [OF disp] fd by (auto simp: d)
  qed (use displaysD(5) [OF disp] put_request_fds [OF r(1) keys fd'] fds date views' in \<open>simp_all add: d z\<close>)
  then show ?thesis using step ms by (auto simp: z)
qed

subsection \<open>New clients\<close>

lemma new_socks_others: "fd \<notin> set (client_fds cs) \<Longrightarrow> w_sock (new_socks cs w) fd = w_sock w fd"
  by (induction cs w rule: new_socks.induct) (auto simp: client_fds_def set_sock_def)

lemma new_socks_at:
  assumes "c \<in> set cs" and "distinct (client_fds cs)"
  shows "w_sock (new_socks cs w) (ha_fd (fst c)) = \<lparr>k_recv = [], k_send = snd c, k_sent = []\<rparr>"
  using assms
proof (induction cs w rule: new_socks.induct)
  case (2 d cs w)
  show ?case
  proof (cases "c \<in> set cs")
    case True
    then show ?thesis using 2 by (simp add: client_fds_def)
  next
    case False
    then have "d = c" using "2.prems"(1) by simp
    moreover have "ha_fd (fst d) \<notin> set (client_fds cs)" using "2.prems"(2) by (auto simp: client_fds_def)
    ultimately show ?thesis using new_socks_others [of "ha_fd (fst c)" cs] by (simp add: set_sock_def)
  qed
qed simp

definition clean_sock :: "char world \<Rightarrow> int \<Rightarrow> bool" where
  "clean_sock w fd \<longleftrightarrow> k_sent (w_sock w fd) = [] \<and> Send_error \<notin> set (k_send (w_sock w fd))"

lemma accepts_run:
  assumes "list_all new_client cs" and "list_all (clean_sock w) (client_fds cs)" and "length cs \<le> n"
    and "http_requests_ok sv"
  shows "\<exists>w' sv'. http_accept_loop (\<lambda>_. True) n (map fst cs) (w, sv) = Some ([], w', sv') \<and> w_sock w' = w_sock w \<and>
    w_calls w' = w_calls w @ map (\<lambda>f. Reactor_Add f POLLIN) (client_fds cs) \<and>
    request_fds sv' = request_fds sv @ client_fds cs \<and>
    (\<forall>(i, r) \<in> set (sv_requests sv') - set (sv_requests sv).
       stream_view (stream_fd (rq_stream r)) (w, rq_stream r) [] [] \<and> stream_fd (rq_stream r) \<in> set (client_fds cs))"
  using assms
proof (induction cs arbitrary: n w sv)
  case Nil
  then show ?case by (cases n) (simp_all add: client_fds_def)
next
  case (Cons c cs)
  obtain m where n: "n = Suc m" using Cons.prems(3) by (cases n) simp_all
  obtain b where c: "ha_memory (fst c)" "ha_fstat (fst c) = Some b" "0 \<le> ha_fd (fst c)"
    "k_sent (w_sock w (ha_fd (fst c))) = []" "Send_error \<notin> set (k_send (w_sock w (ha_fd (fst c))))"
    using Cons.prems(1,2) by (auto simp: new_client_def valid_fd_def clean_sock_def client_fds_def split: prod.splits)
  have "sv_next sv \<notin> fst ` set (sv_requests sv)"
    using Cons.prems(4) by (fastforce simp: http_requests_ok_def list_all_iff)
  then have free: "map_of (sv_requests sv) (sv_next sv) = None" by (simp add: map_of_eq_None_iff)
  obtain w1 st where a: "server_socket_accept (\<lambda>_. True) (fst c) (w, sv) = Some (w1, add_request st sv)"
    and v: "request_at (ha_fd (fst c)) SERVER_REQUEST_NEED_MORE_DATA 1 False 0 (w1, Some (new_request st)) [] []"
    and w1: "w_sock w1 = w_sock w" "w_calls w1 = w_calls w @ [Reactor_Add (ha_fd (fst c)) POLLIN]"
    using accept_run [OF c free] by (auto simp: add_request_def)
  have st: "stream_view (ha_fd (fst c)) (w, st) [] []" "stream_fd st = ha_fd (fst c)"
    using v w1(1) by (auto simp: request_at_def new_request_def stream_view_def)
  have ok: "http_requests_ok (add_request st sv)" by (rule add_request_ok [OF Cons.prems(4)]) (simp add: st(2) c(3))
  have same: "clean_sock w1 = clean_sock w" "\<And>fd st xs ys. stream_view fd (w1, st) xs ys = stream_view fd (w, st) xs ys"
    by (auto simp: fun_eq_iff clean_sock_def stream_view_def w1(1))
  have fds: "request_fds (add_request st sv) = request_fds sv @ [ha_fd (fst c)]"
    by (simp add: request_fds_def add_request_def new_request_def st(2))
  obtain w2 sv2 where r: "http_accept_loop (\<lambda>_. True) m (map fst cs) (w1, add_request st sv) = Some ([], w2, sv2)"
    "w_sock w2 = w_sock w1" "w_calls w2 = w_calls w1 @ map (\<lambda>f. Reactor_Add f POLLIN) (client_fds cs)"
    "request_fds sv2 = request_fds (add_request st sv) @ client_fds cs"
    "\<forall>(i, r) \<in> set (sv_requests sv2) - set (sv_requests (add_request st sv)).
       stream_view (stream_fd (rq_stream r)) (w1, rq_stream r) [] [] \<and> stream_fd (rq_stream r) \<in> set (client_fds cs)"
    using Cons.IH [of w1 m "add_request st sv"] Cons.prems ok n
    by (auto simp: same client_fds_def split: prod.splits)
  have hd_fd: "client_fds (c # cs) = ha_fd (fst c) # client_fds cs" by (simp add: client_fds_def case_prod_beta)
  have "stream_view (stream_fd (rq_stream q)) (w, rq_stream q) [] [] \<and> stream_fd (rq_stream q) \<in> set (client_fds (c # cs))"
    if q: "(i, q) \<in> set (sv_requests sv2) - set (sv_requests sv)" for i q
  proof (cases "(i, q) \<in> set (sv_requests (add_request st sv))")
    case True
    then have "q = new_request st" using q by (simp add: add_request_def)
    then show ?thesis using st by (simp add: new_request_def hd_fd)
  next
    case False
    then show ?thesis using r(5) q by (auto simp: same hd_fd)
  qed
  then show ?case using r(1-4) a w1 fds by (auto simp: n hd_fd)
qed

lemma clients_displayed:
  assumes disp: "displays v z" and sc: "in_scope (Clients cs) v" and fd: "0 \<le> d_fd (sv_descriptor (snd (fst z)))"
  shows "\<exists>z'. http_step (\<lambda>_. True) (route_handler s) fuel (d_fd (sv_descriptor (snd (fst z)))) 1 (peers_connect cs z) =
      Some (z', map (\<lambda>f. Reactor_Add f POLLIN) (client_fds cs) @ [Poll_Resubmit (d_fd (sv_descriptor (snd (fst z))))]) \<and>
    displays (http_serve p msg (Clients cs) v) z'"
proof -
  obtain w sv cl ts where z: "z = ((w, sv), cl, ts)" by (metis surj_pair)
  let ?w = "(new_socks cs w)\<lparr>w_calls := []\<rparr>" and ?fd = "d_fd (sv_descriptor sv)"
  have ok: "http_requests_ok sv" using displaysD(2) [OF disp] by (simp add: z)
  have new: "list_all new_client cs" "length cs \<le> 32" and dist: "distinct (vw_own v @ vw_fds v @ client_fds cs)"
    using sc by simp_all
  have clean: "list_all (clean_sock ?w) (client_fds cs)"
    using new(1) new_socks_at [of _ cs w] dist
    by (auto simp: list_all_iff clean_sock_def client_fds_def new_client_def split: prod.splits)
  obtain w' sv' where acc: "http_accept_loop (\<lambda>_. True) 32 (map fst cs) (?w, sv) = Some ([], w', sv')" "w_sock w' = w_sock ?w"
    "w_calls w' = map (\<lambda>f. Reactor_Add f POLLIN) (client_fds cs)" "request_fds sv' = request_fds sv @ client_fds cs"
    and views: "\<forall>(i, r) \<in> set (sv_requests sv') - set (sv_requests sv).
       stream_view (stream_fd (rq_stream r)) (?w, rq_stream r) [] [] \<and> stream_fd (rq_stream r) \<in> set (client_fds cs)"
    using accepts_run [OF new(1) clean new(2) ok] by auto
  have ge: "list_all (\<lambda>a. 0 \<le> ha_fd a) (map fst cs)"
    using new(1) by (auto simp: list_all_iff new_client_def valid_fd_def)
  have keep: "http_requests_ok sv'" "sv_descriptor sv' = sv_descriptor sv" "sv_timer sv' = sv_timer sv" "sv_date sv' = sv_date sv"
    using http_accept_loop_ok [OF acc(1) _ ge] ok by simp_all
  let ?calls = "w_calls w' @ [Poll_Resubmit ?fd]"
  let ?z' = "((w'\<lparr>w_calls := ?calls\<rparr>, sv'), [[]], ts)"
  have ev: "accept_event (\<lambda>_. True) Descriptor_Read ((?w, sv), [map fst cs], ts) = Some ((w', sv'), [[]], ts)"
    using acc(1) by (simp add: accept_event_def server_socket_descriptor_callback_def next_clients_def put_back_def)
  have step: "http_step (\<lambda>_. True) (route_handler s) fuel ?fd 1 (peers_connect cs z) = Some (?z', ?calls)"
    using ev fd
    by (simp add: http_step_def peers_connect_def z no_server_calls_def accept_poll_def descriptor_callback_def
        dispatch_if_def call_reactor_def keep(2))
  have views': "stream_view (stream_fd (rq_stream r)) (w'\<lparr>w_calls := ?calls\<rparr>, rq_stream r)
      (vw_in v (stream_fd (rq_stream r))) (vw_out v (stream_fd (rq_stream r)))"
    if ir: "(i, r) \<in> set (sv_requests sv')" for i r
  proof (cases "(i, r) \<in> set (sv_requests sv)")
    case True
    then have v: "stream_view (stream_fd (rq_stream r)) (w, rq_stream r)
        (vw_in v (stream_fd (rq_stream r))) (vw_out v (stream_fd (rq_stream r)))"
      using displaysD(8) [OF disp] by (simp add: z)
    have "stream_fd (rq_stream r) \<in> set (request_fds sv)" using True by (force simp: request_fds_def)
    then have "stream_fd (rq_stream r) \<in> set (vw_fds v)" using displaysD(3) [OF disp] by (simp add: z)
    then have "stream_fd (rq_stream r) \<notin> set (client_fds cs)" using dist by auto
    from new_socks_others [OF this] show ?thesis using v by (simp add: stream_view_def acc(2))
  next
    case False
    then have r: "stream_view (stream_fd (rq_stream r)) (?w, rq_stream r) [] []" "stream_fd (rq_stream r) \<in> set (client_fds cs)"
      using views ir by auto
    then have "stream_fd (rq_stream r) \<notin> set (vw_fds v)" using dist by auto
    then show ?thesis using displaysD(10) [OF disp] r(1) by (simp add: stream_view_def acc(2))
  qed
  have "displays (http_serve p msg (Clients cs) v) ?z'"
  proof (rule displaysI [OF disp])
    show "hloop_ok ?z'" using keep(1) by (simp add: hloop_ok_def)
    show "request_fds (snd (fst ?z')) = vw_fds (http_serve p msg (Clients cs) v)"
      using acc(4) displaysD(3) [OF disp] by (simp add: z)
    show "distinct (vw_own (http_serve p msg (Clients cs) v) @ vw_fds (http_serve p msg (Clients cs) v))"
      using dist by simp
    show "length (vw_date (http_serve p msg (Clients cs) v)) = 29" using displaysD(6) [OF disp] by simp
    show "sv_date (snd (fst ?z')) = vw_date (http_serve p msg (Clients cs) v) @ [NUL]"
      using displaysD(7) [OF disp] by (simp add: z keep(4))
  qed (use keep(2,3) views' displaysD(9,10) [OF disp] in \<open>simp_all add: z\<close>)
  then show ?thesis using step acc(3) by (auto simp: z)
qed

subsection \<open>Every round is simulated\<close>

text \<open>The loop runs the handler, and serves the same descriptors after it.\<close>

lemma served_round:
  assumes sim: "http_simulates v (z, r)" and fd: "fd \<in> set (vw_own v @ vw_fds v)" and z0: "hloop_ok z0"
    and disp: "displays v' z'" and same: "vw_own v' = vw_own v" "vw_fds v' = vw_fds v"
    and step: "http_step (\<lambda>_. True) (route_handler s) fuel fd 1 z0 = Some (z', ms @ [Poll_Resubmit fd])"
    and ms: "set ms \<subseteq> range (Reactor_Modify fd)"
  shows "\<exists>zr'. map_option snd (reactor_loop_once id (http_step (\<lambda>_. True) (route_handler s) fuel)
      (readable_round fd r) (z0, r)) = Some zr' \<and> http_simulates v' zr'"
proof -
  have re: "reactor_serves (vw_own v @ vw_fds v) r" using sim by (simp add: http_simulates_def)
  then have cq: "rc_cq r = []" and good: "http_loop.good True [] (z0, r)"
    using z0 by (simp_all add: reactor_serves_def http_loop.good_def)
  obtain sl where sl: "reactor_slot_find fd r = Some sl" using re fd by (auto simp: reactor_serves_def)
  have "http_step (\<lambda>_. True) (route_handler s) fuel (id fd) 1 z0 = Some (z', ms @ [Poll_Resubmit fd])"
    using step by simp
  from http_loop.readable_round_good [OF good cq sl this ms]
  obtain r' where run: "reactor_loop_once id (http_step (\<lambda>_. True) (route_handler s) fuel) (readable_round fd r)
      (z0, r) = Some (1, z', r')"
    and r': "http_loop.good True [] (z', r')" "rc_cq r' = []" "rc_fds r' = rc_fds r" "used_slots r' = used_slots r" by blast
  have "reactor_serves (vw_own v @ vw_fds v) r'"
    using r' by (intro serves_same [OF re]) (simp_all add: http_loop.good_def)
  then show ?thesis using run disp sim r'(4) by (simp add: http_simulates_def same)
qed

lemma own_registered:
  assumes "http_simulates v (z, r)" and "fd \<in> set (vw_own v @ vw_fds v)"
  shows "0 \<le> fd"
  using assms by (auto simp: http_simulates_def reactor_serves_def reactor_slot_find_def split: if_splits)

lemma bytes_simulated:
  assumes sim: "http_simulates v (z, r)" and sc: "in_scope (Bytes fd chunk) v"
    and srv: "serves s p msg" "length p < 2 ^ 32" and len: "length (vw_in v fd) + length chunk < 2 ^ 31"
    and fuel: "length (vw_in v fd) + length chunk + 3 \<le> fuel"
    and room: "length (vw_out (http_serve p msg (Bytes fd chunk) v) fd) \<le> 2 ^ 61"
  shows "\<exists>zr'. http_round s fuel (Bytes fd chunk) (z, r) = Some zr' \<and> http_simulates (http_serve p msg (Bytes fd chunk) v) zr'"
proof -
  have disp: "displays v z" using sim by (simp add: http_simulates_def)
  obtain z' ms where step: "http_step (\<lambda>_. True) (route_handler s) fuel fd 1 (peer_sends fd chunk z) = Some (z', ms @ [Poll_Resubmit fd])"
    and ms: "set ms \<subseteq> range (Reactor_Modify fd)" and disp': "displays (http_serve p msg (Bytes fd chunk) v) z'"
    using bytes_displayed [OF disp sc srv len fuel room] by blast
  have ok: "hloop_ok (peer_sends fd chunk z)"
    using displaysD(1) [OF disp] by (cases z) (auto simp: hloop_ok_def peer_sends_def)
  show ?thesis
    using served_round [OF sim _ ok disp' _ _ step ms] sc by (simp add: http_round_def split: prod.splits)
qed

lemma tick_simulated:
  assumes sim: "http_simulates v (z, r)" and sc: "in_scope (Tick expirations t) v"
  shows "\<exists>zr'. http_round s fuel (Tick expirations t) (z, r) = Some zr' \<and>
    http_simulates (http_serve p msg (Tick expirations t) v) zr'"
proof -
  obtain w sv clients ts where z: "z = ((w, sv), clients, ts)" by (metis surj_pair)
  have disp: "displays v z" using sim by (simp add: http_simulates_def)
  have date: "length (sv_date sv) = 30" using displaysD(6,7) [OF disp] by (simp add: z)
  let ?fd = "d_fd (sv_timer sv)" and ?sv = "sv\<lparr>sv_date := imf_date t @ [NUL]\<rparr>"
  have own: "vw_own v = [d_fd (sv_descriptor sv), ?fd]" using displaysD(4) [OF disp] by (simp add: z)
  then have fd: "0 \<le> ?fd" "?fd \<noteq> d_fd (sv_descriptor sv)"
    using own_registered [OF sim, of ?fd] displaysD(5) [OF disp] by auto
  let ?z0 = "((w, sv), clients, (expirations, t) # ts)"
    and ?z' = "((w\<lparr>w_calls := [Poll_Resubmit ?fd]\<rparr>, ?sv), clients, ts)"
  have t: "sum_list expirations mod 2 ^ 64 \<noteq> 0" "tm_ok t" using sc by simp_all
  have step: "http_step (\<lambda>_. True) (route_handler s) fuel ?fd 1 ?z0 = Some (?z', [] @ [Poll_Resubmit ?fd])"
    using t(1) date_update_run [OF t(2) date] fd
    by (simp add: http_step_def timer_poll_def timer_event_def timer_expired_def descriptor_callback_def
        dispatch_if_def no_server_calls_def call_reactor_def)
  have z0: "hloop_ok ?z0" using displaysD(1) [OF disp] by (simp add: hloop_ok_def z)
  have disp': "displays (http_serve p msg (Tick expirations t) v) ?z'"
  proof (rule displaysI [OF disp])
    show "hloop_ok ?z'" using displaysD(1) [OF disp] by (simp add: hloop_ok_def z http_requests_ok_def)
    show "request_fds (snd (fst ?z')) = vw_fds (http_serve p msg (Tick expirations t) v)"
      using displaysD(3) [OF disp] by (simp add: z request_fds_def)
    show "distinct (vw_own (http_serve p msg (Tick expirations t) v) @ vw_fds (http_serve p msg (Tick expirations t) v))"
      using displaysD(5) [OF disp] by simp
  qed (use displaysD(8-10) [OF disp] imf_date_length [OF t(2)] in \<open>simp_all add: z stream_view_def\<close>)
  show ?thesis
    using served_round [OF sim _ z0 disp' _ _ step] by (simp add: http_round_def z own)
qed

lemma clients_round:
  assumes sim: "http_simulates v (z, r)" and sc: "in_scope (Clients cs) v"
  shows "\<exists>zr'. reactor_loop_once id (http_step (\<lambda>_. True) (route_handler s) fuel)
      (readable_round (d_fd (sv_descriptor (snd (fst z)))) r) (peers_connect cs z, r) = Some (1, zr') \<and>
    http_simulates (http_serve p msg (Clients cs) v) zr'"
proof -
  let ?fd = "d_fd (sv_descriptor (snd (fst z)))" and ?v = "http_serve p msg (Clients cs) v"
    and ?step = "http_step (\<lambda>_. True) (route_handler s) fuel" and ?adds = "map (\<lambda>f. Reactor_Add f POLLIN) (client_fds cs)"
  have disp: "displays v z" and re: "reactor_serves (vw_own v @ vw_fds v) r"
    and used: "card (used_slots r) \<le> length (vw_own v @ vw_fds v)" using sim by (simp_all add: http_simulates_def)
  have own: "?fd \<in> set (vw_own v @ vw_fds v)" using displaysD(4) [OF disp] by simp
  obtain z' where step: "?step ?fd 1 (peers_connect cs z) = Some (z', ?adds @ [Poll_Resubmit ?fd])"
    and disp': "displays ?v z'"
    using clients_displayed [OF disp sc own_registered [OF sim own]] by blast
  have "list_all (\<lambda>a. 0 \<le> ha_fd a) (map fst cs)"
    using sc by (auto simp: list_all_iff new_client_def valid_fd_def)
  then have "hloop_ok (peers_connect cs z)" using displaysD(2) [OF disp] by (simp add: hloop_ok_def peers_connect_def)
  then have good: "http_loop.good True [] (peers_connect cs z, r)" and cq: "rc_cq r = []"
    using re by (simp_all add: reactor_serves_def http_loop.good_def)
  obtain sl where sl: "reactor_slot_find ?fd r = Some sl" using re own by (auto simp: reactor_serves_def)
  have step': "?step (id ?fd) 1 (peers_connect cs z) = Some (z', ?adds @ [Poll_Resubmit ?fd])" using step by simp
  have valid: "list_all valid_fd (client_fds cs)"
    using sc by (auto simp: list_all_iff client_fds_def new_client_def)
  have room: "card (used_slots r) + length (client_fds cs) \<le> REACTOR_RING_ENTRIES"
    using used sc by simp
  from http_loop.adding_round_good [OF good cq sl step' room valid]
  obtain r' where run: "reactor_loop_once id ?step (readable_round ?fd r) (peers_connect cs z, r) = Some (1, z', r')"
    and r': "http_loop.good True [] (z', r')" "rc_cq r' = []"
      "card (used_slots r') \<le> card (used_slots r) + length (client_fds cs)"
      "\<forall>f. reactor_slot_find f r \<noteq> None \<or> f \<in> set (client_fds cs) \<longrightarrow> reactor_slot_find f r' \<noteq> None" by blast
  have "reactor_serves (vw_own ?v @ vw_fds ?v) r'"
    using re r' by (auto simp: reactor_serves_def http_loop.good_def)
  then show ?thesis
    using run disp' used r'(3) by (simp add: http_simulates_def)
qed

lemma clients_simulated:
  assumes "http_simulates v (z, r)" and "in_scope (Clients cs) v"
  shows "\<exists>zr'. http_round s fuel (Clients cs) (z, r) = Some zr' \<and> http_simulates (http_serve p msg (Clients cs) v) zr'"
  using clients_round [OF assms, of s fuel p msg] by (auto simp: http_round_def)

subsection \<open>All arrivals\<close>

text \<open>What the client on \<open>fd\<close> sends, of all that arrives.\<close>

fun received :: "int \<Rightarrow> http_arrival list \<Rightarrow> string" where
  "received fd [] = []"
| "received fd (Bytes f chunk # as) = (if f = fd then chunk @ received fd as else received fd as)"
| "received fd (_ # as) = received fd as"

lemma serve_in: "length (vw_in (http_serve p msg a v) fd) + length (received fd as) \<le>
    length (vw_in v fd) + length (received fd (a # as))"
proof (cases a)
  case (Bytes f chunk)
  obtain qs rest bad where d: "drain (parse_http 16) (vw_in v f @ chunk) = (qs, rest, bad)"
    by (cases "drain (parse_http 16) (vw_in v f @ chunk)")
  have "length rest \<le> length (vw_in v f) + length chunk"
    using drain_length [of "parse_http 16" "vw_in v f @ chunk"] d by simp
  then show ?thesis by (auto simp: Bytes d)
qed simp_all

lemma serve_out: "length (vw_out v fd) \<le> length (vw_out (http_serve p msg a v) fd)"
  by (cases a) (auto split: prod.splits)

lemma spec_run_Cons:
  assumes "run_all (http_spec p msg) (a # as) v = Some v'"
  shows "in_scope a v" and "run_all (http_spec p msg) as (http_serve p msg a v) = Some v'"
proof -
  obtain u where u: "http_spec p msg a v = Some u" "run_all (http_spec p msg) as u = Some v'"
    using assms by (auto split: bind_splits)
  then show "in_scope a v" "run_all (http_spec p msg) as (http_serve p msg a v) = Some v'"
    by (auto simp: http_spec_def split: if_splits)
qed

lemma serves_out: "run_all (http_spec p msg) as v = Some v' \<Longrightarrow> length (vw_out v fd) \<le> length (vw_out v' fd)"
proof (induction as arbitrary: v)
  case (Cons a as)
  show ?case using Cons.IH [OF spec_run_Cons(2) [OF Cons.prems]] serve_out order_trans by blast
qed simp

lemma arrivals_simulated:
  assumes "http_simulates v zr" and "run_all (http_spec p msg) as v = Some v'"
    and srv: "serves s p msg" "length p < 2 ^ 32"
    and "\<And>fd. length (vw_in v fd) + length (received fd as) < 2 ^ 31"
    and "\<And>fd. length (vw_in v fd) + length (received fd as) + 3 \<le> fuel"
    and room: "\<And>fd. length (vw_out v' fd) \<le> 2 ^ 61"
  shows "\<exists>zr'. run_all (http_round s fuel) as zr = Some zr' \<and> http_simulates v' zr'"
  using assms(1,2,5,6)
proof (induction as arbitrary: v zr)
  case Nil
  then show ?case by simp
next
  case (Cons a as)
  let ?v = "http_serve p msg a v"
  obtain z r where zr: "zr = (z, r)" by (cases zr)
  have sc: "in_scope a v" and rest: "run_all (http_spec p msg) as ?v = Some v'"
    using spec_run_Cons [OF Cons.prems(2)] by simp_all
  have sim: "http_simulates v (z, r)" using Cons.prems(1) by (simp add: zr)
  have "\<exists>zr'. http_round s fuel a (z, r) = Some zr' \<and> http_simulates ?v zr'"
  proof (cases a)
    case (Clients cs)
    then show ?thesis using clients_simulated [OF sim] sc by simp
  next
    case (Bytes fd chunk)
    have "length (vw_in v fd) + length chunk < 2 ^ 31" "length (vw_in v fd) + length chunk + 3 \<le> fuel"
      using Cons.prems(3,4) [of fd] by (simp_all add: Bytes)
    moreover have "length (vw_out (http_serve p msg (Bytes fd chunk) v) fd) \<le> 2 ^ 61"
      using serves_out [OF rest, of fd] room [of fd] by (simp add: Bytes del: http_serve.simps)
    ultimately show ?thesis
      using bytes_simulated [OF sim _ srv] sc unfolding Bytes by blast
  next
    case (Tick expirations t)
    then show ?thesis using tick_simulated [OF sim] sc by simp
  qed
  then obtain zr' where one: "http_round s fuel a zr = Some zr'" "http_simulates ?v zr'" by (auto simp: zr)
  have len: "length (vw_in ?v fd) + length (received fd as) < 2 ^ 31"
    "length (vw_in ?v fd) + length (received fd as) + 3 \<le> fuel" for fd
    using le_less_trans [OF serve_in Cons.prems(3)] order_trans [OF add_le_mono1 [OF serve_in] Cons.prems(4)] by blast+
  show ?case using Cons.IH [OF one(2) rest len] one(1) by simp
qed

end
