(* ===== verification/Http_Reactor_Properties.thy ===== *)
theory Http_Reactor_Properties
  imports Http_Reactor_Serving
begin

text \<open>
  The HTTP server from its start on: what its clients are sent, whatever arrives in whatever order.
\<close>

subsection \<open>The start of a worker\<close>

text \<open>
  A worker before its loop, as \<open>server_infrastructure_start\<close> brings it there: the reactor and the server are
  constructed, the timer is set and the listener is opened. \<open>tfd\<close> is the timer's descriptor.
\<close>

definition http_start :: "tm \<Rightarrow> int \<Rightarrow> int \<Rightarrow> char world \<Rightarrow> nat \<Rightarrow> string \<Rightarrow> (hloop \<times> int reactor) option" where
  "http_start t fd tfd w i m =
     do { r \<leftarrow> reactor_construct True (True, False) [];
          sv \<leftarrow> server_construct t i m;
          ws \<leftarrow> server_open tfd fd (no_server_calls (w, sv));
          r \<leftarrow> run_calls id (w_calls (fst ws)) r;
          Some ((ws, [], []), r) }"

definition http_started :: "tm \<Rightarrow> int \<Rightarrow> int \<Rightarrow> http_view" where
  "http_started t fd tfd =
     \<lparr>vw_own = [fd, tfd], vw_fds = [], vw_date = imf_date t, vw_in = (\<lambda>_. []), vw_out = (\<lambda>_. [])\<rparr>"

lemma start_simulated:
  assumes "tm_ok t" and "length m = 30" and "valid_fd fd" and "valid_fd tfd" and "fd \<noteq> tfd"
  shows "\<exists>zr. http_start t fd tfd w i m = Some zr \<and> http_simulates (http_started t fd tfd) zr"
proof -
  obtain r0 :: "int reactor" where c: "reactor_construct True (True, False) [] = Some r0"
    by (auto simp: reactor_construct_def)
  note r0 = construct_reactor [OF c]
  let ?calls = "map (\<lambda>f. Reactor_Add f POLLIN) [tfd, fd]"
  have "card (used_slots r0) + length [tfd, fd] \<le> REACTOR_RING_ENTRIES"
    by (simp add: r0(5) REACTOR_RING_ENTRIES_def)
  then obtain r1 where r1: "run_calls id ?calls r0 = Some r1" "reactor_ok id [] r1"
    "card (used_slots r1) \<le> card (used_slots r0) + length [tfd, fd]"
    "\<forall>f. reactor_slot_find f r0 \<noteq> None \<or> f \<in> set [tfd, fd] \<longrightarrow> reactor_slot_find f r1 \<noteq> None"
    using adds_register [OF r0(1), where fds = "[tfd, fd]" and m = POLLIN and own = id] assms(3,4) by auto
  have pol: "all_taken r1" "polled UNIV r1"
    using run_calls_ok [OF r0(1), where own = id and cs = ?calls and A = UNIV] r1(1) r0(2) r0(3) [of UNIV] by auto
  have cq: "rc_cq r1 = []" using run_calls_cq [OF r1(1)] r0(4) by simp
  let ?sv = "(zero_server i (imf_date t @ [NUL]))\<lparr>sv_timer := \<lparr>d_fd = tfd, d_mask = 1\<rparr>,
      sv_descriptor := \<lparr>d_fd = fd, d_mask = 1\<rparr>, sv_is_open := True\<rparr>"
  have con: "server_construct t i m = Some ((zero_server i (imf_date t @ [NUL]))\<lparr>sv_timer := \<lparr>d_fd = -1, d_mask = 0\<rparr>\<rparr>)"
    using date_update_run [OF assms(1,2)] by (simp add: server_construct_def zero_server_def descriptor_construct_def Let_def)
  have op: "server_open tfd fd (no_server_calls (w, (zero_server i (imf_date t @ [NUL]))\<lparr>sv_timer := \<lparr>d_fd = -1, d_mask = 0\<rparr>\<rparr>)) =
      Some (w\<lparr>w_calls := ?calls\<rparr>, ?sv)"
    using assms(4)
    by (auto simp: server_open_def timer_set_def on_timer_def on_server_descriptor_def no_server_calls_def zero_server_def
        descriptor_open_def descriptor_events_def descriptor_construct_def valid_fd_def Let_def)
  have start: "http_start t fd tfd w i m = Some (((w\<lparr>w_calls := ?calls\<rparr>, ?sv), [], []), r1)"
    using c con op r1(1) by (simp add: http_start_def del: run_all.simps)
  have "drain (parse_http 16) [] = ([], [], False)"
    by (simp add: request_parser.drain_need parse_http_empty)
  then have "displays (http_started t fd tfd) ((w\<lparr>w_calls := ?calls\<rparr>, ?sv), [], [])"
    using assms(5) imf_date_length [OF assms(1)]
    by (simp add: displays_def http_started_def zero_server_def hloop_ok_def http_requests_ok_def request_fds_def)
  moreover have "reactor_serves [fd, tfd] r1" using r1(2,4) pol cq by (simp add: reactor_serves_def)
  ultimately show ?thesis
    using start r1(3) r0(5) by (simp add: http_simulates_def http_started_def)
qed

subsection \<open>Properties\<close>

text \<open>
  C1. The HTTP server on its reactor, from its construction on, for every sequence of events in the scope of
  the abstract server: clients come, as long as there are slots; bytes arrive that are, with those before
  them, no malformed request, at most 65536 at a time and cut anywhere but after a space; the timer
  expires; nobody hangs up, no \<open>send\<close> fails, and no poll for output completes. Then, in whatever
  order that happens, the server does what the abstract server does: what each client was sent, together with
  what waits in its output buffer, is exactly the responses to its own complete requests, in their order,
  each with the date of the last expiration before it; the bytes of an incomplete request are kept; nothing
  crosses from one client to another. What happens out of this scope is the subject of other theorems
  (\<open>partial_method_reads_behind\<close>, \<open>malformed_request_uses_freed_memory\<close>, \<open>slow_peer_is_dropped\<close>).
\<close>

theorem http_clients_are_served:
  assumes "serves s p msg" and "length p < 2 ^ 32"
    and "tm_ok t" and "length m = 30" and "valid_fd fd" and "valid_fd tfd" and "fd \<noteq> tfd"
    and "run_all (http_spec p msg) as (http_started t fd tfd) = Some v"
    and "\<And>f. length (received f as) < 2 ^ 31" and "\<And>f. length (received f as) + 3 \<le> fuel"
    and "\<And>f. length (vw_out v f) \<le> 2 ^ 61"
  shows "\<exists>zr w2 sv2 sc r2. http_start t fd tfd w i m = Some zr \<and>
    run_all (http_round s fuel) as zr = Some (((w2, sv2), sc), r2) \<and>
    request_fds sv2 = vw_fds v \<and> sv_date sv2 = vw_date v @ [NUL] \<and>
    (\<forall>(j, q) \<in> set (sv_requests sv2). idle_request q \<and>
       stream_view (stream_fd (rq_stream q)) (w2, rq_stream q)
         (vw_in v (stream_fd (rq_stream q))) (vw_out v (stream_fd (rq_stream q))))"
proof -
  obtain zr where start: "http_start t fd tfd w i m = Some zr" "http_simulates (http_started t fd tfd) zr"
    using start_simulated [OF assms(3-7)] by blast
  have len: "length (vw_in (http_started t fd tfd) f) + length (received f as) < 2 ^ 31"
    "length (vw_in (http_started t fd tfd) f) + length (received f as) + 3 \<le> fuel" for f
    using assms(9,10) [of f] by (simp_all add: http_started_def)
  obtain z2 r2 where run: "run_all (http_round s fuel) as zr = Some (z2, r2)" "displays v z2"
    using arrivals_simulated [OF start(2) assms(8,1,2) len assms(11)] by (auto simp: http_simulates_def)
  obtain w2 sv2 sc where z2: "z2 = ((w2, sv2), sc)" by (metis surj_pair)
  have "idle_request q" if "(j, q) \<in> set (sv_requests sv2)" for j q
    using displaysD(2) [OF run(2)] that by (auto simp: z2 http_requests_ok_def list_all_iff)
  then show ?thesis
    using start(1) run displaysD(3,7,8) [OF run(2)] by (auto simp: z2)
qed

text \<open>Two clients; the bytes of one arrive around those of the other, and the clock moves in between.\<close>

definition ex_epoch :: tm where
  "ex_epoch = \<lparr>tm_sec = 0, tm_min = 0, tm_hour = 0, tm_mday = 1, tm_mon = 0, tm_year = 70, tm_wday = 4\<rparr>"

definition ex_later :: tm where
  "ex_later = ex_epoch\<lparr>tm_sec := 1\<rparr>"

definition ex_arrivals :: "http_arrival list" where
  "ex_arrivals =
     [Clients [(\<lparr>ha_fd = 9, ha_memory = True, ha_fstat = Some True\<rparr>, [Sent 7, Send_again]),
               (\<lparr>ha_fd = 10, ha_memory = True, ha_fstat = Some True\<rparr>, [])],
      Bytes 10 ''GET /j'',
      Bytes 9 (wire_text (''GET'', ''/plaintext'', [])),
      Tick [1] ex_later,
      Bytes 10 (''son HTTP/1.1'' @ crlf @ crlf)]"

abbreviation ex_answer_at :: "tm \<Rightarrow> string \<Rightarrow> string" where
  "ex_answer_at t path \<equiv> answer_text (imf_date t) ''Hello, World!'' ''Hello, World!'' (''GET'', path, [])"

lemma ex_spec_run:
  "\<exists>v. run_all (http_spec ''Hello, World!'' ''Hello, World!'') ex_arrivals (http_started ex_epoch 3 4) = Some v \<and>
    vw_fds v = [9, 10] \<and> vw_date v = imf_date ex_later \<and> vw_in v = (\<lambda>_. []) \<and>
    vw_out v = (\<lambda>_. [])(9 := ex_answer_at ex_epoch ''/plaintext'', 10 := ex_answer_at ex_later ''/json'')"
proof -
  let ?p = "(''GET'', ''/plaintext'', []) :: wire_request" and ?j = "(''GET'', ''/json'', []) :: wire_request"
  have ok: "wire_ok ?p" "wire_ok ?j" by code_simp+
  have p: "drain (parse_http 16) (wire_text ?p) = ([parsed_request ?p], [], False)"
    using drain_wire [of "[?p]"] ok(1) by simp
  have part: "drain (parse_http 16) ''GET /j'' = ([], ''GET /j'', False)" by code_simp
  have "''GET /j'' @ ''son HTTP/1.1'' @ crlf @ crlf = wire_text ?j" by code_simp
  then have j: "drain (parse_http 16) (''GET /j'' @ ''son HTTP/1.1'' @ crlf @ crlf) = ([parsed_request ?j], [], False)"
    using drain_wire [of "[?j]"] ok(2) by simp
  have ends: "wire_text ?p \<noteq> []" "last (wire_text ?p) \<noteq> CHR '' ''" "length (wire_text ?p) \<le> 65536"
    by (simp_all add: wire_text_def request_text_def)
  have lf: "last crlf \<noteq> CHR '' ''" "crlf \<noteq> []" "length crlf = 2" by simp_all
  have tm: "tm_ok ex_later" by code_simp
  have answers: "route_answer pl msg date (parsed_request ?p) = answer_text date pl msg ?p"
    "route_answer pl msg date (parsed_request ?j) = answer_text date pl msg ?j" for pl msg date
    by (simp_all add: route_answer_def answer_text_def seen_target_def parsed_request_def)
  let ?spec = "http_spec ''Hello, World!'' ''Hello, World!''" and ?v0 = "http_started ex_epoch 3 4"
  let ?v1 = "?v0\<lparr>vw_fds := [9, 10]\<rparr>"
  let ?v2 = "?v1\<lparr>vw_in := (vw_in ?v1)(10 := ''GET /j''), vw_out := (vw_out ?v1)(10 := [])\<rparr>"
  let ?v3 = "?v2\<lparr>vw_in := (vw_in ?v2)(9 := []), vw_out := (vw_out ?v2)(9 := ex_answer_at ex_epoch ''/plaintext'')\<rparr>"
  let ?v4 = "?v3\<lparr>vw_date := imf_date ex_later\<rparr>"
  let ?v5 = "?v4\<lparr>vw_in := (vw_in ?v4)(10 := []), vw_out := (vw_out ?v4)(10 := ex_answer_at ex_later ''/json'')\<rparr>"
  have s0: "?spec (ex_arrivals ! 0) ?v0 = Some ?v1"
    by (simp add: ex_arrivals_def http_spec_def http_started_def client_fds_def new_client_def valid_fd_def
        REACTOR_MAX_FDS_def REACTOR_RING_ENTRIES_def)
  have s1: "?spec (ex_arrivals ! 1) ?v1 = Some ?v2"
    using part by (simp add: ex_arrivals_def http_spec_def http_started_def)
  have s2: "?spec (ex_arrivals ! 2) ?v2 = Some ?v3"
    using p ends by (simp add: ex_arrivals_def http_spec_def http_started_def answers)
  have s3: "?spec (ex_arrivals ! 3) ?v3 = Some ?v4"
    using tm by (simp add: ex_arrivals_def http_spec_def)
  have s4: "?spec (ex_arrivals ! 4) ?v4 = Some ?v5"
    using j lf by (simp add: ex_arrivals_def http_spec_def http_started_def answers)
  have all: "ex_arrivals = [ex_arrivals ! 0, ex_arrivals ! 1, ex_arrivals ! 2, ex_arrivals ! 3, ex_arrivals ! 4]"
    by (simp add: ex_arrivals_def)
  have "run_all ?spec ex_arrivals ?v0 = Some ?v5"
    by (subst all) (simp only: run_all.simps s0 s1 s2 s3 s4 bind.bind_lunit)
  moreover have "vw_in ?v5 = (\<lambda>_. [])" "vw_out ?v5 = (\<lambda>_. [])(9 := ex_answer_at ex_epoch ''/plaintext'', 10 := ex_answer_at ex_later ''/json'')"
    by (auto simp: http_started_def)
  ultimately show ?thesis by (intro exI [of _ ?v5]) simp
qed

lemma http_clients_are_served_witness:
  "\<exists>zr w2 sv2 sc r2. http_start ex_epoch 3 4 ex_world 0 (replicate 30 NUL) = Some zr \<and>
    run_all (http_round ex_server 100) ex_arrivals zr = Some (((w2, sv2), sc), r2) \<and>
    request_fds sv2 = [9, 10] \<and> sv_date sv2 = imf_date ex_later @ [NUL] \<and>
    (\<forall>(j, q) \<in> set (sv_requests sv2). idle_request q \<and>
       stream_view (stream_fd (rq_stream q)) (w2, rq_stream q) []
         (((\<lambda>_. [])(9 := ex_answer_at ex_epoch ''/plaintext'', 10 := ex_answer_at ex_later ''/json''))
            (stream_fd (rq_stream q))))"
proof -
  obtain v where v: "run_all (http_spec ''Hello, World!'' ''Hello, World!'') ex_arrivals (http_started ex_epoch 3 4) = Some v"
    "vw_fds v = [9, 10]" "vw_date v = imf_date ex_later" "vw_in v = (\<lambda>_. [])"
    "vw_out v = (\<lambda>_. [])(9 := ex_answer_at ex_epoch ''/plaintext'', 10 := ex_answer_at ex_later ''/json'')"
    using ex_spec_run by blast
  have tm: "tm_ok ex_epoch" "tm_ok ex_later" by code_simp+
  have "length (received f ex_arrivals) \<le> 97" for f
    by (simp add: ex_arrivals_def wire_text_def request_text_def)
  then have len: "length (received f ex_arrivals) < 2 ^ 31" "length (received f ex_arrivals) + 3 \<le> 100" for f
    by (rule le_less_trans, simp) (use \<open>\<And>f. length (received f ex_arrivals) \<le> 97\<close> [of f] in simp)
  have "length (vw_out v f) \<le> 2 ^ 20 + 10000" for f
    using answer_length [OF ex_serves, of "imf_date ex_epoch" "(''GET'', ''/plaintext'', [])"]
      answer_length [OF ex_serves, of "imf_date ex_later" "(''GET'', ''/json'', [])"] imf_date_length [OF tm(1)] imf_date_length [OF tm(2)]
    by (simp add: v(5))
  then have out: "length (vw_out v f) \<le> 2 ^ 61" for f by (rule order_trans) simp
  have fds: "valid_fd 3" "valid_fd 4" by (simp_all add: valid_fd_def REACTOR_MAX_FDS_def)
  have "\<exists>zr w2 sv2 sc r2. http_start ex_epoch 3 4 ex_world 0 (replicate 30 NUL) = Some zr \<and>
    run_all (http_round ex_server 100) ex_arrivals zr = Some (((w2, sv2), sc), r2) \<and>
    request_fds sv2 = vw_fds v \<and> sv_date sv2 = vw_date v @ [NUL] \<and>
    (\<forall>(j, q) \<in> set (sv_requests sv2). idle_request q \<and>
       stream_view (stream_fd (rq_stream q)) (w2, rq_stream q)
         (vw_in v (stream_fd (rq_stream q))) (vw_out v (stream_fd (rq_stream q))))"
    by (rule http_clients_are_served [OF ex_serves _ tm(1) _ fds _ v(1) len out]) simp_all
  then show ?thesis by (simp only: v(2-5))
qed

text \<open>
  C8. The state of the HTTP server is well formed after any number of rounds of its loop, whatever clients come,
  whatever their bytes are, and whatever the kernel completes, in any order: the items of the list
  are distinct, each belongs to an open descriptor and is at rest, waiting for data with the one
  reference of the list, and every registered descriptor has its own handler and an outstanding poll.
\<close>

theorem http_state_well_formed:
  assumes "http_start t fd tfd w i m = Some (s1, r1)"
    and "tm_ok t" and "length m = 30" and "valid_fd fd" and "valid_fd tfd" and "fd \<noteq> tfd"
    and "list_all (list_all (\<lambda>a. 0 \<le> ha_fd a)) clients"
    and "reactor_loop id (http_step ok (route_handler s) fuel) wrs 0 ((fst s1, clients, ticks), r1) =
      Some (n, ((w2, sv2), sc2), r2)"
  shows "distinct (map fst (sv_requests sv2)) \<and>
    (\<forall>(j, q) \<in> set (sv_requests sv2). j < sv_next sv2 \<and> 0 \<le> stream_fd (rq_stream q) \<and>
      rq_state q = SERVER_REQUEST_NEED_MORE_DATA \<and> rq_ref q = 1 \<and> \<not> rq_event_triggered q) \<and>
    (\<forall>f sl. rc_fds r2 f = Some sl \<longrightarrow>
      sl_handler (rc_slots r2 ! sl) = Some (int f) \<and> Some sl \<in># outstanding (rc_cq r2) r2)"
proof -
  have sim: "http_simulates (http_started t fd tfd) (s1, r1)"
    using start_simulated [OF assms(2-6), of w i] assms(1) by auto
  then have "hloop_ok (fst s1, clients, ticks)"
    using assms(7) by (simp add: http_simulates_def displays_def hloop_ok_def)
  then have "http_loop.good True (rc_cq (snd ((fst s1, clients, ticks), r1))) ((fst s1, clients, ticks), r1)"
    using sim by (simp add: http_simulates_def reactor_serves_def http_loop.good_def)
  from http_loop.good_loop [OF this assms(8)]
  have ok: "http_requests_ok sv2" "reactor_ok id (rc_cq r2) r2" "polled UNIV r2"
    by (simp_all add: http_loop.good_def hloop_ok_def)
  have "distinct (map fst (sv_requests sv2))" using ok(1) by (simp add: http_requests_ok_def)
  moreover have "\<forall>(j, q) \<in> set (sv_requests sv2). j < sv_next sv2 \<and> 0 \<le> stream_fd (rq_stream q) \<and>
      rq_state q = SERVER_REQUEST_NEED_MORE_DATA \<and> rq_ref q = 1 \<and> \<not> rq_event_triggered q"
    using ok(1) by (auto simp: http_requests_ok_def idle_request_def list_all_iff)
  moreover have "\<forall>f sl. rc_fds r2 f = Some sl \<longrightarrow>
      sl_handler (rc_slots r2 ! sl) = Some (int f) \<and> Some sl \<in># outstanding (rc_cq r2) r2"
    using polled_outstanding [OF ok(2,3)] ok(2) by (auto simp: reactor_ok_def table_ok_def)
  ultimately show ?thesis by blast
qed

text \<open>The listener's poll accepts two clients.\<close>

definition ex_quiet_world :: "char world" where
  "ex_quiet_world = \<lparr>w_heap = ex_heap, w_calls = [], w_sock = (\<lambda>_. \<lparr>k_recv = [], k_send = [], k_sent = []\<rparr>)\<rparr>"

definition ex_newcomers :: "(http_accepted \<times> send_result list) list" where
  "ex_newcomers = [(\<lparr>ha_fd = 9, ha_memory = True, ha_fstat = Some True\<rparr>, []),
                   (\<lparr>ha_fd = 10, ha_memory = True, ha_fstat = Some True\<rparr>, [])]"

lemma start_active: "http_start t fd tfd w i m = Some (s, r) \<Longrightarrow> rc_active r"
  by (auto simp: http_start_def dest: construct_reactor(7) run_calls_active split: bind_splits)

lemma start_sock: "http_start t fd tfd w i m = Some (((w1, sv1), sc), r) \<Longrightarrow> w_sock w1 = w_sock w \<and> sc = ([], [])"
  by (auto simp: http_start_def server_open_def timer_set_def on_timer_def on_server_descriptor_def no_server_calls_def
      split: bind_splits if_splits prod.splits)

lemma http_state_well_formed_witness:
  "\<exists>s1 r1 w2 sv2 sc2 r2. http_start ex_epoch 3 4 ex_quiet_world 0 (replicate 30 NUL) = Some (s1, r1) \<and>
    reactor_loop id (http_step (\<lambda>_. True) (route_handler ex_server) 100) [readable_round 3 r1] 0
      ((fst s1, [map fst ex_newcomers], []), r1) = Some (1, ((w2, sv2), sc2), r2) \<and>
    request_fds sv2 = [9, 10] \<and>
    (\<forall>(j, q) \<in> set (sv_requests sv2). rq_state q = SERVER_REQUEST_NEED_MORE_DATA \<and> rq_ref q = 1) \<and>
    (\<forall>f sl. rc_fds r2 f = Some sl \<longrightarrow> Some sl \<in># outstanding (rc_cq r2) r2)"
proof -
  have fds: "valid_fd 3" "valid_fd 4" by (simp_all add: valid_fd_def REACTOR_MAX_FDS_def)
  have tm: "tm_ok ex_epoch" by code_simp
  obtain w1 sv1 sc r1 where start: "http_start ex_epoch 3 4 ex_quiet_world 0 (replicate 30 NUL) = Some (((w1, sv1), sc), r1)"
    and sim: "http_simulates (http_started ex_epoch 3 4) (((w1, sv1), sc), r1)"
    using start_simulated [OF tm _ fds, of "replicate 30 NUL" ex_quiet_world 0] by auto
  have sc: "in_scope (Clients ex_newcomers) (http_started ex_epoch 3 4)"
    by (simp add: ex_newcomers_def http_started_def client_fds_def new_client_def valid_fd_def
        REACTOR_MAX_FDS_def REACTOR_RING_ENTRIES_def)
  have fd: "d_fd (sv_descriptor sv1) = 3" using sim by (simp add: http_simulates_def displays_def http_started_def)
  have w1: "new_socks ex_newcomers w1 = w1" "sc = ([], [])"
    using start_sock [OF start] by (simp_all add: ex_newcomers_def set_sock_def ex_quiet_world_def fun_upd_idem)
  have cfds: "client_fds ex_newcomers = [9, 10]" by (simp add: client_fds_def ex_newcomers_def)
  obtain w2 sv2 sc2 r2 where once: "reactor_loop_once id (http_step (\<lambda>_. True) (route_handler ex_server) 100) (readable_round 3 r1)
      (((w1, sv1), [map fst ex_newcomers], []), r1) = Some (1, ((w2, sv2), sc2), r2)"
    and fds2: "request_fds sv2 = [9, 10]"
    using clients_round [OF sim sc, of ex_server 100] cfds
    by (auto simp: peers_connect_def w1 fd http_simulates_def displays_def http_started_def)
  have run: "reactor_loop id (http_step (\<lambda>_. True) (route_handler ex_server) 100) [readable_round 3 r1] 0
      ((fst ((w1, sv1), sc), [map fst ex_newcomers], []), r1) = Some (1, ((w2, sv2), sc2), r2)"
    using once start_active [OF start] by (simp add: INT_LIMIT_def)
  have "list_all (list_all (\<lambda>a. 0 \<le> ha_fd a)) [map fst ex_newcomers]" by (simp add: ex_newcomers_def)
  from http_state_well_formed [OF start tm _ fds _ this run] show ?thesis
    using start run fds2 by (auto simp del: reactor_loop.simps)
qed

end
