(* ===== verification/Linked_List.thy ===== *)
theory Linked_List
  imports Prelude "HOL-Library.Monad_Syntax"
begin

text \<open>
  Component \<open>third_party/libreactor/src/reactor/list.c\<close>: circular doubly linked lists, on an explicit store of
  cells. An object is designated by the address of its item, which is what \<open>list_object_item\<close> computes
  back; the header of a list is an item without an object. An access to an address where there is
  no cell is undefined.
\<close>

record 'a list_item =
  it_next :: nat
  it_previous :: nat
  it_object :: "'a option"

type_synonym 'a store = "nat \<Rightarrow> 'a list_item option"

subsection \<open>Fields\<close>

definition get_next :: "nat \<Rightarrow> 'a store \<Rightarrow> nat option" where
  "get_next a h = map_option it_next (h a)"

definition get_previous :: "nat \<Rightarrow> 'a store \<Rightarrow> nat option" where
  "get_previous a h = map_option it_previous (h a)"

definition set_next :: "nat \<Rightarrow> nat \<Rightarrow> 'a store \<Rightarrow> 'a store option" where
  "set_next a v h = map_option (\<lambda>c. h(a \<mapsto> c\<lparr>it_next := v\<rparr>)) (h a)"

definition set_previous :: "nat \<Rightarrow> nat \<Rightarrow> 'a store \<Rightarrow> 'a store option" where
  "set_previous a v h = map_option (\<lambda>c. h(a \<mapsto> c\<lparr>it_previous := v\<rparr>)) (h a)"

subsection \<open>Operations\<close>

text \<open>\<open>memory\<close> is the address \<open>calloc\<close> returns; the new item is zeroed but for the object.\<close>

definition list_item_new :: "nat option \<Rightarrow> 'a \<Rightarrow> 'a store \<Rightarrow> nat option \<times> 'a store" where
  "list_item_new mem v h =
     (case mem of
        None \<Rightarrow> (None, h)
      | Some a \<Rightarrow> (Some a, h(a \<mapsto> \<lparr>it_next = 0, it_previous = 0, it_object = Some v\<rparr>)))"

definition list_construct :: "nat \<Rightarrow> 'a store \<Rightarrow> 'a store" where
  "list_construct l h = h(l \<mapsto> \<lparr>it_next = l, it_previous = l, it_object = None\<rparr>)"

definition list_next :: "nat \<Rightarrow> 'a store \<Rightarrow> nat option" where
  "list_next a h = get_next a h"

definition list_previous :: "nat \<Rightarrow> 'a store \<Rightarrow> nat option" where
  "list_previous a h = get_previous a h"

definition list_empty :: "nat \<Rightarrow> 'a store \<Rightarrow> bool option" where
  "list_empty l h = map_option (\<lambda>n. n = l) (get_next l h)"

definition list_front :: "nat \<Rightarrow> 'a store \<Rightarrow> nat option" where
  "list_front l h = get_next l h"

definition list_back :: "nat \<Rightarrow> 'a store \<Rightarrow> nat option" where
  "list_back l h = get_previous l h"

definition list_end :: "nat \<Rightarrow> nat" where
  "list_end l = l"

text \<open>The four writes that put an item in front of another one.\<close>

definition link :: "nat \<Rightarrow> nat \<Rightarrow> 'a store \<Rightarrow> 'a store option" where
  "link a after h =
     do { p \<leftarrow> get_previous after h;
          h \<leftarrow> set_previous a p h;
          h \<leftarrow> set_next a after h;
          p \<leftarrow> get_previous a h;
          h \<leftarrow> set_next p a h;
          n \<leftarrow> get_next a h;
          set_previous n a h }"

definition list_insert :: "nat \<Rightarrow> nat option \<Rightarrow> 'a \<Rightarrow> 'a store \<Rightarrow> (nat option \<times> 'a store) option" where
  "list_insert after mem v h =
     (case list_item_new mem v h of
        (None, h) \<Rightarrow> Some (None, h)
      | (Some a, h) \<Rightarrow> do { h \<leftarrow> link a after h; Some (Some a, h) })"

definition list_push_front :: "nat \<Rightarrow> nat option \<Rightarrow> 'a \<Rightarrow> 'a store \<Rightarrow> (nat option \<times> 'a store) option" where
  "list_push_front l mem v h = do { f \<leftarrow> list_front l h; list_insert f mem v h }"

definition list_push_back :: "nat \<Rightarrow> nat option \<Rightarrow> 'a \<Rightarrow> 'a store \<Rightarrow> (nat option \<times> 'a store) option" where
  "list_push_back l mem v h = list_insert (list_end l) mem v h"

text \<open>An item is unlinked by writing to its neighbours.\<close>

definition unlink :: "nat \<Rightarrow> 'a store \<Rightarrow> 'a store option" where
  "unlink a h =
     do { p \<leftarrow> get_previous a h;
          n \<leftarrow> get_next a h;
          h \<leftarrow> set_next p n h;
          n \<leftarrow> get_next a h;
          p \<leftarrow> get_previous a h;
          set_previous n p h }"

definition list_splice :: "nat \<Rightarrow> nat \<Rightarrow> 'a store \<Rightarrow> 'a store option" where
  "list_splice to from h =
     (if to = from then Some h
      else do { h \<leftarrow> unlink from h;
                link from to h })"

text \<open>Erasing returns the object that \<open>release\<close> is given, and frees the item.\<close>

definition list_erase :: "nat \<Rightarrow> 'a store \<Rightarrow> ('a option \<times> 'a store) option" where
  "list_erase a h =
     do { h \<leftarrow> unlink a h;
          c \<leftarrow> h a;
          Some (it_object c, h(a := None)) }"

partial_function (option) list_clear :: "nat \<Rightarrow> 'a store \<Rightarrow> ('a option list \<times> 'a store) option" where
  "list_clear l h =
     do { e \<leftarrow> list_empty l h;
          if e then Some ([], h)
          else do { f \<leftarrow> list_front l h;
                    (v, h) \<leftarrow> list_erase f h;
                    (vs, h) \<leftarrow> list_clear l h;
                    Some (v # vs, h) } }"

text \<open>\<open>list_foreach\<close> from an item on, until an object that compares equal.\<close>

partial_function (option) find_from :: "nat \<Rightarrow> ('a option \<Rightarrow> bool) \<Rightarrow> nat \<Rightarrow> 'a store \<Rightarrow> nat option option" where
  "find_from l eq a h =
     (if a = list_end l then Some None
      else do { c \<leftarrow> h a;
                if eq (it_object c) then Some (Some a)
                else do { n \<leftarrow> list_next a h; find_from l eq n h } })"

definition list_find :: "nat \<Rightarrow> ('a option \<Rightarrow> bool) \<Rightarrow> 'a store \<Rightarrow> nat option option" where
  "list_find l eq h = do { f \<leftarrow> list_front l h; find_from l eq f h }"

text \<open>
  The walk of \<open>binary_server_shutdown\<close> over the connections: the successor is read before the object is
  erased. The result lists the objects in the order in which they were closed.
\<close>

partial_function (option) erase_walk :: "nat \<Rightarrow> nat \<Rightarrow> 'a store \<Rightarrow> (nat list \<times> 'a store) option" where
  "erase_walk l a h =
     (if a = list_end l then Some ([], h)
      else do { n \<leftarrow> list_next a h;
                (v, h) \<leftarrow> list_erase a h;
                (as, h) \<leftarrow> erase_walk l n h;
                Some (a # as, h) })"

subsection \<open>The sequence a list represents\<close>

text \<open>Neighbours point to each other.\<close>

fun links :: "'a store \<Rightarrow> nat list \<Rightarrow> bool" where
  "links h (x # y # ys) \<longleftrightarrow> get_next x h = Some y \<and> get_previous y h = Some x \<and> links h (y # ys)"
| "links h _ \<longleftrightarrow> True"

definition represents :: "'a store \<Rightarrow> nat \<Rightarrow> (nat \<times> 'a) list \<Rightarrow> bool" where
  "represents h l xs \<longleftrightarrow> distinct (l # map fst xs) \<and> links h (l # map fst xs @ [l]) \<and>
     (\<forall>(a, v) \<in> set xs. map_option it_object (h a) = Some (Some v))"

text \<open>Nothing outside the list changes.\<close>

definition same_elsewhere :: "nat set \<Rightarrow> 'a store \<Rightarrow> 'a store \<Rightarrow> bool" where
  "same_elsewhere A h h' \<longleftrightarrow> (\<forall>x. x \<notin> A \<longrightarrow> h' x = h x)"

lemma links_append: "links h (xs @ y # ys) \<longleftrightarrow> links h (xs @ [y]) \<and> links h (y # ys)"
proof (induction xs)
  case (Cons x xs)
  then show ?case by (cases xs) auto
qed simp

lemma links_cong:
  assumes "\<And>x. x \<in> set (butlast ys) \<Longrightarrow> get_next x h' = get_next x h"
    and "\<And>y. y \<in> set (tl ys) \<Longrightarrow> get_previous y h' = get_previous y h"
  shows "links h' ys = links h ys"
  using assms
proof (induction ys)
  case (Cons x ys)
  show ?case
  proof (cases ys)
    case ys: (Cons y zs)
    have "links h' ys = links h ys"
      by (rule Cons.IH) (use Cons.prems ys in \<open>auto split: if_splits\<close>)
    then show ?thesis using Cons.prems by (simp add: ys)
  qed simp
qed simp

subsection \<open>Fields after writes\<close>

definition object_at :: "nat \<Rightarrow> 'a store \<Rightarrow> 'a option option" where
  "object_at a h = map_option it_object (h a)"

lemma get_Some: "h a \<noteq> None \<Longrightarrow> \<exists>n. get_next a h = Some n" "h a \<noteq> None \<Longrightarrow> \<exists>p. get_previous a h = Some p"
  by (auto simp: get_next_def get_previous_def)

lemma set_next_run:
  assumes "h b \<noteq> None"
  shows "\<exists>h'. set_next b v h = Some h' \<and> (\<forall>x. get_next x h' = (if x = b then Some v else get_next x h)) \<and>
    (\<forall>x. get_previous x h' = get_previous x h) \<and> (\<forall>x. object_at x h' = object_at x h) \<and>
    (\<forall>x. (h' x = None) = (h x = None)) \<and> same_elsewhere {b} h h'"
  using assms
  by (auto simp: set_next_def get_next_def get_previous_def object_at_def same_elsewhere_def)

lemma set_previous_run:
  assumes "h b \<noteq> None"
  shows "\<exists>h'. set_previous b v h = Some h' \<and> (\<forall>x. get_previous x h' = (if x = b then Some v else get_previous x h)) \<and>
    (\<forall>x. get_next x h' = get_next x h) \<and> (\<forall>x. object_at x h' = object_at x h) \<and>
    (\<forall>x. (h' x = None) = (h x = None)) \<and> same_elsewhere {b} h h'"
  using assms
  by (auto simp: set_previous_def get_next_def get_previous_def object_at_def same_elsewhere_def)

text \<open>What \<open>link\<close> writes between \<open>p\<close> and \<open>n\<close>, and what \<open>unlink\<close> does.\<close>

lemma link_run:
  assumes "get_previous n h = Some p" and "h n \<noteq> None" and "h p \<noteq> None" and "h a \<noteq> None" and ne: "n \<noteq> a" "p \<noteq> a"
  shows "\<exists>h'. link a n h = Some h' \<and>
    (\<forall>x. get_next x h' = (if x = p then Some a else if x = a then Some n else get_next x h)) \<and>
    (\<forall>x. get_previous x h' = (if x = n then Some a else if x = a then Some p else get_previous x h)) \<and>
    (\<forall>x. object_at x h' = object_at x h) \<and> (\<forall>x. (h' x = None) = (h x = None)) \<and> same_elsewhere {a, p, n} h h'"
proof -
  obtain h1 where h1: "set_previous a p h = Some h1" "\<forall>x. get_previous x h1 = (if x = a then Some p else get_previous x h)"
    "\<forall>x. get_next x h1 = get_next x h" "\<forall>x. object_at x h1 = object_at x h"
    "\<forall>x. (h1 x = None) = (h x = None)" "same_elsewhere {a} h h1"
    using set_previous_run [of h a p] assms(4) by auto
  obtain h2 where h2: "set_next a n h1 = Some h2" "\<forall>x. get_next x h2 = (if x = a then Some n else get_next x h1)"
    "\<forall>x. get_previous x h2 = get_previous x h1" "\<forall>x. object_at x h2 = object_at x h1"
    "\<forall>x. (h2 x = None) = (h1 x = None)" "same_elsewhere {a} h1 h2"
    using set_next_run [of h1 a n] h1(5) assms(4) by auto
  obtain h3 where h3: "set_next p a h2 = Some h3" "\<forall>x. get_next x h3 = (if x = p then Some a else get_next x h2)"
    "\<forall>x. get_previous x h3 = get_previous x h2" "\<forall>x. object_at x h3 = object_at x h2"
    "\<forall>x. (h3 x = None) = (h2 x = None)" "same_elsewhere {p} h2 h3"
    using set_next_run [of h2 p a] h1(5) h2(5) assms(3) by auto
  obtain h4 where h4: "set_previous n a h3 = Some h4" "\<forall>x. get_previous x h4 = (if x = n then Some a else get_previous x h3)"
    "\<forall>x. get_next x h4 = get_next x h3" "\<forall>x. object_at x h4 = object_at x h3"
    "\<forall>x. (h4 x = None) = (h3 x = None)" "same_elsewhere {n} h3 h4"
    using set_previous_run [of h3 n a] h1(5) h2(5) h3(5) assms(2) by auto
  have "link a n h = Some h4"
    using h1(1,2) h2 h3 h4(1) ne assms(1) by (simp add: link_def)
  moreover have "same_elsewhere {a, p, n} h h4"
    using h1(6) h2(6) h3(6) h4(6) by (auto simp: same_elsewhere_def)
  ultimately show ?thesis
    using h1 h2 h3 h4 ne by (intro exI [of _ h4]) auto
qed

lemma unlink_run:
  assumes "get_previous a h = Some p" and "get_next a h = Some n" and "h p \<noteq> None" and "h n \<noteq> None" and "p \<noteq> a" and "n \<noteq> a"
  shows "\<exists>h'. unlink a h = Some h' \<and> (\<forall>x. get_next x h' = (if x = p then Some n else get_next x h)) \<and>
    (\<forall>x. get_previous x h' = (if x = n then Some p else get_previous x h)) \<and>
    (\<forall>x. object_at x h' = object_at x h) \<and> (\<forall>x. (h' x = None) = (h x = None)) \<and> same_elsewhere {p, n} h h'"
proof -
  obtain h1 where h1: "set_next p n h = Some h1" "\<forall>x. get_next x h1 = (if x = p then Some n else get_next x h)"
    "\<forall>x. get_previous x h1 = get_previous x h" "\<forall>x. object_at x h1 = object_at x h"
    "\<forall>x. (h1 x = None) = (h x = None)" "same_elsewhere {p} h h1"
    using set_next_run [of h p n] assms(3) by auto
  obtain h2 where h2: "set_previous n p h1 = Some h2" "\<forall>x. get_previous x h2 = (if x = n then Some p else get_previous x h1)"
    "\<forall>x. get_next x h2 = get_next x h1" "\<forall>x. object_at x h2 = object_at x h1"
    "\<forall>x. (h2 x = None) = (h1 x = None)" "same_elsewhere {n} h1 h2"
    using set_previous_run [of h1 n p] assms(4) h1(5) by auto
  have "unlink a h = Some h2" using assms h1 h2(1) by (simp add: unlink_def)
  moreover have "same_elsewhere {p, n} h h2" using h1(6) h2(6) by (auto simp: same_elsewhere_def)
  ultimately show ?thesis using h1 h2 by auto
qed

subsection \<open>The operations on the sequence\<close>

lemma links_allocated: "links h ys \<Longrightarrow> x \<in> set (butlast ys) \<Longrightarrow> h x \<noteq> None"
proof (induction h ys rule: links.induct)
  case (1 h x' y ys)
  then show ?case by (auto simp: get_next_def split: if_splits)
qed auto

lemma represents_allocated:
  assumes "represents h l xs" and "x \<in> set (l # map fst xs)"
  shows "h x \<noteq> None"
proof -
  have "x \<in> set (butlast (l # map fst xs @ [l]))" using assms(2) by (simp add: butlast_append)
  moreover have "links h (l # map fst xs @ [l])" using assms(1) by (simp add: represents_def)
  ultimately show ?thesis by (rule links_allocated [rotated])
qed

text \<open>The neighbours of the place between \<open>xs\<close> and \<open>ys\<close>.\<close>

definition before :: "nat \<Rightarrow> (nat \<times> 'a) list \<Rightarrow> nat" where
  "before l xs = last (l # map fst xs)"

definition behind :: "nat \<Rightarrow> (nat \<times> 'a) list \<Rightarrow> nat" where
  "behind l ys = hd (map fst ys @ [l])"

text \<open>A list, cut at a place: the chain up to it, the chain from it on, and the link between them.\<close>

lemma represents_cut:
  "represents h l (xs @ ys) \<longleftrightarrow> distinct (l # map fst xs @ map fst ys) \<and>
     links h (l # map fst xs) \<and> links h (map fst ys @ [l]) \<and>
     get_next (before l xs) h = Some (behind l ys) \<and> get_previous (behind l ys) h = Some (before l xs) \<and>
     (\<forall>(a, v) \<in> set (xs @ ys). object_at a h = Some (Some v))"
proof -
  obtain us where us: "l # map fst xs = us @ [before l xs]"
    unfolding before_def by (metis append_butlast_last_id list.distinct(1))
  obtain vs where vs: "map fst ys @ [l] = behind l ys # vs"
    unfolding behind_def by (cases "map fst ys @ [l]") auto
  have "l # map fst (xs @ ys) @ [l] = us @ before l xs # behind l ys # vs"
    using us vs by simp
  then have "links h (l # map fst (xs @ ys) @ [l]) \<longleftrightarrow> links h (l # map fst xs) \<and>
      get_next (before l xs) h = Some (behind l ys) \<and> get_previous (behind l ys) h = Some (before l xs) \<and>
      links h (map fst ys @ [l])"
    using links_append [of h us "before l xs" "behind l ys # vs"] unfolding us vs links.simps(1) by simp
  then show ?thesis unfolding represents_def object_at_def by auto
qed

lemma before_in: "before l xs \<in> set (l # map fst xs)"
  unfolding before_def by (rule last_in_set) simp

lemma behind_in: "behind l ys \<in> set (l # map fst ys)"
  unfolding behind_def by (cases ys) auto

text \<open>
  Chains survive a change of the links at their ends: the front part where only the next of its last item
  changes, the rest where only the previous of its first one does.
\<close>

lemma front_chain:
  assumes "distinct (l # map fst xs)" and "links h (l # map fst xs)"
    and "\<And>x. x \<in> set (l # map fst xs) \<Longrightarrow> x \<noteq> before l xs \<Longrightarrow> get_next x h' = get_next x h"
    and "\<And>x. x \<in> set (map fst xs) \<Longrightarrow> get_previous x h' = get_previous x h"
  shows "links h' (l # map fst xs)"
proof -
  have "x \<noteq> before l xs" if "x \<in> set (butlast (l # map fst xs))" for x
  proof -
    have "l # map fst xs = butlast (l # map fst xs) @ [before l xs]" unfolding before_def by simp
    then show ?thesis using that assms(1) by (metis distinct.simps(2) distinct_append not_distinct_conv_prefix)
  qed
  then show ?thesis
    using links_cong [of "l # map fst xs" h' h] assms by (metis in_set_butlastD list.sel(3))
qed

lemma back_chain:
  assumes "distinct (l # map fst ys)" and "links h (map fst ys @ [l])"
    and "\<And>x. x \<in> set (map fst ys) \<Longrightarrow> get_next x h' = get_next x h"
    and "\<And>x. x \<in> set (l # map fst ys) \<Longrightarrow> x \<noteq> behind l ys \<Longrightarrow> get_previous x h' = get_previous x h"
  shows "links h' (map fst ys @ [l])"
proof -
  have "x \<noteq> behind l ys \<and> x \<in> set (l # map fst ys)" if "x \<in> set (tl (map fst ys @ [l]))" for x
    using that assms(1) by (cases ys) (force simp: behind_def)+
  then show ?thesis
    using links_cong [of "map fst ys @ [l]" h' h] assms by (metis butlast_snoc)
qed

text \<open>An item outside the list, linked in front of another, is at its place in the sequence.\<close>

lemma link_represents:
  assumes "represents h l (xs @ ys)" and "object_at a h = Some (Some v)" and fresh: "a \<notin> set (l # map fst (xs @ ys))"
  shows "\<exists>h'. link a (behind l ys) h = Some h' \<and> represents h' l (xs @ (a, v) # ys) \<and>
    same_elsewhere (set (a # l # map fst (xs @ ys))) h h'"
proof -
  let ?p = "before l xs" and ?n = "behind l ys"
  have cut: "distinct (l # map fst xs @ map fst ys)" "links h (l # map fst xs)" "links h (map fst ys @ [l])"
    "get_next ?p h = Some ?n" "get_previous ?n h = Some ?p" "\<forall>(a, v) \<in> set (xs @ ys). object_at a h = Some (Some v)"
    using assms(1) unfolding represents_cut by blast+
  have alloc: "h x \<noteq> None" if "x \<in> set (l # map fst (xs @ ys))" for x
    using represents_allocated [OF assms(1) that] .
  have ins: "?p \<in> set (l # map fst (xs @ ys))" "?n \<in> set (l # map fst (xs @ ys))"
    using before_in [of l xs] behind_in [of l ys] by auto
  have ne: "a \<noteq> ?n" "a \<noteq> ?p" using ins fresh by metis+
  have a: "h a \<noteq> None" using assms(2) by (auto simp: object_at_def)
  obtain h' where h': "link a ?n h = Some h'"
    "\<forall>x. get_next x h' = (if x = ?p then Some a else if x = a then Some ?n else get_next x h)"
    "\<forall>x. get_previous x h' = (if x = ?n then Some a else if x = a then Some ?p else get_previous x h)"
    "\<forall>x. object_at x h' = object_at x h" "same_elsewhere {a, ?p, ?n} h h'"
    using link_run [OF cut(5) alloc [OF ins(2)] alloc [OF ins(1)] a ne [symmetric]]
    by (elim exE conjE) (rule that)
  have n_xs: "?n \<notin> set (map fst xs)" using behind_in [of l ys] cut(1) by (metis IntI UnCI distinct.simps(2) distinct_append empty_iff set_ConsD set_append)
  have p_ys: "?p \<notin> set (map fst ys)" using before_in [of l xs] cut(1) by (metis IntI UnCI distinct.simps(2) distinct_append empty_iff set_ConsD set_append)
  have na: "x \<noteq> a" if "x \<in> set (l # map fst xs) \<or> x \<in> set (l # map fst ys)" for x
    using that fresh by auto
  have front: "links h' (l # map fst xs)"
  proof (rule front_chain [OF _ cut(2)])
    fix x assume x: "x \<in> set (l # map fst xs)" "x \<noteq> ?p"
    have "x \<noteq> a" using x(1) by (intro na disjI1)
    then show "get_next x h' = get_next x h" using x(2) h'(2) by simp
  next
    fix x assume x: "x \<in> set (map fst xs)"
    then have "x \<noteq> a" by (intro na disjI1 list.set_intros(2))
    moreover have "x \<noteq> ?n" using x n_xs by metis
    ultimately show "get_previous x h' = get_previous x h" using h'(3) by simp
  qed (use cut(1) in simp)
  have rear: "links h' (map fst ys @ [l])"
  proof (rule back_chain [OF _ cut(3)])
    fix x assume x: "x \<in> set (map fst ys)"
    then have "x \<noteq> a" by (intro na disjI2 list.set_intros(2))
    moreover have "x \<noteq> ?p" using x p_ys by metis
    ultimately show "get_next x h' = get_next x h" using h'(2) by simp
  next
    fix x assume x: "x \<in> set (l # map fst ys)" "x \<noteq> ?n"
    have "x \<noteq> a" using x(1) by (intro na disjI2)
    then show "get_previous x h' = get_previous x h" using x(2) h'(3) by simp
  qed (use cut(1) in simp)
  have "links h' (map fst ((a, v) # ys) @ [l])"
    using rear h'(2,3) ne by (cases ys) (simp_all add: behind_def)
  moreover have "distinct (l # map fst xs @ map fst ((a, v) # ys))" using cut(1) fresh by auto
  moreover have "get_next ?p h' = Some (behind l ((a, v) # ys))" using h'(2) by (simp add: behind_def)
  moreover have "get_previous (behind l ((a, v) # ys)) h' = Some ?p" using h'(3) ne by (simp add: behind_def)
  moreover have "\<forall>(b, w) \<in> set (xs @ (a, v) # ys). object_at b h' = Some (Some w)"
    using cut(6) assms(2) h'(4) by auto
  ultimately have "represents h' l (xs @ (a, v) # ys)"
    unfolding represents_cut using front by blast
  moreover have "same_elsewhere (set (a # l # map fst (xs @ ys))) h h'"
    using h'(5) ins by (auto simp: same_elsewhere_def)
  ultimately show ?thesis using h'(1) by blast
qed

text \<open>What is outside the list can change, be allocated or be freed.\<close>

lemma represents_frame:
  assumes "represents h l xs" and "\<And>x. x \<in> set (l # map fst xs) \<Longrightarrow> h' x = h x"
  shows "represents h' l xs"
proof -
  have "links h' (l # map fst xs @ [l]) = links h (l # map fst xs @ [l])"
    using assms(2) by (intro links_cong) (auto simp: get_next_def get_previous_def butlast_append split: if_splits)
  moreover have "object_at a h' = object_at a h" if "(a, v) \<in> set xs" for a v
  proof -
    have "a \<in> set (l # map fst xs)" using that by force
    then show ?thesis by (simp add: object_at_def assms(2))
  qed
  ultimately show ?thesis using assms(1) unfolding represents_def object_at_def by fastforce
qed

lemma insert_represents:
  assumes "represents h l (xs @ ys)" and "h a = None"
  shows "\<exists>h'. list_insert (behind l ys) (Some a) v h = Some (Some a, h') \<and>
    represents h' l (xs @ (a, v) # ys) \<and> same_elsewhere (set (a # l # map fst (xs @ ys))) h h'"
proof -
  let ?c = "\<lparr>it_next = 0, it_previous = 0, it_object = Some v\<rparr>"
  have fresh: "a \<notin> set (l # map fst (xs @ ys))" using represents_allocated [OF assms(1)] assms(2) by blast
  have "represents (h(a \<mapsto> ?c)) l (xs @ ys)"
    by (rule represents_frame [OF assms(1)]) (metis fresh fun_upd_other)
  then obtain h' where h': "link a (behind l ys) (h(a \<mapsto> ?c)) = Some h'" "represents h' l (xs @ (a, v) # ys)"
    "same_elsewhere (set (a # l # map fst (xs @ ys))) (h(a \<mapsto> ?c)) h'"
    using link_represents [of "h(a \<mapsto> ?c)" l xs ys a v] fresh by (auto simp: object_at_def)
  then show ?thesis
    by (intro exI [of _ h']) (auto simp: list_insert_def list_item_new_def same_elsewhere_def)
qed

lemma unlink_represents:
  assumes "represents h l (xs @ (a, v) # ys)"
  shows "\<exists>h'. unlink a h = Some h' \<and> represents h' l (xs @ ys) \<and> object_at a h' = Some (Some v) \<and>
    same_elsewhere (set (l # map fst (xs @ ys))) h h'"
proof -
  let ?p = "before l xs" and ?n = "behind l ys"
  have cut: "distinct (l # map fst xs @ a # map fst ys)" "links h (l # map fst xs)" "links h (a # map fst ys @ [l])"
    "get_next ?p h = Some a" "get_previous a h = Some ?p" "\<forall>(a, v) \<in> set (xs @ (a, v) # ys). object_at a h = Some (Some v)"
    using assms unfolding represents_cut by (auto simp: behind_def)
  have rest: "get_next a h = Some ?n" "get_previous ?n h = Some a" "links h (map fst ys @ [l])"
    using cut(3) by (cases ys; simp add: behind_def)+
  have alloc: "h x \<noteq> None" if "x \<in> set (l # map fst (xs @ ys))" for x
    using represents_allocated [OF assms(1), of x] that by auto
  have ins: "?p \<in> set (l # map fst (xs @ ys))" "?n \<in> set (l # map fst (xs @ ys))"
    using before_in [of l xs] behind_in [of l ys] by auto
  have fresh: "a \<notin> set (l # map fst (xs @ ys))" using cut(1) by auto
  have ne: "?p \<noteq> a" "?n \<noteq> a" using ins fresh by metis+
  obtain h' where h': "unlink a h = Some h'" "\<forall>x. get_next x h' = (if x = ?p then Some ?n else get_next x h)"
    "\<forall>x. get_previous x h' = (if x = ?n then Some ?p else get_previous x h)"
    "\<forall>x. object_at x h' = object_at x h" "same_elsewhere {?p, ?n} h h'"
    using unlink_run [OF cut(5) rest(1) alloc [OF ins(1)] alloc [OF ins(2)] ne] by (elim exE conjE) (rule that)
  have n_xs: "x \<noteq> ?n" if "x \<in> set (map fst xs)" for x
    using that behind_in [of l ys] cut(1) by (metis IntI UnCI distinct.simps(2) distinct_append empty_iff list.set_intros(2) set_ConsD set_append)
  have p_ys: "x \<noteq> ?p" if "x \<in> set (map fst ys)" for x
    using that before_in [of l xs] cut(1) by (metis IntI UnCI distinct.simps(2) distinct_append empty_iff list.set_intros(2) set_ConsD set_append)
  have "links h' (l # map fst xs)"
    by (rule front_chain [OF _ cut(2)]) (use cut(1) h'(2,3) n_xs in simp_all)
  moreover have "links h' (map fst ys @ [l])"
    by (rule back_chain [OF _ rest(3)]) (use cut(1) h'(2,3) p_ys in simp_all)
  moreover have "distinct (l # map fst xs @ map fst ys)" using cut(1) by auto
  moreover have "get_next ?p h' = Some ?n" "get_previous ?n h' = Some ?p" using h'(2,3) by simp_all
  moreover have "\<forall>(b, w) \<in> set (xs @ ys). object_at b h' = Some (Some w)" using cut(6) h'(4) by auto
  ultimately have "represents h' l (xs @ ys)" unfolding represents_cut by blast
  moreover have "object_at a h' = Some (Some v)" using cut(6) h'(4) by simp
  moreover have "same_elsewhere (set (l # map fst (xs @ ys))) h h'"
    using h'(5) ins unfolding same_elsewhere_def by (metis empty_iff insert_iff)
  ultimately show ?thesis using h'(1) by blast
qed

lemma erase_represents:
  assumes "represents h l (xs @ (a, v) # ys)"
  shows "\<exists>h'. list_erase a h = Some (Some v, h') \<and> represents h' l (xs @ ys) \<and> h' a = None \<and>
    same_elsewhere (set (a # l # map fst (xs @ ys))) h h'"
proof -
  obtain h' where h': "unlink a h = Some h'" "represents h' l (xs @ ys)" "object_at a h' = Some (Some v)"
    "same_elsewhere (set (l # map fst (xs @ ys))) h h'"
    using unlink_represents [OF assms] by blast
  have fresh: "a \<notin> set (l # map fst (xs @ ys))" using assms by (auto simp: represents_def)
  have "represents (h'(a := None)) l (xs @ ys)"
    by (rule represents_frame [OF h'(2)]) (metis fresh fun_upd_other)
  moreover have "list_erase a h = Some (Some v, h'(a := None))"
    using h'(1,3) by (auto simp: list_erase_def object_at_def)
  moreover have "same_elsewhere (set (a # l # map fst (xs @ ys))) h (h'(a := None))"
    using h'(4) by (simp add: same_elsewhere_def)
  ultimately show ?thesis by (intro exI [of _ "h'(a := None)"]) simp
qed

text \<open>Splicing moves an item, from before or from behind, in front of the first of \<open>ys\<close>.\<close>

lemma splice_represents:
  assumes "represents h l (us @ (a, v) # vs)" and "us @ vs = xs @ ys"
  shows "\<exists>h'. list_splice (behind l ys) a h = Some h' \<and> represents h' l (xs @ (a, v) # ys)"
proof -
  obtain h1 where h1: "unlink a h = Some h1" "represents h1 l (xs @ ys)" "object_at a h1 = Some (Some v)"
    using unlink_represents [OF assms(1)] assms(2) by auto
  have "a \<notin> set (l # map fst (us @ vs))" using assms(1) by (auto simp: represents_def)
  then have fresh: "a \<notin> set (l # map fst (xs @ ys))" using assms(2) by simp
  then have "behind l ys \<noteq> a" using behind_in [of l ys] by (metis list.set_intros set_ConsD UnI2 map_append set_append)
  moreover obtain h' where "link a (behind l ys) h1 = Some h'" "represents h' l (xs @ (a, v) # ys)"
    using link_represents [OF h1(2,3) fresh] by blast
  ultimately show ?thesis using h1(1) by (auto simp: list_splice_def)
qed

text \<open>What the readers return.\<close>

lemma readers:
  assumes "represents h l xs"
  shows "list_front l h = Some (behind l xs)" and "list_back l h = Some (before l xs)"
    and "list_empty l h = Some (xs = [])"
proof -
  show f: "list_front l h = Some (behind l xs)"
    using assms represents_cut [of h l "[]" xs] by (simp add: list_front_def before_def)
  show "list_back l h = Some (before l xs)"
    using assms represents_cut [of h l xs "[]"] by (simp add: list_back_def behind_def)
  have "behind l xs = l \<longleftrightarrow> xs = []" using assms by (cases xs) (auto simp: behind_def represents_def)
  then show "list_empty l h = Some (xs = [])" using f by (simp add: list_empty_def list_front_def)
qed

lemma next_represents: "represents h l (xs @ (a, v) # ys) \<Longrightarrow> list_next a h = Some (behind l ys)"
  using represents_cut [of h l "xs @ [(a, v)]" ys] by (simp add: list_next_def before_def)

lemma construct_represents: "represents (list_construct l h) l []"
  by (simp add: represents_def list_construct_def get_next_def get_previous_def)

text \<open>Pushing, clearing and finding.\<close>

lemma push_back_represents:
  assumes "represents h l xs" and "h a = None"
  shows "\<exists>h'. list_push_back l (Some a) v h = Some (Some a, h') \<and> represents h' l (xs @ [(a, v)])"
  using insert_represents [of h l xs "[]" a v] assms by (auto simp: list_push_back_def list_end_def behind_def)

lemma push_front_represents:
  assumes "represents h l xs" and "h a = None"
  shows "\<exists>h'. list_push_front l (Some a) v h = Some (Some a, h') \<and> represents h' l ((a, v) # xs)"
  using insert_represents [of h l "[]" xs a v] assms readers(1) [OF assms(1)] by (auto simp: list_push_front_def)

lemma clear_represents:
  "represents h l xs \<Longrightarrow> \<exists>h'. list_clear l h = Some (map (Some \<circ> snd) xs, h') \<and> represents h' l []"
proof (induction xs arbitrary: h)
  case Nil
  then show ?case using readers(3) [OF Nil] by (simp add: list_clear.simps)
next
  case (Cons x xs)
  obtain a v where x: "x = (a, v)" by (cases x)
  obtain h1 where h1: "list_erase a h = Some (Some v, h1)" "represents h1 l xs"
    using erase_represents [of h l "[]" a v xs] Cons.prems x by auto
  obtain h' where "list_clear l h1 = Some (map (Some \<circ> snd) xs, h')" "represents h' l []"
    using Cons.IH [OF h1(2)] by blast
  then show ?case
    using readers(1,3) [OF Cons.prems] h1(1) x by (subst list_clear.simps) (simp add: behind_def)
qed

lemma find_from_represents:
  "represents h l (xs @ ys) \<Longrightarrow>
   find_from l eq (behind l ys) h = Some (map_option fst (List.find (\<lambda>(a, v). eq (Some v)) ys))"
proof (induction ys arbitrary: xs)
  case Nil
  then show ?case by (simp add: find_from.simps behind_def list_end_def)
next
  case (Cons y ys)
  obtain a v where y: "y = (a, v)" by (cases y)
  have "a \<noteq> l" "object_at a h = Some (Some v)" using Cons.prems by (auto simp: y represents_def object_at_def)
  moreover have "list_next a h = Some (behind l ys)" using next_represents [of h l xs a v ys] Cons.prems y by simp
  moreover have "find_from l eq (behind l ys) h = Some (map_option fst (List.find (\<lambda>(a, v). eq (Some v)) ys))"
    using Cons.IH [of "xs @ [y]"] Cons.prems by simp
  ultimately show ?case
    by (subst find_from.simps) (auto simp: y behind_def list_end_def object_at_def)
qed

lemma find_represents:
  "represents h l xs \<Longrightarrow> list_find l eq h = Some (map_option fst (List.find (\<lambda>(a, v). eq (Some v)) xs))"
  using find_from_represents [of h l "[]" xs eq] readers(1) by (fastforce simp: list_find_def)

text \<open>The walk of the shutdown reads the successor before the erasure, and never reads a freed item.\<close>

lemma erase_walk_represents:
  "represents h l xs \<Longrightarrow> \<exists>h'. erase_walk l (behind l xs) h = Some (map fst xs, h') \<and> represents h' l [] \<and>
     (\<forall>a \<in> set (map fst xs). h' a = None) \<and> same_elsewhere (set (l # map fst xs)) h h'"
proof (induction xs arbitrary: h)
  case Nil
  then show ?case by (simp add: erase_walk.simps behind_def list_end_def same_elsewhere_def)
next
  case (Cons x xs)
  obtain a v where x: "x = (a, v)" by (cases x)
  have a: "a \<noteq> l" "a \<notin> set (map fst xs)" using Cons.prems by (auto simp: x represents_def)
  have n: "list_next a h = Some (behind l xs)" using next_represents [of h l "[]" a v xs] Cons.prems x by simp
  obtain h1 where h1: "list_erase a h = Some (Some v, h1)" "represents h1 l xs" "h1 a = None"
    "same_elsewhere (set (a # l # map fst xs)) h h1"
    using erase_represents [of h l "[]" a v xs] Cons.prems x by auto
  obtain h' where h': "erase_walk l (behind l xs) h1 = Some (map fst xs, h')" "represents h' l []"
    "\<forall>a \<in> set (map fst xs). h' a = None" "same_elsewhere (set (l # map fst xs)) h1 h'"
    using Cons.IH [OF h1(2)] by blast
  have "erase_walk l a h = Some (a # map fst xs, h')"
    using n h1(1) h'(1) a by (subst erase_walk.simps) (simp add: list_end_def)
  moreover have "h' a = None" using h'(4) h1(3) a unfolding same_elsewhere_def by simp
  moreover have "same_elsewhere (set (l # a # map fst xs)) h h'"
    using h1(4) h'(4) by (simp add: same_elsewhere_def)
  ultimately show ?case using h'(2,3) by (auto simp: x behind_def)
qed

subsection \<open>The addresses in use\<close>

lemma push_back_dom:
  assumes "represents h l xs" and "h a = None"
  shows "\<exists>h'. list_push_back l (Some a) v h = Some (Some a, h') \<and> represents h' l (xs @ [(a, v)]) \<and>
    dom h' = insert a (dom h)"
proof -
  obtain h' where h': "list_push_back l (Some a) v h = Some (Some a, h')" "represents h' l (xs @ [(a, v)])"
    "same_elsewhere (set (a # l # map fst xs)) h h'"
    using insert_represents [of h l xs "[]" a v] assms by (auto simp: list_push_back_def list_end_def behind_def)
  have "x \<in> dom h' \<longleftrightarrow> x = a \<or> x \<in> dom h" for x
  proof (cases "x \<in> set (a # l # map fst xs)")
    case True
    then have "x = a \<or> x \<in> set (l # map fst xs)" by auto
    moreover have "h' x \<noteq> None" using represents_allocated [OF h'(2), of x] True by auto
    ultimately show ?thesis using represents_allocated [OF assms(1), of x] by blast
  next
    case False
    then have "h' x = h x" "x \<noteq> a" using h'(3) unfolding same_elsewhere_def by (blast, simp)
    then show ?thesis by (simp add: dom_def)
  qed
  then show ?thesis using h'(1,2) by blast
qed

lemma erase_dom:
  assumes "represents h l (xs @ (a, v) # ys)"
  shows "\<exists>h'. list_erase a h = Some (Some v, h') \<and> represents h' l (xs @ ys) \<and> dom h' = dom h - {a}"
proof -
  obtain h' where h': "list_erase a h = Some (Some v, h')" "represents h' l (xs @ ys)" "h' a = None"
    "same_elsewhere (set (a # l # map fst (xs @ ys))) h h'"
    using erase_represents [OF assms] by blast
  have "x \<in> dom h' \<longleftrightarrow> x \<in> dom h - {a}" for x
  proof (cases "x \<in> set (l # map fst (xs @ ys))")
    case True
    then have "h' x \<noteq> None" by (rule represents_allocated [OF h'(2)])
    moreover have "h x \<noteq> None" using represents_allocated [OF assms, of x] True by auto
    moreover have "x \<noteq> a" using True assms by (auto simp: represents_def)
    ultimately show ?thesis by auto
  next
    case False
    then show ?thesis using h'(3,4) unfolding same_elsewhere_def dom_def
      by (metis (mono_tags, lifting) Diff_iff mem_Collect_eq set_ConsD singleton_iff)
  qed
  then show ?thesis using h'(1,2) by blast
qed

lemma erase_walk_dom:
  assumes "represents h l xs"
  shows "\<exists>h'. erase_walk l (behind l xs) h = Some (map fst xs, h') \<and> represents h' l [] \<and>
    dom h' = dom h - set (map fst xs)"
proof -
  obtain h' where h': "erase_walk l (behind l xs) h = Some (map fst xs, h')" "represents h' l []"
    "\<forall>a \<in> set (map fst xs). h' a = None" "same_elsewhere (set (l # map fst xs)) h h'"
    using erase_walk_represents [OF assms] by blast
  have "x \<in> dom h' \<longleftrightarrow> x \<in> dom h - set (map fst xs)" for x
  proof (cases "x \<in> set (map fst xs)")
    case False
    moreover have "h' l \<noteq> None" "h l \<noteq> None"
      using represents_allocated [OF h'(2), of l] represents_allocated [OF assms, of l] by simp_all
    moreover have "x \<noteq> l \<Longrightarrow> h' x = h x" using h'(4) False unfolding same_elsewhere_def by (metis set_ConsD)
    ultimately show ?thesis by (cases "x = l") auto
  qed (use h'(3) in auto)
  then show ?thesis using h'(1,2) by blast
qed

subsection \<open>The interface the server uses\<close>

text \<open>
  The server keeps its connections in such a list: it pushes one when it accepts, erases it by its address
  when it closes, and walks the rest in its shutdown.
\<close>

datatype 'a conn_event = Opened nat 'a | Closed nat

fun replay :: "(nat \<Rightarrow> 'a \<Rightarrow> 's \<Rightarrow> 's option) \<Rightarrow> (nat \<Rightarrow> 's \<Rightarrow> 's option) \<Rightarrow> 'a conn_event list \<Rightarrow> 's \<Rightarrow> 's option" where
  "replay push erase [] s = Some s"
| "replay push erase (Opened a v # es) s = do { s \<leftarrow> push a v s; replay push erase es s }"
| "replay push erase (Closed a # es) s = do { s \<leftarrow> erase a s; replay push erase es s }"

text \<open>The connections left open, in the order of their acceptance, and the events that can happen.\<close>

fun left_open :: "'a conn_event list \<Rightarrow> (nat \<times> 'a) list \<Rightarrow> (nat \<times> 'a) list" where
  "left_open [] xs = xs"
| "left_open (Opened a v # es) xs = left_open es (xs @ [(a, v)])"
| "left_open (Closed a # es) xs = left_open es (filter (\<lambda>x. fst x \<noteq> a) xs)"

fun can_happen :: "nat set \<Rightarrow> 'a conn_event list \<Rightarrow> nat list \<Rightarrow> bool" where
  "can_happen T [] as \<longleftrightarrow> True"
| "can_happen T (Opened a v # es) as \<longleftrightarrow> a \<notin> T \<and> a \<notin> set as \<and> can_happen T es (as @ [a])"
| "can_happen T (Closed a # es) as \<longleftrightarrow> a \<in> set as \<and> can_happen T es (filter (\<lambda>b. b \<noteq> a) as)"

locale object_list =
  fixes holds :: "'s \<Rightarrow> (nat \<times> 'a) list \<Rightarrow> bool" and used :: "'s \<Rightarrow> nat set"
    and push :: "nat \<Rightarrow> 'a \<Rightarrow> 's \<Rightarrow> 's option" and erase :: "nat \<Rightarrow> 's \<Rightarrow> 's option"
    and walk :: "'s \<Rightarrow> (nat list \<times> 's) option"
  assumes objects_distinct: "holds s xs \<Longrightarrow> distinct (map fst xs)"
    and push_law: "holds s xs \<Longrightarrow> a \<notin> used s \<Longrightarrow>
      \<exists>s'. push a v s = Some s' \<and> holds s' (xs @ [(a, v)]) \<and> used s' = insert a (used s)"
    and erase_law: "holds s (xs @ (a, v) # ys) \<Longrightarrow>
      \<exists>s'. erase a s = Some s' \<and> holds s' (xs @ ys) \<and> used s' = used s - {a}"
    and walk_law: "holds s xs \<Longrightarrow>
      \<exists>s'. walk s = Some (map fst xs, s') \<and> holds s' [] \<and> used s' = used s - set (map fst xs)"
begin

lemma replay_holds:
  assumes "holds s xs" and "used s = T \<union> set (map fst xs)" and "T \<inter> set (map fst xs) = {}"
    and "can_happen T es (map fst xs)"
  shows "\<exists>s'. replay push erase es s = Some s' \<and> holds s' (left_open es xs) \<and>
    used s' = T \<union> set (map fst (left_open es xs)) \<and> T \<inter> set (map fst (left_open es xs)) = {}"
  using assms
proof (induction es arbitrary: s xs)
  case Nil
  then show ?case by simp
next
  case (Cons e es)
  show ?case
  proof (cases e)
    case (Opened a v)
    then have a: "a \<notin> T" "a \<notin> set (map fst xs)" "can_happen T es (map fst (xs @ [(a, v)]))"
      using Cons.prems(4) by auto
    then obtain s1 where s1: "push a v s = Some s1" "holds s1 (xs @ [(a, v)])" "used s1 = insert a (used s)"
      using push_law [OF Cons.prems(1), of a v] Cons.prems(2) by auto
    have "\<exists>s'. replay push erase es s1 = Some s' \<and> holds s' (left_open es (xs @ [(a, v)])) \<and>
        used s' = T \<union> set (map fst (left_open es (xs @ [(a, v)]))) \<and>
        T \<inter> set (map fst (left_open es (xs @ [(a, v)]))) = {}"
      by (rule Cons.IH [OF s1(2)]) (use a s1(3) Cons.prems(2,3) in auto)
    then show ?thesis by (simp add: Opened s1(1))
  next
    case (Closed a)
    then have "a \<in> set (map fst xs)" using Cons.prems(4) by simp
    then obtain us v vs where xs: "xs = us @ (a, v) # vs" by (auto dest!: split_list)
    have d: "distinct (map fst xs)" by (rule objects_distinct [OF Cons.prems(1)])
    then have "\<forall>x \<in> set (us @ vs). fst x \<noteq> a" unfolding xs by (auto simp: image_iff)
    then have "filter (\<lambda>x. fst x \<noteq> a) (us @ vs) = us @ vs" by (rule filter_True)
    then have f: "filter (\<lambda>x. fst x \<noteq> a) xs = us @ vs" unfolding xs by simp
    have m: "filter (\<lambda>b. b \<noteq> a) (map fst xs) = map fst (us @ vs)"
      unfolding f [symmetric] by (simp add: filter_map comp_def)
    obtain s1 where s1: "erase a s = Some s1" "holds s1 (us @ vs)" "used s1 = used s - {a}"
      using erase_law Cons.prems(1) xs by blast
    have "\<exists>s'. replay push erase es s1 = Some s' \<and> holds s' (left_open es (us @ vs)) \<and>
        used s' = T \<union> set (map fst (left_open es (us @ vs))) \<and> T \<inter> set (map fst (left_open es (us @ vs))) = {}"
    proof (rule Cons.IH [OF s1(2)])
      show "used s1 = T \<union> set (map fst (us @ vs))"
        using s1(3) Cons.prems(2,3) d by (auto simp: xs)
      show "T \<inter> set (map fst (us @ vs)) = {}" using Cons.prems(3) by (auto simp: xs)
      show "can_happen T es (map fst (us @ vs))" using Cons.prems(4) m by (simp add: Closed)
    qed
    then show ?thesis by (simp add: Closed s1(1) f)
  qed
qed

lemma shutdown_releases:
  assumes "holds s []" and "used s = T" and "can_happen T es []"
  shows "\<exists>s1 s2. replay push erase es s = Some s1 \<and> walk s1 = Some (map fst (left_open es []), s2) \<and>
    holds s2 [] \<and> used s2 = T"
proof -
  obtain s1 where s1: "replay push erase es s = Some s1" "holds s1 (left_open es [])"
    "used s1 = T \<union> set (map fst (left_open es []))" "T \<inter> set (map fst (left_open es [])) = {}"
    using replay_holds [of s "[]" T es] assms by auto
  moreover obtain s2 where "walk s1 = Some (map fst (left_open es []), s2)" "holds s2 []"
    "used s2 = used s1 - set (map fst (left_open es []))"
    using walk_law [OF s1(2)] by blast
  ultimately show ?thesis by (intro exI [of _ s1] exI [of _ s2]) auto
qed

end

definition conn_push :: "nat \<Rightarrow> nat \<Rightarrow> 'a \<Rightarrow> 'a store \<Rightarrow> 'a store option" where
  "conn_push l a v h = map_option snd (list_push_back l (Some a) v h)"

definition conn_erase :: "nat \<Rightarrow> 'a store \<Rightarrow> 'a store option" where
  "conn_erase a h = map_option snd (list_erase a h)"

definition shutdown_walk :: "nat \<Rightarrow> 'a store \<Rightarrow> (nat list \<times> 'a store) option" where
  "shutdown_walk l h = do { f \<leftarrow> list_front l h; erase_walk l f h }"

interpretation conns: object_list "\<lambda>h. represents h l" dom "conn_push l" conn_erase "shutdown_walk l" for l
proof
  show "distinct (map fst xs)" if "represents s l xs" for s :: "'a store" and xs
    using that by (simp add: represents_def)
  show "\<exists>s'. conn_push l a v s = Some s' \<and> represents s' l (xs @ [(a, v)]) \<and> dom s' = insert a (dom s)"
    if "represents s l xs" "a \<notin> dom s" for s xs a and v :: 'a
    using push_back_dom [OF that(1), of a v] that(2) by (auto simp: conn_push_def)
  show "\<exists>s'. conn_erase a s = Some s' \<and> represents s' l (xs @ ys) \<and> dom s' = dom s - {a}"
    if "represents s l (xs @ (a, v) # ys)" for s xs a and v :: 'a and ys
    using erase_dom [OF that] by (auto simp: conn_erase_def)
  show "\<exists>s'. shutdown_walk l s = Some (map fst xs, s') \<and> represents s' l [] \<and> dom s' = dom s - set (map fst xs)"
    if "represents s l xs" for s :: "'a store" and xs
    using erase_walk_dom [OF that] readers(1) [OF that] by (auto simp: shutdown_walk_def)
qed

subsection \<open>Properties\<close>

text \<open>
  C17. The connection list of the server, for every history of accepted and closed connections: no operation
  touches memory that is not allocated, the shutdown closes exactly the connections still open, each once
  and in the order of their acceptance although it frees the item it stands on, and every item the history
  allocated has been freed.
\<close>

theorem shutdown_frees_every_connection:
  fixes es :: "'a conn_event list"
  assumes "h0 l = None" and "can_happen (insert l (dom h0)) es []"
  shows "\<exists>h1 h2. replay (conn_push l) conn_erase es (list_construct l h0) = Some h1 \<and>
    shutdown_walk l h1 = Some (map fst (left_open es []), h2) \<and>
    list_empty l h2 = Some True \<and> dom h2 = insert l (dom h0)"
proof -
  have "dom (list_construct l h0) = insert l (dom h0)" by (simp add: list_construct_def)
  from conns.shutdown_releases [OF construct_represents this assms(2)]
  obtain h1 h2 where "replay (conn_push l) conn_erase es (list_construct l h0) = Some h1"
    "shutdown_walk l h1 = Some (map fst (left_open es []), h2)" "represents h2 l []" "dom h2 = insert l (dom h0)"
    by blast
  then show ?thesis using readers(3) [of h2 l "[]"] by simp
qed

lemma shutdown_frees_every_connection_witness:
  "\<exists>h1 h2. replay (conn_push 0) conn_erase [Opened 8 ''a'', Opened 16 ''b'', Opened 24 ''c'', Closed 16, Opened 16 ''d'']
      (list_construct 0 Map.empty) = Some h1 \<and>
    shutdown_walk 0 h1 = Some ([8, 24, 16], h2) \<and> list_empty 0 h2 = Some True \<and> dom h2 = {0}"
  using shutdown_frees_every_connection
    [of Map.empty 0 "[Opened 8 ''a'', Opened 16 ''b'', Opened 24 ''c'', Closed 16, Opened 16 ''d'']"] by simp

text \<open>
  Splicing in front of an object moves the item and nothing else: whatever its place before, it stands
  right in front of that object, or at the end of the list for \<open>list_end\<close>, and the other objects keep
  their order.
\<close>

theorem splice_moves:
  assumes "represents h l (us @ (a, v) # vs)" and "us @ vs = xs @ ys"
  shows "\<exists>h'. list_splice (hd (map fst ys @ [l])) a h = Some h' \<and> represents h' l (xs @ (a, v) # ys)"
  using splice_represents [OF assms] by (simp add: behind_def)

lemma splice_moves_witness:
  "\<exists>h h'. represents h 0 [(8, ''a''), (16, ''b''), (24, ''c'')] \<and> list_splice 8 24 h = Some h' \<and>
    represents h' 0 [(24, ''c''), (8, ''a''), (16, ''b'')]"
proof -
  define h where "h = [0 :: nat \<mapsto> \<lparr>it_next = 8, it_previous = 24, it_object = None :: string option\<rparr>,
    8 \<mapsto> \<lparr>it_next = 16, it_previous = 0, it_object = Some ''a''\<rparr>,
    16 \<mapsto> \<lparr>it_next = 24, it_previous = 8, it_object = Some ''b''\<rparr>,
    24 \<mapsto> \<lparr>it_next = 0, it_previous = 16, it_object = Some ''c''\<rparr>]"
  have "represents h 0 [(8, ''a''), (16, ''b''), (24, ''c'')]"
    by (simp add: represents_def h_def get_next_def get_previous_def)
  then show ?thesis
    using splice_moves [of h 0 "[(8, ''a''), (16, ''b'')]" 24 "''c''" "[]" "[]" "[(8, ''a''), (16, ''b'')]"] by fastforce
qed

end
