(* ===== verification/Mem_Pool.thy ===== *)
theory Mem_Pool
  imports Prelude "HOL-Library.Monad_Syntax" "HOL-Library.Multiset"
begin

text \<open>
  Component \<open>third_party/libreactor/src/reactor/core.c\<close>, the memory pools behind \<open>reactor_mem_alloc\<close> and
  \<open>reactor_mem_free\<close>, from which the buffers take their blocks. An address is a region of \<open>malloc\<close> and an
  offset in it. Which calls of \<open>malloc\<close> succeed, by their number, is an argument. The mutexes of the
  pools are left out.
\<close>

subsection \<open>State\<close>

definition REACTOR_MEM_BLOCK_SIZE :: nat where
  "REACTOR_MEM_BLOCK_SIZE = 4096"

datatype pool_id = MALLOC_POOL_ID | SMALL_POOL_ID | MEDIUM_POOL_ID | LARGE_POOL_ID

definition MEM_HEADER_MAGIC :: u32 where
  "MEM_HEADER_MAGIC = 0xDEADBEEF"

definition MEM_HEADER_FREED :: u32 where
  "MEM_HEADER_FREED = 0xDEADDEAD"

text \<open>Two \<open>size_t\<close> and a \<open>uint32_t\<close>, padded; a block is a pointer and its data.\<close>

definition MEM_HEADER_SIZE :: nat where
  "MEM_HEADER_SIZE = 24"

definition DATA_OFFSET :: nat where
  "DATA_OFFSET = 8"

definition MEM_BLOCK_BYTES :: nat where
  "MEM_BLOCK_BYTES = DATA_OFFSET + REACTOR_MEM_BLOCK_SIZE"

type_synonym addr = "nat \<times> nat"

text \<open>The number of the pool is overwritten when a block is put on a free list: \<open>None\<close>.\<close>

record mem_header =
  mh_pool_id :: "pool_id option"
  mh_size :: size_t
  mh_magic :: u32

text \<open>The \<open>next\<close> fields of the free blocks as a list.\<close>

record mem_pool =
  pl_free_list :: "addr list"
  pl_block_count :: size_t
  pl_alloc_count :: size_t

text \<open>
  \<open>ph_regions\<close> has the sizes of the allocated regions, \<open>ph_headers\<close> the header last written in a
  region and its place there.
\<close>

record pool_heap =
  ph_calls :: nat
  ph_regions :: "nat \<Rightarrow> nat option"
  ph_headers :: "nat \<Rightarrow> (nat \<times> mem_header) option"
  ph_small :: "mem_pool option"
  ph_medium :: "mem_pool option"
  ph_large :: "mem_pool option"

definition malloc_region :: "(nat \<Rightarrow> bool) \<Rightarrow> nat \<Rightarrow> pool_heap \<Rightarrow> nat option \<times> pool_heap" where
  "malloc_region ok n s =
     (let i = ph_calls s; s = s\<lparr>ph_calls := Suc i\<rparr>
      in if ok i then (Some i, s\<lparr>ph_regions := (ph_regions s)(i \<mapsto> n)\<rparr>) else (None, s))"

text \<open>\<open>free\<close> takes the start of a region.\<close>

definition free_region :: "addr \<Rightarrow> pool_heap \<Rightarrow> pool_heap option" where
  "free_region p s =
     (if snd p = 0 \<and> ph_regions s (fst p) \<noteq> None
      then Some (s\<lparr>ph_regions := (ph_regions s)(fst p := None)\<rparr>) else None)"

definition in_region :: "nat \<Rightarrow> addr \<Rightarrow> pool_heap \<Rightarrow> bool" where
  "in_region n p s \<longleftrightarrow> (case ph_regions s (fst p) of None \<Rightarrow> False | Some m \<Rightarrow> snd p + n \<le> m)"

definition write_header :: "addr \<Rightarrow> mem_header \<Rightarrow> pool_heap \<Rightarrow> pool_heap option" where
  "write_header p mh s =
     (if in_region MEM_HEADER_SIZE p s
      then Some (s\<lparr>ph_headers := (ph_headers s)(fst p \<mapsto> (snd p, mh))\<rparr>) else None)"

text \<open>A header is read where it was written; elsewhere the bytes are something else.\<close>

definition read_header :: "addr \<Rightarrow> pool_heap \<Rightarrow> mem_header option" where
  "read_header p s =
     (if in_region MEM_HEADER_SIZE p s
      then case ph_headers s (fst p) of
             Some (at, mh) \<Rightarrow> if at = snd p then Some mh else None
           | None \<Rightarrow> None
      else None)"

definition pool_at :: "pool_id \<Rightarrow> pool_heap \<Rightarrow> mem_pool option" where
  "pool_at i s =
     (case i of SMALL_POOL_ID \<Rightarrow> ph_small s | MEDIUM_POOL_ID \<Rightarrow> ph_medium s | _ \<Rightarrow> ph_large s)"

definition put_pool :: "pool_id \<Rightarrow> mem_pool \<Rightarrow> pool_heap \<Rightarrow> pool_heap" where
  "put_pool i p s =
     (case i of SMALL_POOL_ID \<Rightarrow> s\<lparr>ph_small := Some p\<rparr> | MEDIUM_POOL_ID \<Rightarrow> s\<lparr>ph_medium := Some p\<rparr>
      | _ \<Rightarrow> s\<lparr>ph_large := Some p\<rparr>)"

subsection \<open>Operations\<close>

definition mem_pool_create :: "(nat \<Rightarrow> bool) \<Rightarrow> pool_heap \<Rightarrow> mem_pool option \<times> pool_heap" where
  "mem_pool_create ok s =
     (case malloc_region ok 64 s of
        (None, s) \<Rightarrow> (None, s)
      | (Some _, s) \<Rightarrow> (Some \<lparr>pl_free_list = [], pl_block_count = 0, pl_alloc_count = 0\<rparr>, s))"

definition header_size :: "size_t" where
  "header_size = of_nat MEM_HEADER_SIZE"

text \<open>The object of its own region, after its header; the sum of the sizes can wrap.\<close>

definition alloc_plain :: "(nat \<Rightarrow> bool) \<Rightarrow> size_t \<Rightarrow> pool_heap \<Rightarrow> (addr option \<times> pool_heap) option" where
  "alloc_plain ok n s =
     (case malloc_region ok (unat (n + header_size)) s of
        (None, s) \<Rightarrow> Some (None, s)
      | (Some i, s) \<Rightarrow>
          do { s \<leftarrow> write_header (i, 0) \<lparr>mh_pool_id = Some MALLOC_POOL_ID, mh_size = n, mh_magic = MEM_HEADER_MAGIC\<rparr> s;
               Some (Some (i, MEM_HEADER_SIZE), s) })"

definition take_block :: "(nat \<Rightarrow> bool) \<Rightarrow> pool_id \<Rightarrow> mem_pool \<Rightarrow> pool_heap \<Rightarrow> addr option \<times> pool_heap" where
  "take_block ok i pl s =
     (case pl_free_list pl of
        b # bs \<Rightarrow> (Some b, put_pool i (pl\<lparr>pl_free_list := bs, pl_block_count := pl_block_count pl - 1\<rparr>) s)
      | [] \<Rightarrow> (case malloc_region ok MEM_BLOCK_BYTES s of
                (None, s) \<Rightarrow> (None, s)
              | (Some j, s) \<Rightarrow> (Some (j, 0), s)))"

definition mem_pool_alloc ::
  "(nat \<Rightarrow> bool) \<Rightarrow> mem_pool \<Rightarrow> size_t \<Rightarrow> pool_id \<Rightarrow> pool_heap \<Rightarrow> (addr option \<times> pool_heap) option" where
  "mem_pool_alloc ok pl n i s =
     (if n + header_size > of_nat REACTOR_MEM_BLOCK_SIZE then alloc_plain ok n s
      else case take_block ok i pl s of
             (None, s) \<Rightarrow> Some (None, s)
           | (Some (b, off), s) \<Rightarrow>
               do { s \<leftarrow> write_header (b, off + DATA_OFFSET)
                         \<lparr>mh_pool_id = Some i, mh_size = n, mh_magic = MEM_HEADER_MAGIC\<rparr> s;
                    Some (Some (b, off + DATA_OFFSET + MEM_HEADER_SIZE), s) })"

text \<open>The pool of a size, created when it is first needed.\<close>

definition alloc_from :: "(nat \<Rightarrow> bool) \<Rightarrow> pool_id \<Rightarrow> size_t \<Rightarrow> pool_heap \<Rightarrow> (addr option \<times> pool_heap) option" where
  "alloc_from ok i n s =
     (case pool_at i s of
        Some pl \<Rightarrow> mem_pool_alloc ok pl n i s
      | None \<Rightarrow>
          (case mem_pool_create ok s of
             (None, s) \<Rightarrow> alloc_plain ok n s
           | (Some pl, s) \<Rightarrow> mem_pool_alloc ok pl n i (put_pool i pl s)))"

definition reactor_mem_alloc :: "(nat \<Rightarrow> bool) \<Rightarrow> size_t \<Rightarrow> pool_heap \<Rightarrow> (addr option \<times> pool_heap) option" where
  "reactor_mem_alloc ok n s =
     (if n \<le> 256 then alloc_from ok SMALL_POOL_ID n s
      else if n \<le> 1024 then alloc_from ok MEDIUM_POOL_ID n s
      else if n \<le> 4096 then alloc_from ok LARGE_POOL_ID n s
      else alloc_plain ok n s)"

definition reactor_mem_free :: "addr option \<Rightarrow> pool_heap \<Rightarrow> pool_heap option" where
  "reactor_mem_free p s =
     (case p of
        None \<Rightarrow> Some s
      | Some (b, off) \<Rightarrow>
          if off < MEM_HEADER_SIZE then None
          else do { let h = (b, off - MEM_HEADER_SIZE);
                    mh \<leftarrow> read_header h s;
                    if mh_magic mh = MEM_HEADER_FREED then Some s
                    else do { i \<leftarrow> mh_pool_id mh;
                              s \<leftarrow> write_header h (mh\<lparr>mh_magic := MEM_HEADER_FREED\<rparr>) s;
                              if i = MALLOC_POOL_ID then free_region h s
                              else case pool_at i s of
                                     None \<Rightarrow> free_region h s
                                   | Some pl \<Rightarrow>
                                       do { s \<leftarrow> write_header h (mh\<lparr>mh_magic := MEM_HEADER_FREED, mh_pool_id := None\<rparr>) s;
                                            Some (put_pool i (pl\<lparr>pl_free_list := h # pl_free_list pl,
                                                                pl_block_count := pl_block_count pl + 1\<rparr>) s) } } })"

subsection \<open>Well-formed heaps\<close>

definition free_of :: "pool_id \<Rightarrow> pool_heap \<Rightarrow> addr list" where
  "free_of i s = (case pool_at i s of None \<Rightarrow> [] | Some pl \<Rightarrow> pl_free_list pl)"

definition all_free :: "pool_heap \<Rightarrow> addr list" where
  "all_free s = free_of SMALL_POOL_ID s @ free_of MEDIUM_POOL_ID s @ free_of LARGE_POOL_ID s"

text \<open>A free block is marked as freed where it lies, at most \<open>k\<close> shifts into its region.\<close>

definition free_at :: "nat \<Rightarrow> pool_heap \<Rightarrow> addr \<Rightarrow> bool" where
  "free_at k s p \<longleftrightarrow> ph_regions s (fst p) = Some MEM_BLOCK_BYTES \<and> snd p \<le> DATA_OFFSET * k \<and>
     (\<exists>mh. ph_headers s (fst p) = Some (snd p, mh) \<and> mh_magic mh = MEM_HEADER_FREED)"

text \<open>An object in use: in a region of its own size, or in a block, at most \<open>k\<close> shifts into it.\<close>

definition placed_at :: "nat \<Rightarrow> pool_heap \<Rightarrow> addr \<Rightarrow> size_t \<Rightarrow> pool_id \<Rightarrow> bool" where
  "placed_at k s p n i \<longleftrightarrow>
     (if i = MALLOC_POOL_ID
      then snd p = MEM_HEADER_SIZE \<and> ph_regions s (fst p) = Some (MEM_HEADER_SIZE + unat n)
      else ph_regions s (fst p) = Some MEM_BLOCK_BYTES \<and> snd p \<le> MEM_HEADER_SIZE + DATA_OFFSET * k \<and>
        unat n + MEM_HEADER_SIZE \<le> REACTOR_MEM_BLOCK_SIZE \<and> pool_at i s \<noteq> None)"

definition live_at :: "nat \<Rightarrow> pool_heap \<Rightarrow> addr \<Rightarrow> size_t \<Rightarrow> bool" where
  "live_at k s p n \<longleftrightarrow> MEM_HEADER_SIZE \<le> snd p \<and> in_region 0 p s \<and>
     (\<exists>i. ph_headers s (fst p) = Some (snd p - MEM_HEADER_SIZE,
            \<lparr>mh_pool_id = Some i, mh_size = n, mh_magic = MEM_HEADER_MAGIC\<rparr>) \<and> placed_at k s p n i)"

text \<open>\<open>L\<close> has the offset and the size of the object in use in each region.\<close>

definition pool_ok :: "nat \<Rightarrow> (nat \<Rightarrow> (nat \<times> size_t) option) \<Rightarrow> pool_heap \<Rightarrow> bool" where
  "pool_ok k L s \<longleftrightarrow> distinct (map fst (all_free s)) \<and>
     (\<forall>p \<in> set (all_free s). L (fst p) = None \<and> free_at k s p) \<and>
     (\<forall>b off n. L b = Some (off, n) \<longrightarrow> live_at k s (b, off) n) \<and>
     (\<forall>i. ph_calls s \<le> i \<longrightarrow> ph_regions s i = None)"

lemma put_pool_fields [simp]:
  "ph_regions (put_pool i p s) = ph_regions s" "ph_headers (put_pool i p s) = ph_headers s"
  "ph_calls (put_pool i p s) = ph_calls s"
  by (simp_all add: put_pool_def split: pool_id.split)

lemma pool_at_fields [simp]:
  "pool_at i (s\<lparr>ph_headers := g\<rparr>) = pool_at i s" "pool_at i (s\<lparr>ph_regions := f\<rparr>) = pool_at i s"
  "pool_at i (s\<lparr>ph_calls := c\<rparr>) = pool_at i s"
  by (simp_all add: pool_at_def split: pool_id.split)

lemma all_free_fields [simp]:
  "all_free (s\<lparr>ph_headers := g\<rparr>) = all_free s" "all_free (s\<lparr>ph_regions := f\<rparr>) = all_free s"
  "all_free (s\<lparr>ph_calls := c\<rparr>) = all_free s"
  by (simp_all add: all_free_def free_of_def)

lemma pool_at_put: "i \<noteq> MALLOC_POOL_ID \<Longrightarrow> j \<noteq> MALLOC_POOL_ID \<Longrightarrow>
    pool_at i (put_pool j p s) = (if i = j then Some p else pool_at i s)"
  by (cases i; cases j) (simp_all add: pool_at_def put_pool_def)

lemma free_put:
  assumes "i \<noteq> MALLOC_POOL_ID"
  shows "mset (all_free (put_pool i pl s)) + mset (free_of i s) = mset (all_free s) + mset (pl_free_list pl)"
  using assms by (cases i) (simp_all add: all_free_def free_of_def pool_at_def put_pool_def)

text \<open>What only adds regions, or writes elsewhere, changes nothing for a place.\<close>

lemma free_at_frame:
  "free_at k s p \<Longrightarrow> ph_regions s' (fst p) = ph_regions s (fst p) \<Longrightarrow> ph_headers s' (fst p) = ph_headers s (fst p) \<Longrightarrow>
   k \<le> k' \<Longrightarrow> free_at k' s' p"
  unfolding free_at_def DATA_OFFSET_def by auto

lemma live_at_frame:
  assumes "live_at k s p n" and same: "ph_regions s' (fst p) = ph_regions s (fst p)"
      "ph_headers s' (fst p) = ph_headers s (fst p)"
    and keep: "\<And>i. i \<noteq> MALLOC_POOL_ID \<Longrightarrow> pool_at i s \<noteq> None \<Longrightarrow> pool_at i s' \<noteq> None" and "k \<le> k'"
  shows "live_at k' s' p n"
proof -
  obtain i where i: "ph_headers s (fst p) = Some (snd p - MEM_HEADER_SIZE,
      \<lparr>mh_pool_id = Some i, mh_size = n, mh_magic = MEM_HEADER_MAGIC\<rparr>)" "placed_at k s p n i"
    using assms(1) unfolding live_at_def by blast
  have le: "snd p \<le> MEM_HEADER_SIZE + DATA_OFFSET * k \<Longrightarrow> snd p \<le> MEM_HEADER_SIZE + DATA_OFFSET * k'"
    using assms(5) by (simp add: DATA_OFFSET_def)
  have "placed_at k' s' p n i"
    using i(2) keep [of i] le unfolding placed_at_def same(1) by presburger
  moreover have "ph_headers s' (fst p) = Some (snd p - MEM_HEADER_SIZE,
      \<lparr>mh_pool_id = Some i, mh_size = n, mh_magic = MEM_HEADER_MAGIC\<rparr>)"
    using i(1) same(2) by metis
  moreover have "MEM_HEADER_SIZE \<le> snd p" "in_region 0 p s'"
    using assms(1) same(1) by (simp_all add: live_at_def in_region_def)
  ultimately show ?thesis unfolding live_at_def by (intro conjI exI)
qed

lemma pool_ok_frame:
  assumes ok: "pool_ok k L s" and same: "mset (all_free s') = mset (all_free s)" and "k \<le> k'"
    and less: "\<And>b. L' b = None \<or> L' b = L b"
    and eq: "\<And>b. b \<in> fst ` set (all_free s) \<or> L' b \<noteq> None \<Longrightarrow>
      ph_regions s' b = ph_regions s b \<and> ph_headers s' b = ph_headers s b"
    and pools: "\<And>i. i \<noteq> MALLOC_POOL_ID \<Longrightarrow> pool_at i s \<noteq> None \<Longrightarrow> pool_at i s' \<noteq> None"
    and calls: "\<forall>i. ph_calls s' \<le> i \<longrightarrow> ph_regions s' i = None"
  shows "pool_ok k' L' s'"
proof -
  have set: "set (all_free s') = set (all_free s)" using same by (rule mset_eq_setD)
  have "mset (map fst (all_free s')) = mset (map fst (all_free s))" using same by simp
  then have "distinct (map fst (all_free s'))"
    using mset_eq_imp_distinct_iff ok unfolding pool_ok_def by metis
  moreover have "L' (fst p) = None \<and> free_at k' s' p" if p: "p \<in> set (all_free s')" for p
  proof -
    have "L (fst p) = None" "free_at k s p" using ok p unfolding set pool_ok_def by metis+
    moreover have "ph_regions s' (fst p) = ph_regions s (fst p)" "ph_headers s' (fst p) = ph_headers s (fst p)"
      using eq [of "fst p"] p unfolding set by blast+
    ultimately show ?thesis using less [of "fst p"] free_at_frame [OF _ _ _ assms(3)] by metis
  qed
  moreover have "live_at k' s' (b, off) n" if "L' b = Some (off, n)" for b off n
  proof (rule live_at_frame [where k = k])
    have "L b = Some (off, n)" using less [of b] that by simp
    then show "live_at k s (b, off) n" using ok unfolding pool_ok_def by metis
    show "ph_regions s' (fst (b, off)) = ph_regions s (fst (b, off))"
      "ph_headers s' (fst (b, off)) = ph_headers s (fst (b, off))"
      using eq [of b] that by simp_all
  qed (use assms(3) pools in metis)+
  ultimately show ?thesis unfolding pool_ok_def using calls by metis
qed

lemma pool_ok_add:
  assumes "pool_ok k L s" and "b \<notin> fst ` set (all_free s)" and "live_at k s (b, off) n"
  shows "pool_ok k (L(b \<mapsto> (off, n))) s"
proof -
  have "(L(b \<mapsto> (off, n))) (fst p) = None \<and> free_at k s p" if "p \<in> set (all_free s)" for p
  proof -
    have "fst p \<noteq> b" using that assms(2) by blast
    then show ?thesis using assms(1) that by (simp add: pool_ok_def)
  qed
  moreover have "live_at k s (c, x) m" if "(L(b \<mapsto> (off, n))) c = Some (x, m)" for c x m
    using assms(1,3) that unfolding pool_ok_def by (cases "c = b") auto
  ultimately show ?thesis using assms(1) unfolding pool_ok_def by metis
qed

text \<open>Taking a block off a free list, and putting one on.\<close>

lemma pool_ok_pop:
  assumes ok: "pool_ok k L s" and i: "i \<noteq> MALLOC_POOL_ID" "pool_at i s = Some pl" "pl_free_list pl = p # ps"
    and s': "s' = put_pool i (pl\<lparr>pl_free_list := ps, pl_block_count := c\<rparr>) s"
  shows "pool_ok k L s' \<and> fst p \<notin> fst ` set (all_free s') \<and> L (fst p) = None \<and> free_at k s p"
proof -
  have "mset (all_free s') + mset (p # ps) = mset (all_free s) + mset ps"
    using free_put [OF i(1), of "pl\<lparr>pl_free_list := ps, pl_block_count := c\<rparr>" s] i(2,3) by (simp add: s' free_of_def)
  then have m: "mset (all_free s) = add_mset p (mset (all_free s'))" by simp
  then have set: "set (all_free s) = insert p (set (all_free s'))" by (metis set_mset_add_mset_insert set_mset_mset)
  have "mset (map fst (all_free s)) = mset (map fst (p # all_free s'))" using m by simp
  then have "distinct (map fst (p # all_free s'))"
    using mset_eq_imp_distinct_iff ok unfolding pool_ok_def by metis
  then have d: "distinct (map fst (all_free s'))" "fst p \<notin> fst ` set (all_free s')" by simp_all
  have pools: "pool_at j s' \<noteq> None" if "j \<noteq> MALLOC_POOL_ID" "pool_at j s \<noteq> None" for j
    using that i(1) by (simp add: s' pool_at_put)
  have "live_at k s' (b, off) n" if "L b = Some (off, n)" for b off n
  proof (rule live_at_frame [where k = k])
    show "live_at k s (b, off) n" using ok that unfolding pool_ok_def by metis
  qed (use pools in \<open>simp_all add: s'\<close>)
  moreover have "free_at k s' q" if "free_at k s q" for q
    using free_at_frame [OF that, of s' k] by (simp add: s')
  moreover have "\<forall>i. ph_calls s' \<le> i \<longrightarrow> ph_regions s' i = None" using ok by (simp add: s' pool_ok_def)
  ultimately have "pool_ok k L s'" using ok d(1) unfolding pool_ok_def set by blast
  then show ?thesis using ok d(2) unfolding pool_ok_def set by blast
qed

subsection \<open>Allocation\<close>

text \<open>An allocation fails, or hands out an object in a region that had none.\<close>

definition allocates :: "nat \<Rightarrow> (nat \<Rightarrow> (nat \<times> size_t) option) \<Rightarrow> size_t \<Rightarrow> addr option \<times> pool_heap \<Rightarrow> bool" where
  "allocates k L n r \<longleftrightarrow>
     (case fst r of
        None \<Rightarrow> pool_ok k L (snd r)
      | Some (b, off) \<Rightarrow> L b = None \<and> pool_ok k (L(b \<mapsto> (off, n))) (snd r))"

lemma pool_ok_fresh:
  assumes "pool_ok k L s"
  shows "ph_regions s (ph_calls s) = None" and "L (ph_calls s) = None" and "ph_calls s \<notin> fst ` set (all_free s)"
proof -
  show r: "ph_regions s (ph_calls s) = None" using assms by (simp add: pool_ok_def)
  show "L (ph_calls s) = None"
  proof (cases "L (ph_calls s)")
    case (Some x)
    then have "live_at k s (ph_calls s, fst x) (snd x)" using assms unfolding pool_ok_def by (metis prod.collapse)
    then show ?thesis using r by (simp add: live_at_def in_region_def)
  qed simp
  show "ph_calls s \<notin> fst ` set (all_free s)"
    using assms r by (auto simp: pool_ok_def free_at_def)
qed

text \<open>A failed call, a new region, and a header in it.\<close>

lemma pool_ok_new_region:
  assumes ok: "pool_ok k L s" and "k \<le> k'"
    and s': "s' = s\<lparr>ph_calls := Suc (ph_calls s), ph_regions := f, ph_headers := g\<rparr>"
    and f: "\<And>i. i \<noteq> ph_calls s \<Longrightarrow> f i = ph_regions s i" and g: "\<And>i. i \<noteq> ph_calls s \<Longrightarrow> g i = ph_headers s i"
  shows "pool_ok k' L s'"
proof (rule pool_ok_frame [OF ok _ assms(2)])
  show "mset (all_free s') = mset (all_free s)" by (simp add: s')
  show "ph_regions s' b = ph_regions s b \<and> ph_headers s' b = ph_headers s b"
    if "b \<in> fst ` set (all_free s) \<or> L b \<noteq> None" for b
  proof -
    have "b \<noteq> ph_calls s" using that pool_ok_fresh [OF ok] by metis
    then show ?thesis using f g by (simp add: s')
  qed
  show "pool_at i s' \<noteq> None" if "pool_at i s \<noteq> None" for i
    using that by (simp add: s')
  show "\<forall>i. ph_calls s' \<le> i \<longrightarrow> ph_regions s' i = None"
    using ok f by (simp add: s' pool_ok_def)
qed simp

lemma sum_of_sizes: "unat n + MEM_HEADER_SIZE < 2 ^ 64 \<Longrightarrow> unat (n + header_size) = unat n + MEM_HEADER_SIZE"
  by (simp add: header_size_def MEM_HEADER_SIZE_def unat_word_ariths)

lemma alloc_plain_ok:
  assumes ok: "pool_ok k L s" and n: "unat n + MEM_HEADER_SIZE < 2 ^ 64"
  shows "\<exists>r. alloc_plain al n s = Some r \<and> allocates (Suc k) L n r"
proof (cases "al (ph_calls s)")
  case False
  have "pool_ok (Suc k) L (s\<lparr>ph_calls := Suc (ph_calls s)\<rparr>)"
    by (rule pool_ok_new_region [OF ok, where f = "ph_regions s" and g = "ph_headers s"]) simp_all
  then show ?thesis using False by (simp add: alloc_plain_def malloc_region_def allocates_def Let_def)
next
  case True
  let ?i = "ph_calls s" and ?mh = "\<lparr>mh_pool_id = Some MALLOC_POOL_ID, mh_size = n, mh_magic = MEM_HEADER_MAGIC\<rparr>"
  let ?s = "s\<lparr>ph_calls := Suc ?i, ph_regions := (ph_regions s)(?i \<mapsto> unat n + MEM_HEADER_SIZE),
    ph_headers := (ph_headers s)(?i \<mapsto> (0, ?mh))\<rparr>"
  have s': "pool_ok (Suc k) L ?s" by (rule pool_ok_new_region [OF ok _ refl]) simp_all
  have "all_free ?s = all_free s" by simp
  then have "?i \<notin> fst ` set (all_free ?s)" using pool_ok_fresh(3) [OF ok] by simp
  moreover have "live_at (Suc k) ?s (?i, MEM_HEADER_SIZE) n"
    by (auto simp: live_at_def in_region_def placed_at_def)
  ultimately have "pool_ok (Suc k) (L(?i \<mapsto> (MEM_HEADER_SIZE, n))) ?s" by (rule pool_ok_add [OF s'])
  moreover have "alloc_plain al n s = Some (Some (?i, MEM_HEADER_SIZE), ?s)"
    using True by (simp add: alloc_plain_def malloc_region_def sum_of_sizes [OF n] write_header_def in_region_def Let_def)
  ultimately show ?thesis using pool_ok_fresh(2) [OF ok] by (simp add: allocates_def)
qed

text \<open>A header written into a block that is on no list makes it an object.\<close>

lemma pool_ok_use_block:
  assumes ok: "pool_ok k L s" and b: "b \<notin> fst ` set (all_free s)" "L b = None" "ph_regions s b = Some MEM_BLOCK_BYTES"
    and off: "off \<le> DATA_OFFSET * k" "k \<le> 508"
    and i: "i \<noteq> MALLOC_POOL_ID" "pool_at i s \<noteq> None" and n: "unat n + MEM_HEADER_SIZE \<le> REACTOR_MEM_BLOCK_SIZE"
  shows "\<exists>s'. write_header (b, off + DATA_OFFSET) \<lparr>mh_pool_id = Some i, mh_size = n, mh_magic = MEM_HEADER_MAGIC\<rparr> s = Some s' \<and>
    pool_ok (Suc k) (L(b \<mapsto> (off + DATA_OFFSET + MEM_HEADER_SIZE, n))) s'"
proof -
  let ?mh = "\<lparr>mh_pool_id = Some i, mh_size = n, mh_magic = MEM_HEADER_MAGIC\<rparr>"
  let ?s = "s\<lparr>ph_headers := (ph_headers s)(b \<mapsto> (off + DATA_OFFSET, ?mh))\<rparr>"
  have room: "off + DATA_OFFSET + MEM_HEADER_SIZE \<le> MEM_BLOCK_BYTES"
    using off by (simp add: DATA_OFFSET_def MEM_HEADER_SIZE_def MEM_BLOCK_BYTES_def REACTOR_MEM_BLOCK_SIZE_def)
  have free: "all_free ?s = all_free s" by simp
  have "pool_ok (Suc k) L ?s"
  proof (rule pool_ok_frame [OF ok])
    show "ph_regions ?s c = ph_regions s c \<and> ph_headers ?s c = ph_headers s c"
      if "c \<in> fst ` set (all_free s) \<or> L c \<noteq> None" for c
    proof -
      have "c \<noteq> b" using that b(1,2) by metis
      then show ?thesis by simp
    qed
    show "\<forall>j. ph_calls ?s \<le> j \<longrightarrow> ph_regions ?s j = None" using ok by (simp add: pool_ok_def)
  qed simp_all
  moreover have "b \<notin> fst ` set (all_free ?s)" using b(1) free by simp
  moreover have "live_at (Suc k) ?s (b, off + DATA_OFFSET + MEM_HEADER_SIZE) n"
  proof -
    have "pool_at i ?s \<noteq> None" using i(2) by simp
    moreover have "off + DATA_OFFSET \<le> DATA_OFFSET * Suc k" using off(1) by simp
    ultimately have "placed_at (Suc k) ?s (b, off + DATA_OFFSET + MEM_HEADER_SIZE) n i"
      using b(3) i(1) n by (simp add: placed_at_def)
    then show ?thesis using b(3) room by (auto simp: live_at_def in_region_def)
  qed
  ultimately have "pool_ok (Suc k) (L(b \<mapsto> (off + DATA_OFFSET + MEM_HEADER_SIZE, n))) ?s"
    by (rule pool_ok_add)
  then show ?thesis using b(3) room by (simp add: write_header_def in_region_def)
qed

lemma size_above: "n + header_size > of_nat REACTOR_MEM_BLOCK_SIZE \<longleftrightarrow> unat n + MEM_HEADER_SIZE > REACTOR_MEM_BLOCK_SIZE"
  if "unat n + MEM_HEADER_SIZE < 2 ^ 64"
  using sum_of_sizes [OF that] by (simp add: word_less_nat_alt REACTOR_MEM_BLOCK_SIZE_def)

lemma mem_pool_alloc_ok:
  assumes ok: "pool_ok k L s" and n: "unat n + MEM_HEADER_SIZE < 2 ^ 64" and k: "k \<le> 508"
    and i: "i \<noteq> MALLOC_POOL_ID" "pool_at i s = Some pl"
  shows "\<exists>r. mem_pool_alloc al pl n i s = Some r \<and> allocates (Suc k) L n r"
proof (cases "unat n + MEM_HEADER_SIZE > REACTOR_MEM_BLOCK_SIZE")
  case True
  then show ?thesis using alloc_plain_ok [OF ok n] by (simp add: mem_pool_alloc_def size_above [OF n])
next
  case False
  then have small: "unat n + MEM_HEADER_SIZE \<le> REACTOR_MEM_BLOCK_SIZE" by simp
  note run = mem_pool_alloc_def size_above [OF n] take_block_def malloc_region_def Let_def
  show ?thesis
  proof (cases "pl_free_list pl")
    case (Cons p ps)
    let ?s = "put_pool i (pl\<lparr>pl_free_list := ps, pl_block_count := pl_block_count pl - 1\<rparr>) s"
    have pop: "pool_ok k L ?s" "fst p \<notin> fst ` set (all_free ?s)" "L (fst p) = None" "free_at k s p"
      using pool_ok_pop [OF ok i Cons refl] by blast+
    have "pool_at i ?s \<noteq> None" using i(1) by (simp add: pool_at_put)
    then obtain s' where "write_header (fst p, snd p + DATA_OFFSET)
        \<lparr>mh_pool_id = Some i, mh_size = n, mh_magic = MEM_HEADER_MAGIC\<rparr> ?s = Some s'"
      "pool_ok (Suc k) (L(fst p \<mapsto> (snd p + DATA_OFFSET + MEM_HEADER_SIZE, n))) s'"
      using pool_ok_use_block [OF pop(1-3) _ _ k i(1) _ small, of "snd p"] pop(4) by (auto simp: free_at_def)
    then show ?thesis
      using False Cons pop(3) by (cases p) (auto simp: run allocates_def)
  next
    case Nil
    show ?thesis
    proof (cases "al (ph_calls s)")
      case no: False
      have "pool_ok (Suc k) L (s\<lparr>ph_calls := Suc (ph_calls s)\<rparr>)"
        by (rule pool_ok_new_region [OF ok, where f = "ph_regions s" and g = "ph_headers s"]) simp_all
      then show ?thesis using False no Nil by (simp add: run allocates_def)
    next
      case True
      let ?j = "ph_calls s"
      let ?s = "s\<lparr>ph_calls := Suc ?j, ph_regions := (ph_regions s)(?j \<mapsto> MEM_BLOCK_BYTES)\<rparr>"
      have s1: "pool_ok k L ?s"
        by (rule pool_ok_new_region [OF ok, where f = "(ph_regions s)(?j \<mapsto> MEM_BLOCK_BYTES)" and g = "ph_headers s"]) simp_all
      have "all_free ?s = all_free s" by simp
      then have "?j \<notin> fst ` set (all_free ?s)" using pool_ok_fresh(3) [OF ok] by simp
      moreover have "pool_at i ?s \<noteq> None" using i(2) by simp
      ultimately obtain s' where "write_header (?j, 0 + DATA_OFFSET)
          \<lparr>mh_pool_id = Some i, mh_size = n, mh_magic = MEM_HEADER_MAGIC\<rparr> ?s = Some s'"
        "pool_ok (Suc k) (L(?j \<mapsto> (0 + DATA_OFFSET + MEM_HEADER_SIZE, n))) s'"
        using pool_ok_use_block [OF s1 _ pool_ok_fresh(2) [OF ok] _ _ k i(1) _ small, of 0] by auto
      then show ?thesis
        using False Nil True pool_ok_fresh(2) [OF ok] by (auto simp: run allocates_def)
    qed
  qed
qed

lemma alloc_from_ok:
  assumes ok: "pool_ok k L s" and n: "unat n + MEM_HEADER_SIZE < 2 ^ 64" and k: "k \<le> 508" and i: "i \<noteq> MALLOC_POOL_ID"
  shows "\<exists>r. alloc_from al i n s = Some r \<and> allocates (Suc k) L n r"
proof (cases "pool_at i s")
  case (Some pl)
  then show ?thesis using mem_pool_alloc_ok [OF ok n k i Some] by (simp add: alloc_from_def)
next
  case None
  let ?j = "ph_calls s"
  show ?thesis
  proof (cases "al ?j")
    case False
    have s1: "pool_ok k L (s\<lparr>ph_calls := Suc ?j\<rparr>)"
      by (rule pool_ok_new_region [OF ok, where f = "ph_regions s" and g = "ph_headers s"]) simp_all
    then show ?thesis
      using alloc_plain_ok [OF s1 n] None False
      by (simp add: alloc_from_def mem_pool_create_def malloc_region_def Let_def)
  next
    case True
    let ?s = "s\<lparr>ph_calls := Suc ?j, ph_regions := (ph_regions s)(?j \<mapsto> 64)\<rparr>"
    let ?pl = "\<lparr>pl_free_list = [], pl_block_count = 0, pl_alloc_count = 0\<rparr>"
    have s1: "pool_ok k L ?s"
      by (rule pool_ok_new_region [OF ok, where f = "(ph_regions s)(?j \<mapsto> 64)" and g = "ph_headers s"]) simp_all
    have none: "free_of i ?s = []" using None by (simp add: free_of_def)
    have "pool_ok k L (put_pool i ?pl ?s)"
    proof (rule pool_ok_frame [OF s1])
      show "mset (all_free (put_pool i ?pl ?s)) = mset (all_free ?s)"
        using free_put [OF i, of ?pl ?s] none by simp
      show "pool_at j (put_pool i ?pl ?s) \<noteq> None" if "j \<noteq> MALLOC_POOL_ID" "pool_at j ?s \<noteq> None" for j
        using that i by (simp add: pool_at_put)
      show "\<forall>j. ph_calls (put_pool i ?pl ?s) \<le> j \<longrightarrow> ph_regions (put_pool i ?pl ?s) j = None"
        using s1 by (simp add: pool_ok_def)
    qed simp_all
    from mem_pool_alloc_ok [OF this n k i, of ?pl] show ?thesis
      using None True i by (simp add: alloc_from_def mem_pool_create_def malloc_region_def Let_def pool_at_put)
  qed
qed

lemma reactor_mem_alloc_ok:
  assumes "pool_ok k L s" and "unat n + MEM_HEADER_SIZE < 2 ^ 64" and "k \<le> 508"
  shows "\<exists>r. reactor_mem_alloc al n s = Some r \<and> allocates (Suc k) L n r"
  using alloc_from_ok [OF assms] alloc_plain_ok [OF assms(1,2)] by (simp add: reactor_mem_alloc_def)

subsection \<open>Release\<close>

lemma pool_ok_drop:
  assumes ok: "pool_ok k L s" and live: "L b = Some (off, n)"
    and s': "s' = s\<lparr>ph_regions := f, ph_headers := g\<rparr>"
    and f: "\<And>i. i \<noteq> b \<Longrightarrow> f i = ph_regions s i" "f b = None \<or> f b = ph_regions s b" and g: "\<And>i. i \<noteq> b \<Longrightarrow> g i = ph_headers s i"
  shows "pool_ok k (L(b := None)) s'"
proof (rule pool_ok_frame [OF ok])
  show "ph_regions s' c = ph_regions s c \<and> ph_headers s' c = ph_headers s c"
    if "c \<in> fst ` set (all_free s) \<or> (L(b := None)) c \<noteq> None" for c
  proof -
    have "c \<noteq> b" using that ok live by (auto simp: pool_ok_def)
    then show ?thesis using f(1) g by (simp add: s')
  qed
  show "\<forall>i. ph_calls s' \<le> i \<longrightarrow> ph_regions s' i = None"
    using ok f by (simp add: s' pool_ok_def) metis
qed (simp_all add: s')

lemma pool_ok_push:
  assumes ok: "pool_ok k L s" and i: "i \<noteq> MALLOC_POOL_ID" "pool_at i s = Some pl"
    and p: "fst p \<notin> fst ` set (all_free s)" "L (fst p) = None" "free_at k s p"
    and s': "s' = put_pool i (pl\<lparr>pl_free_list := p # pl_free_list pl, pl_block_count := c\<rparr>) s"
  shows "pool_ok k L s'"
proof -
  have m: "mset (all_free s') = mset (p # all_free s)"
    using free_put [OF i(1), of "pl\<lparr>pl_free_list := p # pl_free_list pl, pl_block_count := c\<rparr>" s] i(2)
    by (simp add: s' free_of_def)
  then have set: "set (all_free s') = insert p (set (all_free s))" by (metis list.simps(15) set_mset_mset)
  have "mset (map fst (all_free s')) = mset (map fst (p # all_free s))" using m by simp
  moreover have "distinct (map fst (p # all_free s))" using ok p(1) by (simp add: pool_ok_def)
  ultimately have d: "distinct (map fst (all_free s'))" using mset_eq_imp_distinct_iff by metis
  have pools: "pool_at j s' \<noteq> None" if "j \<noteq> MALLOC_POOL_ID" "pool_at j s \<noteq> None" for j
    using that i(1) by (simp add: s' pool_at_put)
  have "live_at k s' (b, off) n" if "L b = Some (off, n)" for b off n
  proof (rule live_at_frame [where k = k])
    show "live_at k s (b, off) n" using ok that unfolding pool_ok_def by metis
  qed (use pools in \<open>simp_all add: s'\<close>)
  moreover have "free_at k s' q" if "free_at k s q" for q
    using free_at_frame [OF that, of s' k] by (simp add: s')
  moreover have "\<forall>i. ph_calls s' \<le> i \<longrightarrow> ph_regions s' i = None" using ok by (simp add: s' pool_ok_def)
  ultimately show ?thesis using ok d p(2,3) unfolding pool_ok_def set by blast
qed

lemma magic_differs: "MEM_HEADER_MAGIC \<noteq> MEM_HEADER_FREED"
  by (simp add: MEM_HEADER_MAGIC_def MEM_HEADER_FREED_def)

lemma reactor_mem_free_ok:
  assumes ok: "pool_ok k L s" and live: "L b = Some (off, n)"
  shows "\<exists>s'. reactor_mem_free (Some (b, off)) s = Some s' \<and> pool_ok k (L(b := None)) s'"
proof -
  have at: "live_at k s (b, off) n" using ok live unfolding pool_ok_def by metis
  then obtain i m where header: "ph_headers s b = Some (off - MEM_HEADER_SIZE,
      \<lparr>mh_pool_id = Some i, mh_size = n, mh_magic = MEM_HEADER_MAGIC\<rparr>)" "placed_at k s (b, off) n i"
    and off: "MEM_HEADER_SIZE \<le> off" "ph_regions s b = Some m" "off \<le> m"
    unfolding live_at_def by (auto simp: in_region_def split: option.splits)
  let ?h = "(b, off - MEM_HEADER_SIZE)" and ?mh = "\<lparr>mh_pool_id = Some i, mh_size = n, mh_magic = MEM_HEADER_MAGIC\<rparr>"
  have fits: "in_region MEM_HEADER_SIZE ?h s" using off by (simp add: in_region_def)
  note run = reactor_mem_free_def read_header_def write_header_def in_region_def Let_def
  show ?thesis
  proof (cases "i = MALLOC_POOL_ID")
    case True
    then have "off = MEM_HEADER_SIZE" using header(2) by (simp add: placed_at_def)
    then have "reactor_mem_free (Some (b, off)) s = Some (s\<lparr>ph_regions := (ph_regions s)(b := None),
        ph_headers := (ph_headers s)(b \<mapsto> (0, ?mh\<lparr>mh_magic := MEM_HEADER_FREED\<rparr>))\<rparr>)"
      using header(1) off True by (simp add: run magic_differs free_region_def)
    moreover have "pool_ok k (L(b := None)) (s\<lparr>ph_regions := (ph_regions s)(b := None),
        ph_headers := (ph_headers s)(b \<mapsto> (0, ?mh\<lparr>mh_magic := MEM_HEADER_FREED\<rparr>))\<rparr>)"
      by (rule pool_ok_drop [OF ok live refl]) simp_all
    ultimately show ?thesis by blast
  next
    case False
    have place: "m = MEM_BLOCK_BYTES" "off \<le> MEM_HEADER_SIZE + DATA_OFFSET * k" "pool_at i s \<noteq> None"
      using header(2) False off(2) by (simp_all add: placed_at_def)
    then obtain pl where pl: "pool_at i s = Some pl" by blast
    let ?s = "s\<lparr>ph_headers := (ph_headers s)(b \<mapsto> (snd ?h, ?mh\<lparr>mh_magic := MEM_HEADER_FREED, mh_pool_id := None\<rparr>))\<rparr>"
    have s1: "pool_ok k (L(b := None)) ?s"
      by (rule pool_ok_drop [OF ok live, where f = "ph_regions s" and g = "(ph_headers s)(b \<mapsto>
        (snd ?h, ?mh\<lparr>mh_magic := MEM_HEADER_FREED, mh_pool_id := None\<rparr>))"]) simp_all
    let ?s' = "put_pool i (pl\<lparr>pl_free_list := ?h # pl_free_list pl, pl_block_count := pl_block_count pl + 1\<rparr>) ?s"
    have "reactor_mem_free (Some (b, off)) s = Some ?s'"
      using header(1) off False pl by (simp add: run magic_differs)
    moreover have "pool_ok k (L(b := None)) ?s'"
    proof (rule pool_ok_push [OF s1 False _ _ _ _ refl])
      show "pool_at i ?s = Some pl" using pl by simp
      show "fst ?h \<notin> fst ` set (all_free ?s)" using ok live by (auto simp: pool_ok_def)
      show "free_at k ?s ?h" using place off by (auto simp: free_at_def)
    qed simp
    ultimately show ?thesis by blast
  qed
qed

subsection \<open>Runs\<close>

text \<open>A client that frees what it has, named by its place in the list of its objects.\<close>

datatype mem_op = Alloc size_t | Free_nth nat

fun mem_run :: "(nat \<Rightarrow> bool) \<Rightarrow> mem_op list \<Rightarrow> (nat \<times> nat \<times> size_t) list \<times> pool_heap \<Rightarrow>
    ((nat \<times> nat \<times> size_t) list \<times> pool_heap) option" where
  "mem_run al [] z = Some z"
| "mem_run al (Alloc n # ops) (xs, s) =
     do { (p, s) \<leftarrow> reactor_mem_alloc al n s;
          mem_run al ops (case p of None \<Rightarrow> (xs, s) | Some (b, off) \<Rightarrow> ((b, off, n) # xs, s)) }"
| "mem_run al (Free_nth j # ops) (xs, s) =
     (if j < length xs
      then do { s \<leftarrow> reactor_mem_free (Some (fst (xs ! j), fst (snd (xs ! j)))) s;
                mem_run al ops (take j xs @ drop (Suc j) xs, s) }
      else mem_run al ops (xs, s))"

definition no_pools :: pool_heap where
  "no_pools = \<lparr>ph_calls = 0, ph_regions = Map.empty, ph_headers = Map.empty,
                ph_small = None, ph_medium = None, ph_large = None\<rparr>"

lemma no_pools_ok: "pool_ok 0 Map.empty no_pools"
  by (simp add: pool_ok_def no_pools_def all_free_def free_of_def pool_at_def)

lemma map_of_remove:
  assumes "distinct (map fst xs)" and "j < length xs"
  shows "map_of (take j xs @ drop (Suc j) xs) = (map_of xs)(fst (xs ! j) := None)"
    and "distinct (map fst (take j xs @ drop (Suc j) xs))"
proof -
  have xs: "xs = take j xs @ xs ! j # drop (Suc j) xs" using assms(2) by (rule id_take_nth_drop)
  have d: "distinct (map fst (take j xs @ xs ! j # drop (Suc j) xs))" using assms(1) xs by metis
  then have "fst (xs ! j) \<notin> fst ` set (take j xs)" "fst (xs ! j) \<notin> fst ` set (drop (Suc j) xs)" by auto
  then have none: "map_of (take j xs) (fst (xs ! j)) = None" "map_of (drop (Suc j) xs) (fst (xs ! j)) = None"
    by (simp_all add: map_of_eq_None_iff)
  have "map_of xs = map_of (take j xs @ xs ! j # drop (Suc j) xs)" using xs by metis
  then show "map_of (take j xs @ drop (Suc j) xs) = (map_of xs)(fst (xs ! j) := None)"
    using none by (cases "xs ! j") (auto simp: map_add_def fun_eq_iff split: option.splits)
  show "distinct (map fst (take j xs @ drop (Suc j) xs))" using d by auto
qed

lemma mem_run_ok:
  assumes "pool_ok k (map_of xs) s" and "distinct (map fst xs)" and "k + length ops \<le> 509"
    and "\<forall>n. Alloc n \<in> set ops \<longrightarrow> unat n + MEM_HEADER_SIZE < 2 ^ 64"
  shows "\<exists>ys t. mem_run al ops (xs, s) = Some (ys, t) \<and> pool_ok (k + length ops) (map_of ys) t \<and> distinct (map fst ys)"
  using assms
proof (induction ops arbitrary: k xs s)
  case Nil
  then show ?case by simp
next
  case (Cons op ops)
  have more: "pool_ok (Suc k) (map_of xs) s" if "pool_ok k (map_of xs) s" for xs s
    by (rule pool_ok_frame [OF that]) (use that in \<open>simp_all add: pool_ok_def\<close>)
  have bounds: "Suc k + length ops \<le> 509" "\<forall>n. Alloc n \<in> set ops \<longrightarrow> unat n + MEM_HEADER_SIZE < 2 ^ 64"
    using Cons.prems(3,4) by auto
  note IH = Cons.IH [OF _ _ bounds]
  show ?case
  proof (cases op)
    case (Alloc n)
    then have n: "unat n + MEM_HEADER_SIZE < 2 ^ 64" using Cons.prems(4) by simp
    obtain p s1 where r: "reactor_mem_alloc al n s = Some (p, s1)" "allocates (Suc k) (map_of xs) n (p, s1)"
      using reactor_mem_alloc_ok [OF Cons.prems(1) n, of al] Cons.prems(3) by auto
    let ?xs = "case p of None \<Rightarrow> xs | Some (b, off) \<Rightarrow> (b, off, n) # xs"
    have "pool_ok (Suc k) (map_of ?xs) s1" "distinct (map fst ?xs)"
      using r(2) Cons.prems(2)
      by (auto simp: allocates_def map_of_eq_None_iff split: option.splits)
    from IH [OF this] show ?thesis
      using r(1) by (cases p) (simp_all add: Alloc case_prod_beta)
  next
    case (Free_nth j)
    show ?thesis
    proof (cases "j < length xs")
      case True
      obtain b off n where x: "xs ! j = (b, off, n)" by (metis surj_pair)
      then have "(b, off, n) \<in> set xs" using True by (metis nth_mem)
      then have "map_of xs b = Some (off, n)" using Cons.prems(2) by simp
      then obtain s1 where s1: "reactor_mem_free (Some (b, off)) s = Some s1" "pool_ok k ((map_of xs)(b := None)) s1"
        using reactor_mem_free_ok [OF Cons.prems(1)] by blast
      let ?xs = "take j xs @ drop (Suc j) xs"
      have "map_of ?xs = (map_of xs)(b := None)" using map_of_remove(1) [OF Cons.prems(2) True] x by simp
      then have "pool_ok (Suc k) (map_of ?xs) s1" using more [of ?xs s1] s1(2) by simp
      moreover have "distinct (map fst ?xs)" by (rule map_of_remove(2) [OF Cons.prems(2) True])
      ultimately show ?thesis using IH [of ?xs s1] s1(1) True x by (simp add: Free_nth)
    next
      case False
      then show ?thesis using IH [OF more [OF Cons.prems(1)] Cons.prems(2)] by (simp add: Free_nth)
    qed
  qed
qed

subsection \<open>A block that is used again\<close>

text \<open>An object that is freed and allocated again \<open>m\<close> times, with nothing else in between.\<close>

fun recycle :: "(nat \<Rightarrow> bool) \<Rightarrow> size_t \<Rightarrow> nat \<Rightarrow> pool_heap \<Rightarrow> (addr option \<times> pool_heap) option" where
  "recycle al n 0 s = reactor_mem_alloc al n s"
| "recycle al n (Suc m) s =
     do { (p, s) \<leftarrow> recycle al n m s;
          s \<leftarrow> reactor_mem_free p s;
          reactor_mem_alloc al n s }"

definition pool_of_size :: "size_t \<Rightarrow> pool_id" where
  "pool_of_size n = (if n \<le> 256 then SMALL_POOL_ID else if n \<le> 1024 then MEDIUM_POOL_ID else LARGE_POOL_ID)"

text \<open>The only block of the pool in use, \<open>m\<close> shifts into its region.\<close>

definition recycled :: "nat \<Rightarrow> size_t \<Rightarrow> addr option \<times> pool_heap \<Rightarrow> bool" where
  "recycled m n r \<longleftrightarrow> fst r = Some (1, DATA_OFFSET * Suc m + MEM_HEADER_SIZE) \<and>
     ph_regions (snd r) 1 = Some MEM_BLOCK_BYTES \<and>
     ph_headers (snd r) 1 = Some (DATA_OFFSET * Suc m,
       \<lparr>mh_pool_id = Some (pool_of_size n), mh_size = n, mh_magic = MEM_HEADER_MAGIC\<rparr>) \<and>
     (\<exists>pl. pool_at (pool_of_size n) (snd r) = Some pl \<and> pl_free_list pl = [])"

lemma size_facts:
  assumes n: "unat n + MEM_HEADER_SIZE \<le> REACTOR_MEM_BLOCK_SIZE"
  shows "n \<le> 4096" and "\<not> n + header_size > of_nat REACTOR_MEM_BLOCK_SIZE" and "pool_of_size n \<noteq> MALLOC_POOL_ID"
  using size_above [of n] n
  by (simp_all add: pool_of_size_def word_le_nat_alt REACTOR_MEM_BLOCK_SIZE_def MEM_HEADER_SIZE_def)

lemma alloc_of_size:
  "unat n + MEM_HEADER_SIZE \<le> REACTOR_MEM_BLOCK_SIZE \<Longrightarrow> reactor_mem_alloc al n s = alloc_from al (pool_of_size n) n s"
  using size_facts(1) [of n] by (simp add: reactor_mem_alloc_def pool_of_size_def)

lemma first_use:
  assumes al: "\<forall>i. al i" and n: "unat n + MEM_HEADER_SIZE \<le> REACTOR_MEM_BLOCK_SIZE"
  shows "\<exists>r. recycle al n 0 no_pools = Some r \<and> recycled 0 n r"
proof -
  have "pool_at (pool_of_size n) no_pools = None" by (simp add: pool_at_def no_pools_def split: pool_id.split)
  then show ?thesis
    using size_facts(2,3) [OF n]
    by (simp add: alloc_of_size [OF n] alloc_from_def mem_pool_create_def malloc_region_def al mem_pool_alloc_def take_block_def
        write_header_def in_region_def recycled_def no_pools_def Let_def pool_at_put MEM_BLOCK_BYTES_def
        DATA_OFFSET_def MEM_HEADER_SIZE_def REACTOR_MEM_BLOCK_SIZE_def)
qed

lemma next_use:
  assumes al: "\<forall>i. al i" and n: "unat n + MEM_HEADER_SIZE \<le> REACTOR_MEM_BLOCK_SIZE"
    and r: "recycled m n (p, s)" and m: "m \<le> 509"
  shows "case (do { s \<leftarrow> reactor_mem_free p s; reactor_mem_alloc al n s }) of
      None \<Rightarrow> m = 509 | Some r \<Rightarrow> m < 509 \<and> recycled (Suc m) n r"
proof -
  let ?i = "pool_of_size n" and ?o = "DATA_OFFSET * Suc m"
  obtain pl where pl: "pool_at ?i s = Some pl" "pl_free_list pl = []" using r by (auto simp: recycled_def)
  let ?mh = "\<lparr>mh_pool_id = Some ?i, mh_size = n, mh_magic = MEM_HEADER_MAGIC\<rparr>"
  have p: "p = Some (1, ?o + MEM_HEADER_SIZE)" and reg: "ph_regions s 1 = Some MEM_BLOCK_BYTES"
    and header: "ph_headers s 1 = Some (?o, ?mh)"
    using r by (simp_all add: recycled_def)
  have room: "?o + MEM_HEADER_SIZE \<le> MEM_BLOCK_BYTES" "?o + DATA_OFFSET + MEM_HEADER_SIZE \<le> MEM_BLOCK_BYTES \<longleftrightarrow> m < 509"
    using m by (auto simp: DATA_OFFSET_def MEM_HEADER_SIZE_def MEM_BLOCK_BYTES_def REACTOR_MEM_BLOCK_SIZE_def)
  let ?s = "put_pool ?i (pl\<lparr>pl_free_list := [(1, ?o)], pl_block_count := pl_block_count pl + 1\<rparr>)
    (s\<lparr>ph_headers := (ph_headers s)(1 \<mapsto> (?o, ?mh\<lparr>mh_magic := MEM_HEADER_FREED, mh_pool_id := None\<rparr>))\<rparr>)"
  have "reactor_mem_free p s = Some ?s"
    using header reg room(1) pl size_facts(3) [OF n]
    by (simp add: p reactor_mem_free_def read_header_def write_header_def in_region_def Let_def magic_differs)
  moreover have "\<not> m < 509 \<Longrightarrow> m = 509" using m by simp
  ultimately show ?thesis
    using size_facts(2,3) [OF n] reg room(2)
    by (auto simp: alloc_of_size [OF n] alloc_from_def pool_at_put mem_pool_alloc_def take_block_def write_header_def in_region_def
        recycled_def split: option.splits)
qed


lemma recycle_step:
  assumes "\<forall>i. al i" and "unat n + MEM_HEADER_SIZE \<le> REACTOR_MEM_BLOCK_SIZE"
  shows "m \<le> 509 \<Longrightarrow> \<exists>r. recycle al n m no_pools = Some r \<and> recycled m n r"
proof (induction m)
  case 0
  then show ?case using first_use [OF assms] by simp
next
  case (Suc m)
  then obtain p s where r: "recycle al n m no_pools = Some (p, s)" "recycled m n (p, s)" by auto
  show ?case using next_use [OF assms r(2)] Suc.prems r(1) by (auto split: option.splits)
qed

subsection \<open>Properties\<close>

text \<open>
  C18. Up to 509 operations the pools are sound, whatever the client allocates and frees, in any order, and
  whichever calls of \<open>malloc\<close> fail: every operation is defined, no two objects in use share a region, and
  an object whose size leaves room for eight bytes per operation lies in its region.
\<close>

theorem young_pools_are_sound:
  assumes "length ops \<le> 509" and "\<forall>n. Alloc n \<in> set ops \<longrightarrow> unat n + MEM_HEADER_SIZE < 2 ^ 64"
  shows "\<exists>xs s. mem_run al ops ([], no_pools) = Some (xs, s) \<and> distinct (map fst xs) \<and>
    (\<forall>(b, off, n) \<in> set xs. unat n + 8 * length ops \<le> 4080 \<or> 4072 < unat n \<longrightarrow> in_region (unat n) (b, off) s)"
proof -
  obtain xs s where run: "mem_run al ops ([], no_pools) = Some (xs, s)" "pool_ok (length ops) (map_of xs) s" "distinct (map fst xs)"
    using mem_run_ok [of 0 "[]" no_pools ops al] no_pools_ok assms by auto
  have "in_region (unat n) (b, off) s"
    if x: "(b, off, n) \<in> set xs" and n: "unat n + 8 * length ops \<le> 4080 \<or> 4072 < unat n" for b off n
  proof -
    have "map_of xs b = Some (off, n)" using x run(3) by simp
    then have "live_at (length ops) s (b, off) n" using run(2) unfolding pool_ok_def by metis
    then obtain i where "placed_at (length ops) s (b, off) n i" unfolding live_at_def by blast
    then show ?thesis
      using n by (auto simp: placed_at_def in_region_def MEM_HEADER_SIZE_def DATA_OFFSET_def MEM_BLOCK_BYTES_def
          REACTOR_MEM_BLOCK_SIZE_def split: if_splits)
  qed
  then show ?thesis using run(1,3) by blast
qed

lemma young_pools_are_sound_witness:
  "\<exists>xs s. mem_run (\<lambda>i. i \<noteq> 3) [Alloc 100, Alloc 2000, Free_nth 0, Alloc 60, Alloc 5000] ([], no_pools) = Some (xs, s) \<and>
    distinct (map fst xs) \<and>
    (\<forall>(b, off, n) \<in> set xs. unat n + 8 * 5 \<le> 4080 \<or> 4072 < unat n \<longrightarrow> in_region (unat n) (b, off) s)"
  using young_pools_are_sound [of "[Alloc 100, Alloc 2000, Free_nth 0, Alloc 60, Alloc 5000]" "\<lambda>i. i \<noteq> 3"]
  by (simp add: MEM_HEADER_SIZE_def)

text \<open>
  C19. A block drifts: \<open>reactor_mem_free\<close> puts the address of the header on the free list, not that of the
  block, so every reuse places the object eight bytes further. An object of \<open>n\<close> bytes lies in its block exactly while it has
  been reused at most \<open>(4072 - n) / 8\<close> times, and the 510th reuse writes even the header
  outside.
\<close>

theorem recycled_block_drifts:
  assumes "\<forall>i. al i" and "unat n \<le> 4072"
  shows "(m \<le> 509 \<longrightarrow> (\<exists>s. recycle al n m no_pools = Some (Some (1, 32 + 8 * m), s) \<and>
      (in_region (unat n) (1, 32 + 8 * m) s \<longleftrightarrow> unat n + 8 * m \<le> 4072))) \<and>
    recycle al n 510 no_pools = None"
proof -
  have n: "unat n + MEM_HEADER_SIZE \<le> REACTOR_MEM_BLOCK_SIZE"
    using assms(2) by (simp add: MEM_HEADER_SIZE_def REACTOR_MEM_BLOCK_SIZE_def)
  have "\<exists>s. recycle al n m no_pools = Some (Some (1, 32 + 8 * m), s) \<and>
      (in_region (unat n) (1, 32 + 8 * m) s \<longleftrightarrow> unat n + 8 * m \<le> 4072)" if "m \<le> 509"
    using recycle_step [OF assms(1) n that]
    by (auto simp: recycled_def in_region_def DATA_OFFSET_def MEM_HEADER_SIZE_def MEM_BLOCK_BYTES_def REACTOR_MEM_BLOCK_SIZE_def)
  moreover have "recycle al n 510 no_pools = None"
  proof -
    obtain p s where r: "recycle al n 509 no_pools = Some (p, s)" "recycled 509 n (p, s)"
      using recycle_step [OF assms(1) n, of 509] by auto
    have "recycle al n (Suc 509) no_pools = do { s \<leftarrow> reactor_mem_free p s; reactor_mem_alloc al n s }"
      unfolding recycle.simps r(1) by simp
    then show ?thesis using next_use [OF assms(1) n r(2)] by (simp split: option.splits)
  qed
  ultimately show ?thesis by blast
qed

lemma recycled_block_drifts_witness:
  "(\<exists>s. recycle (\<lambda>_. True) 2048 254 no_pools = Some (Some (1, 2064), s) \<and> \<not> in_region 2048 (1, 2064) s) \<and>
   recycle (\<lambda>_. True) 2048 510 no_pools = None"
  using recycled_block_drifts [of "\<lambda>_. True" 2048 254] by auto

end
