(* ===== verification/System.thy ===== *)
theory System
  imports Decimal
begin

text \<open>
  Component \<open>src/src/platform/system.c\<close>: CPU enumeration and affinity, and the checked allocation
  wrappers. What the kernel answers is an argument of the operation: the CPU set of
  \<open>sched_getaffinity\<close> (\<open>None\<close> when the call fails), success of \<open>sched_setaffinity\<close> and of
  \<open>malloc\<close>.
\<close>

datatype system_error =
  SYSTEM_OK
| SYSTEM_ERROR_CPU_COUNT
| SYSTEM_ERROR_AFFINITY
| SYSTEM_ERROR_MEMORY
| SYSTEM_ERROR_INVALID_PARAM

abbreviation (input) CPU_SETSIZE :: nat where "CPU_SETSIZE \<equiv> 1024"

type_synonym cpu_set = "nat \<Rightarrow> bool"

definition cpus_of :: "cpu_set \<Rightarrow> nat list" where
  "cpus_of s = filter s [0..<CPU_SETSIZE]"

definition cpu_count :: "cpu_set \<Rightarrow> nat" where
  "cpu_count s = length (cpus_of s)"

subsection \<open>Initialisation\<close>

text \<open>The state is the flag and whether SIGPIPE is ignored.\<close>

record system_state =
  system_initialized :: bool
  sigpipe_ignored :: bool

definition system_init :: "system_state \<Rightarrow> system_error \<times> system_state" where
  "system_init s =
     (if system_initialized s then (SYSTEM_OK, s)
      else (SYSTEM_OK, s\<lparr>sigpipe_ignored := True, system_initialized := True\<rparr>))"

definition system_cleanup :: "system_state \<Rightarrow> system_state" where
  "system_cleanup s = s\<lparr>system_initialized := False\<rparr>"

subsection \<open>Memory\<close>

text \<open>\<open>malloc\<close> answers a pointer or NULL; a size of 0 is never asked for.\<close>

definition system_malloc :: "(nat \<Rightarrow> 'p option) \<Rightarrow> nat \<Rightarrow> 'p option" where
  "system_malloc malloc n = (if n = 0 then None else malloc n)"

definition system_realloc :: "('p option \<Rightarrow> nat \<Rightarrow> 'p option) \<Rightarrow> 'p option \<Rightarrow> nat \<Rightarrow> 'p option" where
  "system_realloc realloc p n =
     (let q = realloc p n in if n > 0 \<and> q = None then None else q)"

definition system_strdup :: "(string \<Rightarrow> 'p option) \<Rightarrow> string option \<Rightarrow> 'p option" where
  "system_strdup strdup s = (case s of None \<Rightarrow> None | Some s \<Rightarrow> strdup s)"

subsection \<open>CPU enumeration\<close>

record system_cpu_info =
  cpu_total :: nat
  cpu_ids :: "nat option list"

text \<open>
  The loop over the absolute indices; an element of the allocated array is \<open>None\<close> until it is
  written, and a write behind its end is undefined.
\<close>

fun fill_ids :: "cpu_set \<Rightarrow> nat \<Rightarrow> nat list \<Rightarrow> nat \<Rightarrow> nat option list \<Rightarrow> nat option list option" where
  "fill_ids s num [] k ids = Some ids"
| "fill_ids s num (cpu # rest) k ids =
     (if s cpu then
        if k < length ids then
          (if k + 1 = num then Some (ids[k := Some cpu])
           else fill_ids s num rest (k + 1) (ids[k := Some cpu]))
        else None
      else fill_ids s num rest k ids)"

definition system_get_cpu_info ::
  "cpu_set option \<Rightarrow> (nat \<Rightarrow> bool) \<Rightarrow> system_cpu_info option \<Rightarrow>
     (system_error \<times> system_cpu_info option) option" where
  "system_get_cpu_info online malloc_ok info =
     (case info of
        None \<Rightarrow> Some (SYSTEM_ERROR_INVALID_PARAM, None)
      | Some i \<Rightarrow>
          (case online of
             None \<Rightarrow> Some (SYSTEM_ERROR_CPU_COUNT, Some i)
           | Some s \<Rightarrow>
               let num = cpu_count s in
               if num \<le> 0 then Some (SYSTEM_ERROR_CPU_COUNT, Some i)
               else
                 (case system_malloc (\<lambda>n. if malloc_ok n then Some (replicate num None) else None) (num * 4) of
                    None \<Rightarrow> Some (SYSTEM_ERROR_MEMORY, Some i)
                  | Some ids \<Rightarrow>
                      map_option (\<lambda>ids. (SYSTEM_OK, Some \<lparr>cpu_total = num, cpu_ids = ids\<rparr>))
                        (fill_ids s num [0..<CPU_SETSIZE] 0 ids))))"

subsection \<open>Affinity\<close>

text \<open>\<open>CPU_SET\<close> ignores a number outside the set.\<close>

definition cpu_single :: "int \<Rightarrow> cpu_set" where
  "cpu_single c = (\<lambda>i. int i = c \<and> i < CPU_SETSIZE)"

definition system_set_cpu_affinity :: "(cpu_set \<Rightarrow> bool) \<Rightarrow> int \<Rightarrow> system_error" where
  "system_set_cpu_affinity setaffinity cpu_id =
     (if \<not> setaffinity (cpu_single cpu_id) then SYSTEM_ERROR_AFFINITY else SYSTEM_OK)"

fun affinity_loop ::
  "cpu_set \<Rightarrow> nat \<Rightarrow> nat list \<Rightarrow> nat \<Rightarrow> bool \<Rightarrow> string \<Rightarrow> (nat \<times> string) option" where
  "affinity_loop s n [] written first m = Some (written, m)"
| "affinity_loop s n (i # is) written first m =
     (if \<not> written < n - 1 then Some (written, m)
      else if s i then
        (let t = (if first then dec i else CHR '','' # dec i)
         in Option.bind (write_at written (snprintf_store (n - written) t) m) (\<lambda>m.
            if snprintf_ret t < 0 \<or> snprintf_ret t \<ge> int (n - written) then Some (written, m)
            else affinity_loop s n is (written + length t) False m))
      else affinity_loop s n is written first m)"

definition system_get_cpu_affinity_string ::
  "cpu_set option \<Rightarrow> string option \<Rightarrow> nat \<Rightarrow> (system_error \<times> string option) option" where
  "system_get_cpu_affinity_string affinity buffer n =
     (case buffer of
        None \<Rightarrow> Some (SYSTEM_ERROR_INVALID_PARAM, None)
      | Some m \<Rightarrow>
          if n = 0 then Some (SYSTEM_ERROR_INVALID_PARAM, Some m)
          else (case affinity of
            None \<Rightarrow> Some (SYSTEM_ERROR_AFFINITY, Some m)
          | Some s \<Rightarrow>
              map_option (\<lambda>(written, m).
                  (if written \<ge> n then SYSTEM_ERROR_MEMORY else SYSTEM_OK, Some m))
                (affinity_loop s n [0..<CPU_SETSIZE] 0 True m)))"

subsection \<open>Enumeration\<close>

lemma fill_ids_run:
  assumes "length ids = k + length (filter s is)" and "num = length ids" and "k < num"
  shows "fill_ids s num is k ids = Some (take k ids @ map Some (filter s is))"
  using assms
proof (induction s num "is" k ids rule: fill_ids.induct)
  case (2 s num cpu rest k ids)
  show ?case
  proof (cases "s cpu")
    case True
    show ?thesis
    proof (cases "k + 1 = num")
      case True': True
      then have "filter s rest = []" using 2(3,4) True by auto
      then show ?thesis
        using True True' 2(3,4,5) by (auto simp: list_update_append upd_conv_take_nth_drop)
    next
      case False
      have "fill_ids s num rest (k + 1) (ids[k := Some cpu]) =
          Some (take (k + 1) (ids[k := Some cpu]) @ map Some (filter s rest))"
        using 2(3,4,5) True False by (intro 2(1)) auto
      moreover have "take (k + 1) (ids[k := Some cpu]) = take k ids @ [Some cpu]"
        using 2(4,5) by (simp add: take_Suc_conv_app_nth)
      ultimately show ?thesis using True False 2(4,5) by simp
    qed
  next
    case False
    then show ?thesis using 2 by simp
  qed
qed simp

lemma get_cpu_info_run:
  assumes "cpu_count s \<noteq> 0" and "malloc_ok (cpu_count s * 4)"
  shows "system_get_cpu_info (Some s) malloc_ok (Some i) =
    Some (SYSTEM_OK, Some \<lparr>cpu_total = cpu_count s, cpu_ids = map Some (cpus_of s)\<rparr>)"
  using fill_ids_run [of "replicate (cpu_count s) None" 0 s "[0..<CPU_SETSIZE]" "cpu_count s"] assms
  by (simp add: system_get_cpu_info_def system_malloc_def cpu_count_def cpus_of_def Let_def
      del: upt_conv_Cons)

subsection \<open>The affinity text\<close>

fun affinity_text :: "bool \<Rightarrow> nat list \<Rightarrow> string" where
  "affinity_text first [] = []"
| "affinity_text first (i # is) =
     (if first then dec i else CHR '','' # dec i) @ affinity_text False is"

text \<open>
  What the loop has stored: the text so far and, once something was printed, its NUL.
\<close>

definition stored :: "string \<Rightarrow> bool \<Rightarrow> string \<Rightarrow> bool" where
  "stored t first m \<longleftrightarrow> (if first then t = [] else take (length t + 1) m = t @ [NUL])"

lemma affinity_loop_run:
  assumes "length m = n" and "written = length t" and "written \<le> n - 1" and "stored t first m"
    and "n < 2 ^ 31" and "\<forall>i \<in> set is. i < 1000000" and "2 \<le> n"
  shows "\<exists>w' m'. affinity_loop s n is written first m = Some (w', m') \<and> w' \<le> n - 1 \<and> length m' = n \<and>
    (first \<and> filter s is = [] \<or>
     take (min (n - 1) (length (t @ affinity_text first (filter s is))) + 1) m' =
       take (n - 1) (t @ affinity_text first (filter s is)) @ [NUL])"
  using assms
proof (induction s n "is" written first m arbitrary: t rule: affinity_loop.induct)
  case (1 s n written first m)
  then show ?case by (cases first) (auto simp: stored_def min_def)
next
  case (2 s n i "is" written first m)
  note IH1 = 2(1) and IH2 = 2(2) and prems = 2(3-)
  have "is": "\<forall>i \<in> set is. i < 1000000" using prems(6) by simp
  show ?case
  proof (cases "written < n - 1")
    case False
    then have full: "written = n - 1" using prems(3) by simp
    then have "\<not> first" using prems(2,4,7) by (auto simp: stored_def)
    then show ?thesis using False full prems by (auto simp: stored_def)
  next
    case True
    show ?thesis
    proof (cases "s i")
      case False
      then show ?thesis using IH2 [OF _ False prems(1-5) "is" prems(7)] True by simp
    next
      case si: True
      define u where "u = (if first then dec i else CHR '','' # dec i)"
      have tx: "affinity_text first (filter s (i # is)) = u @ affinity_text False (filter s is)"
        using si by (simp add: u_def)
      have lt: "length u < 2 ^ 31"
      proof -
        have "ndigits i \<le> 6" using prems(6) by (intro ndigits_le) auto
        then show ?thesis by (auto simp: length_dec u_def)
      qed
      have ret: "snprintf_ret u = int (length u)" using lt by (simp add: snprintf_ret_def)
      let ?x = "snprintf_store (n - written) u"
      define m1 where "m1 = take written m @ ?x @ drop (written + length ?x) m"
      have w: "write_at written ?x m = Some m1"
        using prems(1) True length_snprintf_store [of "n - written" u]
        unfolding m1_def by (intro write_at_defined) simp
      have step: "affinity_loop s n (i # is) written first m =
          (if length u \<ge> n - written then Some (written, m1)
           else affinity_loop s n is (written + length u) False m1)"
        using True si w ret by (simp add: Let_def u_def [symmetric] del: of_nat_diff)
      have t: "take written m = t"
        using prems(1,2,4) True
        by (cases first) (auto simp: stored_def dest: arg_cong [of _ _ "take (length t)"])
      have len: "length m1 = n" using write_at_length [OF w] prems(1) by simp
      show ?thesis
      proof (cases "length u \<ge> n - written")
        case True': True
        have x: "snprintf_store (n - length t) u = take (n - length t - 1) u @ [NUL]"
          using True prems(2) by (simp add: snprintf_store_def)
        have m1: "take (n - 1 + 1) m1 = take (n - 1) (t @ u @ r) @ [NUL]" for r
          using True True' prems(1,2) t by (simp add: x m1_def)
        have "n - 1 \<le> length (t @ u @ r)" for r using True' prems(2) by simp
        then show ?thesis
          unfolding step tx using m1 True' len prems(3) by (simp add: min_def)
      next
        case False
        have xx: "snprintf_store (n - length t) u = u @ [NUL]"
          using False prems(2) by (intro snprintf_store_fits) simp
        have st: "stored (t @ u) False m1" using t prems(1,2) False by (simp add: stored_def xx m1_def)
        have wl: "written + length u = length (t @ u)" "written + length u \<le> n - 1"
          using prems(2) False by auto
        have "\<exists>w' m'. affinity_loop s n is (written + length u) False m1 = Some (w', m') \<and>
            w' \<le> n - 1 \<and> length m' = n \<and>
            (False \<and> filter s is = [] \<or>
             take (min (n - 1) (length ((t @ u) @ affinity_text False (filter s is))) + 1) m' =
               take (n - 1) ((t @ u) @ affinity_text False (filter s is)) @ [NUL])"
          using True si w ret False
          by (intro IH1 [OF _ si u_def w _ len wl st prems(5) "is" prems(7)]) simp_all
        then show ?thesis unfolding step tx using False si by simp
      qed
    qed
  qed
qed

lemma c_string_affinity_text: "c_string (affinity_text first is)"
  by (induction first "is" rule: affinity_text.induct) (auto simp: NUL_def)

lemma c_string_take: "c_string s \<Longrightarrow> c_string (take n s)"
  by (auto simp: c_string_def dest: in_set_takeD)

subsection \<open>Properties\<close>

text \<open>
  CPU enumeration reports exactly the online CPUs in ascending order with their number, and every
  element of the array it allocates is written and none outside it.
\<close>

theorem cpu_info_enumerates:
  assumes "cpu_count s \<noteq> 0" and "malloc_ok (cpu_count s * 4)"
  shows "\<exists>ids. system_get_cpu_info (Some s) malloc_ok (Some i) =
      Some (SYSTEM_OK, Some \<lparr>cpu_total = length ids, cpu_ids = map Some ids\<rparr>) \<and>
    sorted_wrt (<) ids \<and> set ids = {c. c < CPU_SETSIZE \<and> s c}"
proof -
  have "sorted_wrt (<) (cpus_of s)" unfolding cpus_of_def by (intro sorted_wrt_filter) simp
  moreover have "set (cpus_of s) = {c. c < CPU_SETSIZE \<and> s c}" by (auto simp: cpus_of_def)
  ultimately show ?thesis
    using get_cpu_info_run [where malloc_ok = malloc_ok and i = i, OF assms] unfolding cpu_count_def by blast
qed

definition ex_cpus :: cpu_set where
  "ex_cpus = (\<lambda>c. c = 2 \<or> c = 13)"

lemma cpus_of_ex [simp]: "cpus_of ex_cpus = [2, 13]"
  by (rule sorted_distinct_set_unique) (auto simp: cpus_of_def ex_cpus_def sorted_wrt_filter)

lemma cpu_info_enumerates_witness:
  "\<exists>ids. system_get_cpu_info (Some ex_cpus) (\<lambda>n. n = 8) (Some \<lparr>cpu_total = 0, cpu_ids = []\<rparr>) =
      Some (SYSTEM_OK, Some \<lparr>cpu_total = length ids, cpu_ids = map Some ids\<rparr>) \<and>
    sorted_wrt (<) ids \<and> set ids = {c. c < CPU_SETSIZE \<and> ex_cpus c}"
  by (rule cpu_info_enumerates) (simp_all add: cpu_count_def)

text \<open>
  The affinity string is always reported as complete: for every buffer of at least two bytes the
  result is \<open>SYSTEM_OK\<close> and the buffer holds the comma-separated list of CPUs cut to what fits, in
  the middle of a number if need be; the branch that reports a too small buffer is never taken.
\<close>

theorem affinity_string_cuts_silently:
  assumes "cpus_of s \<noteq> []" and "length m = n" and "2 \<le> n" and "n < 2 ^ 31"
  shows "\<exists>m'. system_get_cpu_affinity_string (Some s) (Some m) n = Some (SYSTEM_OK, Some m') \<and>
    length m' = n \<and> c_str m' = take (n - 1) (affinity_text True (cpus_of s))"
proof -
  let ?t = "affinity_text True (cpus_of s)"
  obtain w' m' where r: "affinity_loop s n [0..<CPU_SETSIZE] 0 True m = Some (w', m')" "w' \<le> n - 1"
    "length m' = n" "take (min (n - 1) (length ?t) + 1) m' = take (n - 1) ?t @ [NUL]"
    using affinity_loop_run [OF assms(2), of 0 "[]" True "[0..<CPU_SETSIZE]" s] assms
    by (auto simp: stored_def cpus_of_def simp del: upt_conv_Cons)
  have "m' = take (n - 1) ?t @ NUL # drop (min (n - 1) (length ?t) + 1) m'"
    using r(4) append_take_drop_id [of "min (n - 1) (length ?t) + 1" m'] by simp
  then have "c_str m' = take (n - 1) ?t"
    by (metis c_str_app_NUL c_string_take c_string_affinity_text)
  then show ?thesis using r(1-3) assms(3)
    by (simp add: system_get_cpu_affinity_string_def del: upt_conv_Cons)
qed

lemma affinity_string_cuts_silently_witness:
  "\<exists>m'. system_get_cpu_affinity_string (Some ex_cpus) (Some ''????'') 4 = Some (SYSTEM_OK, Some m') \<and>
    length m' = 4 \<and> c_str m' = ''2,1''"
  using affinity_string_cuts_silently [of ex_cpus "''????''" 4] by (simp add: dec_examples dec.simps)

end
