(* ===== verification/Log.thy ===== *)
theory Log
  imports C_Time
begin

text \<open>
  Component \<open>src/src/platform/log.c\<close>: configuration and the composition of one log line. The state holds
  the globals of the file, whether \<open>log_mutex\<close> is locked, and what has been written to which stream.
  The text \<open>vsnprintf\<close> formats (\<open>None\<close> when it fails), the local time, and the process and thread
  numbers are arguments.
\<close>

subsection \<open>Configuration\<close>

datatype log_level = LOG_LEVEL_ERROR | LOG_LEVEL_WARN | LOG_LEVEL_INFO | LOG_LEVEL_DEBUG
datatype log_error = LOG_OK | LOG_ERROR_INVALID_PARAM | LOG_ERROR_MEMORY | LOG_ERROR_IO
datatype log_file = Stderr | Stdout | Log_file nat

text \<open>A C enumeration holds any unsigned number; the configuration's level is one.\<close>

definition level_number :: "log_level \<Rightarrow> nat" where
  "level_number l =
     (case l of LOG_LEVEL_ERROR \<Rightarrow> 0 | LOG_LEVEL_WARN \<Rightarrow> 1 | LOG_LEVEL_INFO \<Rightarrow> 2 | LOG_LEVEL_DEBUG \<Rightarrow> 3)"

text \<open>The levels are ordered as the C code compares them.\<close>

instantiation log_level :: linorder
begin

definition less_eq_log_level :: "log_level \<Rightarrow> log_level \<Rightarrow> bool" where
  "l \<le> l' \<longleftrightarrow> level_number l \<le> level_number l'"

definition less_log_level :: "log_level \<Rightarrow> log_level \<Rightarrow> bool" where
  "l < l' \<longleftrightarrow> level_number l < level_number l'"

instance
  by standard (auto simp: less_eq_log_level_def less_log_level_def level_number_def split: log_level.splits)

end

record log_config =
  lc_level :: nat
  lc_output :: "log_file option"
  lc_timestamps :: bool
  lc_colors :: bool
  lc_pid :: bool
  lc_tid :: bool

record log_state =
  is_logging_disabled :: bool
  current_config :: log_config
  log_locked :: bool
  log_written :: "(log_file \<times> string) list"

definition initial_log :: log_state where
  "initial_log =
     \<lparr>is_logging_disabled = False,
      current_config = \<lparr>lc_level = level_number LOG_LEVEL_INFO, lc_output = None, lc_timestamps = True,
                        lc_colors = True, lc_pid = True, lc_tid = False\<rparr>,
      log_locked = False, log_written = []\<rparr>"

definition log_init :: "log_config option \<Rightarrow> log_state \<Rightarrow> log_error \<times> log_state" where
  "log_init config s =
     (if is_logging_disabled s then (LOG_OK, s)
      else
        (let c = (case config of None \<Rightarrow> current_config s | Some c \<Rightarrow> c);
             c = (if lc_output c = None then c\<lparr>lc_output := Some Stderr\<rparr> else c)
         in (LOG_OK, s\<lparr>current_config := c\<rparr>)))"

text \<open>\<open>log_cleanup\<close> only flushes.\<close>

definition log_cleanup :: "log_state \<Rightarrow> log_state" where
  "log_cleanup s = s"

definition log_set_level :: "nat \<Rightarrow> log_state \<Rightarrow> log_state" where
  "log_set_level l s =
     (if l \<le> level_number LOG_LEVEL_DEBUG
      then s\<lparr>current_config := (current_config s)\<lparr>lc_level := l\<rparr>\<rparr> else s)"

definition log_get_level :: "log_state \<Rightarrow> nat" where
  "log_get_level s = lc_level (current_config s)"

definition log_set_output :: "log_file option \<Rightarrow> log_state \<Rightarrow> log_state" where
  "log_set_output f s =
     (if f \<noteq> None then s\<lparr>current_config := (current_config s)\<lparr>lc_output := f\<rparr>\<rparr> else s)"

definition log_set_timestamps :: "bool \<Rightarrow> log_state \<Rightarrow> log_state" where
  "log_set_timestamps b s = s\<lparr>current_config := (current_config s)\<lparr>lc_timestamps := b\<rparr>\<rparr>"

definition log_set_colors :: "bool \<Rightarrow> log_state \<Rightarrow> log_state" where
  "log_set_colors b s = s\<lparr>current_config := (current_config s)\<lparr>lc_colors := b\<rparr>\<rparr>"

definition log_set_pid :: "bool \<Rightarrow> log_state \<Rightarrow> log_state" where
  "log_set_pid b s = s\<lparr>current_config := (current_config s)\<lparr>lc_pid := b\<rparr>\<rparr>"

definition log_set_tid :: "bool \<Rightarrow> log_state \<Rightarrow> log_state" where
  "log_set_tid b s = s\<lparr>current_config := (current_config s)\<lparr>lc_tid := b\<rparr>\<rparr>"

definition log_default_config :: "bool \<Rightarrow> log_config" where
  "log_default_config tty =
     \<lparr>lc_level = level_number LOG_LEVEL_INFO, lc_output = Some Stderr, lc_timestamps = True,
      lc_colors = tty, lc_pid = True, lc_tid = False\<rparr>"

subsection \<open>One line\<close>

definition ESC :: string where
  "ESC = [CHR 0x1B]"

definition level_names_plain :: "log_level \<Rightarrow> string" where
  "level_names_plain l =
     (case l of LOG_LEVEL_ERROR \<Rightarrow> ''ERROR'' | LOG_LEVEL_WARN \<Rightarrow> ''WARN''
      | LOG_LEVEL_INFO \<Rightarrow> ''INFO'' | LOG_LEVEL_DEBUG \<Rightarrow> ''DEBUG'')"

definition level_color :: "log_level \<Rightarrow> string" where
  "level_color l =
     ESC @ (case l of LOG_LEVEL_ERROR \<Rightarrow> ''[31m'' | LOG_LEVEL_WARN \<Rightarrow> ''[33m''
            | LOG_LEVEL_INFO \<Rightarrow> ''[32m'' | LOG_LEVEL_DEBUG \<Rightarrow> ''[36m'')"

definition level_names :: "log_level \<Rightarrow> string" where
  "level_names l = level_color l @ level_names_plain l @ ESC @ ''[0m''"

definition format_timestamp :: "tm option \<Rightarrow> string" where
  "format_timestamp t =
     (case t of None \<Rightarrow> ''00:00:00''
      | Some t \<Rightarrow> pad2 (tm_hour t) @ '':'' @ pad2 (tm_min t) @ '':'' @ pad2 (tm_sec t))"

text \<open>
  Consecutive \<open>snprintf\<close> calls into \<open>log_line\<close>: the text so far and the room left; \<open>None\<close> is the jump
  to \<open>overflow\<close>.
\<close>

definition add_piece :: "string \<Rightarrow> string \<times> nat \<Rightarrow> (string \<times> nat) option" where
  "add_piece t lr =
     (case lr of (line, remaining) \<Rightarrow>
      if snprintf_ret t < 0 \<or> snprintf_ret t \<ge> int remaining then None
      else Some (line @ t, remaining - length t))"

definition bracket :: "string \<Rightarrow> string" where
  "bracket t = ''['' @ t @ ''] ''"

record log_env =
  le_time :: "tm option"
  le_pid :: int
  le_tid :: "64 word"

definition log_pieces :: "log_config \<Rightarrow> log_env \<Rightarrow> log_level \<Rightarrow> string \<Rightarrow> string list" where
  "log_pieces c e l msg =
     (if lc_timestamps c then [bracket (format_timestamp (le_time e))] else []) @
     [bracket (if lc_colors c then level_names l else level_names_plain l)] @
     (if lc_pid c then [bracket (dec_int (le_pid e))] else []) @
     (if lc_tid c then [bracket (dec (unat (le_tid e)))] else []) @
     [msg @ [CHR 0x0A]]"

definition log_line :: "log_config \<Rightarrow> log_env \<Rightarrow> log_level \<Rightarrow> string \<Rightarrow> string option" where
  "log_line c e l msg = map_option fst (run_all add_piece (log_pieces c e l msg) ([], 8192))"

definition too_long_message :: string where
  "too_long_message = ''[LOG ERROR: message too long]'' @ [CHR 0x0A]"

definition too_long_line :: string where
  "too_long_line = ''[LOG ERROR: line too long]'' @ [CHR 0x0A]"

text \<open>
  \<open>log_internal\<close>, split at the mutex: locking it while it is held by the same thread is undefined.
\<close>

definition log_enter :: "log_state \<Rightarrow> log_state option" where
  "log_enter s = (if log_locked s then None else Some (s\<lparr>log_locked := True\<rparr>))"

definition log_output_text :: "log_config \<Rightarrow> log_env \<Rightarrow> log_level \<Rightarrow> string option \<Rightarrow> string" where
  "log_output_text c e l msg =
     (case msg of
        None \<Rightarrow> too_long_message
      | Some t \<Rightarrow>
          if snprintf_ret t < 0 \<or> snprintf_ret t \<ge> 4096 then too_long_message
          else (case log_line c e l (c_str (snprintf_store 4096 t)) of
                  None \<Rightarrow> too_long_line
                | Some line \<Rightarrow> c_str line))"

definition log_finish :: "log_env \<Rightarrow> log_level \<Rightarrow> string option \<Rightarrow> log_state \<Rightarrow> log_state" where
  "log_finish e l msg s =
     (let c = current_config s; out = (case lc_output c of None \<Rightarrow> Stderr | Some f \<Rightarrow> f)
      in s\<lparr>log_written := log_written s @ [(out, log_output_text c e l msg)], log_locked := False\<rparr>)"

definition log_internal :: "log_env \<Rightarrow> log_level \<Rightarrow> string option \<Rightarrow> log_state \<Rightarrow> log_state option" where
  "log_internal e l msg s =
     (if is_logging_disabled s then Some s
      else if level_number l > lc_level (current_config s) then Some s
      else map_option (log_finish e l msg) (log_enter s))"

definition log_error_msg :: "log_env \<Rightarrow> string option \<Rightarrow> log_state \<Rightarrow> log_state option" where
  "log_error_msg e = log_internal e LOG_LEVEL_ERROR"

definition log_warn_msg :: "log_env \<Rightarrow> string option \<Rightarrow> log_state \<Rightarrow> log_state option" where
  "log_warn_msg e = log_internal e LOG_LEVEL_WARN"

definition log_info_msg :: "log_env \<Rightarrow> string option \<Rightarrow> log_state \<Rightarrow> log_state option" where
  "log_info_msg e = log_internal e LOG_LEVEL_INFO"

definition log_debug_msg :: "log_env \<Rightarrow> string option \<Rightarrow> log_state \<Rightarrow> log_state option" where
  "log_debug_msg e = log_internal e LOG_LEVEL_DEBUG"

subsection \<open>The line always fits\<close>

lemma add_pieces:
  assumes "length (concat ps) < remaining" and "remaining < 2 ^ 31"
  shows "run_all add_piece ps (line, remaining) =
    Some (line @ concat ps, remaining - length (concat ps))"
  using assms
proof (induction ps arbitrary: line remaining)
  case (Cons p ps)
  then have "add_piece p (line, remaining) = Some (line @ p, remaining - length p)"
    by (simp add: add_piece_def snprintf_ret_def)
  then show ?case using Cons by simp
qed simp

text \<open>An \<open>int\<close> prints with at most eleven characters, an unsigned long with twenty.\<close>

lemma length_dec_int: "- (2 ^ 31) \<le> i \<Longrightarrow> i < 2 ^ 31 \<Longrightarrow> length (dec_int i) \<le> 11"
proof -
  assume i: "- (2 ^ 31) \<le> i" "i < 2 ^ 31"
  have *: "ndigits n \<le> 10" if "n \<le> 2 ^ 31" for n using that by (intro ndigits_le) auto
  have "nat i \<le> 2 ^ 31" "nat (- i) \<le> 2 ^ 31" using i by auto
  then have "ndigits (nat i) \<le> 10" "ndigits (nat (- i)) \<le> 10" using * by blast+
  then show ?thesis by (simp add: dec_int_def length_dec)
qed

lemma length_dec_word: "length (dec (unat (w :: 64 word))) \<le> 20"
  using unsigned_less [of w, where 'a = nat] by (auto simp: length_dec intro!: ndigits_le)

lemma length_level_names: "length (level_names l) \<le> 14" "length (level_names_plain l) \<le> 5"
  by (simp_all add: level_names_def level_names_plain_def level_color_def ESC_def split: log_level.split)

lemma length_format_timestamp: "length (format_timestamp t) = 8"
  by (simp add: format_timestamp_def pad2_def split: option.split)

lemma log_pieces_fit:
  assumes "length msg < 4096" and "- (2 ^ 31) \<le> le_pid e" and "le_pid e < 2 ^ 31"
  shows "length (concat (log_pieces c e l msg)) < 8192"
  using assms length_dec_int [OF assms(2,3)] length_dec_word [of "le_tid e"]
    length_level_names [of l] length_format_timestamp [of "le_time e"]
  by (simp add: log_pieces_def bracket_def)

lemma log_line_fits:
  assumes "length msg < 4096" and "- (2 ^ 31) \<le> le_pid e" and "le_pid e < 2 ^ 31"
  shows "log_line c e l msg = Some (concat (log_pieces c e l msg))"
  using add_pieces [OF log_pieces_fit [OF assms], where line = "[]"] by (simp add: log_line_def)

lemma c_string_pieces:
  assumes "c_string msg" and "\<And>t. le_time e = Some t \<Longrightarrow> tm_ok t"
  shows "c_string (concat (log_pieces c e l msg))"
proof -
  have "c_string (format_timestamp (le_time e))"
    using assms(2)
    by (auto simp: format_timestamp_def tm_ok_def pad2_c_string NUL_def split: option.split)
  moreover have "c_string (level_names l)" "c_string (level_names_plain l)"
    by (simp_all add: level_names_def level_names_plain_def level_color_def ESC_def NUL_def
        split: log_level.split)
  moreover have "c_string (dec_int i)" for i by (simp add: dec_int_def NUL_def)
  ultimately show ?thesis
    using assms(1) by (simp add: log_pieces_def bracket_def NUL_def)
qed

lemma log_output_run:
  assumes "length msg < 4096" and "c_string msg" and "- (2 ^ 31) \<le> le_pid e" and "le_pid e < 2 ^ 31"
    and "\<And>t. le_time e = Some t \<Longrightarrow> tm_ok t"
  shows "log_output_text c e l (Some msg) = concat (log_pieces c e l msg)"
  using log_line_fits [OF assms(1,3,4)] c_string_pieces [OF assms(2,5)] assms(1,2)
  by (simp add: log_output_text_def snprintf_ret_def snprintf_store_fits)

text \<open>A logger that is not locked always returns, unlocked.\<close>

lemma log_internal_defined:
  "\<not> log_locked s \<Longrightarrow> \<exists>s'. log_internal e l msg s = Some s' \<and> \<not> log_locked s'"
  by (simp add: log_internal_def log_enter_def log_finish_def Let_def)

subsection \<open>Properties\<close>

text \<open>
  A message of fewer than 4096 characters at an enabled level is written as exactly one line with
  the configured parts in their order, to the configured stream, and the mutex is free again; the
  \<open>line too long\<close> branch is never taken, since the parts in front of a message are short.
\<close>

theorem log_writes_one_line:
  assumes "length msg < 4096" and "c_string msg" and "- (2 ^ 31) \<le> le_pid e" and "le_pid e < 2 ^ 31"
    and "\<And>t. le_time e = Some t \<Longrightarrow> tm_ok t"
    and "\<not> is_logging_disabled s" and "level_number l \<le> lc_level (current_config s)" and "\<not> log_locked s"
  shows "log_internal e l (Some msg) s =
    Some (s\<lparr>log_written := log_written s @
      [(case lc_output (current_config s) of None \<Rightarrow> Stderr | Some f \<Rightarrow> f,
        (if lc_timestamps (current_config s) then bracket (format_timestamp (le_time e)) else []) @
        bracket (if lc_colors (current_config s) then level_names l else level_names_plain l) @
        (if lc_pid (current_config s) then bracket (dec_int (le_pid e)) else []) @
        (if lc_tid (current_config s) then bracket (dec (unat (le_tid e))) else []) @
        msg @ [CHR 0x0A])]\<rparr>)"
  using log_output_run [OF assms(1-5)] assms(6-8)
  by (simp add: log_internal_def log_enter_def log_finish_def log_pieces_def Let_def)

definition ex_log_env :: log_env where
  "ex_log_env = \<lparr>le_time = None, le_pid = 4711, le_tid = 1\<rparr>"

lemma log_writes_one_line_witness:
  "log_internal ex_log_env LOG_LEVEL_WARN (Some ''hi'') (log_set_colors False initial_log) =
    Some ((log_set_colors False initial_log)\<lparr>log_written :=
      [(Stderr, ''[00:00:00] [WARN] [4711] hi'' @ [CHR 0x0A])]\<rparr>)"
  using log_writes_one_line [of "''hi''" ex_log_env "log_set_colors False initial_log" LOG_LEVEL_WARN]
  by (simp add: ex_log_env_def initial_log_def log_set_colors_def level_number_def bracket_def
      format_timestamp_def level_names_plain_def dec_int_def dec.simps NUL_def)

text \<open>Raising the level never silences a message.\<close>

lemma level_filter_mono:
  assumes "l \<le> l'" and "level_number l' \<le> lc_level (current_config s)"
    and "log_internal e l msg s = Some s'" and "\<not> is_logging_disabled s"
  shows "length (log_written s') = length (log_written s) + 1"
  using assms
  by (auto simp: less_eq_log_level_def log_internal_def log_enter_def log_finish_def Let_def split: if_splits)

text \<open>
  Which messages are written depends on the level alone: an enabled logger with level \<open>n\<close> writes
  exactly the levels numbered up to \<open>n\<close>, so setting a level above \<open>LOG_LEVEL_DEBUG\<close> in the
  configuration, meant to disable the output, enables all of it.
\<close>

theorem log_level_filters:
  assumes "log_init (Some c) s = (r, s')" and "\<not> is_logging_disabled s" and "\<not> log_locked s"
  shows "(\<exists>s''. log_internal e l msg s' = Some s'' \<and>
      (length (log_written s'') = length (log_written s') + 1 \<longleftrightarrow> level_number l \<le> lc_level c) \<and>
      (level_number l > lc_level c \<longrightarrow> s'' = s')) \<and>
    (3 \<le> lc_level c \<longrightarrow> level_number l \<le> lc_level c)"
  using assms
  by (cases "lc_output c = None")
    (auto simp: log_init_def log_internal_def log_enter_def log_finish_def level_number_def Let_def
      split: log_level.splits)

lemma log_level_filters_witness:
  "(\<exists>s''. log_internal ex_log_env LOG_LEVEL_DEBUG (Some ''hi'')
        (snd (log_init (Some ((log_default_config False)\<lparr>lc_level := 99\<rparr>)) initial_log)) = Some s'' \<and>
      (length (log_written s'') = length (log_written
          (snd (log_init (Some ((log_default_config False)\<lparr>lc_level := 99\<rparr>)) initial_log))) + 1 \<longleftrightarrow>
        level_number LOG_LEVEL_DEBUG \<le> lc_level ((log_default_config False)\<lparr>lc_level := 99\<rparr>)) \<and>
      (level_number LOG_LEVEL_DEBUG > lc_level ((log_default_config False)\<lparr>lc_level := 99\<rparr>) \<longrightarrow>
        s'' = snd (log_init (Some ((log_default_config False)\<lparr>lc_level := 99\<rparr>)) initial_log))) \<and>
    (3 \<le> lc_level ((log_default_config False)\<lparr>lc_level := 99\<rparr>) \<longrightarrow>
      level_number LOG_LEVEL_DEBUG \<le> lc_level ((log_default_config False)\<lparr>lc_level := 99\<rparr>))"
  by (rule log_level_filters [where s = initial_log and r = LOG_OK])
    (simp_all add: initial_log_def log_init_def log_default_config_def)

end
