(* ===== verification/Binary_Main.thy ===== *)
theory Binary_Main
  imports Binary_Server System Log "HOL-Library.Monad_Syntax"
begin

text \<open>
  Component \<open>src/src/main/libreactor-binary-server.c\<close>: the program around the binary server. The program's
  arguments are strings; what the system answers (fork, affinity, sockets, memory) is an argument, and so
  are the events the reactor delivers to a worker.
\<close>

subsection \<open>\<open>atoi\<close>\<close>

text \<open>
  The C library's \<open>atoi\<close>: white space, an optional sign, and the digits that follow. A value that is no
  \<open>int\<close> is undefined.
\<close>

definition is_space :: "char \<Rightarrow> bool" where
  "is_space c \<longleftrightarrow> c \<in> {CHR '' '', CHR 0x09, CHR 0x0A, CHR 0x0B, CHR 0x0C, CHR 0x0D}"

definition atoi :: "string \<Rightarrow> int option" where
  "atoi s =
     (let t = dropWhile is_space s;
          neg = (t \<noteq> [] \<and> hd t = CHR ''-'');
          t = (if t \<noteq> [] \<and> (hd t = CHR ''-'' \<or> hd t = CHR ''+'') then tl t else t);
          n = int (undec (takeWhile is_digit t));
          v = (if neg then - n else n)
      in if - (2 ^ 31) \<le> v \<and> v < 2 ^ 31 then Some v else None)"

subsection \<open>Arguments\<close>

abbreviation (input) BINARY_SERVER_DEFAULT_PORT :: int where "BINARY_SERVER_DEFAULT_PORT \<equiv> 3985"

record binary_options =
  bo_port :: int
  bo_workers :: int
  bo_disable_log :: bool

datatype binary_args = Binary_run binary_options | Binary_help

definition default_options :: binary_options where
  "default_options = \<lparr>bo_port = BINARY_SERVER_DEFAULT_PORT, bo_workers = -1, bo_disable_log = False\<rparr>"

text \<open>The options after the program's name, from the left; what is not an option is passed over.\<close>

fun parse_binary_args :: "string list \<Rightarrow> binary_options \<Rightarrow> binary_args option" where
  "parse_binary_args [] o' = Some (Binary_run o')"
| "parse_binary_args (a # rest) o' =
     (if a = ''--port'' \<and> rest \<noteq> [] then
        Option.bind (atoi (hd rest)) (\<lambda>n. parse_binary_args (tl rest) (o'\<lparr>bo_port := n\<rparr>))
      else if a = ''--workers'' \<and> rest \<noteq> [] then
        Option.bind (atoi (hd rest)) (\<lambda>n. parse_binary_args (tl rest) (o'\<lparr>bo_workers := n\<rparr>))
      else if a = ''--disable-log'' then parse_binary_args rest (o'\<lparr>bo_disable_log := True\<rparr>)
      else if a = ''-h'' \<or> a = ''--help'' then Some Binary_help
      else parse_binary_args rest o')"

subsection \<open>A worker\<close>

text \<open>
  The events of the reactor's loop: the listener is ready, with the connections that \<open>accept4\<close> gives, or a
  poll on the connection with an address completes.
\<close>

datatype loop_event = Listener_ready "accepted list" | Conn_polled nat u32

definition dispatch_loop_event ::
  "(nat \<Rightarrow> bool) \<Rightarrow> (byte list \<Rightarrow> mp_object option) \<Rightarrow> (pack_call \<Rightarrow> byte list) \<Rightarrow> loop_event \<Rightarrow>
     bstate \<Rightarrow> bstate option" where
  "dispatch_loop_event ok unpack encode ev wb =
     (case ev of
        Listener_ready script \<Rightarrow> map_option snd (binary_listener_callback ok script wb)
      | Conn_polled i m \<Rightarrow> conn_poll ok unpack encode i m wb)"

record bworker_env =
  bw_affinity :: "cpu_set \<Rightarrow> bool"
  bw_resolved :: bool
  bw_socket :: int
  bw_memory :: "nat \<Rightarrow> bool"
  bw_events :: "loop_event list"
  bw_first :: nat

definition pin_cpu :: "bworker_env \<Rightarrow> int \<Rightarrow> int" where
  "pin_cpu we cpu = (if bw_affinity we (cpu_single cpu) then 0 else -1)"

definition worker_text :: "int \<Rightarrow> string \<Rightarrow> string option" where
  "worker_text i t = Some (''binary worker '' @ dec_int i @ t)"

text \<open>The server is there when the worker got as far as constructing it.\<close>

definition worker_run ::
  "log_env \<Rightarrow> bworker_env \<Rightarrow> (byte list \<Rightarrow> mp_object option) \<Rightarrow> (pack_call \<Rightarrow> byte list) \<Rightarrow>
     int \<Rightarrow> int \<Rightarrow> int \<Rightarrow> log_state \<times> byte world \<Rightarrow> (log_state \<times> byte world \<times> binary_server option) option" where
  "worker_run e we unpack encode worker_id cpu_id port lw = do {
     let (l, w) = lw;
     l \<leftarrow> (if pin_cpu we cpu_id = 0
           then log_info_msg e (worker_text worker_id ('' pinned to CPU '' @ dec_int cpu_id)) l else Some l);
     if \<not> bw_resolved we then do {
       l \<leftarrow> log_error_msg e (worker_text worker_id '': net_resolve failed'') l;
       Some (l, w, None)
     }
     else if bw_socket we = -1 then do {
       l \<leftarrow> log_error_msg e (worker_text worker_id '': net_socket failed'') l;
       Some (l, w, None)
     }
     else do {
       let wb = binary_server_open (bw_socket we) (w, binary_server_construct (bw_first we));
       l \<leftarrow> log_info_msg e (worker_text worker_id ('' listening on port '' @ dec_int port)) l;
       wb \<leftarrow> run_all (dispatch_loop_event (bw_memory we) unpack encode) (bw_events we) wb;
       let (w, bs) = binary_server_shutdown wb;
       l \<leftarrow> log_info_msg e (worker_text worker_id '' exiting'') l;
       Some (l, w, Some bs)
     }
   }"

subsection \<open>The program\<close>

record binary_env =
  be_log :: log_env
  be_nproc :: int
  be_calloc :: bool
  be_fork :: "nat \<Rightarrow> int"
  be_strerror :: string
  be_worker :: bworker_env

text \<open>The process numbers noted, and which child this process is, if it is one.\<close>

fun binary_fork_loop ::
  "binary_env \<Rightarrow> nat \<Rightarrow> nat \<Rightarrow> int list \<times> log_state \<Rightarrow> (nat option \<times> int list \<times> log_state) option" where
  "binary_fork_loop e 0 i (pids, l) = Some (None, pids, l)"
| "binary_fork_loop e (Suc k) i (pids, l) =
     (if be_fork e i < 0 then
        map_option (\<lambda>l. (None, pids, l))
          (log_error_msg (be_log e) (Some (''fork failed for worker '' @ dec i @ '': '' @ be_strerror e)) l)
      else if be_fork e i = 0 then Some (Some i, pids, l)
      else binary_fork_loop e k (Suc i) (pids[i := be_fork e i], l))"

text \<open>
  How the program ends: the process's exit status, what it waited for, and for a worker its server. The
  usage text goes to standard output.
\<close>

record binary_end =
  ex_status :: int
  ex_worker :: "nat option"
  ex_server :: "binary_server option"
  ex_waited :: "int list"
  ex_usage :: bool
  ex_log :: log_state

definition exit_with :: "int \<Rightarrow> log_state \<Rightarrow> binary_end" where
  "exit_with n l = \<lparr>ex_status = n, ex_worker = None, ex_server = None, ex_waited = [], ex_usage = False, ex_log = l\<rparr>"

definition binary_worker_count :: "int \<Rightarrow> int \<Rightarrow> int" where
  "binary_worker_count nproc workers =
     (let workers = (if workers \<le> 0 then nproc else workers) in if workers \<le> 0 then 1 else workers)"

definition binary_main ::
  "binary_env \<Rightarrow> (byte list \<Rightarrow> mp_object option) \<Rightarrow> (pack_call \<Rightarrow> byte list) \<Rightarrow> string list \<Rightarrow>
     log_state \<times> byte world \<Rightarrow> binary_end option" where
  "binary_main e unpack encode args lw = do {
     let (l, w) = lw;
     r \<leftarrow> parse_binary_args args default_options;
     case r of
       Binary_help \<Rightarrow> Some ((exit_with 0 l)\<lparr>ex_usage := True\<rparr>)
     | Binary_run opts \<Rightarrow> do {
         let l = (if bo_disable_log opts then l\<lparr>is_logging_disabled := True\<rparr> else l);
         let workers = binary_worker_count (be_nproc e) (bo_workers opts);
         l \<leftarrow> log_info_msg (be_log e) (Some (''starting binary server: '' @ dec_int workers @
                '' workers on port '' @ dec_int (bo_port opts))) l;
         if \<not> be_calloc e then Some (exit_with 1 l)
         else do {
           (child, pids, l) \<leftarrow> binary_fork_loop e (nat workers) 0 (replicate (nat workers) 0, l);
           case child of
             Some i \<Rightarrow> do {
               (l, w, bs) \<leftarrow> worker_run (be_log e) (be_worker e) unpack encode (int i) (int i) (bo_port opts) (l, w);
               Some ((exit_with 0 l)\<lparr>ex_worker := Some i, ex_server := bs\<rparr>)
             }
           | None \<Rightarrow> do {
               l \<leftarrow> log_info_msg (be_log e) (Some ''binary server stopped'') l;
               Some ((exit_with 0 l)\<lparr>ex_waited := filter (\<lambda>p. p > 0) pids\<rparr>)
             }
         }
       }
   }"

subsection \<open>Facts\<close>

lemma takeWhile_digits_dec: "takeWhile is_digit (dec n) = dec n"
  using dec_digits by (simp add: takeWhile_eq_all_conv)

lemma hd_dec: "is_digit (hd (dec n))" "dec n \<noteq> []"
  using dec_digits [of "hd (dec n)" n] by simp_all

lemma digit_not_special:
  "is_digit c \<Longrightarrow> \<not> is_space c \<and> c \<noteq> CHR ''-'' \<and> c \<noteq> CHR ''+''"
  by (auto simp: is_digit_def is_space_def)

lemma dropWhile_space_dec: "dropWhile is_space (dec n) = dec n"
  using hd_dec [of n] digit_not_special by (cases "dec n") auto

text \<open>\<open>atoi\<close> reads back what \<open>%d\<close> prints.\<close>

lemma atoi_dec_int:
  assumes "- (2 ^ 31) \<le> i" and "i < 2 ^ 31"
  shows "atoi (dec_int i) = Some i"
proof (cases "i < 0")
  case True
  then show ?thesis
    using assms by (simp add: atoi_def dec_int_def takeWhile_digits_dec Let_def is_space_def)
next
  case False
  have "hd (dec (nat i)) \<noteq> CHR ''-''" "hd (dec (nat i)) \<noteq> CHR ''+''"
    using hd_dec digit_not_special by blast+
  then show ?thesis
    using False assms by (simp add: atoi_def dec_int_def takeWhile_digits_dec dropWhile_space_dec Let_def)
qed

lemma log_runs:
  assumes "\<not> log_locked l"
  shows "\<exists>l'. log_info_msg e m l = Some l' \<and> \<not> log_locked l'"
    and "\<exists>l'. log_error_msg e m l = Some l' \<and> \<not> log_locked l'"
  using log_internal_defined [OF assms] by (auto simp: log_info_msg_def log_error_msg_def)

text \<open>The parent's fork loop, up to the first fork that fails.\<close>

lemma fork_loop_parent:
  assumes "\<not> log_locked l" and "length pids = i + k" and "\<forall>j < k. be_fork e (i + j) \<noteq> 0"
  shows "\<exists>l'. binary_fork_loop e k i (pids, l) = Some (None,
      take i pids @ (let fs = takeWhile (\<lambda>p. p > 0) (map (be_fork e) [i..<i + k])
                     in fs @ drop (i + length fs) pids), l') \<and> \<not> log_locked l'"
  using assms
proof (induction k arbitrary: i pids)
  case 0
  then show ?case by simp
next
  case (Suc k)
  have up: "[i..<Suc (i + k)] = i # [Suc i..<Suc (i + k)]" by (simp add: upt_conv_Cons del: upt_Suc)
  have nz: "be_fork e i \<noteq> 0" using Suc.prems(3) by auto
  show ?case
  proof (cases "be_fork e i < 0")
    case True
    then show ?thesis
      using log_runs(2) [OF Suc.prems(1), of "be_log e"
          "Some (''fork failed for worker '' @ dec i @ '': '' @ be_strerror e)"]
      by (auto simp: up Let_def simp del: upt_Suc)
  next
    case False
    have "\<forall>j < k. be_fork e (Suc i + j) \<noteq> 0" using Suc.prems(3) by (metis Suc_less_eq add_Suc_shift)
    then obtain l' where "binary_fork_loop e k (Suc i) (pids[i := be_fork e i], l) = Some (None,
        take (Suc i) (pids[i := be_fork e i]) @ (let fs = takeWhile (\<lambda>p. p > 0) (map (be_fork e) [Suc i..<Suc i + k])
          in fs @ drop (Suc i + length fs) (pids[i := be_fork e i])), l')" "\<not> log_locked l'"
      using Suc.IH [of "pids[i := be_fork e i]" "Suc i"] Suc.prems(1,2) by auto
    then show ?thesis
      using False nz Suc.prems(2) by (simp add: up Let_def take_Suc_conv_app_nth del: upt_Suc)
  qed
qed

subsection \<open>Properties\<close>

text \<open>
  C35. The command line that names a port and a number of workers in decimal starts one worker per number,
  each forked once: the parent waits for exactly the workers that were started, up to the first fork that
  failed, and exits with status 0 even when none could be started.
\<close>

theorem binary_main_waits_for_started:
  assumes "\<not> log_locked l" and "- (2 ^ 31) \<le> port" and "port < 2 ^ 31"
    and "0 < n" and "n < 2 ^ 31" and "be_calloc e" and "\<forall>j < nat n. be_fork e j \<noteq> 0"
  shows "\<exists>end'. binary_main e unpack encode [''--port'', dec_int port, ''--workers'', dec_int n] (l, w) = Some end' \<and>
    ex_status end' = 0 \<and> ex_worker end' = None \<and>
    ex_waited end' = takeWhile (\<lambda>p. p > 0) (map (be_fork e) [0..<nat n])"
proof -
  let ?opts = "default_options\<lparr>bo_port := port, bo_workers := n\<rparr>"
  have args: "parse_binary_args [''--port'', dec_int port, ''--workers'', dec_int n] default_options =
      Some (Binary_run ?opts)"
    using assms(2-5) by (simp add: atoi_dec_int default_options_def)
  have nw: "binary_worker_count (be_nproc e) n = n" using assms(4) by (simp add: binary_worker_count_def)
  obtain l1 where l1: "log_info_msg (be_log e) (Some (''starting binary server: '' @ dec_int n @
      '' workers on port '' @ dec_int port)) l = Some l1" "\<not> log_locked l1"
    using log_runs(1) [OF assms(1)] by blast
  let ?fs = "takeWhile (\<lambda>p. p > 0) (map (be_fork e) [0..<nat n])"
  obtain l2 where l2: "binary_fork_loop e (nat n) 0 (replicate (nat n) 0, l1) =
      Some (None, ?fs @ drop (length ?fs) (replicate (nat n) 0), l2)" "\<not> log_locked l2"
    using fork_loop_parent [OF l1(2), of "replicate (nat n) 0" 0 "nat n" e] assms(7) by (auto simp: Let_def)
  obtain l3 where l3: "log_info_msg (be_log e) (Some ''binary server stopped'') l2 = Some l3"
    using log_runs(1) [OF l2(2)] by blast
  have "filter (\<lambda>p. p > 0) ?fs = ?fs" by (auto intro: filter_True dest: set_takeWhileD)
  then have "filter (\<lambda>p. p > 0) (?fs @ drop (length ?fs) (replicate (nat n) 0)) = ?fs" by simp
  then show ?thesis
    using args nw l1(1) l2(1) l3 assms(6)
    by (simp add: binary_main_def default_options_def exit_with_def del: filter_append)
qed

definition ex_bworker_env :: bworker_env where
  "ex_bworker_env = \<lparr>bw_affinity = (\<lambda>_. True), bw_resolved = True, bw_socket = 5, bw_memory = (\<lambda>_. True),
     bw_events = [], bw_first = 100\<rparr>"

definition ex_binary_env :: binary_env where
  "ex_binary_env = \<lparr>be_log = ex_log_env, be_nproc = 4, be_calloc = True,
     be_fork = (\<lambda>i. if i < 2 then 1000 + int i else -1), be_strerror = ''No memory'',
     be_worker = ex_bworker_env\<rparr>"

definition ex_binary_world :: "byte world" where
  "ex_binary_world = \<lparr>w_heap = \<lparr>h_next = 0, h_live = []\<rparr>, w_calls = [],
     w_sock = (\<lambda>_. \<lparr>k_recv = [], k_send = [], k_sent = []\<rparr>)\<rparr>"

lemma binary_main_waits_for_started_witness:
  "\<exists>end'. binary_main ex_binary_env (\<lambda>_. None) (\<lambda>_. []) [''--port'', dec_int 80, ''--workers'', dec_int 3]
      (initial_log, ex_binary_world) = Some end' \<and> ex_status end' = 0 \<and> ex_worker end' = None \<and> ex_waited end' = [1000, 1001]"
proof -
  have "[0..<3] = [0, 1, 2 :: nat]" by (simp add: upt_conv_Cons)
  then show ?thesis
    using binary_main_waits_for_started [of initial_log 80 3 ex_binary_env "\<lambda>_. None" "\<lambda>_. []" ex_binary_world]
    by (simp add: initial_log_def ex_binary_env_def)
qed

end
