(* ===== verification/Loadgen.thy ===== *)
theory Loadgen
  imports Binary_Codec Binary_Main
begin

text \<open>
  Component \<open>src/bench/binary_loadgen.c\<close>: the threaded load generator, the client side of the binary
  protocol. A socket holds the bytes that have arrived and a script of how the kernel answers \<open>read\<close> and
  \<open>write\<close>; \<open>None\<close> is a call that blocks for ever (the script is exhausted) or undefined behaviour.
\<close>

subsection \<open>Requests\<close>

definition build_raw_request :: "u16 \<Rightarrow> u16 \<Rightarrow> byte \<Rightarrow> byte list" where
  "build_raw_request x y hp =
     [0, 6] @ store_player \<lparr>ps_type = BINARY_PKT_RAW, ps_x = htobe16 x, ps_y = htobe16 y, ps_hp = hp\<rparr>"

text \<open>The caller's array has \<open>outcap\<close> bytes, which the code does not look at.\<close>

definition build_msgpack_request ::
  "(pack_call \<Rightarrow> byte list) \<Rightarrow> nat \<Rightarrow> u16 \<Rightarrow> u16 \<Rightarrow> byte \<Rightarrow> byte list option" where
  "build_msgpack_request encode outcap x y hp =
     (let sbuf = concat (map encode (pack_player (x, y, hp)));
          payload_len = 1 + length sbuf;
          out = [word_of_nat (payload_len div 256), word_of_nat (payload_len mod 256), BINARY_PKT_MSGPACK] @ sbuf
      in if length out \<le> outcap then Some out else None)"

subsection \<open>Reading\<close>

text \<open>
  One \<open>read\<close>: it returns at most so many bytes (at least one when there is one, none at the end of the
  stream), is interrupted, with the value \<open>g_stop\<close> has then, or fails.
\<close>

datatype read_answer = Up_to nat | Interrupted bool | Read_fails

record client_io =
  ci_reads :: "read_answer list"
  ci_in :: "byte list"
  ci_writes :: "int list"
  ci_out :: "byte list"

function client_read_n :: "nat \<Rightarrow> byte list \<Rightarrow> client_io \<Rightarrow> (int \<times> byte list \<times> client_io) option" where
  "client_read_n n got io =
     (if n \<le> length got then Some (0, got, io)
      else (case ci_reads io of
              [] \<Rightarrow> None
            | a # reads \<Rightarrow>
                let io = io\<lparr>ci_reads := reads\<rparr> in
                (case a of
                   Up_to k \<Rightarrow>
                     let r = take (min (Suc k) (n - length got)) (ci_in io) in
                     if r = [] then Some (-1, got, io)
                     else client_read_n n (got @ r) (io\<lparr>ci_in := drop (length r) (ci_in io)\<rparr>)
                 | Interrupted stop \<Rightarrow> if stop then Some (-1, got, io) else client_read_n n got io
                 | Read_fails \<Rightarrow> Some (-1, got, io))))"
  by pat_completeness auto
termination by (relation "measure (\<lambda>(_, _, io). length (ci_reads io))") auto

declare client_read_n.simps [simp del]

definition read_reply :: "nat \<Rightarrow> client_io \<Rightarrow> (int \<times> byte list \<times> client_io) option" where
  "read_reply payload_cap io =
     Option.bind (client_read_n 2 [] io) (\<lambda>(r, lenbuf, io).
     if r < 0 then Some (-1, [], io)
     else
       let len = unat (frame_length lenbuf) in
       if len < 1 \<or> len > payload_cap then Some (-1, [], io)
       else Option.bind (client_read_n len [] io) (\<lambda>(r, payload, io).
            if r < 0 then Some (-1, payload, io) else Some (int len, payload, io)))"

text \<open>\<open>socket\<close> and \<open>connect\<close>: the descriptor, or -1; a socket that cannot connect is closed.\<close>

definition connect_one :: "int \<Rightarrow> bool \<Rightarrow> int \<times> int list" where
  "connect_one fd connected =
     (if fd < 0 then (-1, []) else if \<not> connected then (-1, [fd]) else (fd, []))"

subsection \<open>A thread\<close>

record thread_arg =
  ta_id :: int
  ta_proto :: byte
  ta_depth :: int
  ta_round_trips :: "64 word"
  ta_errors :: "64 word"

record lg_thread =
  lt_arg :: thread_arg
  lt_x :: u16
  lt_y :: u16
  lt_hp :: byte

definition count_error :: "lg_thread \<Rightarrow> lg_thread" where
  "count_error t = t\<lparr>lt_arg := (lt_arg t)\<lparr>ta_errors := ta_errors (lt_arg t) + 1\<rparr>\<rparr>"

definition count_round_trip :: "lg_thread \<Rightarrow> lg_thread" where
  "count_round_trip t = t\<lparr>lt_arg := (lt_arg t)\<lparr>ta_round_trips := ta_round_trips (lt_arg t) + 1\<rparr>\<rparr>"

definition next_request :: "(pack_call \<Rightarrow> byte list) \<Rightarrow> lg_thread \<Rightarrow> byte list option" where
  "next_request encode t =
     (if ta_proto (lt_arg t) = BINARY_PKT_RAW then Some (build_raw_request (lt_x t) (lt_y t) (lt_hp t))
      else build_msgpack_request encode 64 (lt_x t) (lt_y t) (lt_hp t))"

text \<open>A \<open>write\<close> that returns \<open>n\<close> has put the first \<open>n\<close> bytes on the wire.\<close>

definition client_write :: "byte list \<Rightarrow> client_io \<Rightarrow> (int \<times> client_io) option" where
  "client_write out io =
     (case ci_writes io of
        [] \<Rightarrow> None
      | n # writes \<Rightarrow> Some (n, io\<lparr>ci_writes := writes, ci_out := ci_out io @ take (nat n) out\<rparr>))"

text \<open>The two bursts on one connection; the flag tells whether the code falls through to what follows.\<close>

fun send_burst ::
  "(pack_call \<Rightarrow> byte list) \<Rightarrow> nat \<Rightarrow> lg_thread \<times> client_io \<Rightarrow> (bool \<times> lg_thread \<times> client_io) option" where
  "send_burst encode 0 s = Some (True, s)"
| "send_burst encode (Suc d) (t, io) =
     Option.bind (next_request encode t) (\<lambda>out.
     Option.bind (client_write out io) (\<lambda>(w, io).
     if w < 0 \<or> nat w \<noteq> length out then Some (False, count_error t, io)
     else send_burst encode d (t\<lparr>lt_x := word_of_int ((uint (lt_x t) + 1) AND 0xFFFF)\<rparr>, io)))"

fun read_burst :: "nat \<Rightarrow> lg_thread \<times> client_io \<Rightarrow> (bool \<times> lg_thread \<times> client_io) option" where
  "read_burst 0 s = Some (True, s)"
| "read_burst (Suc d) (t, io) =
     Option.bind (read_reply 63 io) (\<lambda>(rlen, reply, io).
     if rlen < 0 then Some (False, count_error t, io)
     else if rlen < 1 \<or> reply ! 0 \<noteq> ta_proto (lt_arg t) then Some (False, count_error t, io)
     else read_burst d (count_round_trip t, io))"

definition thread_depth :: "lg_thread \<Rightarrow> nat" where
  "thread_depth t = (if ta_depth (lt_arg t) > 0 then nat (ta_depth (lt_arg t)) else 1)"

definition conn_round ::
  "(pack_call \<Rightarrow> byte list) \<Rightarrow> lg_thread \<times> client_io \<Rightarrow> (lg_thread \<times> client_io) option" where
  "conn_round encode s =
     Option.bind (send_burst encode (thread_depth (fst s)) s) (\<lambda>(fell_through, s').
     if \<not> fell_through then Some s'
     else map_option snd (read_burst (thread_depth (fst s)) s'))"

text \<open>One pass over the connections; one that failed to open is \<open>None\<close>.\<close>

fun conn_pass ::
  "(pack_call \<Rightarrow> byte list) \<Rightarrow> lg_thread \<Rightarrow> client_io option list \<Rightarrow> (lg_thread \<times> client_io option list) option" where
  "conn_pass encode t [] = Some (t, [])"
| "conn_pass encode t (None # cs) = map_option (\<lambda>(t, cs). (t, None # cs)) (conn_pass encode t cs)"
| "conn_pass encode t (Some io # cs) =
     Option.bind (conn_round encode (t, io)) (\<lambda>(t, io).
     map_option (\<lambda>(t, cs). (t, Some io # cs)) (conn_pass encode t cs))"

text \<open>The values \<open>g_stop\<close> has at the tests of the loop.\<close>

fun thread_loop ::
  "(pack_call \<Rightarrow> byte list) \<Rightarrow> bool list \<Rightarrow> lg_thread \<Rightarrow> client_io option list \<Rightarrow>
     (lg_thread \<times> client_io option list) option" where
  "thread_loop encode [] t cs = None"
| "thread_loop encode (stop # stops) t cs =
     (if stop then Some (t, cs)
      else Option.bind (conn_pass encode t cs) (\<lambda>(t, cs). thread_loop encode stops t cs))"

definition start_thread :: "thread_arg \<Rightarrow> lg_thread" where
  "start_thread a =
     \<lparr>lt_arg = a, lt_x = word_of_int (ta_id a * 1000), lt_y = word_of_int (ta_id a * 1000 + 1), lt_hp = 200\<rparr>"

definition thread_main ::
  "(pack_call \<Rightarrow> byte list) \<Rightarrow> bool list \<Rightarrow> bool \<Rightarrow> thread_arg \<Rightarrow> client_io option list \<Rightarrow> thread_arg option" where
  "thread_main encode stops calloc_ok a cs =
     (if \<not> calloc_ok then Some a
      else map_option (\<lambda>(t, cs). lt_arg t) (thread_loop encode stops (start_thread a) cs))"

subsection \<open>The program\<close>

record loadgen_options =
  lg_host :: string
  lg_port :: int
  lg_threads :: int
  lg_conns :: int
  lg_duration :: int
  lg_depth :: int
  lg_proto :: byte

definition loadgen_defaults :: loadgen_options where
  "loadgen_defaults = \<lparr>lg_host = ''127.0.0.1'', lg_port = 3985, lg_threads = 4, lg_conns = 64, lg_duration = 10,
     lg_depth = 1, lg_proto = BINARY_PKT_RAW\<rparr>"

datatype loadgen_args = Loadgen_run loadgen_options | Loadgen_bad_proto string | Loadgen_usage

definition parse_proto :: "string \<Rightarrow> byte option" where
  "parse_proto p =
     (if p = ''raw'' then Some BINARY_PKT_RAW else if p = ''msgpack'' then Some BINARY_PKT_MSGPACK else None)"

text \<open>Every option takes a value; anything else, and an option without its value, prints the usage.\<close>

fun parse_loadgen_args :: "string list \<Rightarrow> loadgen_options \<Rightarrow> loadgen_args option" where
  "parse_loadgen_args [] c = Some (Loadgen_run c)"
| "parse_loadgen_args [a] c = Some Loadgen_usage"
| "parse_loadgen_args (a # v # rest) c =
     (if a = ''--host'' then parse_loadgen_args rest (c\<lparr>lg_host := v\<rparr>)
      else if a = ''--port'' then Option.bind (atoi v) (\<lambda>n. parse_loadgen_args rest (c\<lparr>lg_port := n\<rparr>))
      else if a = ''--threads'' then Option.bind (atoi v) (\<lambda>n. parse_loadgen_args rest (c\<lparr>lg_threads := n\<rparr>))
      else if a = ''--conns'' then Option.bind (atoi v) (\<lambda>n. parse_loadgen_args rest (c\<lparr>lg_conns := n\<rparr>))
      else if a = ''--duration'' then Option.bind (atoi v) (\<lambda>n. parse_loadgen_args rest (c\<lparr>lg_duration := n\<rparr>))
      else if a = ''--depth'' then Option.bind (atoi v) (\<lambda>n. parse_loadgen_args rest (c\<lparr>lg_depth := n\<rparr>))
      else if a = ''--proto'' then
        (case parse_proto v of
           Some p \<Rightarrow> parse_loadgen_args rest (c\<lparr>lg_proto := p\<rparr>)
         | None \<Rightarrow> Some (Loadgen_bad_proto v))
      else Some Loadgen_usage)"

text \<open>What one thread meets, and what the system answers to the program.\<close>

record thread_script =
  ts_calloc :: bool
  ts_conns :: "(int \<times> bool \<times> client_io) list"
  ts_stops :: "bool list"

record loadgen_env =
  le_inet :: "string \<Rightarrow> u32"
  le_calloc :: bool
  le_create :: "nat \<Rightarrow> bool"
  le_thread :: "nat \<Rightarrow> thread_script"

definition INADDR_NONE :: u32 where
  "INADDR_NONE = 0xFFFFFFFF"

definition thread_conns :: "int \<Rightarrow> thread_script \<Rightarrow> client_io option list" where
  "thread_conns conns s =
     map (\<lambda>(fd, connected, io). if fst (connect_one fd connected) < 0 then None else Some io)
       (take (nat conns) (ts_conns s))"

definition loadgen_thread ::
  "(pack_call \<Rightarrow> byte list) \<Rightarrow> loadgen_options \<Rightarrow> loadgen_env \<Rightarrow> nat \<Rightarrow> thread_arg option" where
  "loadgen_thread encode c e i =
     thread_main encode (ts_stops (le_thread e i)) (ts_calloc (le_thread e i))
       \<lparr>ta_id = int i, ta_proto = lg_proto c, ta_depth = lg_depth c, ta_round_trips = 0, ta_errors = 0\<rparr>
       (thread_conns (lg_conns c) (le_thread e i))"

text \<open>The exit status, and the totals printed when the threads have been joined.\<close>

definition loadgen_main ::
  "(pack_call \<Rightarrow> byte list) \<Rightarrow> loadgen_env \<Rightarrow> string list \<Rightarrow> (int \<times> (64 word \<times> 64 word) option) option" where
  "loadgen_main encode e args =
     Option.bind (parse_loadgen_args args loadgen_defaults) (\<lambda>r.
     case r of
       Loadgen_bad_proto p \<Rightarrow> Some (1, None)
     | Loadgen_usage \<Rightarrow> Some (1, None)
     | Loadgen_run c \<Rightarrow>
         if le_inet e (lg_host c) = INADDR_NONE then Some (1, None)
         else if \<not> le_calloc e then Some (1, None)
         else if \<not> list_all (le_create e) [0..<nat (lg_threads c)] then Some (1, None)
         else
           map_option (\<lambda>as. (0, Some (sum_list (map ta_round_trips as), sum_list (map ta_errors as))))
             (those (map (loadgen_thread encode c e) [0..<nat (lg_threads c)])))"

subsection \<open>Reading exactly\<close>

text \<open>A script that only shortens reads and lets them be interrupted, with at least \<open>n\<close> reads in it.\<close>

definition patient :: "nat \<Rightarrow> read_answer list \<Rightarrow> bool" where
  "patient n reads \<longleftrightarrow>
     (\<forall>a \<in> set reads. a \<noteq> Read_fails \<and> a \<noteq> Interrupted True) \<and>
     n \<le> length (filter (\<lambda>a. a \<noteq> Interrupted False) reads)"

lemma patient_Cons:
  "patient n (a # reads) \<longleftrightarrow>
     (case a of Up_to k \<Rightarrow> patient (n - 1) reads | Interrupted stop \<Rightarrow> \<not> stop \<and> patient n reads | Read_fails \<Rightarrow> False)"
proof (cases a)
  case (Interrupted stop)
  then show ?thesis by (cases stop) (simp_all add: patient_def)
next
  case (Up_to k)
  then show ?thesis by (simp add: patient_def le_diff_conv)
next
  case Read_fails
  then show ?thesis by (simp add: patient_def)
qed

lemma patient_mono: "patient n reads \<Longrightarrow> m \<le> n \<Longrightarrow> patient m reads"
  by (auto simp: patient_def)

text \<open>However the reads are cut, exactly the next bytes of the stream are delivered.\<close>

lemma client_read_n_exact:
  assumes "length got \<le> n" and "n - length got \<le> length (ci_in io)" and "patient (n - length got + k) (ci_reads io)"
  shows "\<exists>reads. client_read_n n got io =
      Some (0, got @ take (n - length got) (ci_in io),
            io\<lparr>ci_reads := reads, ci_in := drop (n - length got) (ci_in io)\<rparr>) \<and> patient k reads"
  using assms
proof (induction n got io rule: client_read_n.induct)
  case (1 n got io)
  show ?case
  proof (cases "n \<le> length got")
    case True
    then have "client_read_n n got io = Some (0, got, io)"
      by (simp add: client_read_n.simps [of n got io])
    then show ?thesis using True 1(5) by (auto intro!: exI [of _ "ci_reads io"])
  next
    case False
    obtain a reads where r: "ci_reads io = a # reads"
      using 1(5) False by (cases "ci_reads io") (auto simp: patient_def)
    show ?thesis
    proof (cases a)
      case (Up_to j)
      define m where "m = min (Suc j) (n - length got)"
      define N where "N = n - length got"
      let ?r = "take m (ci_in io)" and ?io = "io\<lparr>ci_reads := reads, ci_in := drop m (ci_in io)\<rparr>"
      have m: "0 < m" "m \<le> N" "N \<le> length (ci_in io)" "length ?r = m" "?r \<noteq> []"
        using False 1(4) by (auto simp: m_def N_def)
      have left: "n - length (got @ ?r) = N - m" using m(4) by (simp add: N_def)
      have "patient (N + k - 1) reads" using 1(5) r Up_to by (simp add: patient_Cons N_def)
      then have p: "patient (n - length (got @ ?r) + k) (ci_reads ?io)"
        unfolding left using m(1,2) by (auto elim!: patient_mono)
      have step: "client_read_n n got io = client_read_n n (got @ ?r) ?io"
        using False r Up_to m(4,5)
        by (simp add: client_read_n.simps [of n got io] Let_def m_def [symmetric] del: take_eq_Nil take_eq_Nil2)
      have "\<exists>reads'. client_read_n n (got @ ?r) ?io =
          Some (0, (got @ ?r) @ take (N - m) (ci_in ?io), ?io\<lparr>ci_reads := reads', ci_in := drop (N - m) (ci_in ?io)\<rparr>) \<and>
          patient k reads'"
        using 1(1) [OF False r refl Up_to, of ?r] m p 1(3) False unfolding left
        by (simp add: m_def [symmetric] N_def)
      moreover have "?r @ take (N - m) (drop m (ci_in io)) = take N (ci_in io)"
        using m(2) by (simp add: take_add [symmetric])
      ultimately show ?thesis using step m(2) unfolding N_def [symmetric] by auto
    next
      case (Interrupted stop)
      then have "\<not> stop" using 1(5) r by (simp add: patient_Cons)
      then show ?thesis
        using 1(2) [OF False r refl Interrupted] 1(3-5) False r Interrupted
        by (simp add: client_read_n.simps [of n got io] patient_Cons)
    next
      case Read_fails
      then show ?thesis using 1(5) r by (simp add: patient_Cons)
    qed
  qed
qed

text \<open>A framed reply, the next bytes of the stream, is read whole.\<close>

lemma read_reply_exact:
  assumes "ci_in io = be_bytes len @ payload @ rest" and "length payload = unat len"
    and "1 \<le> unat len" and "unat len \<le> cap" and "patient (2 + unat len + k) (ci_reads io)"
  shows "\<exists>reads. read_reply cap io = Some (int (unat len), payload, io\<lparr>ci_reads := reads, ci_in := rest\<rparr>) \<and>
    patient k reads"
proof -
  have p: "patient (2 - length ([] :: byte list) + (unat len + k)) (ci_reads io)"
    using assms(5) by (simp add: add.assoc)
  obtain reads where r: "client_read_n 2 [] io =
      Some (0, be_bytes len, io\<lparr>ci_reads := reads, ci_in := payload @ rest\<rparr>)" "patient (unat len + k) reads"
    using client_read_n_exact [of "[]" 2 io "unat len + k"] p assms(1)
    by (auto simp: be_bytes_def numeral_2_eq_2)
  let ?io = "io\<lparr>ci_reads := reads, ci_in := payload @ rest\<rparr>"
  obtain reads' where r': "client_read_n (unat len) [] ?io =
      Some (0, payload, io\<lparr>ci_reads := reads', ci_in := rest\<rparr>)" "patient k reads'"
    using client_read_n_exact [of "[]" "unat len" ?io k] r(2) assms(2) by auto
  have "frame_length (be_bytes len) = len"
    by (simp add: frame_length_def be_bytes_def flip: be_value_def)
  then show ?thesis using r r' assms(3,4)
    by (simp add: read_reply_def Let_def) (auto intro!: exI [of _ reads'])
qed

subsection \<open>Client and server\<close>

definition raw_answer :: "u16 \<Rightarrow> u16 \<Rightarrow> byte \<Rightarrow> byte list" where
  "raw_answer x y hp =
     [BINARY_PKT_RAW] @ be_bytes (x + 1) @ be_bytes (y + 1) @ [if hp = 0 then 0 else hp - 1]"

lemma raw_request_bytes:
  "build_raw_request x y hp = [0, 6, BINARY_PKT_RAW] @ be_bytes x @ be_bytes y @ [hp]"
  by (simp add: build_raw_request_def store_player_def store_htobe16)

lemma length_raw_request [simp]: "length (build_raw_request x y hp) = 8"
  by (simp add: raw_request_bytes be_bytes_def)

text \<open>The server's parser finds a request at the front, and answers it.\<close>

lemma raw_request_answered:
  "parse_packet unpack encode (build_raw_request x y hp @ rest) =
     Packet 8 (Some (be_bytes 6 @ raw_answer x y hp))"
proof -
  have "be16toh (load_u16 (ucast (drop_bit 8 z)) (ucast z)) = z" for z
    by (simp add: be16toh_load)
  then show ?thesis
    by (simp add: parse_packet_def raw_request_bytes be_bytes_def frame_length_def binary_reply_def
        raw_reply_def load_player_def player_mutate_eq store_player_def store_htobe16 raw_answer_def Let_def)
qed

abbreviation (input) raw_burst :: "lg_thread \<Rightarrow> nat \<Rightarrow> byte list" where
  "raw_burst t d \<equiv> concat (map (\<lambda>i. build_raw_request (lt_x t + of_nat i) (lt_y t) (lt_hp t)) [0..<d])"

lemma raw_burst_drain:
  "drain (parse_packet unpack encode) (concat (map (\<lambda>x. build_raw_request x y hp) xs)) =
     (map (\<lambda>x. Some (be_bytes 6 @ raw_answer x y hp)) xs, [], False)"
proof (induction xs)
  case Nil
  then show ?case by (simp add: drain.simps parse_packet_def)
next
  case (Cons x xs)
  then show ?case
    by (simp add: binary_parser.drain_packet [OF raw_request_answered])
qed

lemma next_x: "(word_of_int ((uint x + 1) AND 0xFFFF) :: u16) = x + 1"
  using player_mutate_eq [of x 0 0] by (simp add: player_mutate_def)

lemma send_burst_raw:
  assumes "ta_proto (lt_arg t) = BINARY_PKT_RAW" and "ci_writes io = replicate d 8 @ ws"
  shows "send_burst encode d (t, io) = Some (True, t\<lparr>lt_x := lt_x t + of_nat d\<rparr>,
    io\<lparr>ci_writes := ws, ci_out := ci_out io @ raw_burst t d\<rparr>)"
  using assms
proof (induction d arbitrary: t io)
  case (Suc d)
  have up: "[0..<Suc d] = 0 # map Suc [0..<d]" by (simp add: upt_conv_Cons map_Suc_upt del: upt_Suc)
  show ?case
    using Suc.prems Suc.IH [of "t\<lparr>lt_x := lt_x t + 1\<rparr>" "io\<lparr>ci_writes := replicate d 8 @ ws,
        ci_out := ci_out io @ build_raw_request (lt_x t) (lt_y t) (lt_hp t)\<rparr>"]
    by (simp add: next_request_def client_write_def next_x up o_def add.assoc del: upt_Suc)
qed simp

lemma read_burst_raw:
  assumes "ta_proto (lt_arg t) = BINARY_PKT_RAW" and "patient (8 * length xs + k) (ci_reads io)"
    and "ci_in io = concat (map (\<lambda>x. be_bytes 6 @ raw_answer x y hp) xs) @ rest"
  shows "\<exists>reads. read_burst (length xs) (t, io) = Some (True,
      t\<lparr>lt_arg := (lt_arg t)\<lparr>ta_round_trips := ta_round_trips (lt_arg t) + of_nat (length xs)\<rparr>\<rparr>,
      io\<lparr>ci_reads := reads, ci_in := rest\<rparr>) \<and> patient k reads"
  using assms
proof (induction xs arbitrary: t io)
  case Nil
  then show ?case by (auto intro!: exI [of _ "ci_reads io"])
next
  case (Cons x xs)
  let ?more = "concat (map (\<lambda>x. be_bytes 6 @ raw_answer x y hp) xs) @ rest"
  have "patient (2 + unat (6 :: u16) + (8 * length xs + k)) (ci_reads io)"
    using Cons.prems(2) by (simp add: add.assoc)
  from read_reply_exact [OF _ _ _ _ this, of "raw_answer x y hp" ?more 63] Cons.prems(3)
  obtain reads where r: "read_reply 63 io = Some (6, raw_answer x y hp, io\<lparr>ci_reads := reads, ci_in := ?more\<rparr>)"
    "patient (8 * length xs + k) reads"
    by (auto simp: raw_answer_def be_bytes_def)
  show ?case
    using Cons.IH [of "count_round_trip t" "io\<lparr>ci_reads := reads, ci_in := ?more\<rparr>"] Cons.prems(1) r
    by (auto simp: count_round_trip_def raw_answer_def add.assoc)
qed

subsection \<open>Properties\<close>

text \<open>
  C9. Client and server speak the same protocol: a burst of raw requests, written completely, is answered
  by the server's parser request by request, with nothing left over; and when those answers arrive, cut
  and interrupted in any way, the client counts one round trip for each, no error, and leaves what comes
  after them unread.
\<close>

theorem raw_burst_completes:
  assumes "ta_proto (lt_arg t) = BINARY_PKT_RAW" and "thread_depth t = d"
    and "ci_writes io = replicate d 8 @ ws"
    and "drain (parse_packet unpack encode)
           (concat (map (\<lambda>i. build_raw_request (lt_x t + of_nat i) (lt_y t) (lt_hp t)) [0..<d])) = (rs, left, bad)"
    and "ci_in io = concat (map the rs) @ rest" and "patient (8 * d) (ci_reads io)"
  shows "None \<notin> set rs \<and> length rs = d \<and> left = [] \<and> \<not> bad \<and>
    (\<exists>t' io'. conn_round encode (t, io) = Some (t', io') \<and>
      ci_out io' = ci_out io @
        concat (map (\<lambda>i. build_raw_request (lt_x t + of_nat i) (lt_y t) (lt_hp t)) [0..<d]) \<and>
      ci_in io' = rest \<and>
      ta_round_trips (lt_arg t') = ta_round_trips (lt_arg t) + of_nat d \<and>
      ta_errors (lt_arg t') = ta_errors (lt_arg t))"
proof -
  let ?xs = "map (\<lambda>i. lt_x t + of_nat i) [0..<d]"
  have rs: "rs = map (\<lambda>x. Some (be_bytes 6 @ raw_answer x (lt_y t) (lt_hp t))) ?xs" "left = []" "\<not> bad"
    using assms(4) raw_burst_drain [of unpack encode "lt_y t" "lt_hp t" ?xs] by (simp_all add: o_def)
  have "map the rs = map (\<lambda>x. be_bytes 6 @ raw_answer x (lt_y t) (lt_hp t)) ?xs" by (simp add: rs(1) o_def)
  then have "ci_in io = concat (map (\<lambda>x. be_bytes 6 @ raw_answer x (lt_y t) (lt_hp t)) ?xs) @ rest"
    using assms(5) by (simp only:)
  with read_burst_raw [of "t\<lparr>lt_x := lt_x t + of_nat d\<rparr>" ?xs 0
      "io\<lparr>ci_writes := ws, ci_out := ci_out io @ raw_burst t d\<rparr>" "lt_y t" "lt_hp t" rest] assms(1,6)
  have "\<exists>reads. read_burst d (t\<lparr>lt_x := lt_x t + of_nat d\<rparr>, io\<lparr>ci_writes := ws, ci_out := ci_out io @ raw_burst t d\<rparr>) =
      Some (True, t\<lparr>lt_x := lt_x t + of_nat d, lt_arg := (lt_arg t)
          \<lparr>ta_round_trips := ta_round_trips (lt_arg t) + of_nat d\<rparr>\<rparr>,
        io\<lparr>ci_writes := ws, ci_out := ci_out io @ raw_burst t d, ci_reads := reads, ci_in := rest\<rparr>)"
    by fastforce
  then show ?thesis
    using rs send_burst_raw [OF assms(1,3), of encode] assms(2) by (auto simp: conn_round_def)
qed

definition ex_lg_thread :: lg_thread where
  "ex_lg_thread = start_thread \<lparr>ta_id = 3, ta_proto = BINARY_PKT_RAW, ta_depth = 2, ta_round_trips = 0, ta_errors = 0\<rparr>"

definition ex_client_io :: client_io where
  "ex_client_io = \<lparr>ci_reads = Interrupted False # replicate 16 (Up_to 2),
     ci_in = [0, 6, 1, 11, 185, 11, 186, 199, 0, 6, 1, 11, 186, 11, 186, 199], ci_writes = [8, 8], ci_out = []\<rparr>"

lemma raw_burst_completes_witness:
  "\<exists>t' io'. conn_round (\<lambda>_. []) (ex_lg_thread, ex_client_io) = Some (t', io') \<and>
    ci_in io' = [] \<and> ta_round_trips (lt_arg t') = 2 \<and> ta_errors (lt_arg t') = 0"
proof -
  have xs: "[0..<2] = [0, 1 :: nat]" by (simp add: upt_conv_Cons)
  have t: "lt_x ex_lg_thread = 3000" "lt_y ex_lg_thread = 3001" "lt_hp ex_lg_thread = 200"
    "thread_depth ex_lg_thread = 2" "ta_proto (lt_arg ex_lg_thread) = BINARY_PKT_RAW"
    "ta_round_trips (lt_arg ex_lg_thread) = 0" "ta_errors (lt_arg ex_lg_thread) = 0"
    by (simp_all add: ex_lg_thread_def start_thread_def thread_depth_def)
  have d: "drain (parse_packet (\<lambda>_. None) (\<lambda>_. []))
      (concat (map (\<lambda>i. build_raw_request (lt_x ex_lg_thread + of_nat i) (lt_y ex_lg_thread) (lt_hp ex_lg_thread)) [0..<2])) =
      ([Some [0, 6, 1, 11, 185, 11, 186, 199], Some [0, 6, 1, 11, 186, 11, 186, 199]], [], False)"
    using raw_burst_drain [of "\<lambda>_. None" "\<lambda>_. []" 3001 200 "[3000, 3001]"]
    by (simp add: xs t raw_answer_def be_bytes_def)
  show ?thesis
    using raw_burst_completes [OF t(5,4) _ d, of ex_client_io "[]" "[]"]
    by (auto simp: t ex_client_io_def patient_def numeral_2_eq_2)
qed

end
