(* ===== verification/Loadgen_Uring.thy ===== *)
theory Loadgen_Uring
  imports Loadgen "HOL-Library.Multiset"
begin

text \<open>
  Component \<open>src/bench/binary_loadgen_uring.c\<close>: the load generator over one io_uring. The ring's kernel
  side is the list of requests submitted and not completed; a completion takes one of them away. Whether
  the ring has a free entry is an argument. \<open>None\<close> is undefined behaviour.
\<close>

abbreviation (input) RECV_BUF_SIZE :: nat where "RECV_BUF_SIZE \<equiv> 4096"
abbreviation (input) MAX_CONNS :: nat where "MAX_CONNS \<equiv> 4096"
abbreviation (input) SEND_POOL_SIZE :: nat where "SEND_POOL_SIZE \<equiv> 8192"
abbreviation (input) OP_SEND :: "64 word" where "OP_SEND \<equiv> 0"
abbreviation (input) OP_RECV :: "64 word" where "OP_RECV \<equiv> 1"

subsection \<open>Request tags\<close>

definition tag_send_ud :: "nat \<Rightarrow> nat \<Rightarrow> 64 word" where
  "tag_send_ud cid slot = push_bit 16 (of_nat slot) OR push_bit 2 (of_nat cid) OR OP_SEND"

definition tag_recv_ud :: "nat \<Rightarrow> 64 word" where
  "tag_recv_ud cid = push_bit 2 (of_nat cid) OR OP_RECV"

definition ud_cid :: "64 word \<Rightarrow> nat" where
  "ud_cid ud = unat (drop_bit 2 ud AND 0x3FFF)"

definition ud_op :: "64 word \<Rightarrow> 64 word" where
  "ud_op ud = ud AND 3"

definition ud_slot :: "64 word \<Rightarrow> nat" where
  "ud_slot ud = unat (drop_bit 16 ud)"

subsection \<open>The pool of send buffers\<close>

record send_pool =
  g_free_stack :: "nat list"
  g_free_top :: nat

definition pool_init :: send_pool where
  "pool_init = \<lparr>g_free_stack = [0..<SEND_POOL_SIZE], g_free_top = SEND_POOL_SIZE\<rparr>"

definition alloc_send_slot :: "send_pool \<Rightarrow> nat option \<times> send_pool" where
  "alloc_send_slot p =
     (if g_free_top p = 0 then (None, p)
      else (Some (g_free_stack p ! (g_free_top p - 1)), p\<lparr>g_free_top := g_free_top p - 1\<rparr>))"

definition free_send_slot :: "nat \<Rightarrow> send_pool \<Rightarrow> send_pool" where
  "free_send_slot slot p =
     (if g_free_top p < SEND_POOL_SIZE
      then p\<lparr>g_free_stack := (g_free_stack p)[g_free_top p := slot], g_free_top := g_free_top p + 1\<rparr>
      else p)"

subsection \<open>Connections\<close>

record uconn =
  uc_in_flight :: int
  uc_proto :: byte
  uc_rbuf :: "byte list"
  uc_rlen :: nat
  uc_completed :: "64 word"

text \<open>
  \<open>drain_packets\<close> on the buffer, its fill and the two counters. The shift reads up to the fill, which is
  undefined when that is outside the array.
\<close>

function drain_packets ::
  "byte \<Rightarrow> nat \<times> byte list \<times> nat \<times> nat \<Rightarrow> (nat \<times> byte list \<times> nat \<times> nat) option" where
  "drain_packets proto (n, buf, rlen, errors) =
     (if rlen < 2 then Some (n, buf, rlen, errors)
      else
        let len = unat (frame_length buf) in
        if len < 1 \<or> len > 64 then Some (n, buf, rlen, errors + 1)
        else if rlen < 2 + len then Some (n, buf, rlen, errors)
        else if RECV_BUF_SIZE < rlen then None
        else
          let ok = (buf ! 2 = proto); total' = 2 + len;
              buf' = take (rlen - total') (drop total' buf) @ drop (rlen - total') buf in
          drain_packets proto
            (if ok then n + 1 else n, buf', rlen - total', if ok then errors else errors + 1))"
  by pat_completeness auto
termination
  by (relation "measure (\<lambda>(_, _, _, rlen, _). rlen)") (auto simp: Let_def)

declare drain_packets.simps [simp del]

subsection \<open>The ring\<close>

datatype sqe = Sqe_send "64 word" nat nat | Sqe_recv "64 word" nat nat nat

record uring =
  ur_conns :: "uconn list"
  ur_pool :: send_pool
  ur_pending :: "sqe list"
  ur_completed :: nat
  ur_errors :: nat

definition sqe_ud :: "sqe \<Rightarrow> 64 word" where
  "sqe_ud q = (case q of Sqe_send ud _ _ \<Rightarrow> ud | Sqe_recv ud _ _ _ \<Rightarrow> ud)"

text \<open>
  \<open>got\<close> tells whether one of the two attempts finds a free ring entry; \<open>reqlen\<close> is the length of the
  request template of the connection's protocol.
\<close>

definition submit_send :: "bool \<Rightarrow> nat \<Rightarrow> nat \<Rightarrow> uring \<Rightarrow> uring" where
  "submit_send got reqlen cid u =
     (case alloc_send_slot (ur_pool u) of
        (None, p) \<Rightarrow> u\<lparr>ur_pool := p\<rparr>
      | (Some slot, p) \<Rightarrow>
          if \<not> got then u\<lparr>ur_pool := free_send_slot slot p\<rparr>
          else u\<lparr>ur_pool := p, ur_pending := ur_pending u @ [Sqe_send (tag_send_ud cid slot) slot reqlen]\<rparr>)"

definition submit_recv :: "bool \<Rightarrow> nat \<Rightarrow> uring \<Rightarrow> uring" where
  "submit_recv got cid u =
     (if \<not> got then u
      else
        let off = uc_rlen (ur_conns u ! cid);
            off = (if off \<ge> RECV_BUF_SIZE then 0 else off)
        in u\<lparr>ur_pending := ur_pending u @ [Sqe_recv (tag_recv_ud cid) cid off (RECV_BUF_SIZE - off)]\<rparr>)"

definition bump_in_flight :: "int \<Rightarrow> nat \<Rightarrow> uring \<Rightarrow> uring" where
  "bump_in_flight d cid u =
     u\<lparr>ur_conns := (ur_conns u)[cid := (ur_conns u ! cid)\<lparr>uc_in_flight := uc_in_flight (ur_conns u ! cid) + d\<rparr>]\<rparr>"

text \<open>\<open>n\<close> requests on a connection, each counted in flight whether it was submitted or not.\<close>

fun send_requests :: "(nat \<Rightarrow> bool) \<Rightarrow> nat \<Rightarrow> nat \<Rightarrow> nat \<Rightarrow> uring \<Rightarrow> uring" where
  "send_requests got reqlen 0 cid u = u"
| "send_requests got reqlen (Suc n) cid u =
     send_requests got reqlen n cid (bump_in_flight 1 cid (submit_send (got n) reqlen cid u))"

text \<open>
  The body of the completion loop. \<open>res\<close> is the result of the completion; for a receive that succeeded
  the kernel has put \<open>bytes\<close> into the connection's buffer at the offset of its request.
\<close>

definition store_received :: "nat \<Rightarrow> nat \<Rightarrow> byte list \<Rightarrow> uring \<Rightarrow> uring option" where
  "store_received cid off bytes u =
     map_option (\<lambda>buf. u\<lparr>ur_conns := (ur_conns u)[cid := (ur_conns u ! cid)\<lparr>uc_rbuf := buf\<rparr>]\<rparr>)
       (write_at off bytes (uc_rbuf (ur_conns u ! cid)))"

definition on_cqe :: "(nat \<Rightarrow> bool) \<Rightarrow> nat \<Rightarrow> 64 word \<Rightarrow> int \<Rightarrow> uring \<Rightarrow> uring option" where
  "on_cqe got reqlen ud res u =
     (let cid = ud_cid ud in
      if ud_op ud = OP_SEND then
        (let u = u\<lparr>ur_pool := free_send_slot (ud_slot ud) (ur_pool u)\<rparr>
         in Some (if res < 0 then u\<lparr>ur_errors := ur_errors u + 1\<rparr> else u))
      else if res \<le> 0 then Some (submit_recv (got 0) cid (u\<lparr>ur_errors := ur_errors u + 1\<rparr>))
      else
        let c = ur_conns u ! cid in
        Option.bind (drain_packets (uc_proto c) (0, uc_rbuf c, uc_rlen c + nat res, ur_errors u))
          (\<lambda>(n, buf, rlen, errors).
            let c = c\<lparr>uc_rbuf := buf, uc_rlen := rlen, uc_completed := uc_completed c + of_nat n\<rparr>;
                u = u\<lparr>ur_conns := (ur_conns u)[cid := c], ur_errors := errors\<rparr>;
                u = (if n > 0
                     then send_requests (\<lambda>k. got (Suc k)) reqlen n cid
                            (bump_in_flight (- int n) cid (u\<lparr>ur_completed := ur_completed u + n\<rparr>))
                     else u)
            in Some (submit_recv (got 0) cid u)))"

text \<open>A completion of a pending request: the kernel's part, then the program's.\<close>

datatype completion = Cq nat int "byte list"

definition complete :: "(nat \<Rightarrow> bool) \<Rightarrow> nat \<Rightarrow> completion \<Rightarrow> uring \<Rightarrow> uring option" where
  "complete got reqlen c u =
     (case c of Cq i res bytes \<Rightarrow>
      if length (ur_pending u) \<le> i then Some u
      else
        let q = ur_pending u ! i;
            u = u\<lparr>ur_pending := take i (ur_pending u) @ drop (Suc i) (ur_pending u)\<rparr>
        in case q of
             Sqe_send ud slot n \<Rightarrow> on_cqe got reqlen ud res u
           | Sqe_recv ud cid off cap \<Rightarrow>
               if res \<le> 0 then on_cqe got reqlen ud res u
               else if length bytes = nat res \<and> length bytes \<le> cap
               then Option.bind (store_received cid off bytes u) (on_cqe got reqlen ud res)
               else Some u)"

subsection \<open>The program\<close>

record uring_options =
  uo_host :: string
  uo_port :: int
  uo_conns :: int
  uo_depth :: int
  uo_duration :: int
  uo_proto :: byte

definition uring_defaults :: uring_options where
  "uring_defaults = \<lparr>uo_host = ''127.0.0.1'', uo_port = 3985, uo_conns = 256, uo_depth = 16, uo_duration = 10,
     uo_proto = BINARY_PKT_RAW\<rparr>"

datatype uring_args = Uring_run uring_options | Uring_bad_proto | Uring_usage

fun parse_uring_args :: "string list \<Rightarrow> uring_options \<Rightarrow> uring_args option" where
  "parse_uring_args [] c = Some (Uring_run c)"
| "parse_uring_args [a] c = Some Uring_usage"
| "parse_uring_args (a # v # rest) c =
     (if a = ''--host'' then parse_uring_args rest (c\<lparr>uo_host := v\<rparr>)
      else if a = ''--port'' then Option.bind (atoi v) (\<lambda>n. parse_uring_args rest (c\<lparr>uo_port := n\<rparr>))
      else if a = ''--conns'' then Option.bind (atoi v) (\<lambda>n. parse_uring_args rest (c\<lparr>uo_conns := n\<rparr>))
      else if a = ''--depth'' then Option.bind (atoi v) (\<lambda>n. parse_uring_args rest (c\<lparr>uo_depth := n\<rparr>))
      else if a = ''--duration'' then Option.bind (atoi v) (\<lambda>n. parse_uring_args rest (c\<lparr>uo_duration := n\<rparr>))
      else if a = ''--proto'' then
        (case parse_proto v of
           Some p \<Rightarrow> parse_uring_args rest (c\<lparr>uo_proto := p\<rparr>)
         | None \<Rightarrow> Some Uring_bad_proto)
      else Some Uring_usage)"

text \<open>The request templates, encoded once.\<close>

definition request_for :: "(pack_call \<Rightarrow> byte list) \<Rightarrow> byte \<Rightarrow> byte list option" where
  "request_for encode proto =
     (if proto = BINARY_PKT_RAW then Some (build_raw_request 1 2 200)
      else build_msgpack_request encode 64 1 2 200)"

text \<open>A connection's first requests and its receive.\<close>

definition seed_conn :: "(nat \<Rightarrow> nat \<Rightarrow> bool) \<Rightarrow> nat \<Rightarrow> nat \<Rightarrow> nat \<Rightarrow> uring \<Rightarrow> uring" where
  "seed_conn got reqlen depth cid u =
     submit_recv (got cid 0) cid (send_requests (\<lambda>k. got cid (Suc k)) reqlen depth cid u)"

definition fresh_conn :: "byte \<Rightarrow> uconn" where
  "fresh_conn proto =
     \<lparr>uc_in_flight = 0, uc_proto = proto, uc_rbuf = replicate RECV_BUF_SIZE 0, uc_rlen = 0, uc_completed = 0\<rparr>"

definition fresh_uring :: "nat \<Rightarrow> byte \<Rightarrow> uring" where
  "fresh_uring conns proto =
     \<lparr>ur_conns = replicate conns (fresh_conn proto), ur_pool = pool_init, ur_pending = [],
      ur_completed = 0, ur_errors = 0\<rparr>"

definition seed :: "(nat \<Rightarrow> nat \<Rightarrow> bool) \<Rightarrow> nat \<Rightarrow> nat \<Rightarrow> nat \<Rightarrow> byte \<Rightarrow> uring" where
  "seed got reqlen conns depth proto =
     fold (seed_conn got reqlen depth) [0..<conns] (fresh_uring conns proto)"

text \<open>
  What the system answers: whether a connection is made, whether the ring can be set up, whether the
  ring has free entries, and the completions the loop takes from the ring until the alarm.
\<close>

record uring_env =
  ue_connects :: "nat \<Rightarrow> bool"
  ue_queue :: bool
  ue_seed_got :: "nat \<Rightarrow> nat \<Rightarrow> bool"
  ue_run :: "((nat \<Rightarrow> bool) \<times> completion) list"

definition uring_main ::
  "(pack_call \<Rightarrow> byte list) \<Rightarrow> uring_env \<Rightarrow> string list \<Rightarrow> (int \<times> uring option) option" where
  "uring_main encode e args =
     Option.bind (parse_uring_args args uring_defaults) (\<lambda>r.
     case r of
       Uring_bad_proto \<Rightarrow> Some (1, None)
     | Uring_usage \<Rightarrow> Some (1, None)
     | Uring_run c \<Rightarrow>
         if uo_conns c > int MAX_CONNS then Some (1, None)
         else
           Option.bind (request_for encode (uo_proto c)) (\<lambda>req.
           if \<not> list_all (ue_connects e) [0..<nat (uo_conns c)] then Some (1, None)
           else if \<not> ue_queue e then Some (1, None)
           else
             map_option (\<lambda>u. (0, Some u))
               (run_all (\<lambda>(got, cq). complete got (length req) cq) (ue_run e)
                 (seed (ue_seed_got e) (length req) (nat (uo_conns c)) (nat (uo_depth c)) (uo_proto c)))))"

subsection \<open>Tags\<close>

lemma tag_recovers:
  assumes "cid < 2 ^ 14" and "slot < 2 ^ 47"
  shows "ud_cid (tag_send_ud cid slot) = cid" and "ud_op (tag_send_ud cid slot) = OP_SEND"
    and "ud_slot (tag_send_ud cid slot) = slot" and "ud_cid (tag_recv_ud cid) = cid"
    and "ud_op (tag_recv_ud cid) = OP_RECV"
proof -
  have c: "bit cid n = (n < 14 \<and> bit cid n)" for n
    using assms(1) by (metis bit_take_bit_iff take_bit_nat_eq_self_iff)
  have s: "bit slot n = (n < 47 \<and> bit slot n)" for n
    using assms(2) by (metis bit_take_bit_iff take_bit_nat_eq_self_iff)
  have m: "(0x3FFF :: 64 word) = mask 14" "(3 :: 64 word) = mask 2" by (simp_all add: mask_eq_exp_minus_1)
  have "drop_bit 2 (tag_send_ud cid slot) AND 0x3FFF = (of_nat cid :: 64 word)"
    unfolding m tag_send_ud_def
    by (rule bit_word_eqI) (auto simp: bit_simps dest: c [THEN iffD1])
  then show "ud_cid (tag_send_ud cid slot) = cid"
    using assms(1) by (simp add: ud_cid_def unat_of_nat)
  show "ud_op (tag_send_ud cid slot) = OP_SEND"
    unfolding ud_op_def m tag_send_ud_def by (rule bit_word_eqI) (auto simp: bit_simps)
  have "drop_bit 16 (tag_send_ud cid slot) = (of_nat slot :: 64 word)"
    unfolding tag_send_ud_def
    by (rule bit_word_eqI) (auto simp: bit_simps dest: c [THEN iffD1] s [THEN iffD1])
  then show "ud_slot (tag_send_ud cid slot) = slot"
    using assms(2) by (simp add: ud_slot_def unat_of_nat)
  have "drop_bit 2 (tag_recv_ud cid) AND 0x3FFF = (of_nat cid :: 64 word)"
    unfolding m tag_recv_ud_def
    by (rule bit_word_eqI) (auto simp: bit_simps dest: c [THEN iffD1])
  then show "ud_cid (tag_recv_ud cid) = cid"
    using assms(1) by (simp add: ud_cid_def unat_of_nat)
  show "ud_op (tag_recv_ud cid) = OP_RECV"
    unfolding ud_op_def m tag_recv_ud_def by (rule bit_word_eqI) (auto simp: bit_simps)
qed

subsection \<open>The send pool\<close>

definition all_slots :: "nat list" where
  "all_slots = [0..<SEND_POOL_SIZE]"

definition free_slots :: "send_pool \<Rightarrow> nat list" where
  "free_slots p = take (g_free_top p) (g_free_stack p)"

text \<open>The slots on the stack and those in use are together all slots, each once.\<close>

definition pool_inv :: "send_pool \<Rightarrow> nat list \<Rightarrow> bool" where
  "pool_inv p used \<longleftrightarrow>
     length (g_free_stack p) = SEND_POOL_SIZE \<and> g_free_top p \<le> SEND_POOL_SIZE \<and>
     mset (free_slots p) + mset used = mset all_slots"

lemma length_all_slots: "length all_slots = SEND_POOL_SIZE" "distinct all_slots" "set all_slots = {..<SEND_POOL_SIZE}"
  by (simp_all only: all_slots_def length_upt distinct_upt set_upt atLeast0LessThan minus_nat.diff_0)

lemma pool_inv_init: "pool_inv pool_init []"
  unfolding pool_inv_def free_slots_def
  by (simp only: pool_init_def send_pool.simps all_slots_def [symmetric] length_all_slots mset.simps add_0_right)
    (simp add: length_all_slots)

lemma pool_inv_distinct:
  assumes "pool_inv p used"
  shows "distinct (free_slots p @ used)" "set (free_slots p @ used) = {..<SEND_POOL_SIZE}"
    "length (free_slots p) + length used = SEND_POOL_SIZE"
proof -
  have m: "mset (free_slots p @ used) = mset all_slots" using assms by (simp add: pool_inv_def)
  show "distinct (free_slots p @ used)"
    using m length_all_slots(2) mset_eq_imp_distinct_iff by blast
  show "set (free_slots p @ used) = {..<SEND_POOL_SIZE}"
    using mset_eq_setD [OF m] length_all_slots(3) by simp
  show "length (free_slots p) + length used = SEND_POOL_SIZE"
    using mset_eq_length [OF m] length_all_slots(1) by simp
qed

lemma alloc_inv:
  assumes "pool_inv p used" and "alloc_send_slot p = (Some slot, p')"
  shows "pool_inv p' (slot # used)" "slot \<notin> set used"
proof -
  obtain k where k: "g_free_top p = Suc k" "slot = g_free_stack p ! k" "p' = p\<lparr>g_free_top := k\<rparr>"
    using assms(2) by (cases "g_free_top p") (auto simp: alloc_send_slot_def)
  have "k < length (g_free_stack p)" using assms(1) k(1) by (simp add: pool_inv_def)
  then have "free_slots p = free_slots p' @ [slot]"
    by (simp add: free_slots_def k take_Suc_conv_app_nth)
  then show "pool_inv p' (slot # used)" using assms(1) k by (simp add: pool_inv_def)
  then show "slot \<notin> set used" using pool_inv_distinct(1) [of p' "slot # used"] by simp
qed

lemma alloc_fails: "fst (alloc_send_slot p) = None \<longleftrightarrow> g_free_top p = 0"
  "alloc_send_slot p = (None, p') \<Longrightarrow> p' = p"
  by (auto simp: alloc_send_slot_def split: if_splits)

lemma free_inv:
  assumes "pool_inv p (xs @ slot # ys)"
  shows "pool_inv (free_send_slot slot p) (xs @ ys)"
proof -
  have "length (free_slots p) + length (xs @ slot # ys) = SEND_POOL_SIZE"
    by (rule pool_inv_distinct(3) [OF assms])
  then have top: "g_free_top p < SEND_POOL_SIZE" and len: "length (g_free_stack p) = SEND_POOL_SIZE"
    using assms by (auto simp: pool_inv_def free_slots_def min_def split: if_splits)
  then have "free_slots (free_send_slot slot p) = free_slots p @ [slot]"
    by (simp add: free_slots_def free_send_slot_def take_Suc_conv_app_nth)
  then show ?thesis
    using assms top len by (simp add: pool_inv_def free_send_slot_def)
qed

subsection \<open>The ring's invariant\<close>

definition sqe_slots :: "sqe \<Rightarrow> nat list" where
  "sqe_slots q = (case q of Sqe_send ud slot n \<Rightarrow> [slot] | Sqe_recv ud cid off cap \<Rightarrow> [])"

definition in_use :: "sqe list \<Rightarrow> nat list" where
  "in_use qs = concat (map sqe_slots qs)"

definition sqe_ok :: "nat \<Rightarrow> sqe \<Rightarrow> bool" where
  "sqe_ok n q =
     (case q of
        Sqe_send ud slot len \<Rightarrow> (\<exists>cid < n. ud = tag_send_ud cid slot)
      | Sqe_recv ud cid off cap \<Rightarrow> cid < n \<and> ud = tag_recv_ud cid \<and> off + cap \<le> RECV_BUF_SIZE)"

lemma sqe_ok_simps [simp]:
  "sqe_ok n (Sqe_send ud slot len) \<longleftrightarrow> (\<exists>cid < n. ud = tag_send_ud cid slot)"
  "sqe_ok n (Sqe_recv ud cid off cap) \<longleftrightarrow> cid < n \<and> ud = tag_recv_ud cid \<and> off + cap \<le> RECV_BUF_SIZE"
  by (simp_all add: sqe_ok_def)

definition ring_inv :: "uring \<Rightarrow> bool" where
  "ring_inv u \<longleftrightarrow>
     pool_inv (ur_pool u) (in_use (ur_pending u)) \<and> length (ur_conns u) \<le> MAX_CONNS \<and>
     (\<forall>q \<in> set (ur_pending u). sqe_ok (length (ur_conns u)) q) \<and>
     (\<forall>c \<in> set (ur_conns u). length (uc_rbuf c) = RECV_BUF_SIZE)"

lemma in_use_simps [simp]:
  "in_use [] = []" "in_use (ps @ qs) = in_use ps @ in_use qs" "in_use (q # qs) = sqe_slots q @ in_use qs"
  by (simp_all add: in_use_def)

lemma sqe_slots_simps [simp]:
  "sqe_slots (Sqe_send ud slot n) = [slot]" "sqe_slots (Sqe_recv ud cid off cap) = []"
  by (simp_all add: sqe_slots_def)

lemma pool_inv_snoc: "pool_inv p (slot # used) = pool_inv p (used @ [slot])"
  by (simp add: pool_inv_def)

lemma submit_send_inv:
  assumes "ring_inv u" and "cid < length (ur_conns u)"
  shows "ring_inv (submit_send got reqlen cid u) \<and>
    length (ur_conns (submit_send got reqlen cid u)) = length (ur_conns u)"
proof (cases "alloc_send_slot (ur_pool u)")
  case (Pair s p)
  have inv: "pool_inv (ur_pool u) (in_use (ur_pending u))" using assms(1) by (simp add: ring_inv_def)
  show ?thesis
  proof (cases s)
    case None
    then show ?thesis
      using assms(1) Pair alloc_fails(2) [of "ur_pool u" p] by (simp add: submit_send_def ring_inv_def)
  next
    case (Some slot)
    then have a: "pool_inv p (slot # in_use (ur_pending u))"
      using alloc_inv(1) [OF inv] Pair by simp
    show ?thesis
    proof (cases got)
      case True
      then show ?thesis
        using assms Pair Some a by (auto simp: submit_send_def ring_inv_def pool_inv_snoc)
    next
      case False
      then show ?thesis
        using assms Pair Some free_inv [of p "[]" slot "in_use (ur_pending u)"] a
        by (simp add: submit_send_def ring_inv_def)
    qed
  qed
qed

lemma submit_recv_inv:
  assumes "ring_inv u" and "cid < length (ur_conns u)"
  shows "ring_inv (submit_recv got cid u) \<and> length (ur_conns (submit_recv got cid u)) = length (ur_conns u)"
proof -
  define off where "off = (if uc_rlen (ur_conns u ! cid) \<ge> RECV_BUF_SIZE then 0 else uc_rlen (ur_conns u ! cid))"
  have "off \<le> RECV_BUF_SIZE" by (simp add: off_def)
  moreover have "submit_recv got cid u = (if \<not> got then u else
      u\<lparr>ur_pending := ur_pending u @ [Sqe_recv (tag_recv_ud cid) cid off (RECV_BUF_SIZE - off)]\<rparr>)"
    by (simp add: submit_recv_def off_def Let_def)
  ultimately show ?thesis using assms by (auto simp: ring_inv_def)
qed

lemma update_conn_inv:
  assumes "ring_inv u" and "length (uc_rbuf c) = RECV_BUF_SIZE"
  shows "ring_inv (u\<lparr>ur_conns := (ur_conns u)[cid := c]\<rparr>)"
  using assms set_update_subset_insert [of "ur_conns u" cid c] by (auto simp: ring_inv_def)

lemma bump_inv:
  assumes "ring_inv u" and "cid < length (ur_conns u)"
  shows "ring_inv (bump_in_flight d cid u) \<and> length (ur_conns (bump_in_flight d cid u)) = length (ur_conns u)"
proof -
  have "length (uc_rbuf (ur_conns u ! cid)) = RECV_BUF_SIZE"
    using assms nth_mem [OF assms(2)] by (simp add: ring_inv_def)
  then show ?thesis using update_conn_inv [OF assms(1)] by (simp add: bump_in_flight_def)
qed

lemma counters_inv [simp]:
  "ring_inv (u\<lparr>ur_errors := n\<rparr>) = ring_inv u" "ring_inv (u\<lparr>ur_completed := n\<rparr>) = ring_inv u"
  by (simp_all add: ring_inv_def)

lemma send_requests_inv:
  assumes "ring_inv u" and "cid < length (ur_conns u)"
  shows "ring_inv (send_requests got reqlen n cid u) \<and>
    length (ur_conns (send_requests got reqlen n cid u)) = length (ur_conns u)"
  using assms
proof (induction n arbitrary: u)
  case (Suc n)
  let ?u = "bump_in_flight 1 cid (submit_send (got n) reqlen cid u)"
  have "ring_inv ?u \<and> length (ur_conns ?u) = length (ur_conns u)"
    using submit_send_inv [OF Suc.prems] bump_inv Suc.prems(2) by metis
  then show ?case using Suc.IH [of ?u] Suc.prems(2) by simp
qed simp

lemma drain_packets_length:
  assumes "drain_packets proto (n, buf, rlen, errors) = Some (n', buf', rlen', errors')"
    and "length buf = RECV_BUF_SIZE"
  shows "length buf' = RECV_BUF_SIZE"
  using assms
proof (induction proto "(n, buf, rlen, errors)" arbitrary: n buf rlen errors rule: drain_packets.induct)
  case (1 proto n buf rlen errors)
  let ?len = "unat (frame_length buf)"
  let ?buf = "take (rlen - (2 + ?len)) (drop (2 + ?len) buf) @ drop (rlen - (2 + ?len)) buf"
  show ?case
  proof (cases "rlen < 2 \<or> ?len < 1 \<or> ?len > 64 \<or> rlen < 2 + ?len \<or> RECV_BUF_SIZE < rlen")
    case True
    then show ?thesis
      using 1(2,3) by (auto simp: drain_packets.simps [of proto n buf rlen errors] Let_def split: if_splits)
  next
    case False
    then have "length ?buf = RECV_BUF_SIZE" using 1(3) by (simp add: min_def) arith
    moreover have "drain_packets proto (if buf ! 2 = proto then n + 1 else n, ?buf, rlen - (2 + ?len),
        if buf ! 2 = proto then errors else errors + 1) = Some (n', buf', rlen', errors')"
      using 1(2) False by (simp add: drain_packets.simps [of proto n buf rlen errors] Let_def)
    ultimately show ?thesis using 1(1) [OF _ refl _ _ _ refl refl refl] False by auto
  qed
qed

lemma recv_cqe_inv:
  assumes "ring_inv u" and "cid < length (ur_conns u)"
    and "on_cqe got reqlen (tag_recv_ud cid) res u = Some u'"
  shows "ring_inv u' \<and> length (ur_conns u') = length (ur_conns u)"
proof -
  have cid: "cid < 2 ^ 14" using assms(1,2) by (simp add: ring_inv_def)
  have ud: "ud_cid (tag_recv_ud cid) = cid" "ud_op (tag_recv_ud cid) = OP_RECV"
    using tag_recovers(4,5) [OF cid, of 0] by simp_all
  show ?thesis
  proof (cases "res \<le> 0")
    case True
    then show ?thesis
      using assms ud submit_recv_inv [of "u\<lparr>ur_errors := ur_errors u + 1\<rparr>" cid "got 0"]
      by (auto simp: on_cqe_def Let_def)
  next
    case False
    let ?c = "ur_conns u ! cid"
    obtain n buf rlen errors where d: "drain_packets (uc_proto ?c) (0, uc_rbuf ?c, uc_rlen ?c + nat res, ur_errors u) =
        Some (n, buf, rlen, errors)"
      and u': "u' = submit_recv (got 0) cid
        (let u = u\<lparr>ur_conns := (ur_conns u)[cid := ?c\<lparr>uc_rbuf := buf, uc_rlen := rlen,
                     uc_completed := uc_completed ?c + of_nat n\<rparr>], ur_errors := errors\<rparr>
         in if n > 0 then send_requests (\<lambda>k. got (Suc k)) reqlen n cid
                 (bump_in_flight (- int n) cid (u\<lparr>ur_completed := ur_completed u + n\<rparr>)) else u)"
      using assms(3) False ud by (auto simp: on_cqe_def Let_def split: bind_splits)
    have "length (uc_rbuf ?c) = RECV_BUF_SIZE" using assms(1,2) nth_mem by (fastforce simp: ring_inv_def)
    from drain_packets_length [OF d this] have len: "length buf = RECV_BUF_SIZE" .
    let ?u1 = "u\<lparr>ur_conns := (ur_conns u)[cid := ?c\<lparr>uc_rbuf := buf, uc_rlen := rlen,
                     uc_completed := uc_completed ?c + of_nat n\<rparr>]\<rparr>"
    have u1: "ring_inv ?u1" by (rule update_conn_inv [OF assms(1)]) (simp add: len)
    let ?u2 = "bump_in_flight (- int n) cid (?u1\<lparr>ur_errors := errors, ur_completed := ur_completed u + n\<rparr>)"
    have u2: "ring_inv ?u2 \<and> length (ur_conns ?u2) = length (ur_conns u)"
      using bump_inv [of "?u1\<lparr>ur_errors := errors, ur_completed := ur_completed u + n\<rparr>" cid "- int n"] u1 assms(2)
      by simp
    let ?u3 = "send_requests (\<lambda>k. got (Suc k)) reqlen n cid ?u2"
    have u3: "ring_inv ?u3 \<and> length (ur_conns ?u3) = length (ur_conns u)"
      using send_requests_inv [of ?u2 cid "\<lambda>k. got (Suc k)" reqlen n] u2 assms(2) by simp
    have "u' = submit_recv (got 0) cid (if n > 0 then ?u3 else ?u1\<lparr>ur_errors := errors\<rparr>)"
      using u' by (simp add: Let_def)
    then show ?thesis
      using submit_recv_inv [of "if n > 0 then ?u3 else ?u1\<lparr>ur_errors := errors\<rparr>" cid "got 0"] u1 u3 assms(2)
      by (cases "n > 0") simp_all
  qed
qed

lemma complete_inv:
  assumes "ring_inv u" and "complete got reqlen c u = Some u'"
  shows "ring_inv u'"
proof -
  obtain i res bytes where c: "c = Cq i res bytes" by (cases c)
  show ?thesis
  proof (cases "length (ur_pending u) \<le> i")
    case True
    then show ?thesis using assms by (simp add: complete_def c)
  next
    case False
    let ?q = "ur_pending u ! i" and ?rest = "take i (ur_pending u) @ drop (Suc i) (ur_pending u)"
    let ?u = "u\<lparr>ur_pending := ?rest\<rparr>"
    have split: "ur_pending u = take i (ur_pending u) @ ?q # drop (Suc i) (ur_pending u)"
      using False by (simp add: id_take_nth_drop)
    have ok: "sqe_ok (length (ur_conns u)) ?q" using assms(1) False by (simp add: ring_inv_def)
    have rest: "\<forall>q \<in> set ?rest. sqe_ok (length (ur_conns u)) q"
      using assms(1) by (auto simp: ring_inv_def dest: in_set_takeD in_set_dropD)
    have pool: "pool_inv (ur_pool u) (in_use (take i (ur_pending u)) @ sqe_slots ?q @ in_use (drop (Suc i) (ur_pending u)))"
      using assms(1) split by (metis in_use_simps(2,3) ring_inv_def)
    show ?thesis
    proof (cases ?q)
      case (Sqe_send ud slot n)
      then obtain cid where cid: "cid < length (ur_conns u)" "ud = tag_send_ud cid slot" using ok by auto
      have "slot < SEND_POOL_SIZE" using pool_inv_distinct(2) [OF pool] Sqe_send by auto
      then have "slot < 2 ^ 47" "cid < 2 ^ 14" using cid(1) assms(1) by (auto simp: ring_inv_def)
      then have ud: "ud_op ud = OP_SEND" "ud_slot ud = slot" using tag_recovers(2,3) cid(2) by auto
      have "pool_inv (free_send_slot slot (ur_pool u)) (in_use ?rest)"
        using free_inv [of "ur_pool u" "in_use (take i (ur_pending u))" slot] pool Sqe_send by simp
      then have "ring_inv (?u\<lparr>ur_pool := free_send_slot slot (ur_pool u)\<rparr>)"
        using assms(1) rest by (simp add: ring_inv_def)
      then show ?thesis using assms(2) False Sqe_send ud by (auto simp: complete_def c on_cqe_def Let_def)
    next
      case (Sqe_recv ud cid off cap)
      then have cid: "cid < length (ur_conns u)" "ud = tag_recv_ud cid" using ok by auto
      have inv: "ring_inv ?u" using assms(1) rest pool Sqe_recv by (simp add: ring_inv_def)
      consider "res \<le> 0" | "res > 0" "length bytes = nat res" "length bytes \<le> cap" | "u' = ?u"
        using assms(2) False Sqe_recv by (auto simp: complete_def c Let_def split: if_splits)
      then show ?thesis
      proof cases
        case 1
        then show ?thesis
          using recv_cqe_inv [OF inv, of cid got reqlen res u'] assms(2) False Sqe_recv cid
          by (simp add: complete_def c)
      next
        case 2
        then obtain u1 where u1: "store_received cid off bytes ?u = Some u1" "on_cqe got reqlen ud res u1 = Some u'"
          using assms(2) False Sqe_recv by (auto simp: complete_def c Let_def split: bind_splits)
        then obtain buf where buf: "write_at off bytes (uc_rbuf (ur_conns u ! cid)) = Some buf"
          "u1 = ?u\<lparr>ur_conns := (ur_conns u)[cid := (ur_conns u ! cid)\<lparr>uc_rbuf := buf\<rparr>]\<rparr>"
          by (auto simp: store_received_def)
        have "length buf = RECV_BUF_SIZE"
          using write_at_length [OF buf(1)] assms(1) cid(1) nth_mem by (fastforce simp: ring_inv_def)
        then have "ring_inv u1"
          using update_conn_inv [OF inv, of "(ur_conns u ! cid)\<lparr>uc_rbuf := buf\<rparr>" cid] buf(2) by simp
        then show ?thesis using recv_cqe_inv [of u1 cid got reqlen res u'] u1(2) cid buf(2) by simp
      next
        case 3
        then show ?thesis using inv by simp
      qed
    qed
  qed
qed

lemma seed_inv:
  assumes "conns \<le> MAX_CONNS"
  shows "ring_inv (seed got reqlen conns depth proto)"
proof -
  have fresh: "ring_inv (fresh_uring conns proto)"
    using assms pool_inv_init by (auto simp: ring_inv_def fresh_uring_def fresh_conn_def)
  have "ring_inv (fold (seed_conn got reqlen depth) cs u) \<and> length (ur_conns (fold (seed_conn got reqlen depth) cs u)) = conns"
    if "ring_inv u" "length (ur_conns u) = conns" "\<forall>c \<in> set cs. c < conns" for cs u
    using that
  proof (induction cs arbitrary: u)
    case (Cons c cs)
    have "ring_inv (seed_conn got reqlen depth c u) \<and> length (ur_conns (seed_conn got reqlen depth c u)) = conns"
      using send_requests_inv [of u c "\<lambda>k. got c (Suc k)" reqlen depth] submit_recv_inv Cons.prems
      by (simp add: seed_conn_def)
    then show ?case using Cons by simp
  qed simp
  from this [OF fresh, of "[0..<conns]"] show ?thesis by (simp add: seed_def fresh_uring_def)
qed

subsection \<open>Replies\<close>

text \<open>The replies as packets of the framing specification: what counts of a packet is its tag.\<close>

definition client_packet :: "byte list \<Rightarrow> byte parsed" where
  "client_packet xs =
     (if length xs < 2 then Need_more
      else let len = unat (frame_length xs) in
        if len < 1 \<or> len > 64 then Malformed
        else if length xs < 2 + len then Need_more
        else Packet (2 + len) (xs ! 2))"

interpretation client_parser: incremental_parser client_packet
proof
  fix xs n r
  assume "client_packet xs = Packet n r"
  then show "0 < n \<and> n \<le> length xs" by (auto simp: client_packet_def Let_def split: if_splits)
next
  fix xs n r ys
  assume p: "client_packet xs = Packet n r"
  then have "2 + unat (frame_length xs) \<le> length xs" "1 \<le> unat (frame_length xs)" "2 \<le> length xs"
    by (auto simp: client_packet_def Let_def split: if_splits)
  with p show "client_packet (xs @ ys) = Packet n r"
    by (auto simp: client_packet_def Let_def frame_length_append nth_append split: if_splits)
next
  fix xs ys
  assume p: "client_packet xs = Malformed"
  then have "2 \<le> length xs" by (auto simp: client_packet_def split: if_splits)
  with p show "client_packet (xs @ ys) = Malformed"
    by (auto simp: client_packet_def Let_def frame_length_append split: if_splits)
qed

lemma frame_length_take_buf: "2 \<le> r \<Longrightarrow> frame_length (take r xs) = frame_length xs"
  by (simp add: frame_length_def)

text \<open>The loop over the buffer is the drain of its filled part.\<close>

lemma drain_packets_refines:
  assumes "length buf = RECV_BUF_SIZE" and "rlen \<le> RECV_BUF_SIZE"
    and "drain client_packet (take rlen buf) = (tags, rest, bad)"
  shows "\<exists>buf'. drain_packets proto (n, buf, rlen, errors) =
      Some (n + length (filter (\<lambda>g. g = proto) tags), buf', length rest,
            errors + length (filter (\<lambda>g. g \<noteq> proto) tags) + (if bad then 1 else 0)) \<and>
    length buf' = RECV_BUF_SIZE \<and> take (length rest) buf' = rest"
  using assms
proof (induction rlen arbitrary: n buf errors tags rule: less_induct)
  case (less rlen)
  let ?xs = "take rlen buf" and ?len = "unat (frame_length buf)"
  have len: "length ?xs = rlen" using less.prems by simp
  have fl: "2 \<le> rlen \<Longrightarrow> frame_length ?xs = frame_length buf" by (rule frame_length_take_buf)
  show ?case
  proof (cases "client_packet ?xs")
    case Need_more
    then have "rlen < 2 \<or> (\<not> (?len < 1 \<or> ?len > 64) \<and> rlen < 2 + ?len)"
      using len fl by (auto simp: client_packet_def Let_def split: if_splits)
    then show ?thesis
      using less.prems client_parser.drain_need [OF Need_more] len
      by (auto simp: drain_packets.simps [of proto n buf rlen errors] Let_def)
  next
    case Malformed
    then have "\<not> rlen < 2 \<and> (?len < 1 \<or> ?len > 64)"
      using len fl by (auto simp: client_packet_def Let_def split: if_splits)
    then show ?thesis
      using less.prems client_parser.drain_malformed [OF Malformed] len
      by (auto simp: drain_packets.simps [of proto n buf rlen errors] Let_def)
  next
    case (Packet k g)
    then have k: "k = 2 + ?len" "\<not> rlen < 2" "\<not> (?len < 1 \<or> ?len > 64)" "k \<le> rlen" "g = buf ! 2"
      using len fl by (auto simp: client_packet_def Let_def split: if_splits)
    let ?buf = "take (rlen - k) (drop k buf) @ drop (rlen - k) buf"
    obtain tags' where tags': "tags = g # tags'" "drain client_packet (drop k ?xs) = (tags', rest, bad)"
      using less.prems(3) client_parser.drain_packet [OF Packet] by (auto split: prod.splits)
    have buf: "length ?buf = RECV_BUF_SIZE" using less.prems(1,2) k(4) by (simp add: min_def) arith
    have "take (rlen - k) ?buf = drop k ?xs" using less.prems(1,2) k(4) by (simp add: drop_take)
    then have "drain client_packet (take (rlen - k) ?buf) = (tags', rest, bad)" using tags'(2) by simp
    have lt: "rlen - k < rlen" "rlen - k \<le> RECV_BUF_SIZE" using k(1,2) less.prems(2) by auto
    from less.IH [OF lt(1) buf lt(2) \<open>drain client_packet (take (rlen - k) ?buf) = (tags', rest, bad)\<close>, of "if g = proto then n + 1 else n" "if g = proto then errors else errors + 1"]
    obtain buf' where "drain_packets proto (if g = proto then n + 1 else n, ?buf, rlen - k,
        if g = proto then errors else errors + 1) =
      Some ((if g = proto then n + 1 else n) + length (filter (\<lambda>g. g = proto) tags'), buf', length rest,
        (if g = proto then errors else errors + 1) + length (filter (\<lambda>g. g \<noteq> proto) tags') + (if bad then 1 else 0))"
      "length buf' = RECV_BUF_SIZE" "take (length rest) buf' = rest"
      by blast
    moreover have "drain_packets proto (n, buf, rlen, errors) =
        drain_packets proto (if g = proto then n + 1 else n, ?buf, rlen - k, if g = proto then errors else errors + 1)"
      using k less.prems(2) by (simp add: drain_packets.simps [of proto n buf rlen errors] Let_def)
    ultimately show ?thesis by (auto simp: tags'(1))
  qed
qed

subsection \<open>Filling the pool\<close>

lemma bump_fields [simp]:
  "ur_pool (bump_in_flight d cid u) = ur_pool u" "ur_pending (bump_in_flight d cid u) = ur_pending u"
  by (simp_all add: bump_in_flight_def)

lemma submit_send_fields:
  "ur_conns (submit_send got reqlen cid u) = ur_conns u"
  "g_free_top (ur_pool (submit_send True reqlen cid u)) = g_free_top (ur_pool u) - 1"
  by (auto simp: submit_send_def alloc_send_slot_def)

lemma send_requests_top:
  "g_free_top (ur_pool (send_requests (\<lambda>_. True) reqlen n cid u)) = g_free_top (ur_pool u) - n"
  by (induction n arbitrary: u) (simp_all add: submit_send_fields)

lemma send_requests_in_flight:
  "cid < length (ur_conns u) \<Longrightarrow>
     (\<lambda>u. (uc_in_flight (ur_conns u ! j), length (ur_conns u))) (send_requests got reqlen n cid u) =
       (uc_in_flight (ur_conns u ! j) + (if j = cid then int n else 0), length (ur_conns u))"
  by (induction n arbitrary: u) (auto simp: bump_in_flight_def submit_send_fields nth_list_update)

lemma submit_recv_fields [simp]:
  "ur_pool (submit_recv got cid u) = ur_pool u" "ur_conns (submit_recv got cid u) = ur_conns u"
  by (simp_all add: submit_recv_def Let_def)

lemma seed_run:
  assumes "\<forall>c \<in> set cs. c < length (ur_conns u)" and "distinct cs"
  shows "(\<lambda>v. g_free_top (ur_pool v) = g_free_top (ur_pool u) - length cs * depth \<and>
      length (ur_conns v) = length (ur_conns u) \<and>
      (\<forall>j. uc_in_flight (ur_conns v ! j) = uc_in_flight (ur_conns u ! j) + (if j \<in> set cs then int depth else 0)))
    (fold (seed_conn (\<lambda>_ _. True) reqlen depth) cs u)"
  using assms
proof (induction cs arbitrary: u)
  case (Cons c cs)
  let ?u = "seed_conn (\<lambda>_ _. True) reqlen depth c u"
  have "c < length (ur_conns u)" using Cons.prems by simp
  note f = send_requests_in_flight [OF this, where got = "\<lambda>_. True" and reqlen = reqlen and n = depth]
  have u: "g_free_top (ur_pool ?u) = g_free_top (ur_pool u) - depth" "length (ur_conns ?u) = length (ur_conns u)"
    "uc_in_flight (ur_conns ?u ! j) = uc_in_flight (ur_conns u ! j) + (if j = c then int depth else 0)" for j
    using f [where j = j] by (simp_all add: seed_conn_def send_requests_top)
  have "\<forall>c \<in> set cs. c < length (ur_conns ?u)" using Cons.prems u(2) by simp
  from Cons.IH [OF this] Cons.prems(2) show ?case by (auto simp: u)
qed simp

subsection \<open>Properties\<close>

text \<open>
  C13. In every state the program can reach, after seeding and any sequence of completions, the send
  buffers of the requests in flight are pairwise different and none of them is on the free stack; no
  slot is ever lost. So a buffer is never written while the kernel may still read it.
\<close>

theorem send_slots_never_shared:
  assumes "conns \<le> MAX_CONNS"
    and "run_all (\<lambda>(got, cq). complete got reqlen cq) run (seed seed_got reqlen conns depth proto) = Some u"
  shows "distinct (in_use (ur_pending u) @ free_slots (ur_pool u)) \<and>
    length (in_use (ur_pending u)) + length (free_slots (ur_pool u)) = SEND_POOL_SIZE \<and>
    set (in_use (ur_pending u)) \<subseteq> {..<SEND_POOL_SIZE}"
proof -
  have "ring_inv u"
    using run_all_invariant [where P = ring_inv and f = "\<lambda>(got, cq). complete got reqlen cq" and xs = run,
        OF _ seed_inv [OF assms(1), of seed_got reqlen depth proto] assms(2)] complete_inv by fastforce
  then have inv: "pool_inv (ur_pool u) (in_use (ur_pending u))" by (simp add: ring_inv_def)
  from pool_inv_distinct [OF inv] show ?thesis by auto
qed

lemma first_slot: "alloc_send_slot pool_init = (Some 8191, pool_init\<lparr>g_free_top := 8191\<rparr>)"
  by (simp add: alloc_send_slot_def pool_init_def del: upt_rec_numeral)

lemma send_slots_never_shared_witness:
  "\<exists>u. run_all (\<lambda>(got, cq). complete got 8 cq) [((\<lambda>_. True), Cq 0 8 [])]
      (seed (\<lambda>_ _. True) 8 1 1 BINARY_PKT_RAW) = Some u \<and> ur_pending u = [Sqe_recv (tag_recv_ud 0) 0 0 4096] \<and>
    distinct (in_use (ur_pending u) @ free_slots (ur_pool u))"
proof -
  define u0 where "u0 = seed (\<lambda>_ _. True) 8 1 1 BINARY_PKT_RAW"
  have p: "ur_pending u0 = [Sqe_send (tag_send_ud 0 8191) 8191 8, Sqe_recv (tag_recv_ud 0) 0 0 4096]"
    by (simp add: u0_def seed_def seed_conn_def submit_recv_def submit_send_def bump_in_flight_def first_slot
        fresh_uring_def fresh_conn_def Let_def)
  obtain u where u: "complete (\<lambda>_. True) 8 (Cq 0 8 []) u0 = Some u" "ur_pending u = [Sqe_recv (tag_recv_ud 0) 0 0 4096]"
    using tag_recovers(2,3) [of 0 8191] by (simp add: complete_def p on_cqe_def Let_def)
  then have "run_all (\<lambda>(got, cq). complete got 8 cq) [((\<lambda>_. True), Cq 0 8 [])] u0 = Some u" by simp
  with send_slots_never_shared [of 1 8 "[((\<lambda>_. True), Cq 0 8 [])]" "\<lambda>_ _. True" 1 BINARY_PKT_RAW u] u(2)
  show ?thesis by (auto simp: u0_def)
qed

text \<open>
  C25. What is taken off a connection's buffer is what the framing specification drains: every complete
  reply is counted, as completed when its tag is the protocol's and as an error otherwise; a bad length
  is one more error; the unfinished rest stays at the front of the buffer.
\<close>

theorem uring_drain_counts_replies:
  assumes "length buf = RECV_BUF_SIZE" and "rlen \<le> RECV_BUF_SIZE"
    and "drain client_packet (take rlen buf) = (tags, rest, bad)"
  shows "\<exists>buf'. drain_packets proto (n, buf, rlen, errors) =
      Some (n + length (filter (\<lambda>g. g = proto) tags), buf', length rest,
            errors + length (filter (\<lambda>g. g \<noteq> proto) tags) + (if bad then 1 else 0)) \<and>
    take (length rest) buf' = rest"
  using drain_packets_refines [OF assms] by blast

definition ex_rbuf :: "byte list" where
  "ex_rbuf = [0, 6, 1, 0, 2, 0, 3, 199, 0, 1, 7, 0] @ replicate 4084 0"

lemma uring_drain_counts_replies_witness:
  "\<exists>buf'. drain_packets BINARY_PKT_RAW (0, ex_rbuf, 12, 0) = Some (1, buf', 1, 1) \<and> take 1 buf' = [0]"
proof -
  have d: "drain client_packet (take 12 ex_rbuf) = ([1, 7], [0], False)"
    by (simp add: ex_rbuf_def drain.simps client_packet_def frame_length_def)
  have l: "length ex_rbuf = RECV_BUF_SIZE" by (simp add: ex_rbuf_def)
  show ?thesis using uring_drain_counts_replies [OF l _ d, of BINARY_PKT_RAW 0 0] by simp
qed

text \<open>
  Seeding cannot submit more requests than the pool has slots, but counts all of them as in flight:
  of the \<open>conns * depth\<close> requests exactly the first 8192 are submitted, while every connection believes to
  have \<open>depth\<close> in flight. The requests that found no slot are never retried.
\<close>

theorem seeding_overcounts_in_flight:
  assumes "conns \<le> MAX_CONNS"
  shows "length (in_use (ur_pending (seed (\<lambda>_ _. True) reqlen conns depth proto))) =
      min (conns * depth) SEND_POOL_SIZE \<and>
    map uc_in_flight (ur_conns (seed (\<lambda>_ _. True) reqlen conns depth proto)) = replicate conns (int depth)"
proof -
  let ?u = "seed (\<lambda>_ _. True) reqlen conns depth proto" and ?f = "fresh_uring conns proto"
  have run: "g_free_top (ur_pool ?u) = g_free_top (ur_pool ?f) - conns * depth"
    "length (ur_conns ?u) = conns"
    "uc_in_flight (ur_conns ?u ! j) = uc_in_flight (ur_conns ?f ! j) + (if j < conns then int depth else 0)" for j
    using seed_run [of "[0..<conns]" ?f reqlen depth] by (simp_all add: seed_def fresh_uring_def)
  have top: "g_free_top (ur_pool ?f) = SEND_POOL_SIZE" by (simp only: fresh_uring_def pool_init_def uring.simps send_pool.simps)
  have inv: "pool_inv (ur_pool ?u) (in_use (ur_pending ?u))"
    using seed_inv [OF assms, of "\<lambda>_ _. True" reqlen depth proto] by (simp add: ring_inv_def)
  have "length (free_slots (ur_pool ?u)) = g_free_top (ur_pool ?u)"
    using inv by (auto simp: pool_inv_def free_slots_def min_def)
  then have "g_free_top (ur_pool ?u) + length (in_use (ur_pending ?u)) = SEND_POOL_SIZE"
    using pool_inv_distinct(3) [OF inv] by simp
  then have "length (in_use (ur_pending ?u)) = min (conns * depth) SEND_POOL_SIZE"
    using run(1) top by simp
  moreover have "map uc_in_flight (ur_conns ?u) = replicate conns (int depth)"
    using run(2,3) by (auto intro!: nth_equalityI simp: fresh_uring_def fresh_conn_def)
  ultimately show ?thesis by simp
qed

lemma seeding_overcounts_in_flight_witness:
  "length (in_use (ur_pending (seed (\<lambda>_ _. True) 8 3 5000 BINARY_PKT_RAW))) = 8192 \<and>
    map uc_in_flight (ur_conns (seed (\<lambda>_ _. True) 8 3 5000 BINARY_PKT_RAW)) = [5000, 5000, 5000]"
  using seeding_overcounts_in_flight [of 3 8 5000 BINARY_PKT_RAW] by (simp add: numeral_3_eq_3)

text \<open>
  A completion's tag identifies the operation, the connection and the send buffer it was made for, for
  every connection and every slot the program can use.
\<close>

theorem tags_identify_requests:
  assumes "cid < MAX_CONNS" and "slot < SEND_POOL_SIZE"
  shows "ud_op (tag_send_ud cid slot) = OP_SEND \<and> ud_cid (tag_send_ud cid slot) = cid \<and>
    ud_slot (tag_send_ud cid slot) = slot \<and> ud_op (tag_recv_ud cid) = OP_RECV \<and> ud_cid (tag_recv_ud cid) = cid"
  using tag_recovers [of cid slot] assms by simp

lemma tags_identify_requests_witness:
  "ud_op (tag_send_ud 4095 8191) = OP_SEND \<and> ud_cid (tag_send_ud 4095 8191) = 4095 \<and>
    ud_slot (tag_send_ud 4095 8191) = 8191"
  using tags_identify_requests [of 4095 8191] by simp

text \<open>
  A reply with a bad length freezes its connection: the bytes stay at the front of the buffer, every
  later receive is one more error and no reply is counted again. When the buffer is full the next
  receive goes to its start with the fill still at its end: a well-formed reply there is shifted from
  outside the array.
\<close>

theorem bad_length_freezes_connection:
  assumes "length buf = RECV_BUF_SIZE" and "client_packet (take rlen buf) = Malformed"
    and "rlen + length late \<le> RECV_BUF_SIZE" and "write_at rlen late buf = Some buf1"
    and "write_at 0 reply buf = Some buf2" and "client_packet reply = Packet (length reply) g"
  shows "drain_packets proto (n, buf1, rlen + length late, errors) =
      Some (n, buf1, rlen + length late, errors + 1) \<and>
    client_packet (take (rlen + length late) buf1) = Malformed \<and>
    drain_packets proto (n, buf2, RECV_BUF_SIZE + length reply, errors) = None"
proof -
  have t1: "take (rlen + length late) buf1 = take rlen buf @ late"
    using write_at_take [OF assms(4)] .
  then have bad: "client_packet (take (rlen + length late) buf1) = Malformed"
    using client_parser.malformed_stable [OF assms(2)] by simp
  have l1: "length buf1 = RECV_BUF_SIZE" using write_at_length [OF assms(4)] assms(1) by simp
  obtain b where b: "drain_packets proto (n, buf1, rlen + length late, errors) =
      Some (n, b, rlen + length late, errors + 1)"
    using drain_packets_refines [OF l1 assms(3) client_parser.drain_malformed [OF bad], of proto n errors]
      l1 assms(3) by auto
  have b1: "b = buf1"
    using b bad l1 assms(3)
    by (auto simp: drain_packets.simps [of proto n buf1] client_packet_def Let_def frame_length_take_buf
        split: if_splits)
  have r: "2 \<le> length reply" "1 \<le> unat (frame_length reply)" "unat (frame_length reply) \<le> 64"
    "length reply = 2 + unat (frame_length reply)"
    using assms(6) by (auto simp: client_packet_def Let_def split: if_splits)
  have "take (length reply) buf2 = reply" using write_at_take [OF assms(5)] by simp
  then have "frame_length buf2 = frame_length reply" using frame_length_take_buf [OF r(1), of buf2] by simp
  then have "drain_packets proto (n, buf2, RECV_BUF_SIZE + length reply, errors) = None"
    using r by (simp add: drain_packets.simps [of proto n buf2] Let_def)
  with b b1 bad show ?thesis by simp
qed

lemma bad_length_freezes_connection_witness:
  "\<exists>buf1. drain_packets BINARY_PKT_RAW (0, buf1, 4, 0) = Some (0, buf1, 4, 1) \<and>
    client_packet (take 4 buf1) = Malformed"
proof -
  let ?buf = "replicate RECV_BUF_SIZE (0 :: byte)" and ?reply = "[0, 1, 1] :: byte list"
  have b: "length ?buf = RECV_BUF_SIZE" "client_packet (take 2 ?buf) = Malformed"
    by (simp_all add: client_packet_def frame_length_def)
  obtain buf1 where b1: "write_at 2 [0, 0] ?buf = Some buf1" by (simp add: write_at_def)
  obtain buf2 where b2: "write_at 0 ?reply ?buf = Some buf2" by (simp add: write_at_def)
  have r: "client_packet ?reply = Packet (length ?reply) 1" by (simp add: client_packet_def frame_length_def)
  show ?thesis
    using bad_length_freezes_connection [OF b _ b1 b2 r, of BINARY_PKT_RAW 0 0] by auto
qed

end
