(* ===== verification/Socket.thy ===== *)
theory Socket
  imports Prelude
begin

text \<open>
  Component \<open>src/src/platform/socket.c\<close>: socket options. The kernel is an argument: \<open>fails\<close> tells
  which \<open>setsockopt\<close> calls return -1; the calls made are recorded in order.
\<close>

unbundle bit_operations_syntax

datatype socket_error =
  SOCKET_OK
| SOCKET_ERROR_SETSOCKOPT
| SOCKET_ERROR_INVALID_PARAM
| SOCKET_ERROR_BPF

abbreviation (input) SOCKET_OPT_BUSY_POLL :: u32 where "SOCKET_OPT_BUSY_POLL \<equiv> 1"
abbreviation (input) SOCKET_OPT_NODELAY :: u32 where "SOCKET_OPT_NODELAY \<equiv> 2"
abbreviation (input) SOCKET_OPT_KEEPALIVE :: u32 where "SOCKET_OPT_KEEPALIVE \<equiv> 4"
abbreviation (input) SOCKET_OPT_REUSEPORT_CBPF :: u32 where "SOCKET_OPT_REUSEPORT_CBPF \<equiv> 8"

record socket_config =
  sc_options :: u32
  busy_poll_value :: int
  keepalive_enabled :: bool

text \<open>Classic BPF instructions, with the operation codes of \<open>linux/filter.h\<close>.\<close>

record sock_filter =
  sf_code :: u16
  sf_jt :: byte
  sf_jf :: byte
  sf_k :: u32

definition cpu_filter :: "sock_filter list" where
  "cpu_filter =
     [\<lparr>sf_code = 0x00 OR 0x00 OR 0x20, sf_jt = 0, sf_jf = 0, sf_k = word_of_int (- 0x1000 + 36)\<rparr>,
      \<lparr>sf_code = 0x06 OR 0x10, sf_jt = 0, sf_jf = 0, sf_k = 0\<rparr>]"

datatype sockopt =
  So_Busy_Poll int
| Tcp_Nodelay int
| So_Keepalive int
| So_Attach_Reuseport_Cbpf "sock_filter list"

text \<open>The calls so far; an operation adds the call it makes.\<close>

type_synonym 'a sockcall = "(int \<times> sockopt) list \<Rightarrow> 'a \<times> (int \<times> sockopt) list"

definition set_option_call ::
  "(int \<Rightarrow> sockopt \<Rightarrow> bool) \<Rightarrow> socket_error \<Rightarrow> int \<Rightarrow> sockopt \<Rightarrow> socket_error sockcall" where
  "set_option_call fails err fd opt calls =
     (if fails fd opt then err else SOCKET_OK, calls @ [(fd, opt)])"

definition socket_init :: socket_error where
  "socket_init = SOCKET_OK"

definition socket_enable_reuseport_cbpf ::
  "(int \<Rightarrow> sockopt \<Rightarrow> bool) \<Rightarrow> int \<Rightarrow> socket_error sockcall" where
  "socket_enable_reuseport_cbpf fails fd calls =
     (if fd < 0 then (SOCKET_ERROR_INVALID_PARAM, calls)
      else set_option_call fails SOCKET_ERROR_BPF fd (So_Attach_Reuseport_Cbpf cpu_filter) calls)"

definition socket_set_busy_poll ::
  "(int \<Rightarrow> sockopt \<Rightarrow> bool) \<Rightarrow> int \<Rightarrow> int \<Rightarrow> socket_error sockcall" where
  "socket_set_busy_poll fails fd timeout calls =
     (if fd < 0 then (SOCKET_ERROR_INVALID_PARAM, calls)
      else set_option_call fails SOCKET_ERROR_SETSOCKOPT fd (So_Busy_Poll timeout) calls)"

definition socket_set_tcp_nodelay ::
  "(int \<Rightarrow> sockopt \<Rightarrow> bool) \<Rightarrow> int \<Rightarrow> bool \<Rightarrow> socket_error sockcall" where
  "socket_set_tcp_nodelay fails fd enabled calls =
     (if fd < 0 then (SOCKET_ERROR_INVALID_PARAM, calls)
      else set_option_call fails SOCKET_ERROR_SETSOCKOPT fd (Tcp_Nodelay (if enabled then 1 else 0)) calls)"

definition socket_set_keepalive ::
  "(int \<Rightarrow> sockopt \<Rightarrow> bool) \<Rightarrow> int \<Rightarrow> bool \<Rightarrow> socket_error sockcall" where
  "socket_set_keepalive fails fd enabled calls =
     (if fd < 0 then (SOCKET_ERROR_INVALID_PARAM, calls)
      else set_option_call fails SOCKET_ERROR_SETSOCKOPT fd (So_Keepalive (if enabled then 1 else 0)) calls)"

text \<open>\<open>if (options & flag) { err = op; if (err != SOCKET_OK) result = err; }\<close>\<close>

definition apply_opt ::
  "u32 \<Rightarrow> u32 \<Rightarrow> socket_error sockcall \<Rightarrow> socket_error \<times> (int \<times> sockopt) list \<Rightarrow>
     socket_error \<times> (int \<times> sockopt) list" where
  "apply_opt options flag f rc =
     (case rc of (result, calls) \<Rightarrow>
      if options AND flag \<noteq> 0 then
        (case f calls of (err, calls) \<Rightarrow> (if err \<noteq> SOCKET_OK then err else result, calls))
      else (result, calls))"

definition socket_apply_optimizations ::
  "(int \<Rightarrow> sockopt \<Rightarrow> bool) \<Rightarrow> int \<Rightarrow> socket_config option \<Rightarrow> socket_error sockcall" where
  "socket_apply_optimizations fails fd config calls =
     (case config of
        None \<Rightarrow> (SOCKET_ERROR_INVALID_PARAM, calls)
      | Some c \<Rightarrow>
          if fd < 0 then (SOCKET_ERROR_INVALID_PARAM, calls)
          else
            apply_opt (sc_options c) SOCKET_OPT_REUSEPORT_CBPF (socket_enable_reuseport_cbpf fails fd)
            (apply_opt (sc_options c) SOCKET_OPT_KEEPALIVE (socket_set_keepalive fails fd (keepalive_enabled c))
            (apply_opt (sc_options c) SOCKET_OPT_NODELAY (socket_set_tcp_nodelay fails fd True)
            (apply_opt (sc_options c) SOCKET_OPT_BUSY_POLL (socket_set_busy_poll fails fd (busy_poll_value c))
            (SOCKET_OK, calls)))))"

subsection \<open>Specification\<close>

text \<open>The options a configuration asks for, in the order they are applied, with their error codes.\<close>

definition requested :: "socket_config \<Rightarrow> (sockopt \<times> socket_error) list" where
  "requested c =
     (if sc_options c AND SOCKET_OPT_BUSY_POLL \<noteq> 0
        then [(So_Busy_Poll (busy_poll_value c), SOCKET_ERROR_SETSOCKOPT)] else []) @
     (if sc_options c AND SOCKET_OPT_NODELAY \<noteq> 0 then [(Tcp_Nodelay 1, SOCKET_ERROR_SETSOCKOPT)] else []) @
     (if sc_options c AND SOCKET_OPT_KEEPALIVE \<noteq> 0
        then [(So_Keepalive (if keepalive_enabled c then 1 else 0), SOCKET_ERROR_SETSOCKOPT)] else []) @
     (if sc_options c AND SOCKET_OPT_REUSEPORT_CBPF \<noteq> 0
        then [(So_Attach_Reuseport_Cbpf cpu_filter, SOCKET_ERROR_BPF)] else [])"

definition last_error :: "(sockopt \<Rightarrow> bool) \<Rightarrow> (sockopt \<times> socket_error) list \<Rightarrow> socket_error" where
  "last_error bad reqs = foldl (\<lambda>r (opt, err). if bad opt then err else r) SOCKET_OK reqs"

text \<open>
  Applying the socket optimisations makes exactly the requested \<open>setsockopt\<close> calls, in order, whether
  or not earlier ones fail, and reports the last failure; it reports success exactly when all the
  requested calls succeeded.
\<close>

theorem optimizations_applied:
  assumes "0 \<le> fd"
  shows "socket_apply_optimizations fails fd (Some c) calls =
      (last_error (fails fd) (requested c), calls @ map (\<lambda>(opt, err). (fd, opt)) (requested c)) \<and>
    (last_error (fails fd) (requested c) = SOCKET_OK \<longleftrightarrow> list_all (\<lambda>(opt, err). \<not> fails fd opt) (requested c))"
  using assms
  by (auto simp: socket_apply_optimizations_def requested_def apply_opt_def last_error_def
      socket_enable_reuseport_cbpf_def socket_set_keepalive_def socket_set_tcp_nodelay_def
      socket_set_busy_poll_def set_option_call_def)

lemma optimizations_applied_witness:
  "socket_apply_optimizations (\<lambda>fd opt. opt = Tcp_Nodelay 1) 5
      (Some \<lparr>sc_options = 15, busy_poll_value = 50, keepalive_enabled = False\<rparr>) [] =
    (SOCKET_ERROR_SETSOCKOPT,
     [(5, So_Busy_Poll 50), (5, Tcp_Nodelay 1), (5, So_Keepalive 0), (5, So_Attach_Reuseport_Cbpf cpu_filter)])"
  using optimizations_applied [of 5 "\<lambda>fd opt. opt = Tcp_Nodelay 1"
      "\<lparr>sc_options = 15, busy_poll_value = 50, keepalive_enabled = False\<rparr>" "[]"]
  by (simp add: requested_def last_error_def)

end
