(* ===== verification/Signals.thy ===== *)
theory Signals
  imports Log
begin

text \<open>
  Component \<open>src/src/platform/signals.c\<close>: the signal manager. The process state holds the global pointer
  to the manager, the managers in memory (a freed one is absent), the disposition of every signal, the
  callbacks that were invoked, and the logger, which the handlers use.
\<close>

abbreviation (input) SIGHUP :: int where "SIGHUP \<equiv> 1"
abbreviation (input) SIGINT :: int where "SIGINT \<equiv> 2"
abbreviation (input) SIGUSR1 :: int where "SIGUSR1 \<equiv> 10"
abbreviation (input) SIGUSR2 :: int where "SIGUSR2 \<equiv> 12"
abbreviation (input) SIGPIPE :: int where "SIGPIPE \<equiv> 13"
abbreviation (input) SIGTERM :: int where "SIGTERM \<equiv> 15"

record signal_config =
  handle_sigterm :: bool
  handle_sigint :: bool
  handle_sighup :: bool
  handle_sigusr1 :: bool
  handle_sigusr2 :: bool
  handle_sigpipe :: bool

record 'h signal_manager =
  sm_config :: signal_config
  sigterm_handler :: "'h option"
  sigint_handler :: "'h option"
  sighup_handler :: "'h option"
  sigusr1_handler :: "'h option"
  sigusr2_handler :: "'h option"
  shutdown_requested :: bool
  reload_requested :: bool

datatype signal_error = SIGNAL_OK | SIGNAL_ERROR_INVALID_PARAM | SIGNAL_ERROR_SETUP | SIGNAL_ERROR_MEMORY

text \<open>
  \<open>Sig_Caught\<close> is \<open>signal_handler\<close> with the mask and the flags it was installed with, of which only
  \<open>SA_RESTART\<close> matters; \<open>Sig_Reactor\<close> the handler that \<open>reactor_construct\<close> installs, without that flag,
  which only ends the event loop.
\<close>

datatype disposition = Sig_Default | Sig_Ignore | Sig_Caught (sa_mask: "int list") (sa_restart: bool) | Sig_Reactor

abbreviation (input) Sig_Handler :: disposition where
  "Sig_Handler \<equiv> Sig_Caught [SIGTERM, SIGINT, SIGHUP, SIGUSR1, SIGUSR2] True"

record 'h signal_state =
  global_signal_manager :: "nat option"
  sg_memory :: "nat \<Rightarrow> 'h signal_manager option"
  sg_disposition :: "int \<Rightarrow> disposition"
  sg_invoked :: "('h \<times> int) list"
  sg_log :: log_state

text \<open>What the system answers: which \<open>sigaction\<close> calls succeed, \<open>strerror\<close>, and what logging reads.\<close>

record signal_env =
  se_sigaction :: "int \<Rightarrow> bool"
  se_strerror :: string
  se_log :: log_env

definition no_signals :: signal_config where
  "no_signals = \<lparr>handle_sigterm = False, handle_sigint = False, handle_sighup = False,
                handle_sigusr1 = False, handle_sigusr2 = False, handle_sigpipe = False\<rparr>"

definition zeroed_manager :: "'h signal_manager" where
  "zeroed_manager = \<lparr>sm_config = no_signals, sigterm_handler = None, sigint_handler = None,
     sighup_handler = None, sigusr1_handler = None, sigusr2_handler = None,
     shutdown_requested = False, reload_requested = False\<rparr>"

definition signal_manager_default_config :: signal_config where
  "signal_manager_default_config =
     \<lparr>handle_sigterm = True, handle_sigint = True, handle_sighup = False,
      handle_sigusr1 = False, handle_sigusr2 = False, handle_sigpipe = True\<rparr>"

definition with_log :: "(log_state \<Rightarrow> log_state option) \<Rightarrow> 'h signal_state \<Rightarrow> 'h signal_state option" where
  "with_log f s = map_option (\<lambda>l. s\<lparr>sg_log := l\<rparr>) (f (sg_log s))"

definition put_manager :: "nat \<Rightarrow> 'h signal_manager \<Rightarrow> 'h signal_state \<Rightarrow> 'h signal_state" where
  "put_manager p m s = s\<lparr>sg_memory := (sg_memory s)(p := Some m)\<rparr>"

subsection \<open>The handler\<close>

text \<open>A callback of the manager is invoked when it is set, otherwise \<open>alt\<close> is done.\<close>

definition invoke_or ::
  "'h option \<Rightarrow> int \<Rightarrow> ('h signal_state \<Rightarrow> 'h signal_state option) \<Rightarrow> 'h signal_state \<Rightarrow>
     'h signal_state option" where
  "invoke_or h n alt s =
     (case h of Some h \<Rightarrow> Some (s\<lparr>sg_invoked := sg_invoked s @ [(h, n)]\<rparr>) | None \<Rightarrow> alt s)"

definition signal_handler :: "signal_env \<Rightarrow> int \<Rightarrow> 'h signal_state \<Rightarrow> 'h signal_state option" where
  "signal_handler e n s =
     (case global_signal_manager s of
        None \<Rightarrow> Some s
      | Some p \<Rightarrow>
          (case sg_memory s p of
             None \<Rightarrow> None
           | Some m \<Rightarrow>
               if n = SIGTERM then
                 invoke_or (sigterm_handler m) n
                   (with_log (log_info_msg (se_log e) (Some ''SIGTERM received, initiating graceful shutdown'')))
                   (put_manager p (m\<lparr>shutdown_requested := True\<rparr>) s)
               else if n = SIGINT then
                 invoke_or (sigint_handler m) n
                   (with_log (log_info_msg (se_log e) (Some ''SIGINT received, initiating graceful shutdown'')))
                   (put_manager p (m\<lparr>shutdown_requested := True\<rparr>) s)
               else if n = SIGHUP then
                 invoke_or (sighup_handler m) n
                   (with_log (log_info_msg (se_log e) (Some ''SIGHUP received, configuration reload requested'')))
                   (put_manager p (m\<lparr>reload_requested := True\<rparr>) s)
               else if n = SIGUSR1 then invoke_or (sigusr1_handler m) n Some s
               else if n = SIGUSR2 then invoke_or (sigusr2_handler m) n Some s
               else if n = SIGPIPE then Some s
               else with_log (log_warn_msg (se_log e) (Some (''Unhandled signal: '' @ dec_int n))) s))"

definition setup_signal_handler ::
  "signal_env \<Rightarrow> int \<Rightarrow> bool \<Rightarrow> 'h signal_state \<Rightarrow> (signal_error \<times> 'h signal_state) option" where
  "setup_signal_handler e n enable s =
     (if enable then
        (if \<not> se_sigaction e n then
           map_option (Pair SIGNAL_ERROR_SETUP)
             (with_log (log_error_msg (se_log e) (Some (''Failed to setup signal handler for '' @ dec_int n @
                '': '' @ se_strerror e))) s)
         else Some (SIGNAL_OK, s\<lparr>sg_disposition := (sg_disposition s)
                (n := Sig_Caught [SIGTERM, SIGINT, SIGHUP, SIGUSR1, SIGUSR2] True)\<rparr>))
      else
        (if \<not> se_sigaction e n then
           map_option (Pair SIGNAL_ERROR_SETUP)
             (with_log (log_error_msg (se_log e) (Some (''Failed to restore default handler for '' @ dec_int n @
                '': '' @ se_strerror e))) s)
         else Some (SIGNAL_OK, s\<lparr>sg_disposition := (sg_disposition s)(n := Sig_Default)\<rparr>)))"

subsection \<open>The manager\<close>

text \<open>The signals a configuration handles, in the order the code goes through them.\<close>

definition handled :: "signal_config \<Rightarrow> int list" where
  "handled c =
     (if handle_sigterm c then [SIGTERM] else []) @ (if handle_sigint c then [SIGINT] else []) @
     (if handle_sighup c then [SIGHUP] else []) @ (if handle_sigusr1 c then [SIGUSR1] else []) @
     (if handle_sigusr2 c then [SIGUSR2] else []) @ (if handle_sigpipe c then [SIGPIPE] else [])"

text \<open>Setting up returns at the first failure; restoring goes on.\<close>

fun setup_all :: "signal_env \<Rightarrow> int list \<Rightarrow> 'h signal_state \<Rightarrow> (signal_error \<times> 'h signal_state) option" where
  "setup_all e [] s = Some (SIGNAL_OK, s)"
| "setup_all e (n # ns) s =
     (case setup_signal_handler e n True s of
        None \<Rightarrow> None
      | Some (err, s) \<Rightarrow> if err \<noteq> SIGNAL_OK then Some (err, s) else setup_all e ns s)"

definition signal_manager_init ::
  "signal_env \<Rightarrow> nat option \<Rightarrow> signal_config option \<Rightarrow> 'h signal_state \<Rightarrow>
     (signal_error \<times> 'h signal_state) option" where
  "signal_manager_init e manager config s =
     (case manager of
        None \<Rightarrow> Some (SIGNAL_ERROR_INVALID_PARAM, s)
      | Some p \<Rightarrow>
          let c = (case config of Some c \<Rightarrow> c | None \<Rightarrow> signal_manager_default_config);
              s = (put_manager p (zeroed_manager\<lparr>sm_config := c\<rparr>) s)\<lparr>global_signal_manager := Some p\<rparr>
          in (case setup_all e (handled c) s of
                None \<Rightarrow> None
              | Some (err, s) \<Rightarrow>
                  if err \<noteq> SIGNAL_OK then Some (err, s)
                  else map_option (Pair SIGNAL_OK)
                         (with_log (log_debug_msg (se_log e) (Some ''Signal manager initialized'')) s)))"

definition restore_signal :: "signal_env \<Rightarrow> int \<Rightarrow> 'h signal_state \<Rightarrow> 'h signal_state option" where
  "restore_signal e n s = map_option snd (setup_signal_handler e n False s)"

definition signal_manager_cleanup ::
  "signal_env \<Rightarrow> nat option \<Rightarrow> 'h signal_state \<Rightarrow> 'h signal_state option" where
  "signal_manager_cleanup e manager s =
     (case manager of
        None \<Rightarrow> Some s
      | Some p \<Rightarrow>
          let s = (if global_signal_manager s = Some p then s\<lparr>global_signal_manager := None\<rparr> else s)
          in (case sg_memory s p of
                None \<Rightarrow> None
              | Some m \<Rightarrow>
                  Option.bind (run_all (restore_signal e) (handled (sm_config m)) s) (\<lambda>s.
                  with_log (log_debug_msg (se_log e) (Some ''Signal manager cleaned up''))
                    (put_manager p zeroed_manager s))))"

definition signal_manager_set_handler ::
  "'h signal_manager option \<Rightarrow> int \<Rightarrow> 'h option \<Rightarrow> signal_error \<times> 'h signal_manager option" where
  "signal_manager_set_handler manager n callback =
     (case manager of
        None \<Rightarrow> (SIGNAL_ERROR_INVALID_PARAM, None)
      | Some m \<Rightarrow>
          if n = SIGTERM then (SIGNAL_OK, Some (m\<lparr>sigterm_handler := callback\<rparr>))
          else if n = SIGINT then (SIGNAL_OK, Some (m\<lparr>sigint_handler := callback\<rparr>))
          else if n = SIGHUP then (SIGNAL_OK, Some (m\<lparr>sighup_handler := callback\<rparr>))
          else if n = SIGUSR1 then (SIGNAL_OK, Some (m\<lparr>sigusr1_handler := callback\<rparr>))
          else if n = SIGUSR2 then (SIGNAL_OK, Some (m\<lparr>sigusr2_handler := callback\<rparr>))
          else (SIGNAL_ERROR_INVALID_PARAM, Some m))"

definition signal_manager_shutdown_requested :: "'h signal_manager option \<Rightarrow> bool" where
  "signal_manager_shutdown_requested manager =
     (case manager of None \<Rightarrow> False | Some m \<Rightarrow> shutdown_requested m)"

definition signal_manager_reload_requested :: "'h signal_manager option \<Rightarrow> bool" where
  "signal_manager_reload_requested manager =
     (case manager of None \<Rightarrow> False | Some m \<Rightarrow> reload_requested m)"

definition signal_manager_reset_shutdown :: "'h signal_manager option \<Rightarrow> 'h signal_manager option" where
  "signal_manager_reset_shutdown = map_option (\<lambda>m. m\<lparr>shutdown_requested := False\<rparr>)"

definition signal_manager_reset_reload :: "'h signal_manager option \<Rightarrow> 'h signal_manager option" where
  "signal_manager_reset_reload = map_option (\<lambda>m. m\<lparr>reload_requested := False\<rparr>)"

subsection \<open>Signals arriving\<close>

text \<open>
  A signal without handler and not ignored ends the process, which no state stands for. The handlers run one
  after the other: the mask keeps the signals that set a flag from interrupting each other's handlers.
\<close>

definition arrive :: "signal_env \<Rightarrow> int \<Rightarrow> 'h signal_state \<Rightarrow> 'h signal_state option" where
  "arrive e n s =
     (case sg_disposition s n of
        Sig_Default \<Rightarrow> None
      | Sig_Ignore \<Rightarrow> Some s
      | Sig_Caught _ _ \<Rightarrow> signal_handler e n s
      | Sig_Reactor \<Rightarrow> Some s)"

text \<open>
  \<open>signal_manager_wait\<close>: each element is what arrives during one sleep of 100 ms. The result is the number
  of sleeps and the state; \<open>None\<close> while the loop is still waiting at the end of the list.
\<close>

fun signal_manager_wait ::
  "signal_env \<Rightarrow> nat \<Rightarrow> int list list \<Rightarrow> nat \<times> 'h signal_state \<Rightarrow> (nat \<times> 'h signal_state) option" where
  "signal_manager_wait e p sleeps (k, s) =
     (case sg_memory s p of
        None \<Rightarrow> None
      | Some m \<Rightarrow>
          if shutdown_requested m \<or> reload_requested m then Some (k, s)
          else (case sleeps of
                  [] \<Rightarrow> None
                | ns # sleeps \<Rightarrow>
                    Option.bind (run_all (arrive e) ns s) (\<lambda>s. signal_manager_wait e p sleeps (Suc k, s))))"

text \<open>
  A system call that waits is broken off (-1, EINTR) by a signal whose handler was installed without
  \<open>SA_RESTART\<close>; after any other handler it is restarted.
\<close>

definition interrupts :: "'h signal_state \<Rightarrow> int \<Rightarrow> bool" where
  "interrupts s n =
     (case sg_disposition s n of Sig_Caught _ restart \<Rightarrow> \<not> restart | Sig_Reactor \<Rightarrow> True | _ \<Rightarrow> False)"

subsection \<open>Facts\<close>

definition log_free :: "'h signal_state \<Rightarrow> bool" where
  "log_free s \<longleftrightarrow> \<not> log_locked (sg_log s)"

lemma with_log_run:
  assumes "log_free s"
  shows "\<exists>s'. with_log (log_internal e l msg) s = Some s' \<and> log_free s' \<and>
    sg_memory s' = sg_memory s \<and> global_signal_manager s' = global_signal_manager s \<and>
    sg_disposition s' = sg_disposition s"
  using log_internal_defined [of "sg_log s" e l msg] assms by (auto simp: with_log_def log_free_def)

lemmas log_calls = log_error_msg_def log_warn_msg_def log_info_msg_def log_debug_msg_def

lemma invoke_or_run:
  assumes "log_free s"
  shows "\<exists>s'. invoke_or h n (with_log (log_internal e l msg)) s = Some s' \<and> log_free s' \<and>
      sg_memory s' = sg_memory s \<and> global_signal_manager s' = global_signal_manager s \<and>
      sg_disposition s' = sg_disposition s"
    and "\<exists>s'. invoke_or h n Some s = Some s' \<and> log_free s' \<and>
      sg_memory s' = sg_memory s \<and> global_signal_manager s' = global_signal_manager s \<and>
      sg_disposition s' = sg_disposition s"
  using with_log_run [OF assms, of e l msg] assms
  by (auto simp: invoke_or_def log_free_def split: option.splits)

text \<open>What a manager remembers of the signals delivered.\<close>

definition flags :: "nat \<Rightarrow> 'h signal_state \<Rightarrow> bool \<Rightarrow> bool \<Rightarrow> bool" where
  "flags p s shut reload \<longleftrightarrow>
     global_signal_manager s = Some p \<and> log_free s \<and>
     (\<exists>m. sg_memory s p = Some m \<and> shutdown_requested m = shut \<and> reload_requested m = reload)"

lemma handler_run:
  assumes "flags p s shut reload"
  shows "\<exists>s'. signal_handler e n s = Some s' \<and> sg_disposition s' = sg_disposition s \<and>
    flags p s' (shut \<or> n = SIGTERM \<or> n = SIGINT) (reload \<or> n = SIGHUP)"
proof -
  obtain m where m: "global_signal_manager s = Some p" "sg_memory s p = Some m" "log_free s"
    "shutdown_requested m = shut" "reload_requested m = reload"
    using assms by (auto simp: flags_def)
  have free: "log_free (put_manager p m' s)" for m' using m(3) by (simp add: log_free_def put_manager_def)
  have put: "sg_memory (put_manager p m' s) p = Some m'"
    "global_signal_manager (put_manager p m' s) = Some p"
    "sg_disposition (put_manager p m' s) = sg_disposition s" for m'
    using m(1) by (simp_all add: put_manager_def)
  consider "n = SIGTERM" | "n = SIGINT" | "n = SIGHUP" | "n = SIGUSR1" | "n = SIGUSR2" | "n = SIGPIPE"
    | "n \<notin> {SIGTERM, SIGINT, SIGHUP, SIGUSR1, SIGUSR2, SIGPIPE}"
    by blast
  then show ?thesis
  proof cases
    case 1
    then show ?thesis
      using invoke_or_run(1) [OF free, of "sigterm_handler m" n "se_log e" LOG_LEVEL_INFO] m put
      by (fastforce simp: signal_handler_def log_calls flags_def)
  next
    case 2
    then show ?thesis
      using invoke_or_run(1) [OF free, of "sigint_handler m" n "se_log e" LOG_LEVEL_INFO] m put
      by (fastforce simp: signal_handler_def log_calls flags_def)
  next
    case 3
    then show ?thesis
      using invoke_or_run(1) [OF free, of "sighup_handler m" n "se_log e" LOG_LEVEL_INFO] m put
      by (fastforce simp: signal_handler_def log_calls flags_def)
  next
    case 4
    then show ?thesis
      using invoke_or_run(2) [OF m(3), of "sigusr1_handler m" n] m
      by (fastforce simp: signal_handler_def flags_def)
  next
    case 5
    then show ?thesis
      using invoke_or_run(2) [OF m(3), of "sigusr2_handler m" n] m
      by (fastforce simp: signal_handler_def flags_def)
  next
    case 6
    then show ?thesis using m by (simp add: signal_handler_def flags_def)
  next
    case 7
    then show ?thesis
      using with_log_run [OF m(3), of "se_log e" LOG_LEVEL_WARN] m
      by (fastforce simp: signal_handler_def log_calls flags_def)
  qed
qed

lemma arrivals_run:
  assumes "flags p s shut reload" and "\<forall>n \<in> set ns. sg_disposition s n = Sig_Handler"
  shows "\<exists>s'. run_all (arrive e) ns s = Some s' \<and> sg_disposition s' = sg_disposition s \<and>
    flags p s' (shut \<or> SIGTERM \<in> set ns \<or> SIGINT \<in> set ns) (reload \<or> SIGHUP \<in> set ns)"
  using assms
proof (induction ns arbitrary: s shut reload)
  case Nil
  then show ?case by simp
next
  case (Cons n ns)
  obtain s1 where s1: "signal_handler e n s = Some s1" "sg_disposition s1 = sg_disposition s"
    "flags p s1 (shut \<or> n = SIGTERM \<or> n = SIGINT) (reload \<or> n = SIGHUP)"
    using handler_run [OF Cons.prems(1)] by blast
  have "\<forall>n \<in> set ns. sg_disposition s1 n = Sig_Handler" using Cons.prems(2) s1(2) by simp
  from Cons.IH [OF s1(3) this] obtain s2 where s2: "run_all (arrive e) ns s1 = Some s2"
    "sg_disposition s2 = sg_disposition s1"
    "flags p s2 ((shut \<or> n = SIGTERM \<or> n = SIGINT) \<or> SIGTERM \<in> set ns \<or> SIGINT \<in> set ns)
       ((reload \<or> n = SIGHUP) \<or> SIGHUP \<in> set ns)"
    by blast
  have "arrive e n s = Some s1" using Cons.prems(2) s1(1) by (simp add: arrive_def)
  moreover have "((shut \<or> n = SIGTERM \<or> n = SIGINT) \<or> SIGTERM \<in> set ns \<or> SIGINT \<in> set ns) =
      (shut \<or> SIGTERM \<in> set (n # ns) \<or> SIGINT \<in> set (n # ns))"
    "((reload \<or> n = SIGHUP) \<or> SIGHUP \<in> set ns) = (reload \<or> SIGHUP \<in> set (n # ns))"
    by auto
  ultimately show ?case using s1(2) s2 by simp
qed

definition set_dispositions ::
  "int list \<Rightarrow> disposition \<Rightarrow> 'h signal_state \<Rightarrow> 'h signal_state" where
  "set_dispositions ns d s =
     s\<lparr>sg_disposition := (\<lambda>n. if n \<in> set ns then d else sg_disposition s n)\<rparr>"

lemma set_dispositions_simps [simp]:
  "sg_memory (set_dispositions ns d s) = sg_memory s"
  "global_signal_manager (set_dispositions ns d s) = global_signal_manager s"
  "sg_log (set_dispositions ns d s) = sg_log s"
  "sg_disposition (set_dispositions ns d s) = (\<lambda>n. if n \<in> set ns then d else sg_disposition s n)"
  "set_dispositions [] d s = s"
  "set_dispositions ns d (s\<lparr>sg_disposition := (sg_disposition s)(n := d)\<rparr>) = set_dispositions (n # ns) d s"
  by (auto simp: set_dispositions_def intro!: signal_state.equality)

lemma setup_all_run:
  assumes "\<forall>n \<in> set ns. se_sigaction e n"
  shows "setup_all e ns s = Some (SIGNAL_OK, set_dispositions ns Sig_Handler s)"
  using assms
proof (induction ns arbitrary: s)
  case (Cons n ns)
  then show ?case
    by (simp add: setup_signal_handler_def)
qed simp

lemma signal_init_run:
  assumes "\<forall>n \<in> set (handled c). se_sigaction e n" and "log_free s"
  shows "\<exists>s'. signal_manager_init e (Some p) (Some c) s = Some (SIGNAL_OK, s') \<and> flags p s' False False \<and>
    sg_memory s' p = Some (zeroed_manager\<lparr>sm_config := c\<rparr>) \<and>
    sg_disposition s' = (\<lambda>n. if n \<in> set (handled c) then Sig_Handler else sg_disposition s n)"
proof -
  let ?s = "(put_manager p (zeroed_manager\<lparr>sm_config := c\<rparr>) s)\<lparr>global_signal_manager := Some p\<rparr>"
  have "log_free (set_dispositions (handled c) Sig_Handler ?s)"
    using assms(2) by (simp add: log_free_def put_manager_def)
  from with_log_run [OF this, of "se_log e" LOG_LEVEL_DEBUG "Some ''Signal manager initialized''"]
  obtain s' where s': "with_log (log_debug_msg (se_log e) (Some ''Signal manager initialized''))
      (set_dispositions (handled c) Sig_Handler ?s) = Some s'" "log_free s'"
    "sg_memory s' = sg_memory ?s" "global_signal_manager s' = Some p"
    "sg_disposition s' = sg_disposition (set_dispositions (handled c) Sig_Handler ?s)"
    by (auto simp: log_calls)
  have "signal_manager_init e (Some p) (Some c) s = Some (SIGNAL_OK, s')"
    using s'(1) setup_all_run [OF assms(1), of ?s] by (simp add: signal_manager_init_def)
  then show ?thesis using s'(2-5)
    by (simp add: flags_def put_manager_def zeroed_manager_def cong: if_cong)
qed

lemma setup_all_fails:
  assumes "log_free s" and "\<exists>n \<in> set ns. \<not> se_sigaction e n"
  shows "\<exists>s'. setup_all e ns s = Some (SIGNAL_ERROR_SETUP, s') \<and> sg_memory s' = sg_memory s \<and>
    global_signal_manager s' = global_signal_manager s"
  using assms
proof (induction ns arbitrary: s)
  case (Cons n ns)
  show ?case
  proof (cases "se_sigaction e n")
    case True
    let ?s = "s\<lparr>sg_disposition := (sg_disposition s)(n := Sig_Handler)\<rparr>"
    have "\<exists>s'. setup_all e ns ?s = Some (SIGNAL_ERROR_SETUP, s') \<and> sg_memory s' = sg_memory ?s \<and>
        global_signal_manager s' = global_signal_manager ?s"
      using Cons True by (intro Cons.IH) (auto simp: log_free_def)
    then show ?thesis using True by (simp add: setup_signal_handler_def)
  next
    case False
    then show ?thesis
      using with_log_run [OF Cons.prems(1), of "se_log e" LOG_LEVEL_ERROR
          "Some (''Failed to setup signal handler for '' @ dec_int n @ '': '' @ se_strerror e)"]
      by (auto simp: setup_signal_handler_def log_calls)
  qed
qed simp

lemma restore_run:
  assumes "\<forall>n \<in> set ns. se_sigaction e n"
  shows "run_all (restore_signal e) ns s = Some (set_dispositions ns Sig_Default s)"
  using assms
proof (induction ns arbitrary: s)
  case (Cons n ns)
  then show ?case
    by (simp add: restore_signal_def setup_signal_handler_def)
qed simp

text \<open>The cleanup of an initialised signal manager.\<close>

lemma signal_cleanup_run:
  assumes "\<forall>n \<in> set (handled c). se_sigaction e n" and "flags p s sh re"
    and "sg_memory s p = Some m" and "sm_config m = c"
  shows "\<exists>s2. signal_manager_cleanup e (Some p) s = Some s2 \<and> log_free s2 \<and>
    global_signal_manager s2 = None \<and> sg_memory s2 p = Some zeroed_manager \<and>
    sg_disposition s2 = (\<lambda>n. if n \<in> set (handled c) then Sig_Default else sg_disposition s n)"
proof -
  let ?s = "put_manager p zeroed_manager
    (set_dispositions (handled c) Sig_Default (s\<lparr>global_signal_manager := None\<rparr>))"
  have "log_free ?s" using assms(2) by (simp add: flags_def log_free_def put_manager_def)
  from with_log_run [OF this, of "se_log e" LOG_LEVEL_DEBUG "Some ''Signal manager cleaned up''"]
  obtain s2 where s2: "with_log (log_debug_msg (se_log e) (Some ''Signal manager cleaned up'')) ?s = Some s2"
    "log_free s2" "sg_memory s2 = sg_memory ?s" "global_signal_manager s2 = global_signal_manager ?s"
    "sg_disposition s2 = sg_disposition ?s"
    by (auto simp: log_calls)
  have "signal_manager_cleanup e (Some p) s = Some s2"
    using assms(2-4) s2(1) restore_run [OF assms(1), of "s\<lparr>global_signal_manager := None\<rparr>"]
    by (simp add: signal_manager_cleanup_def flags_def Let_def)
  then show ?thesis using s2(2-5) by (simp add: put_manager_def fun_eq_iff)
qed

subsection \<open>Properties\<close>

text \<open>
  After a successful initialisation the manager's flags say exactly which signals have arrived: for
  every sequence of handled signals, shutdown is requested if and only if it holds SIGTERM or SIGINT,
  reload if and only if it holds SIGHUP.
\<close>

theorem flags_record_arrivals:
  assumes "\<forall>n \<in> set (handled c). se_sigaction e n" and "log_free s" and "set ns \<subseteq> set (handled c)"
  shows "\<exists>s1 s2 m. signal_manager_init e (Some p) (Some c) s = Some (SIGNAL_OK, s1) \<and>
    run_all (arrive e) ns s1 = Some s2 \<and> sg_memory s2 p = Some m \<and>
    signal_manager_shutdown_requested (Some m) = (SIGTERM \<in> set ns \<or> SIGINT \<in> set ns) \<and>
    signal_manager_reload_requested (Some m) = (SIGHUP \<in> set ns)"
proof -
  obtain s1 where s1: "signal_manager_init e (Some p) (Some c) s = Some (SIGNAL_OK, s1)"
    "flags p s1 False False"
    "sg_disposition s1 = (\<lambda>n. if n \<in> set (handled c) then Sig_Handler else sg_disposition s n)"
    using signal_init_run [OF assms(1,2)] by blast
  have "\<forall>n \<in> set ns. sg_disposition s1 n = Sig_Handler" using assms(3) s1(3) by auto
  from arrivals_run [OF s1(2) this] obtain s2 where "run_all (arrive e) ns s1 = Some s2"
    "flags p s2 (SIGTERM \<in> set ns \<or> SIGINT \<in> set ns) (SIGHUP \<in> set ns)"
    by auto
  then show ?thesis
    using s1(1) by (auto simp: flags_def signal_manager_shutdown_requested_def
        signal_manager_reload_requested_def)
qed

definition ex_signal_env :: signal_env where
  "ex_signal_env = \<lparr>se_sigaction = (\<lambda>n. n \<noteq> SIGUSR1), se_strerror = ''Invalid argument'', se_log = ex_log_env\<rparr>"

definition ex_signal_state :: "unit signal_state" where
  "ex_signal_state = \<lparr>global_signal_manager = None, sg_memory = (\<lambda>_. None),
     sg_disposition = (\<lambda>_. Sig_Default), sg_invoked = [], sg_log = initial_log\<rparr>"

lemma ex_signal_log [simp]: "log_free ex_signal_state"
  by (simp add: log_free_def ex_signal_state_def initial_log_def)

lemma flags_record_arrivals_witness:
  "\<exists>s1 s2 m. signal_manager_init ex_signal_env (Some 3) (Some signal_manager_default_config)
        ex_signal_state = Some (SIGNAL_OK, s1) \<and>
    run_all (arrive ex_signal_env) [SIGPIPE, SIGINT] s1 = Some s2 \<and> sg_memory s2 3 = Some m \<and>
    signal_manager_shutdown_requested (Some m) = (SIGTERM \<in> set [SIGPIPE, SIGINT] \<or> SIGINT \<in> set [SIGPIPE, SIGINT]) \<and>
    signal_manager_reload_requested (Some m) = (SIGHUP \<in> set [SIGPIPE, SIGINT])"
  by (rule flags_record_arrivals)
    (auto simp: signal_manager_default_config_def handled_def ex_signal_env_def)

text \<open>
  Cleaning up an initialised manager restores the default disposition of every signal it handled,
  forgets the manager, and clears its memory; the other signals keep their dispositions.
\<close>

theorem cleanup_restores:
  assumes "\<forall>n \<in> set (handled c). se_sigaction e n" and "log_free s"
  shows "\<exists>s1 s2. signal_manager_init e (Some p) (Some c) s = Some (SIGNAL_OK, s1) \<and>
    signal_manager_cleanup e (Some p) s1 = Some s2 \<and> global_signal_manager s2 = None \<and>
    sg_memory s2 p = Some zeroed_manager \<and>
    sg_disposition s2 = (\<lambda>n. if n \<in> set (handled c) then Sig_Default else sg_disposition s n)"
proof -
  obtain s1 where s1: "signal_manager_init e (Some p) (Some c) s = Some (SIGNAL_OK, s1)"
    "flags p s1 False False" "sg_memory s1 p = Some (zeroed_manager\<lparr>sm_config := c\<rparr>)"
    "sg_disposition s1 = (\<lambda>n. if n \<in> set (handled c) then Sig_Handler else sg_disposition s n)"
    using signal_init_run [OF assms] by blast
  obtain s2 where "signal_manager_cleanup e (Some p) s1 = Some s2" "global_signal_manager s2 = None"
    "sg_memory s2 p = Some zeroed_manager"
    "sg_disposition s2 = (\<lambda>n. if n \<in> set (handled c) then Sig_Default else sg_disposition s1 n)"
    using signal_cleanup_run [OF assms(1) s1(2,3)] by auto
  then show ?thesis using s1 by (auto simp: fun_eq_iff)
qed

lemma cleanup_restores_witness:
  "\<exists>s1 s2. signal_manager_init ex_signal_env (Some 3) (Some signal_manager_default_config)
        ex_signal_state = Some (SIGNAL_OK, s1) \<and>
    signal_manager_cleanup ex_signal_env (Some 3) s1 = Some s2 \<and> global_signal_manager s2 = None \<and>
    sg_memory s2 3 = Some zeroed_manager \<and>
    sg_disposition s2 = (\<lambda>n. if n \<in> set (handled signal_manager_default_config) then Sig_Default
                             else sg_disposition ex_signal_state n)"
  by (rule cleanup_restores) (auto simp: signal_manager_default_config_def handled_def ex_signal_env_def)

text \<open>
  A handled signal that arrives while the process is writing a log line stops it for good: without a
  callback the handler logs itself, and locks the mutex the interrupted call still holds.
\<close>

theorem signal_while_logging_deadlocks:
  assumes "global_signal_manager s = Some p" and "sg_memory s p = Some m" and "sigterm_handler m = None"
    and "\<not> is_logging_disabled (sg_log s)" and "2 \<le> lc_level (current_config (sg_log s))"
    and "log_enter (sg_log s) = Some l"
  shows "signal_handler e SIGTERM (s\<lparr>sg_log := l\<rparr>) = None"
  using assms
  by (auto simp: signal_handler_def invoke_or_def with_log_def log_calls log_internal_def
      level_number_def log_enter_def put_manager_def split: if_splits)

lemma signal_while_logging_deadlocks_witness:
  "signal_handler ex_signal_env SIGTERM ((ex_signal_state\<lparr>global_signal_manager := Some 3,
      sg_memory := (\<lambda>_. Some zeroed_manager)\<rparr>)\<lparr>sg_log := initial_log\<lparr>log_locked := True\<rparr>\<rparr>) = None"
  by (rule signal_while_logging_deadlocks [of _ 3 zeroed_manager])
    (simp_all add: zeroed_manager_def ex_signal_state_def initial_log_def level_number_def log_enter_def)

text \<open>
  A failed initialisation leaves the global reference to the manager it was given: when the caller
  frees the manager, as the servers do on this error, the next handled signal uses freed memory.
\<close>

theorem failed_init_leaves_dangling_manager:
  assumes "n \<in> set (handled c)" and "\<not> se_sigaction e n" and "log_free s"
  shows "\<exists>s'. signal_manager_init e (Some p) (Some c) s = Some (SIGNAL_ERROR_SETUP, s') \<and>
    global_signal_manager s' = Some p \<and>
    signal_handler e k (s'\<lparr>sg_memory := (sg_memory s')(p := None)\<rparr>) = None"
proof -
  let ?s = "(put_manager p (zeroed_manager\<lparr>sm_config := c\<rparr>) s)\<lparr>global_signal_manager := Some p\<rparr>"
  have "log_free ?s" using assms(3) by (simp add: log_free_def put_manager_def)
  from setup_all_fails [OF this] assms(1,2)
  show ?thesis by (fastforce simp: signal_manager_init_def Let_def signal_handler_def)
qed

lemma failed_init_leaves_dangling_manager_witness:
  "\<exists>s'. signal_manager_init ex_signal_env (Some 3) (Some (no_signals\<lparr>handle_sigusr1 := True\<rparr>))
        ex_signal_state = Some (SIGNAL_ERROR_SETUP, s') \<and>
    global_signal_manager s' = Some 3 \<and>
    signal_handler ex_signal_env SIGTERM (s'\<lparr>sg_memory := (sg_memory s')(3 := None)\<rparr>) = None"
  by (rule failed_init_leaves_dangling_manager [of SIGUSR1])
    (auto simp: no_signals_def handled_def ex_signal_env_def)

end
