(* ===== verification/Process.thy ===== *)
theory Process
  imports System Log
begin

text \<open>
  Component \<open>src/src/platform/process.c\<close>: the worker manager. The state of a process holds the CPU number
  arrays and the tables of workers in memory by address (a freed one is absent), the descriptors it closed and the event
  descriptors it wrote to, in order, and the modules it uses. What the system answers is an argument.
\<close>

datatype process_error =
  PROCESS_OK
| PROCESS_ERROR_FORK
| PROCESS_ERROR_EVENTFD
| PROCESS_ERROR_WAIT
| PROCESS_ERROR_INVALID_PARAM
| PROCESS_ERROR_SIGNAL

datatype process_type = PROCESS_TYPE_PARENT | PROCESS_TYPE_WORKER

record worker_context =
  wc_worker_id :: int
  wc_cpu_id :: int
  wc_eventfd :: int
  wc_pid :: int

record worker_config =
  worker_count :: int
  wk_cpu_ids :: "nat option"
  enable_affinity :: bool

record worker_manager =
  wm_config :: worker_config
  wm_workers :: "nat option"
  wm_type :: process_type
  wm_current :: int

record proc_state =
  pr_arrays :: "nat \<Rightarrow> int list option"
  pr_tables :: "nat \<Rightarrow> worker_context list option"
  pr_next :: nat
  pr_system :: system_state
  pr_closed :: "int list"
  pr_written :: "int list"
  pr_log :: log_state

definition zeroed_worker :: worker_context where
  "zeroed_worker = \<lparr>wc_worker_id = 0, wc_cpu_id = 0, wc_eventfd = 0, wc_pid = 0\<rparr>"

definition zeroed_workers :: worker_manager where
  "zeroed_workers = \<lparr>wm_config = \<lparr>worker_count = 0, wk_cpu_ids = None, enable_affinity = False\<rparr>,
     wm_workers = None, wm_type = PROCESS_TYPE_PARENT, wm_current = 0\<rparr>"

text \<open>\<open>free (NULL)\<close> does nothing; freeing what is not allocated is undefined.\<close>

definition free_array :: "nat option \<Rightarrow> proc_state \<Rightarrow> proc_state option" where
  "free_array p s =
     (case p of None \<Rightarrow> Some s
      | Some a \<Rightarrow> if pr_arrays s a = None then None else Some (s\<lparr>pr_arrays := (pr_arrays s)(a := None)\<rparr>))"

definition alloc_array :: "int list \<Rightarrow> proc_state \<Rightarrow> nat \<times> proc_state" where
  "alloc_array xs s =
     (pr_next s, s\<lparr>pr_arrays := (pr_arrays s)(pr_next s := Some xs), pr_next := Suc (pr_next s)\<rparr>)"

definition free_table :: "nat option \<Rightarrow> proc_state \<Rightarrow> proc_state option" where
  "free_table p s =
     (case p of None \<Rightarrow> Some s
      | Some a \<Rightarrow> if pr_tables s a = None then None else Some (s\<lparr>pr_tables := (pr_tables s)(a := None)\<rparr>))"

definition alloc_table :: "nat \<Rightarrow> proc_state \<Rightarrow> nat \<times> proc_state" where
  "alloc_table n s =
     (pr_next s, s\<lparr>pr_tables := (pr_tables s)(pr_next s := Some (replicate n zeroed_worker)), pr_next := Suc (pr_next s)\<rparr>)"

definition close_fd :: "int \<Rightarrow> proc_state \<Rightarrow> proc_state" where
  "close_fd fd s = s\<lparr>pr_closed := pr_closed s @ [fd]\<rparr>"

definition plog :: "(log_state \<Rightarrow> log_state option) \<Rightarrow> proc_state \<Rightarrow> proc_state option" where
  "plog f s = map_option (\<lambda>l. s\<lparr>pr_log := l\<rparr>) (f (pr_log s))"

text \<open>An element of an array in memory, and of the worker table.\<close>

definition array_at :: "proc_state \<Rightarrow> nat option \<Rightarrow> nat \<Rightarrow> int option" where
  "array_at s p i =
     Option.bind p (\<lambda>a. Option.bind (pr_arrays s a) (\<lambda>xs. if i < length xs then Some (xs ! i) else None))"

definition worker_at :: "worker_manager \<Rightarrow> proc_state \<Rightarrow> nat \<Rightarrow> worker_context option" where
  "worker_at m s i =
     Option.bind (wm_workers m) (\<lambda>b. Option.bind (pr_tables s b) (\<lambda>ws. if i < length ws then Some (ws ! i) else None))"

definition set_worker :: "nat \<Rightarrow> worker_context \<Rightarrow> worker_manager \<Rightarrow> proc_state \<Rightarrow> proc_state option" where
  "set_worker i c m s =
     Option.bind (wm_workers m) (\<lambda>b. Option.bind (pr_tables s b) (\<lambda>ws.
       if i < length ws then Some (s\<lparr>pr_tables := (pr_tables s)(b := Some (ws[i := c]))\<rparr>) else None))"

subsection \<open>Initialisation and cleanup\<close>

text \<open>\<open>mem1\<close> and \<open>mem2\<close> tell whether the two allocations succeed.\<close>

definition worker_manager_init ::
  "bool \<Rightarrow> bool \<Rightarrow> worker_config option \<Rightarrow> worker_manager option \<times> proc_state \<Rightarrow>
     (process_error \<times> worker_manager option \<times> proc_state) option" where
  "worker_manager_init mem1 mem2 config ms =
     (case ms of (manager, s) \<Rightarrow>
      if manager = None then Some (PROCESS_ERROR_INVALID_PARAM, manager, s)
      else (case config of
        None \<Rightarrow> Some (PROCESS_ERROR_INVALID_PARAM, manager, s)
      | Some c \<Rightarrow>
          if worker_count c \<le> 0 \<or> wk_cpu_ids c = None then Some (PROCESS_ERROR_INVALID_PARAM, manager, s)
          else (case system_init (pr_system s) of (err, sys) \<Rightarrow>
            let s = s\<lparr>pr_system := sys\<rparr> in
            if err \<noteq> SYSTEM_OK then Some (PROCESS_ERROR_INVALID_PARAM, manager, s)
            else
              let n = nat (worker_count c);
                  m = zeroed_workers\<lparr>wm_config := \<lparr>worker_count = worker_count c, wk_cpu_ids = None,
                                      enable_affinity = enable_affinity c\<rparr>\<rparr> in
              if \<not> mem1 then Some (PROCESS_ERROR_INVALID_PARAM, Some m, s)
              else
                Option.bind (Option.bind (wk_cpu_ids c) (pr_arrays s)) (\<lambda>ids.
                Option.bind (read_n n ids) (\<lambda>ids.
                case alloc_array ids s of (a, s) \<Rightarrow>
                let m = m\<lparr>wm_config := (wm_config m)\<lparr>wk_cpu_ids := Some a\<rparr>\<rparr> in
                if \<not> mem2 then
                  map_option (\<lambda>s. (PROCESS_ERROR_INVALID_PARAM, Some m, s)) (free_array (Some a) s)
                else
                  (case alloc_table n s of (b, s) \<Rightarrow>
                   Some (PROCESS_OK,
                         Some (m\<lparr>wm_workers := Some b, wm_type := PROCESS_TYPE_PARENT, wm_current := -1\<rparr>), s)))))))"

text \<open>The loop that closes the descriptors still noted in the table.\<close>

fun close_workers :: "worker_context list \<Rightarrow> nat \<Rightarrow> proc_state \<Rightarrow> proc_state option" where
  "close_workers ws 0 s = Some s"
| "close_workers [] (Suc n) s = None"
| "close_workers (w # ws) (Suc n) s =
     close_workers ws n (if wc_eventfd w > 0 then close_fd (wc_eventfd w) s else s)"

definition worker_manager_cleanup ::
  "worker_manager option \<times> proc_state \<Rightarrow> (worker_manager option \<times> proc_state) option" where
  "worker_manager_cleanup ms =
     (case ms of (manager, s) \<Rightarrow>
      (case manager of
         None \<Rightarrow> Some (None, s)
       | Some m \<Rightarrow>
           Option.bind (free_array (wk_cpu_ids (wm_config m)) s) (\<lambda>s.
           map_option (Pair (Some zeroed_workers))
             (case wm_workers m of
                None \<Rightarrow> Some s
              | Some b \<Rightarrow>
                  Option.bind (pr_tables s b) (\<lambda>ws.
                  Option.bind (close_workers ws (nat (worker_count (wm_config m))) s) (free_table (Some b)))))))"

subsection \<open>Forking\<close>

text \<open>What the system answers for one worker.\<close>

record fork_answer =
  fa_eventfd :: int
  fa_pid :: int
  fa_read_ok :: bool
  fa_affinity :: "cpu_set \<Rightarrow> bool"

fun close_earlier :: "nat \<Rightarrow> nat \<Rightarrow> worker_manager \<times> proc_state \<Rightarrow> (worker_manager \<times> proc_state) option" where
  "close_earlier 0 j ms = Some ms"
| "close_earlier (Suc k) j (m, s) =
     Option.bind (worker_at m s j) (\<lambda>w.
     if wc_eventfd w > 0 then
       Option.bind (set_worker j (w\<lparr>wc_eventfd := -1\<rparr>) m (close_fd (wc_eventfd w) s)) (\<lambda>s.
       close_earlier k (Suc j) (m, s))
     else close_earlier k (Suc j) (m, s))"

definition fork_child ::
  "fork_answer \<Rightarrow> nat \<Rightarrow> worker_manager \<times> proc_state \<Rightarrow>
     (process_error \<times> worker_manager \<times> proc_state) option" where
  "fork_child a i ms =
     (case ms of (m, s) \<Rightarrow>
      let m = m\<lparr>wm_type := PROCESS_TYPE_WORKER, wm_current := int i\<rparr> in
      Option.bind (array_at s (wk_cpu_ids (wm_config m)) i) (\<lambda>cpu.
      if enable_affinity (wm_config m) \<and> system_set_cpu_affinity (fa_affinity a) cpu \<noteq> SYSTEM_OK
      then Some (PROCESS_ERROR_INVALID_PARAM, m, close_fd (fa_eventfd a) s)
      else
        Option.bind (worker_at m s i) (\<lambda>w.
        Option.bind (set_worker i (w\<lparr>wc_eventfd := fa_eventfd a, wc_cpu_id := cpu\<rparr>) m s) (\<lambda>s.
        map_option (Pair PROCESS_OK) (close_earlier i 0 (m, s))))))"

text \<open>The parent's part of a round: record the worker and wait until it signals.\<close>

definition fork_parent ::
  "log_env \<Rightarrow> fork_answer \<Rightarrow> nat \<Rightarrow> worker_manager \<times> proc_state \<Rightarrow>
     (process_error \<times> worker_manager \<times> proc_state) option" where
  "fork_parent e a i ms =
     (case ms of (m, s) \<Rightarrow>
      Option.bind (array_at s (wk_cpu_ids (wm_config m)) i) (\<lambda>cpu.
      let w = \<lparr>wc_worker_id = int i, wc_cpu_id = cpu, wc_eventfd = fa_eventfd a, wc_pid = fa_pid a\<rparr> in
      Option.bind (set_worker i w m s) (\<lambda>s.
      if \<not> fa_read_ok a then Some (PROCESS_ERROR_EVENTFD, m, close_fd (fa_eventfd a) s)
      else
        Option.bind (set_worker i (w\<lparr>wc_eventfd := -1\<rparr>) m (close_fd (fa_eventfd a) s)) (\<lambda>s.
        map_option (\<lambda>s. (PROCESS_OK, m, s))
          (plog (log_info_msg e (Some (''Worker '' @ dec i @ '' running on CPU '' @ dec_int cpu @
             '' (PID: '' @ dec_int (fa_pid a) @ '')''))) s)))))"

text \<open>The loop, \<open>k\<close> workers still to fork from number \<open>i\<close>. The result of the child is the child's.\<close>

fun fork_loop ::
  "log_env \<Rightarrow> (nat \<Rightarrow> fork_answer) \<Rightarrow> nat \<Rightarrow> nat \<Rightarrow> worker_manager \<times> proc_state \<Rightarrow>
     (process_error \<times> worker_manager \<times> proc_state) option" where
  "fork_loop e ans 0 i (m, s) =
     map_option (\<lambda>s. (PROCESS_OK, m, s))
       (plog (log_info_msg e (Some (''libreactor running with '' @ dec_int (worker_count (wm_config m)) @
          '' worker processes''))) s)"
| "fork_loop e ans (Suc k) i (m, s) =
     (let a = ans i in
      if fa_eventfd a = -1 then Some (PROCESS_ERROR_EVENTFD, m, s)
      else if fa_pid a = -1 then Some (PROCESS_ERROR_FORK, m, close_fd (fa_eventfd a) s)
      else if fa_pid a > 0 then
        (case fork_parent e a i (m, s) of
           None \<Rightarrow> None
         | Some (err, ms) \<Rightarrow> if err \<noteq> PROCESS_OK then Some (err, ms) else fork_loop e ans k (Suc i) ms)
      else fork_child a i (m, s))"

definition worker_manager_fork_workers ::
  "log_env \<Rightarrow> (nat \<Rightarrow> fork_answer) \<Rightarrow> worker_manager option \<times> proc_state \<Rightarrow>
     (process_error \<times> worker_manager option \<times> proc_state) option" where
  "worker_manager_fork_workers e ans ms =
     (case ms of (manager, s) \<Rightarrow>
      (case manager of
         None \<Rightarrow> Some (PROCESS_ERROR_INVALID_PARAM, None, s)
       | Some m \<Rightarrow>
           map_option (\<lambda>(err, m, s). (err, Some m, s))
             (fork_loop e ans (nat (worker_count (wm_config m))) 0 (m, s))))"

subsection \<open>Workers\<close>

definition in_range :: "worker_manager \<Rightarrow> bool" where
  "in_range m \<longleftrightarrow> 0 \<le> wm_current m \<and> wm_current m < worker_count (wm_config m)"

definition worker_manager_signal_ready ::
  "bool \<Rightarrow> worker_manager option \<times> proc_state \<Rightarrow>
     (process_error \<times> worker_manager option \<times> proc_state) option" where
  "worker_manager_signal_ready write_ok ms =
     (case ms of (manager, s) \<Rightarrow>
      (case manager of
         None \<Rightarrow> Some (PROCESS_ERROR_INVALID_PARAM, None, s)
       | Some m \<Rightarrow>
           if wm_type m \<noteq> PROCESS_TYPE_WORKER then Some (PROCESS_ERROR_INVALID_PARAM, Some m, s)
           else if \<not> in_range m then Some (PROCESS_ERROR_INVALID_PARAM, Some m, s)
           else
             Option.bind (worker_at m s (nat (wm_current m))) (\<lambda>w.
             if wc_eventfd w \<le> 0 then Some (PROCESS_ERROR_INVALID_PARAM, Some m, s)
             else if \<not> write_ok then Some (PROCESS_ERROR_EVENTFD, Some m, s)
             else
               Option.bind (set_worker (nat (wm_current m)) (w\<lparr>wc_eventfd := -1\<rparr>) m
                     (close_fd (wc_eventfd w) (s\<lparr>pr_written := pr_written s @ [wc_eventfd w]\<rparr>))) (\<lambda>s.
               Some (PROCESS_OK, Some m, s)))))"

text \<open>\<open>wait\<close> answers the process that exited, or -1.\<close>

definition worker_manager_wait_workers ::
  "log_env \<Rightarrow> int \<Rightarrow> worker_manager option \<times> proc_state \<Rightarrow>
     (process_error \<times> worker_manager option \<times> proc_state) option" where
  "worker_manager_wait_workers e pid ms =
     (case ms of (manager, s) \<Rightarrow>
      (case manager of
         None \<Rightarrow> Some (PROCESS_ERROR_INVALID_PARAM, None, s)
       | Some m \<Rightarrow>
           if wm_type m \<noteq> PROCESS_TYPE_PARENT then Some (PROCESS_ERROR_INVALID_PARAM, Some m, s)
           else if pid = -1 then Some (PROCESS_ERROR_WAIT, Some m, s)
           else map_option (\<lambda>s. (PROCESS_OK, Some m, s))
                  (plog (log_error_msg e (Some (''A worker process (PID: '' @ dec_int pid @
                     '') has exited unexpectedly. Shutting down''))) s)))"

definition worker_manager_get_type :: "worker_manager option \<Rightarrow> process_type" where
  "worker_manager_get_type manager = (case manager of None \<Rightarrow> PROCESS_TYPE_PARENT | Some m \<Rightarrow> wm_type m)"

definition worker_manager_get_worker_id :: "worker_manager option \<Rightarrow> int" where
  "worker_manager_get_worker_id manager =
     (case manager of None \<Rightarrow> -1
      | Some m \<Rightarrow> if wm_type m \<noteq> PROCESS_TYPE_WORKER then -1 else wm_current m)"

definition worker_manager_get_cpu_id :: "worker_manager option \<Rightarrow> proc_state \<Rightarrow> int option" where
  "worker_manager_get_cpu_id manager s =
     (case manager of None \<Rightarrow> Some (-1)
      | Some m \<Rightarrow>
          if wm_type m \<noteq> PROCESS_TYPE_WORKER then Some (-1)
          else if \<not> in_range m then Some (-1)
          else map_option wc_cpu_id (worker_at m s (nat (wm_current m))))"

subsection \<open>Facts\<close>

text \<open>An initialised manager, with its CPU numbers \<open>ids\<close> and its table \<open>ws\<close>.\<close>

definition manager_ok :: "worker_manager \<Rightarrow> proc_state \<Rightarrow> int list \<Rightarrow> worker_context list \<Rightarrow> bool" where
  "manager_ok m s ids ws \<longleftrightarrow>
     0 < worker_count (wm_config m) \<and> length ids = nat (worker_count (wm_config m)) \<and>
     length ws = length ids \<and> (\<exists>b. wm_workers m = Some b \<and> pr_tables s b = Some ws) \<and>
     (\<exists>a. wk_cpu_ids (wm_config m) = Some a \<and> pr_arrays s a = Some ids) \<and> \<not> log_locked (pr_log s)"

lemma init_run:
  assumes "0 < worker_count c" and "wk_cpu_ids c = Some a" and "pr_arrays s a = Some ids"
    and "nat (worker_count c) \<le> length ids" and "pr_arrays s (pr_next s) = None"
    and "\<not> log_locked (pr_log s)"
  shows "\<exists>m s'. worker_manager_init True True (Some c) (Some m0, s) = Some (PROCESS_OK, Some m, s') \<and>
    manager_ok m s' (take (nat (worker_count c)) ids) (replicate (nat (worker_count c)) zeroed_worker) \<and>
    wm_type m = PROCESS_TYPE_PARENT \<and> wm_current m = -1 \<and>
    enable_affinity (wm_config m) = enable_affinity c \<and>
    wk_cpu_ids (wm_config m) = Some (pr_next s) \<and> wm_workers m = Some (Suc (pr_next s)) \<and>
    pr_tables s' = (pr_tables s)(Suc (pr_next s) := Some (replicate (nat (worker_count c)) zeroed_worker)) \<and>
    pr_arrays s' = (pr_arrays s)(pr_next s := Some (take (nat (worker_count c)) ids)) \<and>
    pr_closed s' = pr_closed s \<and> pr_log s' = pr_log s"
proof -
  have ne: "a \<noteq> pr_next s" using assms(3,5) by auto
  obtain sys where sys: "system_init (pr_system s) = (SYSTEM_OK, sys)"
    by (cases "system_initialized (pr_system s)") (auto simp: system_init_def)
  show ?thesis
    using assms sys ne
    by (auto simp: worker_manager_init_def Let_def read_n_def alloc_array_def alloc_table_def manager_ok_def
        zeroed_workers_def)
qed

definition done_worker :: "int list \<Rightarrow> (nat \<Rightarrow> fork_answer) \<Rightarrow> nat \<Rightarrow> worker_context" where
  "done_worker ids ans i =
     \<lparr>wc_worker_id = int i, wc_cpu_id = ids ! i, wc_eventfd = -1, wc_pid = fa_pid (ans i)\<rparr>"

lemma done_worker_eventfd [simp]: "wc_eventfd (done_worker ids ans i) = -1"
  by (simp add: done_worker_def)

definition good_answer :: "fork_answer \<Rightarrow> bool" where
  "good_answer a \<longleftrightarrow> 0 < fa_eventfd a \<and> 0 < fa_pid a \<and> fa_read_ok a"

text \<open>The manager and the state after the parent forked the first \<open>j\<close> workers.\<close>

definition forked :: "int list \<Rightarrow> (nat \<Rightarrow> fork_answer) \<Rightarrow> nat \<Rightarrow> worker_manager \<times> proc_state \<Rightarrow>
    worker_context list \<Rightarrow> worker_manager \<times> proc_state \<Rightarrow> bool" where
  "forked ids ans j ms ws ms' \<longleftrightarrow>
     fst ms' = fst ms \<and>
     (\<exists>l. \<not> log_locked l \<and>
       snd ms' = (snd ms)\<lparr>pr_tables := (pr_tables (snd ms))(the (wm_workers (fst ms)) :=
                           Some (map (done_worker ids ans) [0..<j] @ drop j ws)),
                         pr_closed := pr_closed (snd ms) @ map (\<lambda>i. fa_eventfd (ans i)) [0..<j],
                         pr_log := l\<rparr>)"

lemma list_update_next:
  "length xs = i \<Longrightarrow> i < length ws \<Longrightarrow> (xs @ drop i ws)[i := c] = (xs @ [c]) @ drop (Suc i) ws"
  by (simp add: list_update_append Cons_nth_drop_Suc [symmetric])

lemma plog_run:
  "\<not> log_locked (pr_log s) \<Longrightarrow>
     \<exists>l. plog (log_internal e lev msg) s = Some (s\<lparr>pr_log := l\<rparr>) \<and> \<not> log_locked l"
  using log_internal_defined [of "pr_log s" e lev msg] by (auto simp: plog_def)

lemma set_worker_at:
  "\<lbrakk>wm_workers m = Some b; pr_tables s b = Some ws; i < length ws\<rbrakk> \<Longrightarrow>
   set_worker i c m s = Some (s\<lparr>pr_tables := (pr_tables s)(b := Some (ws[i := c]))\<rparr>)"
  by (simp add: set_worker_def)

lemma forkedE:
  assumes "manager_ok m s ids ws" and "forked ids ans j (m, s) ws (m1, s1)"
  obtains b l where "wm_workers m = Some b" "pr_tables s b = Some ws" "m1 = m" "\<not> log_locked l"
    "s1 = s\<lparr>pr_tables := (pr_tables s)(b := Some (map (done_worker ids ans) [0..<j] @ drop j ws)),
           pr_closed := pr_closed s @ map (\<lambda>i. fa_eventfd (ans i)) [0..<j], pr_log := l\<rparr>"
  using assms by (auto simp: manager_ok_def forked_def)

lemma close_earlier_done:
  assumes "\<And>j. j < i \<Longrightarrow> \<exists>c. worker_at m s j = Some c \<and> wc_eventfd c \<le> 0" and "j + n \<le> i"
  shows "close_earlier n j (m, s) = Some (m, s)"
  using assms(2)
proof (induction n arbitrary: j)
  case (Suc n)
  moreover obtain c where "worker_at m s j = Some c" "wc_eventfd c \<le> 0" using assms(1) [of j] Suc.prems by auto
  ultimately show ?case by simp
qed simp

lemma parent_round:
  assumes "manager_ok m s ids ws" and "forked ids ans j (m, s) ws (m1, s1)" and "j < length ids"
    and "good_answer (ans j)"
  shows "\<exists>m2 s2. fork_parent e (ans j) j (m1, s1) = Some (PROCESS_OK, m2, s2) \<and>
    forked ids ans (Suc j) (m, s) ws (m2, s2)"
proof -
  let ?done = "map (done_worker ids ans) [0..<j]" and ?fd = "fa_eventfd (ans j)"
  obtain b l where b: "wm_workers m = Some b" "pr_tables s b = Some ws" and m1: "m1 = m" and l: "\<not> log_locked l"
    and s1: "s1 = s\<lparr>pr_tables := (pr_tables s)(b := Some (?done @ drop j ws)),
      pr_closed := pr_closed s @ map (\<lambda>i. fa_eventfd (ans i)) [0..<j], pr_log := l\<rparr>"
    by (rule forkedE [OF assms(1,2)])
  have len: "length ws = length ids" "length ?done = j" using assms(1) by (auto simp: manager_ok_def)
  have cpu: "array_at s1 (wk_cpu_ids (wm_config m)) j = Some (ids ! j)"
    using assms(1,3) by (auto simp: manager_ok_def array_at_def s1)
  let ?w = "\<lparr>wc_worker_id = int j, wc_cpu_id = ids ! j, wc_eventfd = ?fd, wc_pid = fa_pid (ans j)\<rparr>"
  let ?t = "\<lambda>c. (pr_tables s)(b := Some ((?done @ [c]) @ drop (Suc j) ws))"
  have set: "set_worker j ?w m s1 = Some (s1\<lparr>pr_tables := ?t ?w\<rparr>)"
    using set_worker_at [OF b(1), of s1 "?done @ drop j ws" j ?w] assms(3) len list_update_next [OF len(2), of ws]
    by (simp add: s1)
  have done_eq: "?w\<lparr>wc_eventfd := -1\<rparr> = done_worker ids ans j" by (simp add: done_worker_def)
  let ?s = "close_fd ?fd (s1\<lparr>pr_tables := ?t (done_worker ids ans j)\<rparr>)"
  have set2: "set_worker j (?w\<lparr>wc_eventfd := -1\<rparr>) m (close_fd ?fd (s1\<lparr>pr_tables := ?t ?w\<rparr>)) = Some ?s"
    unfolding done_eq
    using set_worker_at [OF b(1), of "close_fd ?fd (s1\<lparr>pr_tables := ?t ?w\<rparr>)" "(?done @ [?w]) @ drop (Suc j) ws" j] assms(3) len
    by (simp add: close_fd_def list_update_append)
  let ?msg = "Some (''Worker '' @ dec j @ '' running on CPU '' @ dec_int (ids ! j) @
      '' (PID: '' @ dec_int (fa_pid (ans j)) @ '')'')"
  obtain l2 where l2: "plog (log_internal e LOG_LEVEL_INFO ?msg) ?s = Some (?s\<lparr>pr_log := l2\<rparr>)"
    "\<not> log_locked l2"
    using plog_run [of ?s e LOG_LEVEL_INFO ?msg] l by (auto simp: close_fd_def s1)
  have "fork_parent e (ans j) j (m1, s1) = Some (PROCESS_OK, m, ?s\<lparr>pr_log := l2\<rparr>)"
    using cpu set set2 l2(1) assms(4) by (simp add: fork_parent_def m1 Let_def log_info_msg_def good_answer_def)
  moreover have "forked ids ans (Suc j) (m, s) ws (m, ?s\<lparr>pr_log := l2\<rparr>)"
    using l2(2) b by (auto simp: forked_def close_fd_def s1)
  ultimately show ?thesis by blast
qed

lemma fork_prefix:
  assumes "manager_ok m s ids ws" and "\<forall>i < j. good_answer (ans i)" and "j + k = length ids"
  shows "\<exists>m1 s1. forked ids ans j (m, s) ws (m1, s1) \<and>
    fork_loop e ans (j + k) 0 (m, s) = fork_loop e ans k j (m1, s1)"
  using assms(2,3)
proof (induction j arbitrary: k)
  case 0
  obtain b where "wm_workers m = Some b" "pr_tables s b = Some ws" using assms(1) by (auto simp: manager_ok_def)
  moreover from this have "(pr_tables s)(b := Some ws) = pr_tables s" by auto
  ultimately have "forked ids ans 0 (m, s) ws (m, s)"
    using assms(1) by (auto simp: forked_def manager_ok_def intro!: exI [of _ "pr_log s"])
  then show ?case by auto
next
  case (Suc j)
  then obtain m1 s1 where IH: "forked ids ans j (m, s) ws (m1, s1)"
    "fork_loop e ans (j + Suc k) 0 (m, s) = fork_loop e ans (Suc k) j (m1, s1)"
    by (metis add_Suc_shift less_Suc_eq)
  obtain m2 s2 where r: "fork_parent e (ans j) j (m1, s1) = Some (PROCESS_OK, m2, s2)"
    "forked ids ans (Suc j) (m, s) ws (m2, s2)"
    using parent_round [OF assms(1) IH(1), of e] Suc.prems by auto
  have "good_answer (ans j)" using Suc.prems by simp
  then have "fork_loop e ans (Suc k) j (m1, s1) = fork_loop e ans k (Suc j) (m2, s2)"
    using r(1) by (simp add: good_answer_def Let_def)
  then show ?case using IH(2) r(2) by auto
qed

lemma close_workers_run:
  "n \<le> length ws \<Longrightarrow>
     close_workers ws n s =
       Some (s\<lparr>pr_closed := pr_closed s @ filter (\<lambda>fd. fd > 0) (map wc_eventfd (take n ws))\<rparr>)"
  by (induction ws n s rule: close_workers.induct) (auto simp: close_fd_def)

lemma cleanup_run:
  assumes "manager_ok m s ids ws'" and "wm_workers m1 = wm_workers m"
    and "pr_tables s1 (the (wm_workers m)) = Some ws" and "length ws = length ids"
    and "wm_config m1 = wm_config m" and "pr_arrays s1 = pr_arrays s"
  shows "\<exists>s2. worker_manager_cleanup (Some m1, s1) = Some (Some zeroed_workers, s2) \<and>
    pr_closed s2 = pr_closed s1 @ filter (\<lambda>fd. fd > 0) (map wc_eventfd ws) \<and> pr_log s2 = pr_log s1 \<and>
    pr_arrays s2 = (pr_arrays s1)(the (wk_cpu_ids (wm_config m)) := None) \<and>
    pr_tables s2 = (pr_tables s1)(the (wm_workers m) := None)"
proof -
  obtain a b where a: "wk_cpu_ids (wm_config m) = Some a" "pr_arrays s a = Some ids" "wm_workers m = Some b"
    "nat (worker_count (wm_config m)) = length ws"
    using assms by (auto simp: manager_ok_def)
  then show ?thesis
    using assms(2-6) close_workers_run [of "length ws" ws]
    by (simp add: worker_manager_cleanup_def free_array_def free_table_def)
qed

lemma fork_workers_eq:
  "manager_ok m s ids ws \<Longrightarrow>
     worker_manager_fork_workers e ans (Some m, s) =
       map_option (\<lambda>(err, m, s). (err, Some m, s)) (fork_loop e ans (length ids) 0 (m, s))"
  by (simp add: worker_manager_fork_workers_def manager_ok_def)

lemma forked_cleanup:
  assumes "manager_ok m s ids ws" and "forked ids ans (length ids) (m, s) ws (m1, s1)"
    and "pr_arrays s2 = pr_arrays s1" and "pr_tables s2 = pr_tables s1"
  shows "\<exists>s3. worker_manager_cleanup (Some m1, s2) = Some (Some zeroed_workers, s3) \<and>
    pr_closed s3 = pr_closed s2 \<and> pr_tables s3 (the (wm_workers m)) = None"
proof -
  let ?ws = "map (done_worker ids ans) [0..<length ids]"
  have m1: "m1 = m" "pr_arrays s1 = pr_arrays s" "pr_tables s1 (the (wm_workers m)) = Some ?ws"
    using assms(1,2) by (auto simp: forked_def manager_ok_def)
  have "filter (\<lambda>fd. 0 < fd) (map wc_eventfd (map (done_worker ids ans) xs)) = []" for xs
    by (induction xs) (simp_all add: done_worker_def)
  then show ?thesis
    using cleanup_run [OF assms(1), of m1 s2 ?ws] m1 assms(3,4) by auto
qed

lemma fork_all_run:
  assumes "manager_ok m s ids ws" and "\<forall>i < length ids. good_answer (ans i)"
  shows "\<exists>s1 l. forked ids ans (length ids) (m, s) ws (m, s1) \<and> \<not> log_locked l \<and>
    worker_manager_fork_workers e ans (Some m, s) = Some (PROCESS_OK, Some m, s1\<lparr>pr_log := l\<rparr>)"
proof -
  obtain m1 s1 where f: "forked ids ans (length ids) (m, s) ws (m1, s1)"
    "fork_loop e ans (length ids) 0 (m, s) = fork_loop e ans 0 (length ids) (m1, s1)"
    using fork_prefix [OF assms, of 0 e] by auto
  then have m1: "m1 = m" and free: "\<not> log_locked (pr_log s1)" by (auto simp: forked_def)
  let ?msg = "Some (''libreactor running with '' @ dec_int (worker_count (wm_config m)) @ '' worker processes'')"
  obtain l where l: "plog (log_internal e LOG_LEVEL_INFO ?msg) s1 = Some (s1\<lparr>pr_log := l\<rparr>)" "\<not> log_locked l"
    using plog_run [OF free] by blast
  then show ?thesis
    using f by (auto simp: fork_workers_eq [OF assms(1)] log_info_msg_def m1)
qed

subsection \<open>Properties\<close>

text \<open>
  C10. When every worker starts and signals, the parent returns with the table of all workers filled in,
  each on its CPU and under its process number; every event descriptor it created is closed exactly
  once, during the start, and the cleanup closes none again and frees the table.
\<close>

theorem parent_starts_all_workers:
  assumes "manager_ok m s ids ws" and "\<forall>i < length ids. good_answer (ans i)"
  shows "\<exists>m' s' s''. worker_manager_fork_workers e ans (Some m, s) = Some (PROCESS_OK, Some m', s') \<and>
    Option.bind (wm_workers m') (pr_tables s') =
      Some (map (\<lambda>i. \<lparr>wc_worker_id = int i, wc_cpu_id = ids ! i, wc_eventfd = -1,
                       wc_pid = fa_pid (ans i)\<rparr>) [0..<length ids]) \<and>
    wm_type m' = wm_type m \<and>
    worker_manager_cleanup (Some m', s') = Some (Some zeroed_workers, s'') \<and>
    pr_closed s'' = pr_closed s @ map (\<lambda>i. fa_eventfd (ans i)) [0..<length ids] \<and>
    Option.bind (wm_workers m') (pr_tables s'') = None"
proof -
  obtain s1 l where f: "forked ids ans (length ids) (m, s) ws (m, s1)"
    and run: "worker_manager_fork_workers e ans (Some m, s) = Some (PROCESS_OK, Some m, s1\<lparr>pr_log := l\<rparr>)"
    using fork_all_run [OF assms] by blast
  obtain s3 where "worker_manager_cleanup (Some m, s1\<lparr>pr_log := l\<rparr>) = Some (Some zeroed_workers, s3)"
    "pr_closed s3 = pr_closed s1" "pr_tables s3 (the (wm_workers m)) = None"
    using forked_cleanup [OF assms(1) f, of "s1\<lparr>pr_log := l\<rparr>"] by auto
  then show ?thesis
    using run f assms(1) by (auto simp: forked_def manager_ok_def done_worker_def fun_eq_iff)
qed

definition ex_manager :: worker_manager where
  "ex_manager = \<lparr>wm_config = \<lparr>worker_count = 2, wk_cpu_ids = Some 7, enable_affinity = True\<rparr>,
     wm_workers = Some 8, wm_type = PROCESS_TYPE_PARENT, wm_current = -1\<rparr>"

definition ex_proc :: proc_state where
  "ex_proc = \<lparr>pr_arrays = (\<lambda>a. if a = 7 then Some [4, 6] else None),
     pr_tables = (\<lambda>a. if a = 8 then Some [zeroed_worker, zeroed_worker] else None), pr_next = 9,
     pr_system = \<lparr>system_initialized = True, sigpipe_ignored = True\<rparr>, pr_closed = [], pr_written = [],
     pr_log = initial_log\<rparr>"

definition ex_answers :: "nat \<Rightarrow> fork_answer" where
  "ex_answers i = \<lparr>fa_eventfd = 20, fa_pid = 1000 + int i, fa_read_ok = True, fa_affinity = (\<lambda>_. True)\<rparr>"

lemma ex_manager_ok [simp]: "manager_ok ex_manager ex_proc [4, 6] [zeroed_worker, zeroed_worker]"
  by (simp add: manager_ok_def ex_manager_def ex_proc_def initial_log_def)

lemma parent_starts_all_workers_witness:
  "\<exists>m' s' s''. worker_manager_fork_workers ex_log_env ex_answers (Some ex_manager, ex_proc) =
      Some (PROCESS_OK, Some m', s') \<and>
    Option.bind (wm_workers m') (pr_tables s') =
      Some (map (\<lambda>i. \<lparr>wc_worker_id = int i, wc_cpu_id = [4, 6] ! i, wc_eventfd = -1,
                       wc_pid = fa_pid (ex_answers i)\<rparr>) [0..<length [4, 6 :: int]]) \<and>
    wm_type m' = wm_type ex_manager \<and>
    worker_manager_cleanup (Some m', s') = Some (Some zeroed_workers, s'') \<and>
    pr_closed s'' = pr_closed ex_proc @ map (\<lambda>i. fa_eventfd (ex_answers i)) [0..<length [4, 6 :: int]] \<and>
    Option.bind (wm_workers m') (pr_tables s'') = None"
  by (rule parent_starts_all_workers [OF ex_manager_ok]) (simp add: good_answer_def ex_answers_def)

text \<open>
  C28. The process forked as worker \<open>i\<close> returns as a worker that knows its number and its CPU; signalling
  ready then writes to its own event descriptor and closes it, and a second signal is refused.
\<close>

theorem child_signals_once:
  assumes "manager_ok m s ids ws" and "i < length ids" and "\<forall>j < i. good_answer (ans j)"
    and "fa_pid (ans i) = 0" and "0 < fa_eventfd (ans i)" and "fa_affinity (ans i) (cpu_single (ids ! i))"
  shows "\<exists>m' s' m'' s''. worker_manager_fork_workers e ans (Some m, s) = Some (PROCESS_OK, Some m', s') \<and>
    worker_manager_get_type (Some m') = PROCESS_TYPE_WORKER \<and>
    worker_manager_get_worker_id (Some m') = int i \<and>
    worker_manager_get_cpu_id (Some m') s' = Some (ids ! i) \<and>
    worker_manager_signal_ready True (Some m', s') = Some (PROCESS_OK, Some m'', s'') \<and>
    pr_written s'' = pr_written s @ [fa_eventfd (ans i)] \<and>
    pr_closed s'' = pr_closed s @ map (\<lambda>j. fa_eventfd (ans j)) [0..<i] @ [fa_eventfd (ans i)] \<and>
    worker_manager_signal_ready True (Some m'', s'') = Some (PROCESS_ERROR_INVALID_PARAM, Some m'', s'')"
proof -
  obtain k where k: "length ids = i + Suc k" using assms(2) by (metis add_Suc_right less_imp_Suc_add)
  obtain m1 s1 where f: "forked ids ans i (m, s) ws (m1, s1)"
    "fork_loop e ans (i + Suc k) 0 (m, s) = fork_loop e ans (Suc k) i (m1, s1)"
    using fork_prefix [OF assms(1,3), of "Suc k" e] k by auto
  let ?done = "map (done_worker ids ans) [0..<i]" and ?fd = "fa_eventfd (ans i)"
  obtain b l where b: "wm_workers m = Some b" "pr_tables s b = Some ws" and m1: "m1 = m"
    and s1: "s1 = s\<lparr>pr_tables := (pr_tables s)(b := Some (?done @ drop i ws)),
      pr_closed := pr_closed s @ map (\<lambda>j. fa_eventfd (ans j)) [0..<i], pr_log := l\<rparr>"
    by (rule forkedE [OF assms(1) f(1)])
  have len: "length ws = length ids" "length ?done = i"
    "nat (worker_count (wm_config m)) = length ids" "0 < worker_count (wm_config m)"
    using assms(1) by (auto simp: manager_ok_def)
  have cpu: "array_at s1 (wk_cpu_ids (wm_config m)) i = Some (ids ! i)"
    using assms(1,2) by (auto simp: manager_ok_def array_at_def s1)
  let ?w = "(ws ! i)\<lparr>wc_eventfd := ?fd, wc_cpu_id := ids ! i\<rparr>"
  let ?t = "\<lambda>c. (pr_tables s)(b := Some ((?done @ [c]) @ drop (Suc i) ws))"
  let ?m = "m\<lparr>wm_type := PROCESS_TYPE_WORKER, wm_current := int i\<rparr>" and ?s1 = "s1\<lparr>pr_tables := ?t ?w\<rparr>"
  have at: "worker_at ?m ?s1 j = Some (if j < i then done_worker ids ans j else ?w)" if "j \<le> i" for j
    using that len assms(2) b by (auto simp: worker_at_def nth_append)
  have early: "close_earlier i 0 (?m, ?s1) = Some (?m, ?s1)"
    by (rule close_earlier_done [of i]) (simp_all only: at [OF less_imp_le] if_True option.inject ex_simps
      done_worker_eventfd, auto)
  have old: "worker_at ?m s1 i = Some (ws ! i)"
    using len assms(2) b by (simp add: worker_at_def s1 nth_append)
  have upd: "set_worker i ?w ?m s1 = Some ?s1"
    using set_worker_at [of ?m b s1 "?done @ drop i ws" i ?w] b len assms(2) list_update_next [OF len(2), of ws]
    by (simp add: s1)
  have child: "fork_child (ans i) i (m1, s1) = Some (PROCESS_OK, ?m, ?s1)"
    using cpu assms(6) early old upd
    by (simp add: fork_child_def m1 system_set_cpu_affinity_def Let_def)
  then have run: "worker_manager_fork_workers e ans (Some m, s) = Some (PROCESS_OK, Some ?m, ?s1)"
    using f(2) assms(4,5) k by (simp add: fork_workers_eq [OF assms(1)])
  let ?s2 = "close_fd ?fd (s1\<lparr>pr_tables := ?t (?w\<lparr>wc_eventfd := -1\<rparr>), pr_written := pr_written s @ [?fd]\<rparr>)"
  have range: "in_range ?m" using assms(2) len by (simp add: in_range_def)
  have set: "set_worker i (?w\<lparr>wc_eventfd := -1\<rparr>) ?m (close_fd ?fd (?s1\<lparr>pr_written := pr_written s @ [?fd]\<rparr>)) = Some ?s2"
    using set_worker_at [of ?m b "close_fd ?fd (?s1\<lparr>pr_written := pr_written s @ [?fd]\<rparr>)" "(?done @ [?w]) @ drop (Suc i) ws" i]
      b len assms(2) by (simp add: close_fd_def list_update_append)
  have "pr_written s1 = pr_written s" by (simp add: s1)
  then have sig: "worker_manager_signal_ready True (Some ?m, ?s1) = Some (PROCESS_OK, Some ?m, ?s2)"
    using range at [of i] set assms(5) by (simp add: worker_manager_signal_ready_def)
  have "worker_at ?m ?s2 i = Some (?w\<lparr>wc_eventfd := -1\<rparr>)"
    using len assms(2) b by (simp add: worker_at_def nth_append close_fd_def)
  then have sig2: "worker_manager_signal_ready True (Some ?m, ?s2) =
      Some (PROCESS_ERROR_INVALID_PARAM, Some ?m, ?s2)"
    using range by (simp add: worker_manager_signal_ready_def)
  have "worker_manager_get_type (Some ?m) = PROCESS_TYPE_WORKER"
    "worker_manager_get_worker_id (Some ?m) = int i"
    "worker_manager_get_cpu_id (Some ?m) ?s1 = Some (ids ! i)"
    using range at [of i]
    by (simp_all add: worker_manager_get_type_def worker_manager_get_worker_id_def
        worker_manager_get_cpu_id_def)
  moreover have "pr_written ?s2 = pr_written s @ [?fd]"
    "pr_closed ?s2 = pr_closed s @ map (\<lambda>j. fa_eventfd (ans j)) [0..<i] @ [?fd]"
    by (simp_all add: s1 close_fd_def)
  ultimately show ?thesis using run sig sig2 by blast
qed

lemma child_signals_once_witness:
  "\<exists>m' s' m'' s''. worker_manager_fork_workers ex_log_env
        (\<lambda>i. if i = 1 then (ex_answers i)\<lparr>fa_pid := 0, fa_eventfd := 21\<rparr> else ex_answers i)
        (Some ex_manager, ex_proc) = Some (PROCESS_OK, Some m', s') \<and>
    worker_manager_get_type (Some m') = PROCESS_TYPE_WORKER \<and>
    worker_manager_get_worker_id (Some m') = int 1 \<and>
    worker_manager_get_cpu_id (Some m') s' = Some ([4, 6] ! 1) \<and>
    worker_manager_signal_ready True (Some m', s') = Some (PROCESS_OK, Some m'', s'') \<and>
    pr_written s'' = pr_written ex_proc @ [21] \<and>
    pr_closed s'' = pr_closed ex_proc @ [20] @ [21] \<and>
    worker_manager_signal_ready True (Some m'', s'') = Some (PROCESS_ERROR_INVALID_PARAM, Some m'', s'')"
  using child_signals_once [OF ex_manager_ok, where i = 1 and e = ex_log_env and
      ans = "\<lambda>i. if i = 1 then (ex_answers i)\<lparr>fa_pid := 0, fa_eventfd := 21\<rparr> else ex_answers i"]
  by (simp add: good_answer_def ex_answers_def)

text \<open>
  When the parent cannot read a worker's event descriptor it closes the descriptor, but the table
  still names it: the cleanup closes the same descriptor a second time.
\<close>

theorem failed_wait_closes_twice:
  assumes "manager_ok m s ids ws" and "list_all (\<lambda>w. wc_eventfd w \<le> 0) ws" and "j < length ids"
    and "\<forall>i < j. good_answer (ans i)" and "0 < fa_eventfd (ans j)" and "0 < fa_pid (ans j)"
    and "\<not> fa_read_ok (ans j)"
  shows "\<exists>m' s' s''. worker_manager_fork_workers e ans (Some m, s) = Some (PROCESS_ERROR_EVENTFD, Some m', s') \<and>
    worker_manager_cleanup (Some m', s') = Some (Some zeroed_workers, s'') \<and>
    pr_closed s'' = pr_closed s @ map (\<lambda>i. fa_eventfd (ans i)) [0..<j] @ [fa_eventfd (ans j), fa_eventfd (ans j)]"
proof -
  obtain k where k: "length ids = j + Suc k" using assms(3) by (metis add_Suc_right less_imp_Suc_add)
  obtain m1 s1 where f: "forked ids ans j (m, s) ws (m1, s1)"
    "fork_loop e ans (j + Suc k) 0 (m, s) = fork_loop e ans (Suc k) j (m1, s1)"
    using fork_prefix [OF assms(1,4), of "Suc k" e] k by auto
  let ?done = "map (done_worker ids ans) [0..<j]"
  let ?w = "\<lparr>wc_worker_id = int j, wc_cpu_id = ids ! j, wc_eventfd = fa_eventfd (ans j), wc_pid = fa_pid (ans j)\<rparr>"
  let ?ws = "(?done @ [?w]) @ drop (Suc j) ws"
  obtain b l where b: "wm_workers m = Some b" "pr_tables s b = Some ws" and m1: "m1 = m"
    and s1: "s1 = s\<lparr>pr_tables := (pr_tables s)(b := Some (?done @ drop j ws)),
      pr_closed := pr_closed s @ map (\<lambda>i. fa_eventfd (ans i)) [0..<j], pr_log := l\<rparr>"
    by (rule forkedE [OF assms(1) f(1)])
  have len: "length ws = length ids" "length ?done = j" using assms(1) by (auto simp: manager_ok_def)
  have cpu: "array_at s1 (wk_cpu_ids (wm_config m)) j = Some (ids ! j)"
    using assms(1,3) by (auto simp: manager_ok_def array_at_def s1)
  let ?s = "close_fd (fa_eventfd (ans j)) (s1\<lparr>pr_tables := (pr_tables s)(b := Some ?ws)\<rparr>)"
  have set: "set_worker j ?w m s1 = Some (s1\<lparr>pr_tables := (pr_tables s)(b := Some ?ws)\<rparr>)"
    using set_worker_at [OF b(1), of s1 "?done @ drop j ws" j ?w] assms(3) len list_update_next [OF len(2), of ws]
    by (simp add: s1)
  have "fork_parent e (ans j) j (m1, s1) = Some (PROCESS_ERROR_EVENTFD, m, ?s)"
    using cpu set assms(7) by (simp add: fork_parent_def m1 Let_def)
  then have run: "worker_manager_fork_workers e ans (Some m, s) = Some (PROCESS_ERROR_EVENTFD, Some m, ?s)"
    using f(2) assms(5,6) k by (simp add: fork_workers_eq [OF assms(1)] Let_def)
  have none: "filter (\<lambda>fd. 0 < fd) (map wc_eventfd (map (done_worker ids ans) xs)) = []" for xs
    by (induction xs) simp_all
  have "filter (\<lambda>fd. 0 < fd) (map wc_eventfd (drop (Suc j) ws)) = []"
    using assms(2) by (fastforce simp: list_all_iff filter_empty_conv dest: in_set_dropD)
  then have fds: "filter (\<lambda>fd. 0 < fd) (map wc_eventfd ?ws) = [fa_eventfd (ans j)]"
    using none [of "[0..<j]"] assms(5) by simp
  have "length ?ws = length ids" using len assms(3) by simp
  then obtain s2 where "worker_manager_cleanup (Some m, ?s) = Some (Some zeroed_workers, s2)"
    "pr_closed s2 = pr_closed ?s @ [fa_eventfd (ans j)]"
    using cleanup_run [OF assms(1), of m ?s ?ws] b fds by (auto simp: close_fd_def s1)
  then show ?thesis using run by (auto simp: close_fd_def s1)
qed

lemma failed_wait_closes_twice_witness:
  "\<exists>m' s' s''. worker_manager_fork_workers ex_log_env (\<lambda>i. (ex_answers i)\<lparr>fa_read_ok := False\<rparr>)
        (Some ex_manager, ex_proc) = Some (PROCESS_ERROR_EVENTFD, Some m', s') \<and>
    worker_manager_cleanup (Some m', s') = Some (Some zeroed_workers, s'') \<and>
    pr_closed s'' = pr_closed ex_proc @ map (\<lambda>i. fa_eventfd ((ex_answers i)\<lparr>fa_read_ok := False\<rparr>)) [0..<0] @ [20, 20]"
  using failed_wait_closes_twice [OF ex_manager_ok, where j = 0 and e = ex_log_env and
      ans = "\<lambda>i. (ex_answers i)\<lparr>fa_read_ok := False\<rparr>"]
  by (simp add: ex_answers_def zeroed_worker_def)

text \<open>
  Initialisation copies the CPU numbers into an array of the manager's own; but when the second
  allocation fails it frees the copy and keeps its address, so that the cleanup of the manager frees it
  a second time.
\<close>

theorem init_copies_or_dangles:
  assumes "0 < worker_count c" and "wk_cpu_ids c = Some a" and "pr_arrays s a = Some ids"
    and "nat (worker_count c) \<le> length ids" and "pr_arrays s (pr_next s) = None"
    and "\<not> log_locked (pr_log s)"
  shows "(\<exists>m s'. worker_manager_init True True (Some c) (Some m0, s) = Some (PROCESS_OK, Some m, s') \<and>
      manager_ok m s' (take (nat (worker_count c)) ids) (replicate (nat (worker_count c)) zeroed_worker) \<and>
      wk_cpu_ids (wm_config m) \<noteq> Some a \<and> pr_arrays s' a = Some ids) \<and>
    (\<exists>m s'. worker_manager_init True False (Some c) (Some m0, s) = Some (PROCESS_ERROR_INVALID_PARAM, Some m, s') \<and>
      worker_manager_cleanup (Some m, s') = None)"
proof (intro conjI)
  have "a \<noteq> pr_next s" using assms(3,5) by auto
  then show "\<exists>m s'. worker_manager_init True True (Some c) (Some m0, s) = Some (PROCESS_OK, Some m, s') \<and>
      manager_ok m s' (take (nat (worker_count c)) ids) (replicate (nat (worker_count c)) zeroed_worker) \<and>
      wk_cpu_ids (wm_config m) \<noteq> Some a \<and> pr_arrays s' a = Some ids"
    using init_run [OF assms, of m0] assms(3) by auto
  obtain sys where sys: "system_init (pr_system s) = (SYSTEM_OK, sys)"
    by (cases "system_initialized (pr_system s)") (auto simp: system_init_def)
  show "\<exists>m s'. worker_manager_init True False (Some c) (Some m0, s) = Some (PROCESS_ERROR_INVALID_PARAM, Some m, s') \<and>
      worker_manager_cleanup (Some m, s') = None"
    using assms sys
    by (auto simp: worker_manager_init_def Let_def read_n_def alloc_array_def free_array_def
        worker_manager_cleanup_def)
qed

lemma init_copies_or_dangles_witness:
  "(\<exists>m s'. worker_manager_init True True (Some (wm_config ex_manager)) (Some zeroed_workers, ex_proc) =
        Some (PROCESS_OK, Some m, s') \<and>
      manager_ok m s' (take (nat (worker_count (wm_config ex_manager))) [4, 6])
        (replicate (nat (worker_count (wm_config ex_manager))) zeroed_worker) \<and>
      wk_cpu_ids (wm_config m) \<noteq> Some 7 \<and> pr_arrays s' 7 = Some [4, 6]) \<and>
    (\<exists>m s'. worker_manager_init True False (Some (wm_config ex_manager)) (Some zeroed_workers, ex_proc) =
        Some (PROCESS_ERROR_INVALID_PARAM, Some m, s') \<and>
      worker_manager_cleanup (Some m, s') = None)"
  by (rule init_copies_or_dangles) (simp_all add: ex_manager_def ex_proc_def initial_log_def)

end
