(* ===== verification/Worker_Startup.thy ===== *)
theory Worker_Startup
  imports Process
begin

text \<open>
  The start-up protocol between the parent (\<open>worker_manager_fork_workers\<close>, \<open>src/src/platform/process.c\<close>)
  and its workers (\<open>server_infrastructure_start\<close>), as a step relation over the whole group of
  processes: the parent forks one worker at a time and blocks in \<open>eventfd_read\<close> until that worker has
  called \<open>worker_manager_signal_ready\<close>. The parent keeps its own descriptor of the event counter, so a
  worker that exits does not wake it.
\<close>

text \<open>\<open>Start_failed i\<close>: the function has returned an error in the round of worker \<open>i\<close>.\<close>

datatype parent_state = Forking nat | Waiting nat | Start_failed nat | All_started

text \<open>
  \<open>Exited\<close> is a worker that left before signalling: no affinity, no address, no socket. \<open>Mute\<close> is one whose
  \<open>eventfd_write\<close> failed: the result of \<open>worker_manager_signal_ready\<close> is not looked at, and it goes on to
  serve. What a worker does once it has signalled does not matter here.
\<close>

datatype child_state = Absent | Starting | Ready | Mute | Exited

record group =
  gr_parent :: parent_state
  gr_child :: "nat \<Rightarrow> child_state"
  gr_counter :: "nat \<Rightarrow> nat"

definition initial_group :: group where
  "initial_group = \<lparr>gr_parent = Forking 0, gr_child = (\<lambda>_. Absent), gr_counter = (\<lambda>_. 0)\<rparr>"

text \<open>
  \<open>eventfd\<close> and \<open>fork\<close> may fail, and \<open>eventfd_read\<close> may fail at once. Once the read blocks, only a signalled
  counter ends it: the handlers are installed with \<open>SA_RESTART\<close>. When the parent has returned, a
  worker it has forked goes on by itself.
\<close>

inductive startup_step :: "nat \<Rightarrow> group \<Rightarrow> group \<Rightarrow> bool" for n :: nat where
  fork_worker: "gr_parent g = Forking i \<Longrightarrow> i < n \<Longrightarrow>
     startup_step n g (g\<lparr>gr_parent := Waiting i, gr_child := (gr_child g)(i := Starting)\<rparr>)"
| create_fails: "gr_parent g = Forking i \<Longrightarrow> i < n \<Longrightarrow> startup_step n g (g\<lparr>gr_parent := Start_failed i\<rparr>)"
| read_fails: "gr_parent g = Forking i \<Longrightarrow> i < n \<Longrightarrow>
     startup_step n g (g\<lparr>gr_parent := Start_failed i, gr_child := (gr_child g)(i := Starting)\<rparr>)"
| signal_ready: "gr_child g i = Starting \<Longrightarrow>
     startup_step n g (g\<lparr>gr_child := (gr_child g)(i := Ready), gr_counter := (gr_counter g)(i := gr_counter g i + 1)\<rparr>)"
| write_fails: "gr_child g i = Starting \<Longrightarrow>
     startup_step n g (g\<lparr>gr_child := (gr_child g)(i := Mute)\<rparr>)"
| give_up: "gr_child g i = Starting \<Longrightarrow>
     startup_step n g (g\<lparr>gr_child := (gr_child g)(i := Exited)\<rparr>)"
| read_counter: "gr_parent g = Waiting i \<Longrightarrow> 0 < gr_counter g i \<Longrightarrow>
     startup_step n g (g\<lparr>gr_parent := Forking (Suc i), gr_counter := (gr_counter g)(i := gr_counter g i - 1)\<rparr>)"
| all_forked: "gr_parent g = Forking n \<Longrightarrow> startup_step n g (g\<lparr>gr_parent := All_started\<rparr>)"

inductive reachable :: "nat \<Rightarrow> group \<Rightarrow> bool" for n :: nat where
  start: "reachable n initial_group"
| step: "reachable n g \<Longrightarrow> startup_step n g g' \<Longrightarrow> reachable n g'"

inductive_cases startup_stepE: "startup_step n g g'"

subsection \<open>The invariant\<close>

text \<open>
  The workers before the current one have signalled and been read, the later ones do not exist, and the
  current one is starting, ready with its signal pending, mute, or gone (or missing, after an error).
\<close>

definition startup_inv :: "nat \<Rightarrow> group \<Rightarrow> bool" where
  "startup_inv n g \<longleftrightarrow>
     (case gr_parent g of
        Forking i \<Rightarrow> i \<le> n \<and> (\<forall>j < i. gr_child g j = Ready) \<and> (\<forall>j \<ge> i. gr_child g j = Absent) \<and>
          (\<forall>j. gr_counter g j = 0)
      | Waiting i \<Rightarrow> i < n \<and> (\<forall>j < i. gr_child g j = Ready) \<and> (\<forall>j > i. gr_child g j = Absent) \<and>
          gr_child g i \<noteq> Absent \<and> (\<forall>j. gr_counter g j = (if j = i \<and> gr_child g i = Ready then 1 else 0))
      | Start_failed i \<Rightarrow> i < n \<and> (\<forall>j < i. gr_child g j = Ready) \<and> (\<forall>j > i. gr_child g j = Absent) \<and>
          (\<forall>j. gr_counter g j = (if j = i \<and> gr_child g i = Ready then 1 else 0))
      | All_started \<Rightarrow> (\<forall>j < n. gr_child g j = Ready) \<and> (\<forall>j \<ge> n. gr_child g j = Absent) \<and>
          (\<forall>j. gr_counter g j = 0))"

text \<open>Only the worker of the current round can be starting.\<close>

lemma starting_is_current:
  assumes "startup_inv n g" and "gr_child g i = Starting"
  shows "gr_parent g = Waiting i \<or> gr_parent g = Start_failed i"
proof (cases "gr_parent g")
  case (Forking j)
  then show ?thesis using assms by (cases "i < j") (auto simp: startup_inv_def)
next
  case (Waiting j)
  then show ?thesis using assms by (cases i j rule: linorder_cases) (auto simp: startup_inv_def)
next
  case (Start_failed j)
  then show ?thesis using assms by (cases i j rule: linorder_cases) (auto simp: startup_inv_def)
next
  case All_started
  then show ?thesis using assms by (cases "i < n") (auto simp: startup_inv_def)
qed

lemma startup_inv_step:
  assumes "startup_step n g g'" and "startup_inv n g"
  shows "startup_inv n g'"
  using assms
proof (cases rule: startup_step.cases)
  case (signal_ready i)
  then show ?thesis using assms(2) starting_is_current [OF assms(2), of i]
    by (auto simp: startup_inv_def)
next
  case (write_fails i)
  then show ?thesis using assms(2) starting_is_current [OF assms(2), of i]
    by (auto simp: startup_inv_def)
next
  case (give_up i)
  then show ?thesis using assms(2) starting_is_current [OF assms(2), of i]
    by (auto simp: startup_inv_def)
qed (use assms(2) in \<open>auto simp: startup_inv_def less_Suc_eq Suc_le_eq split: if_splits\<close>)

lemma reachable_inv: "reachable n g \<Longrightarrow> startup_inv n g"
proof (induction rule: reachable.induct)
  case start
  then show ?case by (simp add: startup_inv_def initial_group_def)
next
  case (step g g')
  then show ?case using startup_inv_step by blast
qed

text \<open>
  At rest: all workers have started; or the parent has returned an error, and the worker it leaves behind
  is no longer starting; or the parent waits for a worker that is gone or mute.
\<close>

definition at_rest :: "group \<Rightarrow> bool" where
  "at_rest g \<longleftrightarrow> gr_parent g = All_started \<or> (\<exists>i. gr_parent g = Start_failed i \<and> gr_child g i \<noteq> Starting) \<or>
     (\<exists>i. gr_parent g = Waiting i \<and> gr_child g i \<in> {Mute, Exited})"

lemma at_rest_no_step:
  assumes "startup_inv n g" and "at_rest g"
  shows "\<not> startup_step n g g'"
proof
  assume s: "startup_step n g g'"
  have c: "gr_child g j \<noteq> Starting" for j
    using starting_is_current [OF assms(1), of j] assms(2) by (auto simp: at_rest_def)
  have p: "gr_parent g \<noteq> Forking i" "gr_parent g = Waiting i \<Longrightarrow> gr_counter g i = 0" for i
    using assms by (auto simp: at_rest_def startup_inv_def)
  from s show False by (cases rule: startup_step.cases) (use p c in auto)
qed

lemma progress:
  assumes "startup_inv n g" and "\<not> at_rest g"
  shows "\<exists>g'. startup_step n g g'"
proof (cases "gr_parent g")
  case (Forking i)
  then have "i \<le> n" using assms(1) by (simp add: startup_inv_def)
  then show ?thesis
    using fork_worker [OF Forking, of n] all_forked [of g n] Forking by (cases "i = n") auto
next
  case (Waiting i)
  show ?thesis
  proof (cases "gr_child g i")
    case Ready
    then have "0 < gr_counter g i" using assms(1) Waiting by (simp add: startup_inv_def)
    then show ?thesis using read_counter [OF Waiting] by blast
  qed (use assms Waiting signal_ready in \<open>auto simp: at_rest_def startup_inv_def\<close>)
qed (use assms signal_ready in \<open>auto simp: at_rest_def\<close>)

text \<open>Every step comes nearer to rest.\<close>

definition startup_rank :: "nat \<Rightarrow> group \<Rightarrow> nat" where
  "startup_rank n g =
     (case gr_parent g of
        Forking i \<Rightarrow> 3 * (n - i) + 1
      | Waiting i \<Rightarrow> 3 * (n - i) - (if gr_child g i = Starting then 0 else 1)
      | Start_failed i \<Rightarrow> if gr_child g i = Starting then 1 else 0
      | All_started \<Rightarrow> 0)"

lemma rank_step:
  assumes "startup_step n g g'" and "startup_inv n g"
  shows "startup_rank n g' < startup_rank n g"
  using assms(1)
proof (cases rule: startup_step.cases)
  case (signal_ready i)
  then show ?thesis using starting_is_current [OF assms(2), of i] assms(2)
    by (auto simp: startup_rank_def startup_inv_def)
next
  case (write_fails i)
  then show ?thesis using starting_is_current [OF assms(2), of i] assms(2)
    by (auto simp: startup_rank_def startup_inv_def)
next
  case (give_up i)
  then show ?thesis using starting_is_current [OF assms(2), of i] assms(2)
    by (auto simp: startup_rank_def startup_inv_def)
next
  case (read_counter i)
  then show ?thesis using assms(2) by (auto simp: startup_rank_def startup_inv_def split: if_splits)
qed (auto simp: startup_rank_def)

lemma rank_initial: "startup_rank n initial_group = 3 * n + 1"
  by (simp add: startup_rank_def initial_group_def)

lemma steps_rank: "(startup_step n ^^ k) initial_group g \<Longrightarrow> reachable n g \<and> k + startup_rank n g \<le> 3 * n + 1"
proof (induction k arbitrary: g)
  case 0
  then show ?case using start by (simp add: rank_initial)
next
  case (Suc k)
  then obtain g1 where g1: "(startup_step n ^^ k) initial_group g1" "startup_step n g1 g" by auto
  then show ?case
    using Suc.IH [OF g1(1)] step [OF _ g1(2)] rank_step [OF g1(2) reachable_inv] by fastforce
qed

subsection \<open>Properties\<close>

text \<open>
  C15. In every reachable state of the start-up at most one worker is starting: the one the parent waits
  for, or the one it has forked before it returned an error. A later worker exists only when all earlier
  ones have signalled, and when the parent reports that everything runs, all workers are ready and no signal
  is left unread.
\<close>

theorem startup_is_sequential:
  assumes "reachable n g"
  shows "(\<forall>i. gr_child g i = Starting \<longrightarrow> gr_parent g = Waiting i \<or> gr_parent g = Start_failed i) \<and>
    (\<forall>i j. gr_child g i \<noteq> Absent \<and> j < i \<longrightarrow> gr_child g j = Ready) \<and>
    (gr_parent g = All_started \<longrightarrow> (\<forall>i. gr_child g i = Ready \<longleftrightarrow> i < n) \<and> (\<forall>i. gr_counter g i = 0))"
proof -
  have inv: "startup_inv n g" by (rule reachable_inv [OF assms])
  have "gr_child g j = Ready" if "gr_child g i \<noteq> Absent" "j < i" for i j
  proof (cases "gr_parent g")
    case (Forking k)
    then show ?thesis using inv that by (cases "i < k") (auto simp: startup_inv_def)
  next
    case (Waiting k)
    then show ?thesis using inv that by (cases i k rule: linorder_cases) (auto simp: startup_inv_def)
  next
    case (Start_failed k)
    then show ?thesis using inv that by (cases i k rule: linorder_cases) (auto simp: startup_inv_def)
  next
    case All_started
    then show ?thesis using inv that by (cases "i < n") (auto simp: startup_inv_def)
  qed
  moreover have "gr_child g i = Ready \<longleftrightarrow> i < n" if "gr_parent g = All_started" for i
    using inv that by (cases "i < n") (auto simp: startup_inv_def)
  moreover have "gr_counter g i = 0" if "gr_parent g = All_started" for i
    using inv that by (simp add: startup_inv_def)
  ultimately show ?thesis using starting_is_current [OF inv] by blast
qed

definition one_starting :: group where
  "one_starting = initial_group\<lparr>gr_parent := Waiting 0, gr_child := (\<lambda>_. Absent)(0 := Starting)\<rparr>"

lemma one_starting_step: "startup_step 2 initial_group one_starting"
proof -
  have "startup_step 2 initial_group
      (initial_group\<lparr>gr_parent := Waiting 0, gr_child := (gr_child initial_group)(0 := Starting)\<rparr>)"
    by (rule fork_worker) (simp_all add: initial_group_def)
  then show ?thesis by (simp add: one_starting_def initial_group_def)
qed

lemma one_starting_reachable: "reachable 2 one_starting"
  by (rule step [OF start one_starting_step])

lemma startup_is_sequential_witness:
  "gr_child one_starting 0 = Starting \<and> gr_parent one_starting = Waiting 0"
  using startup_is_sequential [OF one_starting_reachable]
  by (simp add: one_starting_def initial_group_def)

text \<open>
  C30. The start-up of \<open>n\<close> workers always comes to rest, after at most \<open>3 n + 1\<close> steps, and it rests exactly
  when all workers have started; when the parent has returned an error, because it could not create an
  event descriptor or a process or could not read, and the worker it may have forked last is no longer
  starting; or when the parent waits for a worker that has exited, or failed to signal: then it blocks for ever.
\<close>

theorem startup_comes_to_rest:
  assumes "(startup_step n ^^ k) initial_group g"
  shows "k \<le> 3 * n + 1 \<and>
    ((\<nexists>g'. startup_step n g g') \<longleftrightarrow>
       gr_parent g = All_started \<or> (\<exists>i. gr_parent g = Start_failed i \<and> gr_child g i \<noteq> Starting) \<or>
       (\<exists>i. gr_parent g = Waiting i \<and> gr_child g i \<in> {Mute, Exited}))"
proof -
  have inv: "startup_inv n g" and k: "k \<le> 3 * n + 1" using steps_rank [OF assms] reachable_inv by auto
  have "(\<nexists>g'. startup_step n g g') \<longleftrightarrow> at_rest g" using at_rest_no_step [OF inv] progress [OF inv] by blast
  then show ?thesis using k by (simp add: at_rest_def)
qed

definition one_lost :: group where
  "one_lost = one_starting\<lparr>gr_child := (gr_child one_starting)(0 := Exited)\<rparr>"

lemma startup_comes_to_rest_witness:
  "(startup_step 2 ^^ 2) initial_group one_lost \<and> (\<nexists>g'. startup_step 2 one_lost g')"
proof -
  have "startup_step 2 one_starting one_lost"
    unfolding one_lost_def by (rule give_up) (simp add: one_starting_def)
  then have steps: "(startup_step 2 ^^ 2) initial_group one_lost"
    using one_starting_step by (auto simp: numeral_2_eq_2)
  then show ?thesis
    using startup_comes_to_rest [OF steps] by (simp add: one_lost_def one_starting_def initial_group_def)
qed

end
