(* ===== verification/Server_Infra.thy ===== *)
theory Server_Infra
  imports Http_Server Socket Signals Worker_Startup "HOL-Library.Monad_Syntax"
begin

text \<open>
  Component \<open>src/src/infrastructure/server_infrastructure.c\<close>: the modules of the HTTP server put together. The
  world holds the process state (whose logger every module uses) and the signal state; the signal
  manager of an infrastructure object lives at an address of its own, which also stands for the address of
  the object. Network calls, the reactor and the
  worker answers are arguments.
\<close>

datatype server_infra_error =
  SERVER_INFRA_OK
| SERVER_INFRA_ERROR_INIT
| SERVER_INFRA_ERROR_CONFIG
| SERVER_INFRA_ERROR_RESOURCE
| SERVER_INFRA_ERROR_STARTUP

record infra_config =
  sv_port :: u16
  sv_plaintext :: "string option"
  sv_json :: "string option"
  sv_date :: bool
  sv_optimize :: bool
  sv_socket :: socket_config
  sv_workers :: worker_config
  sv_log :: log_config
  sv_signals :: signal_config

record infra =
  in_config :: infra_config
  in_http :: http_server
  in_workers :: worker_manager
  in_signals :: nat
  in_initialized :: bool

record 'h infra_world =
  iw_proc :: proc_state
  iw_sig :: "'h signal_state"
  iw_global :: "nat option"
  iw_sockopts :: "(int \<times> sockopt) list"

text \<open>The logger is shared: an operation of the signal module runs on the process's logger.\<close>

definition on_sig ::
  "('h signal_state \<Rightarrow> ('a \<times> 'h signal_state) option) \<Rightarrow> 'h infra_world \<Rightarrow>
     ('a \<times> 'h infra_world) option" where
  "on_sig f w =
     map_option (\<lambda>(r, s). (r, w\<lparr>iw_sig := s, iw_proc := (iw_proc w)\<lparr>pr_log := sg_log s\<rparr>\<rparr>))
       (f ((iw_sig w)\<lparr>sg_log := pr_log (iw_proc w)\<rparr>))"

definition on_proc ::
  "(proc_state \<Rightarrow> ('a \<times> proc_state) option) \<Rightarrow> 'h infra_world \<Rightarrow> ('a \<times> 'h infra_world) option" where
  "on_proc f w = map_option (\<lambda>(r, s). (r, w\<lparr>iw_proc := s\<rparr>)) (f (iw_proc w))"

definition ilog :: "(log_state \<Rightarrow> log_state option) \<Rightarrow> 'h infra_world \<Rightarrow> 'h infra_world option" where
  "ilog f w = map_option (\<lambda>s. w\<lparr>iw_proc := s\<rparr>) (plog f (iw_proc w))"

definition zero_infra_config :: infra_config where
  "zero_infra_config =
     \<lparr>sv_port = 0, sv_plaintext = None, sv_json = None, sv_date = False, sv_optimize = False,
      sv_socket = \<lparr>sc_options = 0, busy_poll_value = 0, keepalive_enabled = False\<rparr>,
      sv_workers = \<lparr>worker_count = 0, wk_cpu_ids = None, enable_affinity = False\<rparr>,
      sv_log = \<lparr>lc_level = 0, lc_output = None, lc_timestamps = False, lc_colors = False,
               lc_pid = False, lc_tid = False\<rparr>,
      sv_signals = no_signals\<rparr>"

definition zero_infra :: "nat \<Rightarrow> infra" where
  "zero_infra p =
     \<lparr>in_config = zero_infra_config, in_http = zeroed_server, in_workers = zeroed_workers,
      in_signals = p, in_initialized = False\<rparr>"

subsection \<open>Module life cycle\<close>

definition server_infrastructure_init :: "'h infra_world \<Rightarrow> server_infra_error \<times> 'h infra_world" where
  "server_infrastructure_init w =
     (case system_init (pr_system (iw_proc w)) of (err, sys) \<Rightarrow>
      let w = w\<lparr>iw_proc := (iw_proc w)\<lparr>pr_system := sys\<rparr>\<rparr> in
      if err \<noteq> SYSTEM_OK then (SERVER_INFRA_ERROR_INIT, w)
      else if socket_init \<noteq> SOCKET_OK then (SERVER_INFRA_ERROR_INIT, w)
      else if http_server_init \<noteq> HTTP_SERVER_OK then (SERVER_INFRA_ERROR_INIT, w)
      else (SERVER_INFRA_OK, w))"

text \<open>Only the logger is flushed.\<close>

definition server_infrastructure_cleanup :: "'h infra_world \<Rightarrow> 'h infra_world" where
  "server_infrastructure_cleanup w =
     w\<lparr>iw_proc := (iw_proc w)\<lparr>pr_log := log_cleanup (pr_log (iw_proc w))\<rparr>\<rparr>"

text \<open>\<open>memset\<close> of the whole object clears its signal manager as well.\<close>

definition clear_manager :: "nat \<Rightarrow> 'h infra_world \<Rightarrow> 'h infra_world" where
  "clear_manager p w = w\<lparr>iw_sig := put_manager p zeroed_manager (iw_sig w)\<rparr>"

definition http_config_of :: "infra_config \<Rightarrow> http_server_config" where
  "http_config_of c =
     \<lparr>plaintext_response = sv_plaintext c, json_message = sv_json c, enable_date_headers = sv_date c\<rparr>"

definition server_infrastructure_create ::
  "signal_env \<Rightarrow> bool \<Rightarrow> bool \<Rightarrow> infra_config option \<Rightarrow> infra option \<times> 'h infra_world \<Rightarrow>
     (server_infra_error \<times> infra option \<times> 'h infra_world) option" where
  "server_infrastructure_create e mem1 mem2 config iw =
     (case (fst iw, config) of
        (Some i0, Some c) \<Rightarrow> do {
          let p = in_signals i0;
          let w = clear_manager p (snd iw);
          let i = (zero_infra p)\<lparr>in_config := c\<rparr>;
          let (herr, h) = http_server_create (Some (in_http i)) (Some (http_config_of c));
          let i = i\<lparr>in_http := the h\<rparr>;
          if herr \<noteq> HTTP_SERVER_OK then Some (SERVER_INFRA_ERROR_INIT, Some i, w)
          else do {
            (m, w) \<leftarrow> on_proc (\<lambda>s. map_option snd
              (worker_manager_init mem1 mem2 (Some (sv_workers c)) (Some (in_workers i), s))) w;
            let i = i\<lparr>in_workers := the m\<rparr>;
            (_, w) \<leftarrow> on_proc (\<lambda>s. map_option (Pair ()) (free_array (wk_cpu_ids (sv_workers c)) s)) w;
            (serr, w) \<leftarrow> on_sig (signal_manager_init e (Some p) (Some (sv_signals c))) w;
            if serr \<noteq> SIGNAL_OK then do {
              (m, w) \<leftarrow> on_proc (\<lambda>s. worker_manager_cleanup (Some (in_workers i), s)) w;
              Some (SERVER_INFRA_ERROR_INIT,
                    Some (i\<lparr>in_workers := the m, in_http := the (http_server_destroy (Some (in_http i)))\<rparr>), w)
            }
            else do {
              w \<leftarrow> ilog (log_info_msg (se_log e) (Some ''Server infrastructure initialized'')) w;
              Some (SERVER_INFRA_OK, Some (i\<lparr>in_initialized := True\<rparr>), w)
            }
          }
        }
      | _ \<Rightarrow> Some (SERVER_INFRA_ERROR_CONFIG, iw))"

definition server_infrastructure_destroy ::
  "signal_env \<Rightarrow> infra option \<times> 'h infra_world \<Rightarrow> (infra option \<times> 'h infra_world) option" where
  "server_infrastructure_destroy e iw =
     (case fst iw of
        None \<Rightarrow> Some iw
      | Some i \<Rightarrow> do {
          let p = in_signals i;
          w \<leftarrow> (if in_initialized i then do {
                 (_, w) \<leftarrow> on_sig (\<lambda>s. map_option (Pair ()) (signal_manager_cleanup e (Some p) s)) (snd iw);
                 (_, w) \<leftarrow> on_proc (\<lambda>s. worker_manager_cleanup (Some (in_workers i), s)) w;
                 Some w
               }
               else Some (snd iw));
          Some (Some (zero_infra p), clear_manager p w)
        })"

subsection \<open>Defaults\<close>

text \<open>\<open>online\<close> and \<open>mem\<close> are the answers that CPU enumeration gets.\<close>

definition server_infrastructure_default_config ::
  "cpu_set option \<Rightarrow> (nat \<Rightarrow> bool) \<Rightarrow> 'h infra_world \<Rightarrow> (infra_config \<times> 'h infra_world) option" where
  "server_infrastructure_default_config online mem w =
     map_option (\<lambda>(err, info).
       let (count, ids, w) =
         (case info of
            Some i \<Rightarrow>
              if err = SYSTEM_OK \<and> cpu_total i > 0 then
                (case alloc_array (map (\<lambda>c. int (the c)) (cpu_ids i)) (iw_proc w) of
                   (a, s) \<Rightarrow> (int (cpu_total i), Some a, w\<lparr>iw_proc := s\<rparr>))
              else (1, None, w)
          | None \<Rightarrow> (1, None, w))
       in (zero_infra_config
             \<lparr>sv_port := 2342, sv_plaintext := Some ''Hello, World!'', sv_json := Some ''Hello, World!'',
              sv_date := True, sv_optimize := False,
              sv_socket := \<lparr>sc_options = 0, busy_poll_value = 50, keepalive_enabled = False\<rparr>,
              sv_workers := \<lparr>worker_count = count, wk_cpu_ids = ids, enable_affinity = True\<rparr>,
              sv_signals := signal_manager_default_config\<rparr>, w))
     (system_get_cpu_info online mem (Some \<lparr>cpu_total = 0, cpu_ids = []\<rparr>))"

subsection \<open>Running\<close>

text \<open>
  What a worker meets: how its object's address prints, the results of \<open>net_resolve\<close> and \<open>net_socket\<close>, which options fail, whether the
  event descriptor can be written, and the signals that arrive while the event loop runs.
\<close>

record worker_env =
  we_pointer :: string
  we_resolved :: bool
  we_socket :: int
  we_sockopt_fails :: "int \<Rightarrow> sockopt \<Rightarrow> bool"
  we_write_ok :: bool
  we_signals :: "int list"

definition reactor_construct_signals :: "'h infra_world \<Rightarrow> 'h infra_world" where
  "reactor_construct_signals w =
     w\<lparr>iw_sig := (iw_sig w)\<lparr>sg_disposition :=
        (sg_disposition (iw_sig w))(SIGTERM := Sig_Reactor, SIGINT := Sig_Reactor, SIGPIPE := Sig_Ignore)\<rparr>\<rparr>"

definition infra_manager :: "infra \<Rightarrow> 'h infra_world \<Rightarrow> 'h signal_manager option" where
  "infra_manager i w = sg_memory (iw_sig w) (in_signals i)"

definition say :: "signal_env \<Rightarrow> string \<Rightarrow> 'h infra_world \<Rightarrow> 'h infra_world option" where
  "say e t = ilog (log_info_msg (se_log e) (Some t))"

definition complain :: "signal_env \<Rightarrow> string \<Rightarrow> 'h infra_world \<Rightarrow> 'h infra_world option" where
  "complain e t = ilog (log_error_msg (se_log e) (Some t))"

definition optimize_socket :: "signal_env \<Rightarrow> worker_env \<Rightarrow> infra \<Rightarrow> 'h infra_world \<Rightarrow> 'h infra_world option" where
  "optimize_socket e we i w =
     (if sv_optimize (in_config i) then do {
        let (err, calls) = socket_apply_optimizations (we_sockopt_fails we) (we_socket we)
                             (Some (sv_socket (in_config i))) (iw_sockopts w);
        let w = w\<lparr>iw_sockopts := calls\<rparr>;
        if err \<noteq> SOCKET_OK
        then ilog (log_warn_msg (se_log e) (Some ''Failed to apply socket optimizations'')) w
        else Some w
      }
      else Some w)"

text \<open>
  Of the server itself, which \<open>Http_Reactor_Properties\<close> starts and serves on the event loop, only what touches
  this world is here: the log, the socket options, the event descriptor and the signals that arrive in the
  loop (before it, the dispositions are those of the parent, and none is taken to arrive).
\<close>

definition run_worker ::
  "signal_env \<Rightarrow> worker_env \<Rightarrow> infra \<times> 'h infra_world \<Rightarrow>
     (server_infra_error \<times> infra \<times> 'h infra_world) option" where
  "run_worker e we iw = do {
     let (i, w) = iw;
     cpu \<leftarrow> worker_manager_get_cpu_id (Some (in_workers i)) (iw_proc w);
     w \<leftarrow> say e (''Worker process starting on CPU '' @ dec_int cpu @ '', global_infra: '' @ we_pointer we) w;
     let w = reactor_construct_signals w;
     if \<not> we_resolved we then do {
       w \<leftarrow> complain e ''Failed to resolve address'' w;
       Some (SERVER_INFRA_ERROR_STARTUP, i, w)
     }
     else if we_socket we = -1 then do {
       w \<leftarrow> complain e ''Failed to create socket'' w;
       Some (SERVER_INFRA_ERROR_STARTUP, i, w)
     }
     else do {
       w \<leftarrow> say e (''Server listening on port '' @ dec (unat (sv_port (in_config i)))) w;
       w \<leftarrow> optimize_socket e we i w;
       (m, w) \<leftarrow> on_proc (\<lambda>s. map_option snd
         (worker_manager_signal_ready (we_write_ok we) (Some (in_workers i), s))) w;
       let i = i\<lparr>in_workers := the m\<rparr>;
       w \<leftarrow> say e ''Worker ready, starting event loop'' w;
       (_, w) \<leftarrow> on_sig (\<lambda>s. map_option (Pair ()) (run_all (arrive e) (we_signals we) s)) w;
       w \<leftarrow> say e (if signal_manager_shutdown_requested (infra_manager i w)
                  then ''Shutdown requested, stopping server''
                  else ''Event loop exited for unknown reason'') w;
       w \<leftarrow> say e ''Worker process shutting down'' w;
       Some (SERVER_INFRA_OK, i, w)
     }
   }"

text \<open>
  What a blocked \<open>wait\<close> meets: a signal, the exit of a process, or that there is no child. It answers the
  process that exited, or -1; \<open>None\<close> when it still waits at the end of the events.
\<close>

datatype wait_event = Wait_signal int | Wait_exit int | Wait_no_child

fun wait_child ::
  "signal_env \<Rightarrow> wait_event list \<Rightarrow> 'h signal_state \<Rightarrow> (int option \<times> 'h signal_state) option" where
  "wait_child e [] s = Some (None, s)"
| "wait_child e (Wait_exit pid # es) s = Some (Some pid, s)"
| "wait_child e (Wait_no_child # es) s = Some (Some (-1), s)"
| "wait_child e (Wait_signal n # es) s =
     Option.bind (arrive e n s) (\<lambda>s'. if interrupts s n then Some (Some (-1), s') else wait_child e es s')"

text \<open>
  The parent's loop: for every round what \<open>wait\<close> meets and the signals that arrive in the delay after a
  \<open>wait\<close> that failed. The first component tells whether the loop has ended within the script.
\<close>

fun parent_loop ::
  "signal_env \<Rightarrow> (wait_event list \<times> int list) list \<Rightarrow> infra \<times> 'h infra_world \<Rightarrow> (bool \<times> 'h infra_world) option" where
  "parent_loop e rounds (i, w) =
     (if signal_manager_shutdown_requested (infra_manager i w) then Some (True, w)
      else (case rounds of
              [] \<Rightarrow> Some (False, w)
            | (es, delay) # rounds \<Rightarrow>
                Option.bind (on_sig (wait_child e es) w) (\<lambda>(answer, w).
                case answer of
                  None \<Rightarrow> Some (False, w)
                | Some pid \<Rightarrow>
                    Option.bind (on_proc (\<lambda>s. map_option (\<lambda>(err, m, s). (err, s))
                        (worker_manager_wait_workers (se_log e) pid (Some (in_workers i), s))) w) (\<lambda>(err, w).
                    if err = PROCESS_OK then
                      map_option (Pair True) (say e ''Worker process exited, shutting down'' w)
                    else
                      Option.bind (on_sig (\<lambda>s. map_option (Pair ()) (run_all (arrive e) delay s)) w) (\<lambda>(_, w).
                      parent_loop e rounds (i, w))))))"

definition run_parent ::
  "signal_env \<Rightarrow> (wait_event list \<times> int list) list \<Rightarrow> infra \<times> 'h infra_world \<Rightarrow> (bool \<times> 'h infra_world) option" where
  "run_parent e rounds iw = do {
     let (i, w) = iw;
     w \<leftarrow> say e (''Parent process started, managing '' @
                dec_int (worker_count (sv_workers (in_config i))) @ '' workers'') w;
     (finished, w) \<leftarrow> parent_loop e rounds (i, w);
     if finished then map_option (Pair True) (say e ''Parent process shutting down'' w)
     else Some (False, w)
   }"

text \<open>\<open>server_infrastructure_start\<close>; the flag tells whether it has returned within the script.\<close>

definition server_infrastructure_start ::
  "signal_env \<Rightarrow> (nat \<Rightarrow> fork_answer) \<Rightarrow> worker_env \<Rightarrow> (wait_event list \<times> int list) list \<Rightarrow>
     infra option \<times> 'h infra_world \<Rightarrow>
     (bool \<times> server_infra_error \<times> infra option \<times> 'h infra_world) option" where
  "server_infrastructure_start e ans we rounds iw =
     (case fst iw of
        None \<Rightarrow> Some (True, SERVER_INFRA_ERROR_CONFIG, iw)
      | Some i \<Rightarrow>
          if \<not> in_initialized i then Some (True, SERVER_INFRA_ERROR_CONFIG, iw)
          else do {
            let w = (snd iw)\<lparr>iw_global := Some (in_signals i)\<rparr>;
            ((err, m), w) \<leftarrow> on_proc (\<lambda>s. map_option (\<lambda>(err, m, s). ((err, m), s))
              (worker_manager_fork_workers (se_log e) ans (Some (in_workers i), s))) w;
            let i = i\<lparr>in_workers := the m\<rparr>;
            if err \<noteq> PROCESS_OK then Some (True, SERVER_INFRA_ERROR_STARTUP, Some i, w)
            else if worker_manager_get_type (Some (in_workers i)) = PROCESS_TYPE_WORKER then do {
              (err, i, w) \<leftarrow> run_worker e we (i, w);
              Some (True, err, Some i, w)
            }
            else do {
              (finished, w) \<leftarrow> run_parent e rounds (i, w);
              Some (finished, SERVER_INFRA_OK, Some i, w)
            }
          })"

subsection \<open>Requests\<close>

datatype server_event = Server_request data | Server_other

definition http_error_number :: "http_server_error \<Rightarrow> int" where
  "http_error_number err =
     (case err of HTTP_SERVER_OK \<Rightarrow> 0 | HTTP_SERVER_ERROR_INVALID_PARAM \<Rightarrow> -1
      | HTTP_SERVER_ERROR_MEMORY \<Rightarrow> -2 | HTTP_SERVER_ERROR_RESPONSE_BUILD \<Rightarrow> -3)"

text \<open>The state pointer and the infrastructure it names may be NULL.\<close>

definition server_infrastructure_request_handler ::
  "signal_env \<Rightarrow> infra option option \<Rightarrow> server_event \<Rightarrow> 'h infra_world \<Rightarrow>
     (server_call list \<times> 'h infra_world) option" where
  "server_infrastructure_request_handler e state ev w =
     (case state of
        Some (Some i) \<Rightarrow>
          (case ev of
             Server_request target \<Rightarrow>
               Option.bind (http_server_handle_request (Some (in_http i)) (Some target)) (\<lambda>(err, calls).
               if err \<noteq> HTTP_SERVER_OK
               then map_option (Pair calls) (complain e (''HTTP server error: '' @ dec_int (http_error_number err)) w)
               else Some (calls, w))
           | Server_other \<Rightarrow> Some ([], w))
      | _ \<Rightarrow> map_option (Pair [])
               (complain e ''Server state or infrastructure pointer is NULL'' w))"

subsection \<open>Facts\<close>

definition quiet :: "'h infra_world \<Rightarrow> bool" where
  "quiet w \<longleftrightarrow> \<not> log_locked (pr_log (iw_proc w))"

definition set_log :: "log_state \<Rightarrow> 'h infra_world \<Rightarrow> 'h infra_world" where
  "set_log l w = w\<lparr>iw_proc := (iw_proc w)\<lparr>pr_log := l\<rparr>\<rparr>"

lemma set_log_simps [simp]:
  "iw_sig (set_log l w) = iw_sig w" "iw_global (set_log l w) = iw_global w"
  "iw_sockopts (set_log l w) = iw_sockopts w" "pr_arrays (iw_proc (set_log l w)) = pr_arrays (iw_proc w)"
  "pr_next (iw_proc (set_log l w)) = pr_next (iw_proc w)"
  "pr_tables (iw_proc (set_log l w)) = pr_tables (iw_proc w)"
  "pr_closed (iw_proc (set_log l w)) = pr_closed (iw_proc w)"
  "pr_written (iw_proc (set_log l w)) = pr_written (iw_proc w)"
  "infra_manager i (set_log l w) = infra_manager i w"
  by (simp_all add: set_log_def infra_manager_def)

lemma ilog_run:
  assumes "quiet w"
  shows "\<exists>l. ilog (log_internal e lv msg) w = Some (set_log l w) \<and> quiet (set_log l w)"
  using log_internal_defined [of "pr_log (iw_proc w)" e lv msg] assms
  by (auto simp: ilog_def plog_def quiet_def set_log_def)

lemma say_run:
  assumes "quiet w"
  shows "\<exists>l. say e t w = Some (set_log l w) \<and> quiet (set_log l w)"
    and "\<exists>l. complain e t w = Some (set_log l w) \<and> quiet (set_log l w)"
  using ilog_run [OF assms] by (simp_all add: say_def complain_def log_calls)

text \<open>What the signal module leaves alone.\<close>

lemma on_sig_run:
  assumes "f ((iw_sig w)\<lparr>sg_log := pr_log (iw_proc w)\<rparr>) = Some (r, s)" and "log_free s"
  shows "\<exists>w'. on_sig f w = Some (r, w') \<and> quiet w' \<and> iw_sig w' = s \<and>
    pr_arrays (iw_proc w') = pr_arrays (iw_proc w) \<and> pr_tables (iw_proc w') = pr_tables (iw_proc w) \<and>
    pr_closed (iw_proc w') = pr_closed (iw_proc w)"
  using assms by (simp add: on_sig_def quiet_def log_free_def)

lemma clear_manager_simps [simp]:
  "iw_proc (clear_manager p w) = iw_proc w"
  "sg_disposition (iw_sig (clear_manager p w)) = sg_disposition (iw_sig w)"
  "sg_memory (iw_sig (clear_manager p w)) p = Some zeroed_manager"
  "global_signal_manager (iw_sig (clear_manager p w)) = global_signal_manager (iw_sig w)"
  "quiet (clear_manager p w) = quiet w"
  by (simp_all add: clear_manager_def put_manager_def quiet_def)

subsection \<open>Properties\<close>

text \<open>The configurations that can be created, and the process that creates them.\<close>

definition creatable :: "signal_env \<Rightarrow> infra_config \<Rightarrow> string \<Rightarrow> int list \<Rightarrow> nat \<Rightarrow> 'h infra_world \<Rightarrow> bool" where
  "creatable e c msg ids a w \<longleftrightarrow>
     sv_json c = Some msg \<and> length msg < 4082 \<and>
     0 < worker_count (sv_workers c) \<and> nat (worker_count (sv_workers c)) \<le> length ids \<and>
     wk_cpu_ids (sv_workers c) = Some a \<and> pr_arrays (iw_proc w) a = Some ids \<and>
     pr_arrays (iw_proc w) (pr_next (iw_proc w)) = None \<and>
     pr_tables (iw_proc w) (Suc (pr_next (iw_proc w))) = None \<and> quiet w \<and>
     (\<forall>n \<in> set (handled (sv_signals c)). se_sigaction e n)"

lemma create_run:
  assumes "creatable e c msg ids a w"
  shows "\<exists>i w'. server_infrastructure_create e True True (Some c) (Some i0, w) =
      Some (SERVER_INFRA_OK, Some i, w') \<and> quiet w' \<and>
    http_server_create (Some zeroed_server) (Some (http_config_of c)) =
      (HTTP_SERVER_OK, Some (in_http i)) \<and>
    in_config i = c \<and> in_signals i = in_signals i0 \<and> in_initialized i \<and>
    manager_ok (in_workers i) (iw_proc w') (take (nat (worker_count (sv_workers c))) ids)
      (replicate (nat (worker_count (sv_workers c))) zeroed_worker) \<and>
    wm_type (in_workers i) = PROCESS_TYPE_PARENT \<and> wk_cpu_ids (wm_config (in_workers i)) = Some (pr_next (iw_proc w)) \<and>
    wm_workers (in_workers i) = Some (Suc (pr_next (iw_proc w))) \<and>
    pr_tables (iw_proc w') = (pr_tables (iw_proc w))(Suc (pr_next (iw_proc w)) :=
       Some (replicate (nat (worker_count (sv_workers c))) zeroed_worker)) \<and>
    pr_arrays (iw_proc w') = (pr_arrays (iw_proc w))(a := None, pr_next (iw_proc w) :=
       Some (take (nat (worker_count (sv_workers c))) ids)) \<and>
    pr_closed (iw_proc w') = pr_closed (iw_proc w) \<and>
    flags (in_signals i0) (iw_sig w') False False \<and>
    sg_memory (iw_sig w') (in_signals i0) = Some (zeroed_manager\<lparr>sm_config := sv_signals c\<rparr>) \<and>
    sg_disposition (iw_sig w') =
      (\<lambda>n. if n \<in> set (handled (sv_signals c)) then Sig_Handler else sg_disposition (iw_sig w) n)"
proof -
  let ?p = "in_signals i0" and ?n = "nat (worker_count (sv_workers c))"
  let ?w0 = "clear_manager ?p w"
  have c: "sv_json c = Some msg" "length msg < 4082" "wk_cpu_ids (sv_workers c) = Some a"
    "pr_arrays (iw_proc w) a = Some ids" "quiet w" "\<forall>n \<in> set (handled (sv_signals c)). se_sigaction e n"
    using assms by (auto simp: creatable_def)
  obtain h where h: "http_server_create (Some zeroed_server) (Some (http_config_of c)) =
      (HTTP_SERVER_OK, Some h)"
    using create_json [of "http_config_of c" msg] c(1,2) by (auto simp: http_config_of_def)
  obtain m s1 where m: "worker_manager_init True True (Some (sv_workers c)) (Some zeroed_workers, iw_proc w) =
      Some (PROCESS_OK, Some m, s1)" "manager_ok m s1 (take ?n ids) (replicate ?n zeroed_worker)"
    "wm_type m = PROCESS_TYPE_PARENT" "wk_cpu_ids (wm_config m) = Some (pr_next (iw_proc w))"
    "pr_arrays s1 = (pr_arrays (iw_proc w))(pr_next (iw_proc w) := Some (take ?n ids))"
    "pr_closed s1 = pr_closed (iw_proc w)" "pr_log s1 = pr_log (iw_proc w)"
    "wm_workers m = Some (Suc (pr_next (iw_proc w)))"
    "pr_tables s1 = (pr_tables (iw_proc w))(Suc (pr_next (iw_proc w)) := Some (replicate ?n zeroed_worker))"
    using init_run [of "sv_workers c" a "iw_proc w" ids zeroed_workers] assms
    by (auto simp: creatable_def quiet_def)
  have ne: "a \<noteq> pr_next (iw_proc w)" using assms by (auto simp: creatable_def)
  let ?s2 = "s1\<lparr>pr_arrays := (pr_arrays s1)(a := None)\<rparr>"
  let ?w2 = "?w0\<lparr>iw_proc := ?s2\<rparr>"
  have free: "free_array (Some a) s1 = Some ?s2" using m(5) c(4) ne by (simp add: free_array_def)
  have q: "log_free ((iw_sig ?w2)\<lparr>sg_log := pr_log (iw_proc ?w2)\<rparr>)"
    using c(5) m(7) by (simp add: quiet_def log_free_def)
  obtain s3 where s3: "signal_manager_init e (Some ?p) (Some (sv_signals c))
      ((iw_sig ?w2)\<lparr>sg_log := pr_log (iw_proc ?w2)\<rparr>) = Some (SIGNAL_OK, s3)" "flags ?p s3 False False"
    "sg_memory s3 ?p = Some (zeroed_manager\<lparr>sm_config := sv_signals c\<rparr>)"
    "sg_disposition s3 = (\<lambda>n. if n \<in> set (handled (sv_signals c)) then Sig_Handler
                               else sg_disposition (iw_sig w) n)"
    using signal_init_run [OF c(6) q, of ?p] by (auto cong: if_cong)
  obtain w3 where w3: "on_sig (signal_manager_init e (Some ?p) (Some (sv_signals c))) ?w2 = Some (SIGNAL_OK, w3)"
    "quiet w3" "iw_sig w3 = s3" "pr_arrays (iw_proc w3) = pr_arrays ?s2" "pr_closed (iw_proc w3) = pr_closed ?s2"
    "pr_tables (iw_proc w3) = pr_tables ?s2"
    using on_sig_run [where f = "signal_manager_init e (Some ?p) (Some (sv_signals c))" and w = ?w2, OF s3(1)] s3(2) by (auto simp: flags_def)
  obtain l where l: "ilog (log_info_msg (se_log e) (Some ''Server infrastructure initialized'')) w3 =
      Some (set_log l w3)" "quiet (set_log l w3)"
    using ilog_run [OF w3(2), of "se_log e" LOG_LEVEL_INFO] unfolding log_calls by blast
  let ?i = "\<lparr>in_config = c, in_http = h, in_workers = m, in_signals = ?p, in_initialized = True\<rparr>"
  have "server_infrastructure_create e True True (Some c) (Some i0, w) =
      Some (SERVER_INFRA_OK, Some ?i, set_log l w3)"
    using h m(1) free w3(1) l(1) c(3)
    by (simp add: server_infrastructure_create_def on_proc_def zero_infra_def)
  moreover have "manager_ok m (iw_proc (set_log l w3)) (take ?n ids) (replicate ?n zeroed_worker)"
    using m(2,4) w3(4,6) l(2) ne by (auto simp: manager_ok_def quiet_def)
  ultimately show ?thesis
    using h m(3-6,8,9) s3(2-4) w3(3-6) l(2) ne by (auto simp: fun_upd_twist)
qed

text \<open>
  C14. Creating a server from a configuration whose JSON message fits puts together an HTTP server, a worker
  manager with its own copy of the CPU numbers, and the signal handlers. The configuration's own array
  is freed on the way, while the copy of the configuration kept in the object still names it. Destroying
  the object frees the copy and the table of workers, which are all that was allocated, and restores the
  default disposition of every handled signal: no allocation and no global pointer is left.
\<close>

theorem create_then_destroy:
  assumes "creatable e c msg ids a w"
  shows "\<exists>i w1 w2. server_infrastructure_create e True True (Some c) (Some i0, w) =
      Some (SERVER_INFRA_OK, Some i, w1) \<and>
    http_server_create (Some zeroed_server) (Some (http_config_of c)) =
      (HTTP_SERVER_OK, Some (in_http i)) \<and>
    manager_ok (in_workers i) (iw_proc w1) (take (nat (worker_count (sv_workers c))) ids)
      (replicate (nat (worker_count (sv_workers c))) zeroed_worker) \<and>
    wk_cpu_ids (sv_workers (in_config i)) = Some a \<and> pr_arrays (iw_proc w1) a = None \<and>
    server_infrastructure_destroy e (Some i, w1) = Some (Some (zero_infra (in_signals i0)), w2) \<and>
    pr_arrays (iw_proc w2) = (pr_arrays (iw_proc w))(a := None) \<and>
    pr_tables (iw_proc w2) = pr_tables (iw_proc w) \<and>
    pr_closed (iw_proc w2) = pr_closed (iw_proc w) \<and>
    global_signal_manager (iw_sig w2) = None \<and>
    sg_disposition (iw_sig w2) =
      (\<lambda>n. if n \<in> set (handled (sv_signals c)) then Sig_Default else sg_disposition (iw_sig w) n)"
proof -
  let ?p = "in_signals i0" and ?n = "nat (worker_count (sv_workers c))"
  have c: "pr_arrays (iw_proc w) (pr_next (iw_proc w)) = None" "wk_cpu_ids (sv_workers c) = Some a"
    "\<forall>n \<in> set (handled (sv_signals c)). se_sigaction e n" "a \<noteq> pr_next (iw_proc w)"
    "pr_tables (iw_proc w) (Suc (pr_next (iw_proc w))) = None"
    using assms by (auto simp: creatable_def)
  obtain i w1 where i: "server_infrastructure_create e True True (Some c) (Some i0, w) =
      Some (SERVER_INFRA_OK, Some i, w1)"
    "http_server_create (Some zeroed_server) (Some (http_config_of c)) =
      (HTTP_SERVER_OK, Some (in_http i))"
    "in_config i = c" "in_signals i = ?p" "in_initialized i" "quiet w1"
    "manager_ok (in_workers i) (iw_proc w1) (take ?n ids) (replicate ?n zeroed_worker)"
    "wk_cpu_ids (wm_config (in_workers i)) = Some (pr_next (iw_proc w))"
    "pr_arrays (iw_proc w1) = (pr_arrays (iw_proc w))(a := None, pr_next (iw_proc w) := Some (take ?n ids))"
    "pr_closed (iw_proc w1) = pr_closed (iw_proc w)" "flags ?p (iw_sig w1) False False"
    "sg_memory (iw_sig w1) ?p = Some (zeroed_manager\<lparr>sm_config := sv_signals c\<rparr>)"
    "sg_disposition (iw_sig w1) =
      (\<lambda>n. if n \<in> set (handled (sv_signals c)) then Sig_Handler else sg_disposition (iw_sig w) n)"
    "wm_workers (in_workers i) = Some (Suc (pr_next (iw_proc w)))"
    "pr_tables (iw_proc w1) = (pr_tables (iw_proc w))(Suc (pr_next (iw_proc w)) := Some (replicate ?n zeroed_worker))"
    using create_run [OF assms, of i0] by blast
  let ?s1 = "(iw_sig w1)\<lparr>sg_log := pr_log (iw_proc w1)\<rparr>"
  have f: "flags ?p ?s1 False False" using i(6,11) by (simp add: flags_def log_free_def quiet_def)
  obtain s2 where s2: "signal_manager_cleanup e (Some ?p) ?s1 = Some s2" "log_free s2"
    "global_signal_manager s2 = None"
    "sg_disposition s2 = (\<lambda>n. if n \<in> set (handled (sv_signals c)) then Sig_Default
                               else sg_disposition (iw_sig w) n)"
    using signal_cleanup_run [OF c(3) f] i(12,13) by (auto simp: fun_eq_iff)
  have "map_option (Pair ()) (signal_manager_cleanup e (Some ?p) ?s1) = Some ((), s2)"
    by (simp add: s2(1))
  then obtain w2 where w2: "on_sig (\<lambda>s. map_option (Pair ()) (signal_manager_cleanup e (Some ?p) s)) w1 = Some ((), w2)"
    "iw_sig w2 = s2" "pr_arrays (iw_proc w2) = pr_arrays (iw_proc w1)"
    "pr_closed (iw_proc w2) = pr_closed (iw_proc w1)" "pr_tables (iw_proc w2) = pr_tables (iw_proc w1)"
    using on_sig_run [where f = "\<lambda>s. map_option (Pair ()) (signal_manager_cleanup e (Some ?p) s)" and w = w1]
      s2(2) by blast
  obtain s3 where s3: "worker_manager_cleanup (Some (in_workers i), iw_proc w2) = Some (Some zeroed_workers, s3)"
    "pr_closed s3 = pr_closed (iw_proc w1)" "pr_arrays s3 = (pr_arrays (iw_proc w1))(pr_next (iw_proc w) := None)"
    "pr_tables s3 = (pr_tables (iw_proc w1))(Suc (pr_next (iw_proc w)) := None)"
    using cleanup_run [OF i(7), of "in_workers i" "iw_proc w2" "replicate ?n zeroed_worker"] i(7,8,14,15) w2(3-5)
    by (auto simp: manager_ok_def zeroed_worker_def)
  have "server_infrastructure_destroy e (Some i, w1) =
      Some (Some (zero_infra ?p), clear_manager ?p (w2\<lparr>iw_proc := s3\<rparr>))"
    using w2(1) s3(1) i(4,5) by (simp add: server_infrastructure_destroy_def on_proc_def Let_def)
  then show ?thesis
    using i(1-3,7,9,10,15) s2(3,4) s3(2-4) w2(2) c(1,2,4,5) by (auto simp: fun_eq_iff)
qed

definition ex_infra_config :: infra_config where
  "ex_infra_config = zero_infra_config
     \<lparr>sv_port := 2342, sv_plaintext := Some ''Hello, World!'', sv_json := Some ''Hello, World!'',
      sv_workers := \<lparr>worker_count = 2, wk_cpu_ids = Some 7, enable_affinity = True\<rparr>,
      sv_signals := signal_manager_default_config\<rparr>"

definition ex_infra_world :: "unit infra_world" where
  "ex_infra_world = \<lparr>iw_proc = ex_proc, iw_sig = ex_signal_state, iw_global = None, iw_sockopts = []\<rparr>"

lemma ex_creatable: "creatable ex_signal_env ex_infra_config ''Hello, World!'' [4, 6] 7 ex_infra_world"
  by (simp add: creatable_def ex_infra_config_def zero_infra_config_def ex_infra_world_def ex_proc_def
      quiet_def initial_log_def ex_signal_env_def handled_def signal_manager_default_config_def)

lemma create_then_destroy_witness:
  "\<exists>i w1 w2. server_infrastructure_create ex_signal_env True True (Some ex_infra_config)
        (Some (zero_infra 3), ex_infra_world) = Some (SERVER_INFRA_OK, Some i, w1) \<and>
    wk_cpu_ids (sv_workers (in_config i)) = Some 7 \<and> pr_arrays (iw_proc w1) 7 = None \<and>
    server_infrastructure_destroy ex_signal_env (Some i, w1) = Some (Some (zero_infra 3), w2) \<and>
    global_signal_manager (iw_sig w2) = None"
  using create_then_destroy [OF ex_creatable, of "zero_infra 3"] by (auto simp: zero_infra_def)

text \<open>Signals that the reactor has taken over leave the signal state alone.\<close>

lemma reactor_swallows:
  assumes "set ns \<subseteq> {SIGTERM, SIGINT}" and "sg_disposition s SIGTERM = Sig_Reactor"
    and "sg_disposition s SIGINT = Sig_Reactor"
  shows "run_all (arrive e) ns s = Some s"
  using assms(1) by (induction ns) (auto simp: arrive_def assms(2,3))

lemma reactor_construct_disposition:
  "sg_disposition (iw_sig (reactor_construct_signals w)) SIGTERM = Sig_Reactor"
  "sg_disposition (iw_sig (reactor_construct_signals w)) SIGINT = Sig_Reactor"
  "quiet (reactor_construct_signals w) = quiet w"
  "infra_manager i (reactor_construct_signals w) = infra_manager i w"
  "iw_proc (reactor_construct_signals w) = iw_proc w"
  by (simp_all add: reactor_construct_signals_def quiet_def infra_manager_def)

lemma optimize_socket_run:
  assumes "quiet w"
  shows "\<exists>w'. optimize_socket e we i w = Some w' \<and> quiet w' \<and> iw_sig w' = iw_sig w \<and>
    pr_written (iw_proc w') = pr_written (iw_proc w) \<and> pr_tables (iw_proc w') = pr_tables (iw_proc w)"
proof -
  have "quiet (w\<lparr>iw_sockopts := cs\<rparr>)" for cs using assms by (simp add: quiet_def)
  from ilog_run [OF this, of "se_log e" LOG_LEVEL_WARN]
  have warn: "\<exists>l. ilog (log_warn_msg (se_log e) (Some msg)) (w\<lparr>iw_sockopts := cs\<rparr>) =
      Some (set_log l (w\<lparr>iw_sockopts := cs\<rparr>)) \<and> quiet (set_log l (w\<lparr>iw_sockopts := cs\<rparr>))" for msg cs
    by (simp add: log_calls)
  obtain err cs where r: "socket_apply_optimizations (we_sockopt_fails we) (we_socket we)
      (Some (sv_socket (in_config i))) (iw_sockopts w) = (err, cs)" by fastforce
  show ?thesis
  proof (cases "sv_optimize (in_config i) \<and> err \<noteq> SOCKET_OK")
    case True
    then show ?thesis using r warn [of "''Failed to apply socket optimizations''" cs]
      by (auto simp: optimize_socket_def)
  next
    case False
    then show ?thesis using r assms by (auto simp: optimize_socket_def quiet_def)
  qed
qed

lemma signal_ready_run:
  assumes "wm_type m = PROCESS_TYPE_WORKER" and "in_range m"
    and "worker_at m s (nat (wm_current m)) = Some c" and "0 < wc_eventfd c"
  shows "\<exists>m' s'. worker_manager_signal_ready True (Some m, s) = Some (PROCESS_OK, Some m', s') \<and>
    pr_written s' = pr_written s @ [wc_eventfd c] \<and> pr_log s' = pr_log s"
  using assms by (auto simp: worker_manager_signal_ready_def worker_at_def set_worker_def close_fd_def
      split: bind_splits if_splits)

text \<open>
  C32. A worker whose event loop has started never learns that it was asked to stop: whatever sequence of
  SIGTERM and SIGINT ends the loop, no shutdown request is recorded, so the worker reports that the loop
  ended for an unknown reason, and returns success.
\<close>

theorem worker_never_sees_shutdown:
  assumes "quiet w" and "wm_type (in_workers i) = PROCESS_TYPE_WORKER" and "in_range (in_workers i)"
    and "worker_at (in_workers i) (iw_proc w) (nat (wm_current (in_workers i))) = Some c" and "0 < wc_eventfd c"
    and "we_resolved we" and "we_socket we \<noteq> -1" and "we_write_ok we"
    and "set (we_signals we) \<subseteq> {SIGTERM, SIGINT}"
    and "infra_manager i w = Some m" and "\<not> shutdown_requested m"
  shows "\<exists>w0 w1 w2 i' w'. run_worker e we (i, w) = Some (SERVER_INFRA_OK, i', w') \<and>
    pr_written (iw_proc w') = pr_written (iw_proc w) @ [wc_eventfd c] \<and>
    infra_manager i' w' = Some m \<and>
    say e ''Event loop exited for unknown reason'' w0 = Some w1 \<and>
    say e ''Worker process shutting down'' w1 = Some w'"
proof -
  have cpu: "worker_manager_get_cpu_id (Some (in_workers i)) (iw_proc w) = Some (wc_cpu_id c)"
    using assms(2-4) by (simp add: worker_manager_get_cpu_id_def)
  obtain l1 where w1: "say e (''Worker process starting on CPU '' @ dec_int (wc_cpu_id c) @
      '', global_infra: '' @ we_pointer we) w = Some (set_log l1 w)" "quiet (set_log l1 w)"
    using say_run(1) [OF assms(1)] by blast
  let ?w1 = "reactor_construct_signals (set_log l1 w)"
  have q1: "quiet ?w1" using w1(2) by (simp add: reactor_construct_disposition)
  obtain l2 where w2: "say e (''Server listening on port '' @ dec (unat (sv_port (in_config i)))) ?w1 =
      Some (set_log l2 ?w1)" "quiet (set_log l2 ?w1)"
    using say_run(1) [OF q1] by blast
  obtain w3 where w3: "optimize_socket e we i (set_log l2 ?w1) = Some w3" "quiet w3" "iw_sig w3 = iw_sig ?w1"
    "pr_written (iw_proc w3) = pr_written (iw_proc w)" "pr_tables (iw_proc w3) = pr_tables (iw_proc w)"
    using optimize_socket_run [OF w2(2), of e we i] by (auto simp: reactor_construct_disposition)
  obtain m' s4 where s4: "worker_manager_signal_ready True (Some (in_workers i), iw_proc w3) =
      Some (PROCESS_OK, Some m', s4)" "pr_written s4 = pr_written (iw_proc w) @ [wc_eventfd c]"
    "pr_log s4 = pr_log (iw_proc w3)"
    using signal_ready_run [OF assms(2,3) _ assms(5), of "iw_proc w3"] assms(4) w3(4,5) by (auto simp: worker_at_def)
  let ?w4 = "w3\<lparr>iw_proc := s4\<rparr>" and ?i = "i\<lparr>in_workers := m'\<rparr>"
  have "quiet ?w4" using w3(2) s4(3) by (simp add: quiet_def)
  from say_run(1) [OF this] obtain l5 where w5:
    "say e ''Worker ready, starting event loop'' ?w4 = Some (set_log l5 ?w4)" "quiet (set_log l5 ?w4)"
    by blast
  let ?w5 = "set_log l5 ?w4"
  let ?s = "(iw_sig ?w5)\<lparr>sg_log := pr_log (iw_proc ?w5)\<rparr>"
  have "run_all (arrive e) (we_signals we) ?s = Some ?s"
    using reactor_swallows [OF assms(9), of ?s] w3(3) by (simp add: reactor_construct_disposition)
  then have w6: "on_sig (\<lambda>s. map_option (Pair ()) (run_all (arrive e) (we_signals we) s)) ?w5 =
      Some ((), ?w5\<lparr>iw_sig := ?s, iw_proc := iw_proc ?w5\<rparr>)" (is "_ = Some ((), ?w6)")
    by (simp add: on_sig_def)
  have "quiet ?w6" using w5(2) by (simp add: quiet_def)
  from say_run(1) [OF this] obtain l7 where w7:
    "say e ''Event loop exited for unknown reason'' ?w6 = Some (set_log l7 ?w6)" "quiet (set_log l7 ?w6)"
    by blast
  obtain l8 where w8:
    "say e ''Worker process shutting down'' (set_log l7 ?w6) = Some (set_log l8 (set_log l7 ?w6))"
    using say_run(1) [OF w7(2)] by blast
  have m: "infra_manager ?i ?w6 = Some m"
    using assms(10) w3(3) by (simp add: infra_manager_def reactor_construct_signals_def)
  have "run_worker e we (i, w) = Some (SERVER_INFRA_OK, ?i, set_log l8 (set_log l7 ?w6))"
    using cpu w1(1) w2(1) w3(1) s4(1) w5(1) w6 w7(1) w8 m assms(6-8,11)
    by (simp add: run_worker_def on_proc_def signal_manager_shutdown_requested_def Let_def)
  then show ?thesis using w7(1) w8 m s4(2) by (fastforce simp: infra_manager_def)
qed

definition ex_worker_infra :: infra where
  "ex_worker_infra = (zero_infra 3)\<lparr>in_initialized := True, in_config := ex_infra_config,
     in_workers := ex_manager\<lparr>wm_type := PROCESS_TYPE_WORKER, wm_current := 1\<rparr>\<rparr>"

definition ex_worker_env :: worker_env where
  "ex_worker_env = \<lparr>we_pointer = ''0x5000'', we_resolved = True, we_socket = 5,
     we_sockopt_fails = (\<lambda>_ _. False), we_write_ok = True, we_signals = [SIGTERM]\<rparr>"

definition ex_worker_world :: "unit infra_world" where
  "ex_worker_world = ex_infra_world
     \<lparr>iw_sig := put_manager 3 zeroed_manager ex_signal_state,
      iw_proc := ex_proc\<lparr>pr_tables := [8 \<mapsto> [zeroed_worker, zeroed_worker\<lparr>wc_eventfd := 21, wc_cpu_id := 6\<rparr>]]\<rparr>\<rparr>"

lemma worker_never_sees_shutdown_witness:
  "\<exists>w0 w1 i' w'. run_worker ex_signal_env ex_worker_env (ex_worker_infra, ex_worker_world) =
      Some (SERVER_INFRA_OK, i', w') \<and>
    pr_written (iw_proc w') = [21] \<and> infra_manager i' w' = Some zeroed_manager \<and>
    say ex_signal_env ''Event loop exited for unknown reason'' w0 = Some w1 \<and>
    say ex_signal_env ''Worker process shutting down'' w1 = Some w'"
proof -
  have pre: "quiet ex_worker_world" "in_range (in_workers ex_worker_infra)"
    "wm_type (in_workers ex_worker_infra) = PROCESS_TYPE_WORKER"
    "worker_at (in_workers ex_worker_infra) (iw_proc ex_worker_world) (nat (wm_current (in_workers ex_worker_infra))) =
      Some (zeroed_worker\<lparr>wc_eventfd := 21, wc_cpu_id := 6\<rparr>)"
    "infra_manager ex_worker_infra ex_worker_world = Some zeroed_manager"
    by (simp_all add: quiet_def ex_worker_world_def ex_infra_world_def ex_proc_def initial_log_def
        in_range_def ex_worker_infra_def ex_manager_def worker_at_def infra_manager_def put_manager_def
        zero_infra_def)
  note w = worker_never_sees_shutdown [OF pre(1,3,2,4), of ex_worker_env zeroed_manager ex_signal_env]
  from w pre(5) show ?thesis
    by (fastforce simp: ex_worker_env_def zeroed_manager_def ex_worker_world_def ex_infra_world_def ex_proc_def)
qed

text \<open>
  What a \<open>wait\<close> of a process that has children meets: termination signals, and exits.
\<close>

fun met_by_wait :: "wait_event \<Rightarrow> bool" where
  "met_by_wait (Wait_signal n) = (n = SIGTERM \<or> n = SIGINT)"
| "met_by_wait (Wait_exit pid) = (0 < pid)"
| "met_by_wait Wait_no_child = False"

lemma wait_run:
  assumes "list_all met_by_wait es" and "flags p s shut reload"
    and "sg_disposition s SIGTERM = Sig_Handler" and "sg_disposition s SIGINT = Sig_Handler"
  shows "\<exists>answer s' shut'. wait_child e es s = Some (answer, s') \<and> flags p s' shut' reload \<and>
    (answer = None \<longleftrightarrow> (\<forall>pid. Wait_exit pid \<notin> set es)) \<and> (\<forall>pid. answer = Some pid \<longrightarrow> 0 < pid) \<and>
    (answer = None \<longrightarrow> shut' = (shut \<or> (\<exists>n. Wait_signal n \<in> set es)))"
  using assms
proof (induction es arbitrary: s shut)
  case (Cons ev es)
  show ?case
  proof (cases ev)
    case (Wait_signal n)
    then have n: "n = SIGTERM \<or> n = SIGINT" and handler: "sg_disposition s n = Sig_Handler" using Cons.prems by auto
    obtain s1 where s1: "signal_handler e n s = Some s1" "sg_disposition s1 = sg_disposition s"
      "flags p s1 (shut \<or> n = SIGTERM \<or> n = SIGINT) (reload \<or> n = SIGHUP)"
      using handler_run [OF Cons.prems(2)] by blast
    have a: "arrive e n s = Some s1" "\<not> interrupts s n" using s1(1) handler by (simp_all add: arrive_def interrupts_def)
    have "flags p s1 True reload" using s1(3) n by auto
    with Cons.IH [of s1 True] Cons.prems s1(2) obtain answer s' shut' where
      "wait_child e es s1 = Some (answer, s')" "flags p s' shut' reload"
      "answer = None \<longleftrightarrow> (\<forall>pid. Wait_exit pid \<notin> set es)" "\<forall>pid. answer = Some pid \<longrightarrow> 0 < pid"
      "answer = None \<longrightarrow> shut'" by auto
    then show ?thesis using a Wait_signal by auto
  next
    case (Wait_exit pid)
    then show ?thesis using Cons.prems by auto
  qed (use Cons.prems in simp)
qed simp

text \<open>The first round of the parent.\<close>

lemma parent_loop_run:
  assumes "quiet w" and "flags (in_signals i) (iw_sig w) shut reload" and "wm_type (in_workers i) = PROCESS_TYPE_PARENT"
    and "sg_disposition (iw_sig w) SIGTERM = Sig_Handler" and "sg_disposition (iw_sig w) SIGINT = Sig_Handler"
    and "list_all met_by_wait es"
  shows "\<exists>w'. parent_loop e ((es, delay) # rounds) (i, w) = Some (shut \<or> (\<exists>pid. Wait_exit pid \<in> set es), w') \<and> quiet w' \<and>
    (\<not> shut \<and> (\<forall>pid. Wait_exit pid \<notin> set es) \<longrightarrow>
       signal_manager_shutdown_requested (infra_manager i w') = (\<exists>n. Wait_signal n \<in> set es))"
proof (cases shut)
  case True
  then have "signal_manager_shutdown_requested (infra_manager i w)"
    using assms(2) by (auto simp: infra_manager_def flags_def signal_manager_shutdown_requested_def)
  then show ?thesis using True assms(1) by simp
next
  case False
  then have open_loop: "\<not> signal_manager_shutdown_requested (infra_manager i w)"
    using assms(2) by (auto simp: infra_manager_def flags_def signal_manager_shutdown_requested_def)
  let ?s = "(iw_sig w)\<lparr>sg_log := pr_log (iw_proc w)\<rparr>"
  have f: "flags (in_signals i) ?s False reload"
    using assms(1,2) False by (auto simp: flags_def log_free_def quiet_def)
  have d: "sg_disposition ?s SIGTERM = Sig_Handler" "sg_disposition ?s SIGINT = Sig_Handler" using assms(4,5) by simp_all
  obtain answer s1 shut1 where s1: "wait_child e es ?s = Some (answer, s1)" "flags (in_signals i) s1 shut1 reload"
    "answer = None \<longleftrightarrow> (\<forall>pid. Wait_exit pid \<notin> set es)" "\<forall>pid. answer = Some pid \<longrightarrow> 0 < pid"
    "answer = None \<longrightarrow> shut1 = (\<exists>n. Wait_signal n \<in> set es)"
    using wait_run [OF assms(6) f d, of e] by (simp only: simp_thms) blast
  let ?w1 = "w\<lparr>iw_sig := s1, iw_proc := (iw_proc w)\<lparr>pr_log := sg_log s1\<rparr>\<rparr>"
  have w1: "on_sig (wait_child e es) w = Some (answer, ?w1)" using s1(1) by (simp add: on_sig_def)
  have q1: "quiet ?w1" using s1(2) by (simp add: flags_def log_free_def quiet_def)
  show ?thesis
  proof (cases answer)
    case None
    then show ?thesis using w1 open_loop q1 s1(2,3,5) False
      by (auto simp: infra_manager_def flags_def signal_manager_shutdown_requested_def)
  next
    case (Some pid)
    then have pid: "pid \<noteq> -1" using s1(4) by auto
    obtain l where l: "plog (log_error_msg (se_log e) (Some (''A worker process (PID: '' @ dec_int pid @
        '') has exited unexpectedly. Shutting down''))) (iw_proc ?w1) = Some ((iw_proc ?w1)\<lparr>pr_log := l\<rparr>)"
      "\<not> log_locked l"
      using plog_run [of "iw_proc ?w1" "se_log e" LOG_LEVEL_ERROR] q1 by (auto simp: quiet_def log_calls)
    have "quiet (set_log l ?w1)" using l(2) by (simp add: quiet_def set_log_def)
    from say_run(1) [OF this] obtain l' where "say e ''Worker process exited, shutting down'' (set_log l ?w1) =
        Some (set_log l' (set_log l ?w1))" "quiet (set_log l' (set_log l ?w1))" by blast
    then show ?thesis
      using open_loop w1 Some pid l(1) assms(3) s1(3)
      by (auto simp: worker_manager_wait_workers_def on_proc_def set_log_def)
  qed
qed

lemma run_parent_run:
  assumes "quiet w" and "flags (in_signals i) (iw_sig w) shut reload" and "wm_type (in_workers i) = PROCESS_TYPE_PARENT"
    and "sg_disposition (iw_sig w) SIGTERM = Sig_Handler" and "sg_disposition (iw_sig w) SIGINT = Sig_Handler"
    and "list_all met_by_wait es"
  shows "\<exists>w'. run_parent e ((es, delay) # rounds) (i, w) = Some (shut \<or> (\<exists>pid. Wait_exit pid \<in> set es), w') \<and>
    (\<not> shut \<and> (\<forall>pid. Wait_exit pid \<notin> set es) \<longrightarrow>
       signal_manager_shutdown_requested (infra_manager i w') = (\<exists>n. Wait_signal n \<in> set es))"
proof -
  obtain l where l: "say e (''Parent process started, managing '' @
      dec_int (worker_count (sv_workers (in_config i))) @ '' workers'') w = Some (set_log l w)"
    "quiet (set_log l w)"
    using say_run(1) [OF assms(1)] by blast
  let ?ends = "shut \<or> (\<exists>pid. Wait_exit pid \<in> set es)"
  obtain w' where w': "parent_loop e ((es, delay) # rounds) (i, set_log l w) = Some (?ends, w')" "quiet w'"
    "\<not> shut \<and> (\<forall>pid. Wait_exit pid \<notin> set es) \<longrightarrow>
       signal_manager_shutdown_requested (infra_manager i w') = (\<exists>n. Wait_signal n \<in> set es)"
    using parent_loop_run [where w = "set_log l w" and es = es, OF l(2) _ assms(3) _ _ assms(6)] assms(2,4,5) by fastforce
  obtain l' where "say e ''Parent process shutting down'' w' = Some (set_log l' w')"
    using say_run(1) [OF w'(2)] by blast
  then show ?thesis using l(1) w'(1,3)
    by (cases ?ends) (auto simp: run_parent_def simp del: parent_loop.simps)
qed

text \<open>
  C31. A created server is started, its workers start, and then the parent waits. A termination signal that
  arrives while it waits does not end its loop: the handlers were installed with \<open>SA_RESTART\<close>, so \<open>wait\<close>
  goes on. Whatever signals arrive, the start returns exactly when a worker exits; without an exit it
  stays blocked, with the shutdown request recorded. One worker that exits is enough, and no other worker is
  stopped or waited for.
\<close>

theorem parent_waits_for_a_worker:
  assumes "creatable e c msg ids a w" and "handle_sigterm (sv_signals c)" and "handle_sigint (sv_signals c)"
    and "\<forall>k < nat (worker_count (sv_workers c)). good_answer (ans k)" and "list_all met_by_wait es"
  shows "\<exists>i w1 i2 w2. server_infrastructure_create e True True (Some c) (Some i0, w) = Some (SERVER_INFRA_OK, Some i, w1) \<and>
    server_infrastructure_start e ans we ((es, delay) # rounds) (Some i, w1) =
      Some (\<exists>pid. Wait_exit pid \<in> set es, SERVER_INFRA_OK, Some i2, w2) \<and>
    ((\<forall>pid. Wait_exit pid \<notin> set es) \<longrightarrow>
       signal_manager_shutdown_requested (infra_manager i2 w2) = (\<exists>n. Wait_signal n \<in> set es))"
proof -
  let ?n = "nat (worker_count (sv_workers c))"
  obtain i w1 where i: "server_infrastructure_create e True True (Some c) (Some i0, w) = Some (SERVER_INFRA_OK, Some i, w1)"
    "quiet w1" "in_signals i = in_signals i0" "in_initialized i"
    "manager_ok (in_workers i) (iw_proc w1) (take ?n ids) (replicate ?n zeroed_worker)"
    "wm_type (in_workers i) = PROCESS_TYPE_PARENT" "flags (in_signals i0) (iw_sig w1) False False"
    "sg_disposition (iw_sig w1) = (\<lambda>n. if n \<in> set (handled (sv_signals c)) then Sig_Handler else sg_disposition (iw_sig w) n)"
    using create_run [OF assms(1), of i0] by blast
  have "length (take ?n ids) = ?n" using assms(1) by (simp add: creatable_def)
  then have "\<forall>k < length (take ?n ids). good_answer (ans k)" using assms(4) by simp
  from fork_all_run [OF i(5) this, of "se_log e"] obtain s2 where
    s2: "worker_manager_fork_workers (se_log e) ans (Some (in_workers i), iw_proc w1) = Some (PROCESS_OK, Some (in_workers i), s2)"
    "\<not> log_locked (pr_log s2)" by auto
  let ?w2 = "w1\<lparr>iw_global := Some (in_signals i), iw_proc := s2\<rparr>"
  have "quiet ?w2" using s2(2) by (simp add: quiet_def)
  moreover have "flags (in_signals i) (iw_sig ?w2) False False" using i(3,7) by simp
  moreover have "sg_disposition (iw_sig ?w2) SIGTERM = Sig_Handler" "sg_disposition (iw_sig ?w2) SIGINT = Sig_Handler"
    using assms(2,3) by (simp_all add: i(8) handled_def)
  ultimately obtain w3 where w3: "run_parent e ((es, delay) # rounds) (i, ?w2) = Some (\<exists>pid. Wait_exit pid \<in> set es, w3)"
    "(\<forall>pid. Wait_exit pid \<notin> set es) \<longrightarrow>
       signal_manager_shutdown_requested (infra_manager i w3) = (\<exists>n. Wait_signal n \<in> set es)"
    using run_parent_run [of ?w2 i False False es e delay rounds] i(6) assms(5) by auto
  have "server_infrastructure_start e ans we ((es, delay) # rounds) (Some i, w1) =
      Some (\<exists>pid. Wait_exit pid \<in> set es, SERVER_INFRA_OK, Some i, w3)"
    using i(4,6) s2(1) w3(1)
    by (simp add: server_infrastructure_start_def on_proc_def worker_manager_get_type_def)
  then show ?thesis using i(1) w3(2) by blast
qed

lemma parent_waits_for_a_worker_witness:
  "(\<exists>i w1 i2 w2. server_infrastructure_create ex_signal_env True True (Some ex_infra_config)
        (Some (zero_infra 3), ex_infra_world) = Some (SERVER_INFRA_OK, Some i, w1) \<and>
     server_infrastructure_start ex_signal_env ex_answers ex_worker_env [([Wait_signal SIGTERM], [])] (Some i, w1) =
       Some (False, SERVER_INFRA_OK, Some i2, w2) \<and>
     signal_manager_shutdown_requested (infra_manager i2 w2)) \<and>
   (\<exists>i w1 i2 w2. server_infrastructure_create ex_signal_env True True (Some ex_infra_config)
        (Some (zero_infra 3), ex_infra_world) = Some (SERVER_INFRA_OK, Some i, w1) \<and>
     server_infrastructure_start ex_signal_env ex_answers ex_worker_env [([Wait_signal SIGTERM, Wait_exit 1001], [])] (Some i, w1) =
       Some (True, SERVER_INFRA_OK, Some i2, w2))"
proof -
  have c: "handle_sigterm (sv_signals ex_infra_config)" "handle_sigint (sv_signals ex_infra_config)"
    "\<forall>k < nat (worker_count (sv_workers ex_infra_config)). good_answer (ex_answers k)"
    by (simp_all add: ex_infra_config_def signal_manager_default_config_def good_answer_def ex_answers_def)
  have es: "list_all met_by_wait [Wait_signal SIGTERM]" "list_all met_by_wait [Wait_signal SIGTERM, Wait_exit 1001]"
    by simp_all
  show ?thesis
    using parent_waits_for_a_worker [OF ex_creatable c es(1), of "zero_infra 3" ex_worker_env "[]" "[]"]
      parent_waits_for_a_worker [OF ex_creatable c es(2), of "zero_infra 3" ex_worker_env "[]" "[]"] by simp
qed

text \<open>
  C24. A server that was created from a configuration with both texts answers every request event with
  exactly one response, the one of its route, and logs nothing; other events are ignored.
\<close>

theorem created_server_answers:
  assumes "creatable e c msg ids a w" and "c_string msg"
    and "sv_plaintext c = Some p" and "c_string p" and "length p < 2 ^ 63"
    and "d_base target \<noteq> None" and "data_text target = Some t"
  shows "\<exists>i w1 ty bd. server_infrastructure_create e True True (Some c) (Some i0, w) =
      Some (SERVER_INFRA_OK, Some i, w1) \<and>
    server_infrastructure_request_handler e (Some (Some i)) (Server_request target) w1 =
      Some ([Server_respond ''200 OK'' ty bd], w1) \<and>
    data_text ty = Some (route_type (route_of_text t)) \<and> data_text bd = Some (route_body p msg (route_of_text t)) \<and>
    server_infrastructure_request_handler e (Some (Some i)) Server_other w1 = Some ([], w1)"
proof -
  obtain i w1 where i: "server_infrastructure_create e True True (Some c) (Some i0, w) =
      Some (SERVER_INFRA_OK, Some i, w1)"
    "http_server_create (Some zeroed_server) (Some (http_config_of c)) =
      (HTTP_SERVER_OK, Some (in_http i))"
    using create_run [OF assms(1), of i0] by blast
  have "serves (in_http i) p msg"
    using create_serves [OF i(2), of msg p] assms by (simp add: http_config_of_def creatable_def)
  from handle_serves [OF this parse_route_text [OF assms(7,6)]] obtain ty bd where
    "http_server_handle_request (Some (in_http i)) (Some target) =
      Some (HTTP_SERVER_OK, [Server_respond ''200 OK'' ty bd])"
    "data_text ty = Some (route_type (route_of_text t))"
    "data_text bd = Some (route_body p msg (route_of_text t))" by blast
  then show ?thesis using i(1) by (simp add: server_infrastructure_request_handler_def)
qed

lemma created_server_answers_witness:
  "\<exists>i w1 ty bd. server_infrastructure_create ex_signal_env True True (Some ex_infra_config)
        (Some (zero_infra 3), ex_infra_world) = Some (SERVER_INFRA_OK, Some i, w1) \<and>
    server_infrastructure_request_handler ex_signal_env (Some (Some i)) (Server_request (segment_of ''/json'')) w1 =
      Some ([Server_respond ''200 OK'' ty bd], w1) \<and>
    data_text bd = Some ''{\"message\":\"Hello, World!\"}''"
proof -
  have "c_string ''Hello, World!''" "sv_plaintext ex_infra_config = Some ''Hello, World!''"
    "length ''Hello, World!'' < 2 ^ 63"
    "d_base (segment_of ''/json'') \<noteq> None" "data_text (segment_of ''/json'') = Some ''/json''"
    using segment_of_text [of "''/json''"] by (simp_all add: ex_infra_config_def NUL_def)
  from created_server_answers [OF ex_creatable this(1,2,1,3-5), of "zero_infra 3"]
  show ?thesis by (auto simp: route_of_text_def json_text_def)
qed

end
