(* ===== verification/Silence.thy ===== *)
theory Silence
  imports Server_Infra
begin

text \<open>
  A silenced logger: with the flag \<open>is_logging_disabled\<close> set, no operation of any module touches the logger.
  Each lemma says so for one operation of the modules in \<open>Process\<close>, \<open>Signals\<close> and \<open>Server_Infra\<close>.
\<close>

subsection \<open>The worker manager\<close>

lemma log_disabled: "is_logging_disabled l \<Longrightarrow> log_internal e lv m l = Some l"
  by (simp add: log_internal_def)

lemmas log_disabled_calls = log_calls log_disabled

definition mute_proc :: "log_state \<Rightarrow> proc_state \<Rightarrow> bool" where
  "mute_proc l s \<longleftrightarrow> pr_log s = l \<and> is_logging_disabled l"

definition mute_sig :: "log_state \<Rightarrow> 'h signal_state \<Rightarrow> bool" where
  "mute_sig l s \<longleftrightarrow> sg_log s = l \<and> is_logging_disabled l"

definition mute :: "log_state \<Rightarrow> 'h infra_world \<Rightarrow> bool" where
  "mute l w \<longleftrightarrow> pr_log (iw_proc w) = l \<and> is_logging_disabled l"

lemma free_array_mute: "free_array p s = Some s' \<Longrightarrow> pr_log s' = pr_log s"
  by (auto simp: free_array_def split: option.splits if_splits)

lemma free_table_mute: "free_table p s = Some s' \<Longrightarrow> pr_log s' = pr_log s"
  by (auto simp: free_table_def split: option.splits if_splits)

lemma set_worker_mute: "set_worker i c m s = Some s' \<Longrightarrow> pr_log s' = pr_log s"
  by (auto simp: set_worker_def split: bind_splits if_splits)

lemma worker_init_mute:
  "worker_manager_init m1 m2 c (m, s) = Some (err, m', s') \<Longrightarrow> pr_log s' = pr_log s"
  by (auto simp: worker_manager_init_def Let_def alloc_array_def alloc_table_def dest!: free_array_mute
      split: if_splits option.splits prod.splits bind_splits)

lemma close_workers_mute: "close_workers ws n s = Some s' \<Longrightarrow> pr_log s' = pr_log s"
  by (induction ws n s rule: close_workers.induct) (auto simp: close_fd_def split: if_splits)

lemma worker_cleanup_mute: "worker_manager_cleanup (m, s) = Some (m', s') \<Longrightarrow> pr_log s' = pr_log s"
  by (auto simp: worker_manager_cleanup_def dest!: free_array_mute free_table_mute close_workers_mute
      split: option.splits bind_splits)

lemma signal_ready_mute:
  "worker_manager_signal_ready ok (m, s) = Some (err, m', s') \<Longrightarrow> pr_log s' = pr_log s"
  by (auto simp: worker_manager_signal_ready_def close_fd_def dest!: set_worker_mute
      split: option.splits if_splits bind_splits)

lemma plog_mute: "mute_proc l s \<Longrightarrow> plog (log_internal e lv m) s = Some s"
  by (simp add: mute_proc_def plog_def log_disabled)

lemma close_fd_mute [simp]: "mute_proc l (close_fd fd s) = mute_proc l s"
  by (simp add: mute_proc_def close_fd_def)

lemma set_worker_keeps: "set_worker i c m s = Some s' \<Longrightarrow> mute_proc l s' = mute_proc l s"
  by (simp add: mute_proc_def set_worker_mute)

lemma close_earlier_mute: "close_earlier k j (m, s) = Some (m', s') \<Longrightarrow> mute_proc l s' = mute_proc l s"
  by (induction k j "(m, s)" arbitrary: m s rule: close_earlier.induct)
    (auto dest!: set_worker_keeps [where l = l] split: bind_splits if_splits)

lemma fork_child_mute: "fork_child a i (m, s) = Some (err, m', s') \<Longrightarrow> mute_proc l s' = mute_proc l s"
  by (auto simp: fork_child_def Let_def dest!: close_earlier_mute [where l = l] set_worker_keeps [where l = l] split: bind_splits if_splits)

lemma fork_parent_mute:
  "mute_proc l s \<Longrightarrow> fork_parent e a i (m, s) = Some (err, m', s') \<Longrightarrow> mute_proc l s'"
  by (auto simp: fork_parent_def Let_def log_info_msg_def plog_mute [where l = l] dest!: set_worker_keeps [where l = l]
      split: bind_splits if_splits)

lemma fork_loop_mute:
  "mute_proc l s \<Longrightarrow> fork_loop e ans k i (m, s) = Some (err, m', s') \<Longrightarrow> mute_proc l s'"
proof (induction k arbitrary: i m s)
  case 0
  then show ?case by (simp add: log_info_msg_def plog_mute [OF 0(1)])
next
  case (Suc k)
  show ?case
  proof (cases "fa_eventfd (ans i) \<noteq> -1 \<and> fa_pid (ans i) > 0")
    case True
    then obtain err1 m1 s1 where "fork_parent e (ans i) i (m, s) = Some (err1, m1, s1)"
      "if err1 \<noteq> PROCESS_OK then Some (err1, m1, s1) = Some (err, m', s')
       else fork_loop e ans k (Suc i) (m1, s1) = Some (err, m', s')"
      using Suc.prems(2) by (auto simp: Let_def split: option.splits if_splits)
    then show ?thesis
      using fork_parent_mute [OF Suc.prems(1), of e "ans i" i m err1 m1 s1] Suc.IH [of s1 "Suc i" m1]
      by (auto split: if_splits)
  next
    case False
    then show ?thesis
      using Suc.prems fork_child_mute by (auto simp: Let_def split: if_splits)
  qed
qed

lemma wait_workers_mute:
  "mute_proc l s \<Longrightarrow> worker_manager_wait_workers e pid (m, s) = Some (err, m', s') \<Longrightarrow> mute_proc l s'"
  by (auto simp: worker_manager_wait_workers_def log_error_msg_def plog_mute [where l = l]
      split: option.splits if_splits)

subsection \<open>The signal module\<close>

lemma with_log_mute: "mute_sig l s \<Longrightarrow> with_log (log_internal e lv m) s = Some s"
  by (simp add: mute_sig_def with_log_def log_disabled)

lemma mute_sig_update [simp]:
  "mute_sig l (put_manager p m s) = mute_sig l s"
  "mute_sig l (s\<lparr>sg_disposition := d\<rparr>) = mute_sig l s"
  "mute_sig l (s\<lparr>global_signal_manager := g\<rparr>) = mute_sig l s"
  "mute_sig l (s\<lparr>sg_invoked := i\<rparr>) = mute_sig l s"
  by (simp_all add: mute_sig_def put_manager_def)

lemma invoke_or_mute:
  "mute_sig l s \<Longrightarrow> invoke_or h n (with_log (log_internal e lv m)) s = Some s' \<Longrightarrow> mute_sig l s'"
  "mute_sig l s \<Longrightarrow> invoke_or h n Some s = Some s' \<Longrightarrow> mute_sig l s'"
  by (auto simp: invoke_or_def with_log_mute split: option.splits)

lemma arrive_mute: "mute_sig l s \<Longrightarrow> arrive e n s = Some s' \<Longrightarrow> mute_sig l s'"
  by (auto simp: arrive_def signal_handler_def log_calls with_log_mute dest!: invoke_or_mute [where l = l, rotated]
      split: disposition.splits option.splits if_splits)

lemma arrivals_mute: "mute_sig l s \<Longrightarrow> run_all (arrive e) ns s = Some s' \<Longrightarrow> mute_sig l s'"
  by (rule run_all_invariant [where P = "mute_sig l" and f = "arrive e" and xs = ns]) (auto intro: arrive_mute)

lemma wait_mute: "mute_sig l s \<Longrightarrow> wait_child e es s = Some (answer, s') \<Longrightarrow> mute_sig l s'"
proof (induction es arbitrary: s)
  case (Cons ev es)
  then show ?case
    by (cases ev) (auto dest!: arrive_mute [where l = l, rotated] split: bind_splits if_splits)
qed simp

lemma setup_mute:
  "mute_sig l s \<Longrightarrow> setup_signal_handler e n b s = Some (err, s') \<Longrightarrow> mute_sig l s'"
  by (auto simp: setup_signal_handler_def log_calls with_log_mute split: if_splits)

lemma setup_all_mute: "mute_sig l s \<Longrightarrow> setup_all e ns s = Some (err, s') \<Longrightarrow> mute_sig l s'"
  by (induction ns arbitrary: s) (auto dest!: setup_mute [where l = l, rotated] split: option.splits if_splits)

lemma signal_init_mute:
  "mute_sig l s \<Longrightarrow> signal_manager_init e p c s = Some (err, s') \<Longrightarrow> mute_sig l s'"
  by (auto simp: signal_manager_init_def Let_def log_calls with_log_mute
      dest!: setup_all_mute [where l = l, rotated] split: option.splits if_splits)

lemma signal_cleanup_mute:
  assumes "mute_sig l s" and "signal_manager_cleanup e p s = Some s'"
  shows "mute_sig l s'"
proof -
  have "mute_sig l s2" if "run_all (restore_signal e) ns s1 = Some s2" "mute_sig l s1" for ns s1 s2
    using that(2,1)
    by (rule run_all_invariant [where P = "mute_sig l" and f = "restore_signal e" and xs = ns, rotated])
      (auto simp: restore_signal_def dest!: setup_mute [where l = l, rotated])
  then show ?thesis
    using assms by (fastforce simp: signal_manager_cleanup_def Let_def log_calls with_log_mute
        split: option.splits bind_splits if_splits)
qed

subsection \<open>The infrastructure\<close>

lemma ilog_mute: "mute l w \<Longrightarrow> ilog (log_internal e lv m) w = Some w"
  by (simp add: mute_def ilog_def plog_def log_disabled)

lemma say_mute [simp]: "mute l w \<Longrightarrow> say e t w = Some w" "mute l w \<Longrightarrow> complain e t w = Some w"
  by (simp_all add: say_def complain_def log_calls ilog_mute)

lemma on_proc_mute:
  assumes "on_proc f w = Some (r, w')" and "mute l w"
    and "\<And>s'. f (iw_proc w) = Some (r, s') \<Longrightarrow> mute_proc l (iw_proc w) \<Longrightarrow> mute_proc l s'"
  shows "mute l w'"
  using assms by (auto simp: on_proc_def mute_def mute_proc_def)

lemma on_sig_mute:
  assumes "on_sig f w = Some (r, w')" and "mute l w"
    and "\<And>s s'. f s = Some (r, s') \<Longrightarrow> mute_sig l s \<Longrightarrow> mute_sig l s'"
  shows "mute l w'"
  using assms by (fastforce simp: on_sig_def mute_def mute_sig_def)

lemma mute_updates [simp]:
  "mute l (clear_manager p w) = mute l w"
  "mute l (reactor_construct_signals w) = mute l w"
  "mute l (w\<lparr>iw_sockopts := c\<rparr>) = mute l w"
  "mute l (w\<lparr>iw_global := g\<rparr>) = mute l w"
  by (simp_all add: mute_def clear_manager_def reactor_construct_signals_def)

lemma init_mute: "server_infrastructure_init w = (err, w') \<Longrightarrow> mute l w' = mute l w"
  by (auto simp: server_infrastructure_init_def mute_def Let_def split: prod.splits if_splits)

lemma cleanup_mute [simp]: "mute l (server_infrastructure_cleanup w) = mute l w"
  by (simp add: server_infrastructure_cleanup_def mute_def log_cleanup_def)

lemma default_config_mute:
  "server_infrastructure_default_config online mem w = Some (c, w') \<Longrightarrow> mute l w' = mute l w"
  by (auto simp: server_infrastructure_default_config_def mute_def alloc_array_def Let_def
      split: option.splits if_splits prod.splits)

lemma proc_mutes:
  assumes "mute l w"
  shows "on_proc (\<lambda>s. map_option snd (worker_manager_init m1 m2 c (m, s))) w = Some (m', w') \<Longrightarrow> mute l w'"
    and "on_proc (\<lambda>s. map_option (Pair ()) (free_array q s)) w = Some (u, w') \<Longrightarrow> mute l w'"
    and "on_proc (\<lambda>s. worker_manager_cleanup (m, s)) w = Some (m', w') \<Longrightarrow> mute l w'"
    and "on_proc (\<lambda>s. map_option snd (worker_manager_signal_ready ok (m, s))) w = Some (m', w') \<Longrightarrow> mute l w'"
    and "on_proc (\<lambda>s. map_option (\<lambda>(err, m, s). (err, s)) (worker_manager_wait_workers e pid (m, s))) w =
           Some (err, w') \<Longrightarrow> mute l w'"
    and "on_proc (\<lambda>s. map_option (\<lambda>(err, m, s). ((err, m), s)) (worker_manager_fork_workers e ans (m, s))) w =
           Some (em, w') \<Longrightarrow> mute l w'"
  using assms
  by (auto simp: on_proc_def mute_def worker_manager_fork_workers_def
      dest!: worker_init_mute free_array_mute worker_cleanup_mute signal_ready_mute
        wait_workers_mute [where l = l, rotated] fork_loop_mute [where l = l, rotated]
      split: option.splits)
    (auto simp: mute_proc_def)

lemma sig_mutes:
  assumes "mute l w"
  shows "on_sig (signal_manager_init e p c) w = Some (serr, w') \<Longrightarrow> mute l w'"
    and "on_sig (\<lambda>s. map_option (Pair u) (signal_manager_cleanup e p s)) w = Some (u', w') \<Longrightarrow> mute l w'"
    and "on_sig (\<lambda>s. map_option (Pair u) (run_all (arrive e) ns s)) w = Some (u', w') \<Longrightarrow> mute l w'"
    and "on_sig (wait_child e es) w = Some (answer, w') \<Longrightarrow> mute l w'"
  using assms
  by (auto elim!: on_sig_mute intro: signal_init_mute signal_cleanup_mute arrivals_mute wait_mute)

lemma create_mute:
  "mute l w \<Longrightarrow> server_infrastructure_create e m1 m2 c (i, w) = Some (err, i', w') \<Longrightarrow> mute l w'"
  by (auto simp: server_infrastructure_create_def Let_def log_calls ilog_mute [where l = l]
      dest!: proc_mutes [where l = l, rotated] sig_mutes [where l = l, rotated]
      split: option.splits prod.splits if_splits bind_splits)

lemma destroy_mute:
  "mute l w \<Longrightarrow> server_infrastructure_destroy e (i, w) = Some (i', w') \<Longrightarrow> mute l w'"
  by (auto simp: server_infrastructure_destroy_def Let_def
      dest!: proc_mutes [where l = l, rotated] sig_mutes [where l = l, rotated]
      split: option.splits prod.splits if_splits bind_splits)

lemma optimize_mute: "mute l w \<Longrightarrow> optimize_socket e we i w = Some w' \<Longrightarrow> mute l w'"
  by (auto simp: optimize_socket_def Let_def log_calls ilog_mute [where l = l]
      split: option.splits prod.splits if_splits bind_splits)

lemma run_worker_mute:
  assumes "mute l w" and "run_worker e we (i, w) = Some (err, i', w')"
  shows "mute l w'"
  using assms
  by (auto simp: run_worker_def Let_def say_mute [where l = l]
      dest!: proc_mutes [where l = l, rotated] sig_mutes [where l = l, rotated]
        optimize_mute [where l = l, rotated]
      split: prod.splits if_splits bind_splits)

lemma parent_loop_mute:
  "mute l w \<Longrightarrow> parent_loop e rounds (i, w) = Some (b, w') \<Longrightarrow> mute l w'"
proof (induction rounds arbitrary: w)
  case (Cons r rounds)
  then show ?case
    by (auto simp: say_mute [where l = l]
        dest!: proc_mutes [where l = l, rotated] sig_mutes [where l = l, rotated]
        split: prod.splits option.splits if_splits bind_splits)
qed (auto split: if_splits)

lemma start_mute:
  "mute l w \<Longrightarrow> server_infrastructure_start e ans we rounds (i, w) = Some (b, err, i', w') \<Longrightarrow> mute l w'"
  by (auto simp: server_infrastructure_start_def run_parent_def Let_def say_mute [where l = l] simp del: parent_loop.simps
      dest!: proc_mutes [where l = l, rotated] run_worker_mute [where l = l, rotated]
        parent_loop_mute [where l = l, rotated]
      split: option.splits prod.splits if_splits bind_splits)

end
