(* ===== verification/Http_Main.thy ===== *)
theory Http_Main
  imports Silence
begin

text \<open>
  Components \<open>src/src/main/libreactor.c\<close> and \<open>src/src/main/libreactor-server.c\<close>: the two programs around the
  HTTP server. The system's answers are an argument. As a process may be a worker, what is described is the
  run of one process, from \<open>main\<close> to its exit status.
\<close>

record main_env =
  me_signal :: signal_env
  me_online :: "cpu_set option"
  me_cpu_memory :: "nat \<Rightarrow> bool"
  me_memory1 :: bool
  me_memory2 :: bool
  me_fork :: "nat \<Rightarrow> fork_answer"
  me_worker :: worker_env
  me_rounds :: "(wait_event list \<times> int list) list"

definition infra_error_number :: "server_infra_error \<Rightarrow> int" where
  "infra_error_number err =
     (case err of SERVER_INFRA_OK \<Rightarrow> 0 | SERVER_INFRA_ERROR_INIT \<Rightarrow> -1 | SERVER_INFRA_ERROR_CONFIG \<Rightarrow> -2
      | SERVER_INFRA_ERROR_RESOURCE \<Rightarrow> -3 | SERVER_INFRA_ERROR_STARTUP \<Rightarrow> -4)"

text \<open>
  How a process ends: its exit status, \<open>None\<close> when the parent is still waiting at the end of the script;
  what it printed to standard output and to the error stream itself; and the state it leaves.
\<close>

record 'h main_end =
  mn_status :: "int option"
  mn_usage :: bool
  mn_stderr :: "string list"
  mn_world :: "'h infra_world"

definition ended :: "int \<Rightarrow> 'h infra_world \<Rightarrow> 'h main_end" where
  "ended n w = \<lparr>mn_status = Some n, mn_usage = False, mn_stderr = [], mn_world = w\<rparr>"

definition EXIT_SUCCESS :: int where "EXIT_SUCCESS = 0"
definition EXIT_FAILURE :: int where "EXIT_FAILURE = 1"

text \<open>What both programs do once the server is created: start, report, and clean up.\<close>

definition start_and_stop ::
  "main_env \<Rightarrow> string \<Rightarrow> infra option \<times> 'h infra_world \<Rightarrow> 'h main_end option" where
  "start_and_stop e bye iw = do {
     (finished, err, i, w) \<leftarrow>
       server_infrastructure_start (me_signal e) (me_fork e) (me_worker e) (me_rounds e) iw;
     if \<not> finished
     then Some \<lparr>mn_status = None, mn_usage = False, mn_stderr = [], mn_world = w\<rparr>
     else do {
       w \<leftarrow> (if err \<noteq> SERVER_INFRA_OK
             then complain (me_signal e) (''Failed to start server: '' @ dec_int (infra_error_number err)) w
             else say (me_signal e) bye w);
       (_, w) \<leftarrow> server_infrastructure_destroy (me_signal e) (i, w);
       let w = server_infrastructure_cleanup w;
       Some (ended (if err = SERVER_INFRA_OK then EXIT_SUCCESS else EXIT_FAILURE) w)
     }
   }"

subsection \<open>The simple server\<close>

definition simple_config :: "infra_config \<Rightarrow> infra_config" where
  "simple_config c = c\<lparr>sv_port := 2342, sv_plaintext := Some ''Hello, World!'', sv_json := Some ''Hello, World!''\<rparr>"

text \<open>\<open>p\<close> is the address of the uninitialised infrastructure object on the stack.\<close>

definition simple_main :: "main_env \<Rightarrow> nat \<Rightarrow> 'h infra_world \<Rightarrow> 'h main_end option" where
  "simple_main e p w = do {
     w \<leftarrow> say (me_signal e) ''Starting simple test server on port 2342'' w;
     let (err, w) = server_infrastructure_init w;
     if err \<noteq> SERVER_INFRA_OK then do {
       w \<leftarrow> complain (me_signal e)
              (''Failed to initialize server infrastructure: '' @ dec_int (infra_error_number err)) w;
       Some (ended EXIT_FAILURE w)
     }
     else do {
       (c, w) \<leftarrow> server_infrastructure_default_config (me_online e) (me_cpu_memory e) w;
       (err, i, w) \<leftarrow> server_infrastructure_create (me_signal e) (me_memory1 e) (me_memory2 e)
                        (Some (simple_config c)) (Some (zero_infra p), w);
       if err \<noteq> SERVER_INFRA_OK then do {
         w \<leftarrow> complain (me_signal e)
                (''Failed to create server infrastructure: '' @ dec_int (infra_error_number err)) w;
         Some (ended EXIT_FAILURE (server_infrastructure_cleanup w))
       }
       else do {
         w \<leftarrow> say (me_signal e) ''Server ready, starting event loop'' w;
         start_and_stop e ''Server shutdown complete'' (i, w)
       }
     }
   }"

subsection \<open>The enhanced server\<close>

datatype server_args = Server_run bool | Server_help | Server_unknown string

text \<open>The arguments after the program's name; the first one that is not \<open>--disable-log\<close> ends the program.\<close>

fun parse_server_args :: "string list \<Rightarrow> bool \<Rightarrow> server_args" where
  "parse_server_args [] disable_logging = Server_run disable_logging"
| "parse_server_args (a # rest) disable_logging =
     (if a = ''--disable-log'' then parse_server_args rest True
      else if a = ''--help'' \<or> a = ''-h'' then Server_help
      else Server_unknown a)"

definition disabled_log_level :: nat where
  "disabled_log_level = 99"

definition enhanced_config :: "bool \<Rightarrow> infra_config \<Rightarrow> infra_config" where
  "enhanced_config disable_logging c =
     c\<lparr>sv_port := 3984, sv_optimize := True,
       sv_socket := \<lparr>sc_options = SOCKET_OPT_BUSY_POLL OR SOCKET_OPT_NODELAY OR SOCKET_OPT_KEEPALIVE OR
                                  SOCKET_OPT_REUSEPORT_CBPF,
                     busy_poll_value = 50, keepalive_enabled = False\<rparr>,
       sv_log := (sv_log c)
         \<lparr>lc_level := (if disable_logging then disabled_log_level else level_number LOG_LEVEL_INFO),
          lc_pid := \<not> disable_logging, lc_timestamps := \<not> disable_logging, lc_colors := \<not> disable_logging\<rparr>\<rparr>"

text \<open>Setting the global flag that silences the logger.\<close>

definition disable_logger :: "'h infra_world \<Rightarrow> 'h infra_world" where
  "disable_logger w = set_log ((pr_log (iw_proc w))\<lparr>is_logging_disabled := True\<rparr>) w"

definition enhanced_main :: "main_env \<Rightarrow> nat \<Rightarrow> string list \<Rightarrow> 'h infra_world \<Rightarrow> 'h main_end option" where
  "enhanced_main e p args w =
     (case parse_server_args args False of
        Server_help \<Rightarrow> Some ((ended EXIT_SUCCESS w)\<lparr>mn_usage := True\<rparr>)
      | Server_unknown a \<Rightarrow>
          Some ((ended EXIT_FAILURE w)
            \<lparr>mn_stderr := [''Unknown option: '' @ a @ [CHR 0x0A], ''Use --help for usage information'' @ [CHR 0x0A]]\<rparr>)
      | Server_run disable_logging \<Rightarrow> do {
          let w = (if disable_logging then disable_logger w else w);
          let (err, w) = server_infrastructure_init w;
          if err \<noteq> SERVER_INFRA_OK then do {
            w \<leftarrow> complain (me_signal e)
                   (''Failed to initialize server infrastructure: '' @ dec_int (infra_error_number err)) w;
            Some (ended EXIT_FAILURE w)
          }
          else do {
            (c, w) \<leftarrow> server_infrastructure_default_config (me_online e) (me_cpu_memory e) w;
            let c = enhanced_config disable_logging c;
            (err, i, w) \<leftarrow> server_infrastructure_create (me_signal e) (me_memory1 e) (me_memory2 e)
                             (Some c) (Some (zero_infra p), w);
            if err \<noteq> SERVER_INFRA_OK
            then Some ((ended EXIT_FAILURE (server_infrastructure_cleanup w))
              \<lparr>mn_stderr := [''Failed to create server infrastructure: '' @ dec_int (infra_error_number err) @ [CHR 0x0A]]\<rparr>)
            else do {
              w \<leftarrow> say (me_signal e) ''Starting enhanced libreactor-server with socket optimizations'' w;
              w \<leftarrow> say (me_signal e) (''Server will listen on port '' @ dec (unat (sv_port c)) @ '' with '' @
                     dec_int (worker_count (sv_workers c)) @ '' worker processes'') w;
              start_and_stop e ''Enhanced server shutdown complete'' (i, w)
            }
          }
        })"

subsection \<open>Properties\<close>

lemma start_and_stop_mute:
  "mute l w \<Longrightarrow> start_and_stop e bye (i, w) = Some r \<Longrightarrow> mute l (mn_world r) \<and> mn_stderr r = []"
  by (auto simp: start_and_stop_def ended_def Let_def say_mute [where l = l]
      dest!: start_mute [where l = l, rotated] destroy_mute [where l = l, rotated]
      split: prod.splits if_splits bind_splits)

lemma parse_disable: "parse_server_args (replicate n ''--disable-log'') d = Server_run (d \<or> 0 < n)"
  by (induction n arbitrary: d) auto

text \<open>
  C29. The enhanced server started with \<open>--disable-log\<close> (given any number of times) is silent: whatever the
  system answers and however the process ends, as parent or as worker, not one line is logged; the only
  thing printed is the message of a failed creation, and then the exit status is a failure.
\<close>

theorem disable_log_is_silent:
  assumes "enhanced_main e p (replicate (Suc n) ''--disable-log'') w = Some r"
  shows "log_written (pr_log (iw_proc (mn_world r))) = log_written (pr_log (iw_proc w)) \<and>
    \<not> mn_usage r \<and> (mn_stderr r \<noteq> [] \<longrightarrow> mn_status r = Some EXIT_FAILURE)"
proof -
  let ?l = "(pr_log (iw_proc w))\<lparr>is_logging_disabled := True\<rparr>"
  have m: "mute ?l (disable_logger w)" by (simp add: mute_def disable_logger_def set_log_def)
  have usage: "\<not> mn_usage r" if "start_and_stop e bye iw = Some r" for bye iw
    using that by (auto simp: start_and_stop_def ended_def Let_def split: prod.splits if_splits bind_splits)
  have "mute ?l (mn_world r) \<and> \<not> mn_usage r \<and> (mn_stderr r \<noteq> [] \<longrightarrow> mn_status r = Some EXIT_FAILURE)"
    using assms m parse_disable [of "Suc n" False]
    by (auto simp: enhanced_main_def ended_def Let_def say_mute [where l = ?l] usage
        dest!: init_mute [where l = ?l] default_config_mute [where l = ?l]
          create_mute [where l = ?l, rotated] start_and_stop_mute [where l = ?l, rotated]
        split: prod.splits if_splits bind_splits)
  then show ?thesis by (simp add: mute_def)
qed

text \<open>No CPU information is available, and nothing happens after the start: the parent goes on waiting.\<close>

definition ex_main_env :: main_env where
  "ex_main_env = \<lparr>me_signal = ex_signal_env, me_online = None, me_cpu_memory = (\<lambda>_. True), me_memory1 = True,
     me_memory2 = True, me_fork = ex_answers, me_worker = ex_worker_env, me_rounds = []\<rparr>"

lemmas main_run_defs = enhanced_main_def ex_main_env_def ex_infra_world_def ex_proc_def ex_signal_state_def
  ex_signal_env_def initial_log_def disable_logger_def set_log_def server_infrastructure_init_def
  system_init_def socket_init_def http_server_init_def http_response_init_def
  server_infrastructure_default_config_def system_get_cpu_info_def zero_infra_config_def zero_infra_def
  enhanced_config_def server_infrastructure_create_def clear_manager_def put_manager_def
  create_json http_config_of_def on_proc_def on_sig_def worker_manager_init_def free_array_def
  signal_manager_init_def signal_manager_default_config_def handled_def setup_signal_handler_def log_calls
  with_log_def log_internal_def ilog_def plog_def say_def start_and_stop_def server_infrastructure_start_def
  worker_manager_fork_workers_def zeroed_workers_def worker_manager_get_type_def run_parent_def
  infra_manager_def signal_manager_shutdown_requested_def zeroed_manager_def

lemma disable_log_is_silent_witness:
  "\<exists>r. enhanced_main ex_main_env 3 [''--disable-log''] ex_infra_world = Some r \<and> mn_status r = None \<and>
    log_written (pr_log (iw_proc (mn_world r))) = []"
proof -
  have "\<exists>r. enhanced_main ex_main_env 3 [''--disable-log''] ex_infra_world = Some r \<and> mn_status r = None"
    by (simp add: main_run_defs Let_def)
  then show ?thesis
    using disable_log_is_silent [of ex_main_env 3 0 ex_infra_world]
    by (auto simp: ex_infra_world_def ex_proc_def initial_log_def)
qed

end
