(* ===== verification/Hash_Map.thy ===== *)
theory Hash_Map
  imports Buffer "HOL-Library.Monad_Syntax" "HOL-Library.Multiset"
begin

text \<open>
  Component \<open>third_party/libreactor/src/reactor/map.c\<close>: a hash table with linear probing, which erases by
  moving elements back. Its elements are known through callbacks only. The locale \<open>hash_entries\<close> states
  what the table needs of them, and shows that it then is a finite map.
\<close>

subsection \<open>State\<close>

text \<open>
  The callbacks: \<open>equal\<close> with a NULL second argument asks whether a cell is empty, \<open>set\<close> with NULL empties it.
  Hashing an element may be undefined (a NULL string).
\<close>

record 'e entry_ops =
  eo_hash :: "'e \<Rightarrow> size_t option"
  eo_equal :: "'e \<Rightarrow> 'e \<Rightarrow> bool"
  eo_empty :: "'e \<Rightarrow> bool"
  eo_null :: 'e

text \<open>\<open>hm_block\<close> is the \<open>elements\<close> pointer, \<open>hm_cells\<close> what the block holds.\<close>

record 'e hmap =
  hm_block :: "nat option"
  hm_cells :: "'e list"
  hm_count :: size_t
  hm_capacity :: size_t
  hm_element_size :: size_t

text \<open>The heap, the elements that were released, in order, and the table.\<close>

type_synonym 'e mstate = "heap \<times> 'e list \<times> 'e hmap"

definition MAP_ELEMENTS_CAPACITY_MIN :: size_t where
  "MAP_ELEMENTS_CAPACITY_MIN = 16"

subsection \<open>Operations\<close>

definition map_element :: "'e hmap \<Rightarrow> size_t \<Rightarrow> 'e option" where
  "map_element m i = (if unat i < length (hm_cells m) then Some (hm_cells m ! unat i) else None)"

definition map_release_all :: "'e entry_ops \<Rightarrow> bool \<Rightarrow> 'e mstate \<Rightarrow> 'e mstate option" where
  "map_release_all ops release s =
     (case s of (h, out, m) \<Rightarrow>
        if release then
          map_option (\<lambda>es. (h, out @ filter (\<lambda>e. \<not> eo_empty ops e) es, m)) (read_n (unat (hm_capacity m)) (hm_cells m))
        else Some s)"

text \<open>
  Without memory, or with a size that wraps, \<open>set\<close> writes outside the block. \<open>ins\<close> is \<open>map_insert\<close>
  without a release callback.
\<close>

definition map_rehash ::
  "(nat \<Rightarrow> bool) \<Rightarrow> 'e entry_ops \<Rightarrow> ('e \<Rightarrow> 'e mstate \<Rightarrow> 'e mstate option) \<Rightarrow> size_t \<Rightarrow> 'e mstate \<Rightarrow> 'e mstate option" where
  "map_rehash ok ops ins n s =
     (case s of (h, out, m) \<Rightarrow>
        let n = map_roundup n; bytes = unat n * unat (hm_element_size m)
        in if bytes \<ge> 2 ^ 64 then None
           else case mem_alloc ok bytes h of
             None \<Rightarrow> None
           | Some (i, h) \<Rightarrow>
               let new = m\<lparr>hm_block := Some i, hm_cells := replicate (unat n) (eo_null ops), hm_count := 0,
                           hm_capacity := n\<rparr>
               in if hm_block m = None then Some (h, out, new)
                  else do { es \<leftarrow> read_n (unat (hm_capacity m)) (hm_cells m);
                            s' \<leftarrow> run_all (\<lambda>e s. if eo_empty ops e then Some s else ins e s) es (h, out, new);
                            Some (mem_free (hm_block m) (fst s'), snd s') })"

text \<open>There is nothing to insert again.\<close>

definition map_construct :: "(nat \<Rightarrow> bool) \<Rightarrow> 'e entry_ops \<Rightarrow> size_t \<Rightarrow> heap \<times> 'e list \<Rightarrow> 'e mstate option" where
  "map_construct ok ops element_size ho =
     map_rehash ok ops (\<lambda>_ _. None) MAP_ELEMENTS_CAPACITY_MIN
       (fst ho, snd ho,
        \<lparr>hm_block = None, hm_cells = [], hm_count = 0, hm_capacity = 0, hm_element_size = element_size\<rparr>)"

definition map_destruct :: "'e entry_ops \<Rightarrow> bool \<Rightarrow> 'e mstate \<Rightarrow> (heap \<times> 'e list) option" where
  "map_destruct ops release s =
     map_option (\<lambda>(h, out, m). (mem_free (hm_block m) h, out)) (map_release_all ops release s)"

definition map_size :: "'e hmap \<Rightarrow> size_t" where
  "map_size m = hm_count m"

definition map_reserve ::
  "(nat \<Rightarrow> bool) \<Rightarrow> 'e entry_ops \<Rightarrow> ('e \<Rightarrow> 'e mstate \<Rightarrow> 'e mstate option) \<Rightarrow> size_t \<Rightarrow> 'e mstate \<Rightarrow> 'e mstate option" where
  "map_reserve ok ops ins n s =
     (let n = n * 2
      in if n > hm_capacity (snd (snd s)) then map_rehash ok ops ins n s else Some s)"

text \<open>The loop of \<open>map_at\<close>, and the first one of \<open>map_erase\<close>: the cell of the element, or the empty cell behind.\<close>

partial_function (option) probe :: "'e entry_ops \<Rightarrow> 'e \<Rightarrow> 'e hmap \<Rightarrow> size_t \<Rightarrow> size_t option" where
  "probe ops x m i =
     (let i = i AND (hm_capacity m - 1)
      in Option.bind (map_element m i) (\<lambda>test.
           if eo_empty ops test \<or> eo_equal ops test x then Some i else probe ops x m (i + 1)))"

definition map_at :: "'e entry_ops \<Rightarrow> 'e \<Rightarrow> 'e hmap \<Rightarrow> size_t option" where
  "map_at ops x m = Option.bind (eo_hash ops x) (probe ops x m)"

text \<open>\<open>map_insert\<close> and \<open>map_rehash\<close> call each other; the fuel counts how deep.\<close>

fun map_insert ::
  "(nat \<Rightarrow> bool) \<Rightarrow> 'e entry_ops \<Rightarrow> nat \<Rightarrow> bool \<Rightarrow> 'e \<Rightarrow> 'e mstate \<Rightarrow> 'e mstate option" where
  "map_insert ok ops 0 release x s = None"
| "map_insert ok ops (Suc n) release x s =
     do { (h, out, m) \<leftarrow> map_reserve ok ops (map_insert ok ops n False) (hm_count (snd (snd s)) + 1) s;
          i \<leftarrow> map_at ops x m;
          test \<leftarrow> map_element m i;
          if eo_empty ops test
          then Some (h, out, m\<lparr>hm_cells := (hm_cells m)[unat i := x], hm_count := hm_count m + 1\<rparr>)
          else Some (h, if release then out @ [x] else out, m) }"

text \<open>The second loop of \<open>map_erase\<close>: \<open>i\<close> is the hole, \<open>j\<close> runs ahead of it.\<close>

partial_function (option) shift_back ::
  "'e entry_ops \<Rightarrow> 'e hmap \<Rightarrow> size_t \<Rightarrow> size_t \<Rightarrow> ('e hmap \<times> size_t) option" where
  "shift_back ops m i j =
     (let mask = hm_capacity m - 1; j = (j + 1) AND mask
      in Option.bind (map_element m j) (\<lambda>e.
           if eo_empty ops e then Some (m, i)
           else Option.bind (eo_hash ops e) (\<lambda>w.
             let k = w AND mask
             in if (i < j \<and> (k \<le> i \<or> k > j)) \<or> (i > j \<and> (k \<le> i \<and> k > j))
                then shift_back ops (m\<lparr>hm_cells := (hm_cells m)[unat i := e]\<rparr>) j j
                else shift_back ops m i j)))"

definition map_erase :: "'e entry_ops \<Rightarrow> bool \<Rightarrow> 'e \<Rightarrow> 'e mstate \<Rightarrow> 'e mstate option" where
  "map_erase ops release x s =
     (case s of (h, out, m) \<Rightarrow>
        do { i \<leftarrow> map_at ops x m;
             test \<leftarrow> map_element m i;
             if eo_empty ops test then Some s
             else do { (m, i) \<leftarrow> shift_back ops (m\<lparr>hm_count := hm_count m - 1\<rparr>) i i;
                       Some (h, if release then out @ [test] else out,
                             m\<lparr>hm_cells := (hm_cells m)[unat i := eo_null ops]\<rparr>) } })"

definition map_clear :: "(nat \<Rightarrow> bool) \<Rightarrow> 'e entry_ops \<Rightarrow> bool \<Rightarrow> 'e mstate \<Rightarrow> 'e mstate option" where
  "map_clear ok ops release s =
     do { (h, out, m) \<leftarrow> map_release_all ops release s;
          map_construct ok ops (hm_element_size m) (mem_free (hm_block m) h, out) }"

subsection \<open>Distances on the ring\<close>

definition ring_dist :: "nat \<Rightarrow> nat \<Rightarrow> nat \<Rightarrow> nat" where
  "ring_dist n a b = (if a \<le> b then b - a else b + n - a)"

lemma ring_dist_less: "a < n \<Longrightarrow> b < n \<Longrightarrow> ring_dist n a b < n"
  by (auto simp: ring_dist_def)

lemma ring_dist_self [simp]: "ring_dist n a a = 0"
  by (simp add: ring_dist_def)

lemma ring_dist_0 [simp]: "a < n \<Longrightarrow> b < n \<Longrightarrow> ring_dist n a b = 0 \<longleftrightarrow> a = b"
  by (auto simp: ring_dist_def)

lemma ring_step: "a < n \<Longrightarrow> d < n \<Longrightarrow> ring_dist n a ((a + d) mod n) = d"
  by (cases "a + d < n") (auto simp: ring_dist_def mod_if)

lemma ring_at: "a < n \<Longrightarrow> b < n \<Longrightarrow> (a + ring_dist n a b) mod n = b"
  by (auto simp: ring_dist_def)

lemma ring_between:
  "\<lbrakk>h < n; i < n; p < n; r < n; ring_dist n h i \<le> ring_dist n h p; ring_dist n i r \<le> ring_dist n i p\<rbrakk> \<Longrightarrow>
   ring_dist n h r = ring_dist n h i + ring_dist n i r \<and> ring_dist n h r \<le> ring_dist n h p"
  by (auto simp: ring_dist_def split: if_splits)

lemma ring_next:
  "\<lbrakk>i < n; j < n; e < n; ring_dist n i j < ring_dist n i e\<rbrakk> \<Longrightarrow>
   ring_dist n i ((j + 1) mod n) = ring_dist n i j + 1 \<and> ring_dist n ((j + 1) mod n) e < ring_dist n j e"
  by (cases "j + 1 = n") (auto simp: ring_dist_def split: if_splits)

text \<open>The condition of the code: the hole lies on the way from the home of the element to its cell.\<close>

lemma moves_back_iff:
  "\<lbrakk>i < n; j < n; k < n; i \<noteq> j\<rbrakk> \<Longrightarrow>
   ((i < j \<and> (k \<le> i \<or> k > j)) \<or> (i > j \<and> (k \<le> i \<and> k > j))) \<longleftrightarrow> ring_dist n k i < ring_dist n k j"
  by (auto simp: ring_dist_def)

subsection \<open>Indices\<close>

lemma unat_and_capacity:
  assumes "unat (cap :: size_t) = 2 ^ k"
  shows "unat (w AND (cap - 1)) = unat w mod unat cap"
proof -
  have "k < 64"
  proof (rule ccontr)
    assume "\<not> k < 64"
    then have "(2 :: nat) ^ 64 \<le> 2 ^ k" by (intro power_increasing) simp_all
    then show False using assms unsigned_less [of cap, where 'a = nat] by simp
  qed
  then have "cap = 2 ^ k" using assms by (metis unat_exp_size word_unat_eq_iff)
  then have "w AND (cap - 1) = take_bit k w" by (simp add: mask_eq_exp_minus_1 [symmetric] take_bit_eq_mask)
  then show ?thesis by (simp only: assms unsigned_take_bit_eq take_bit_eq_mod [of _ "unat w"])
qed

lemma unat_next_mod:
  assumes "unat (cap :: size_t) = 2 ^ k"
  shows "unat (w + 1 :: size_t) mod unat cap = (unat w + 1) mod unat cap"
proof -
  have "k \<le> 64"
  proof (rule ccontr)
    assume "\<not> k \<le> 64"
    then have "(2 :: nat) ^ 64 \<le> 2 ^ k" by (intro power_increasing) simp_all
    then show False using assms unsigned_less [of cap, where 'a = nat] by simp
  qed
  then have "(2 :: nat) ^ k dvd 2 ^ 64" by (rule le_imp_power_dvd)
  then have "unat cap dvd 2 ^ 64" by (simp only: assms)
  moreover have "unat (w + 1) = (unat w + 1) mod 2 ^ 64" by (simp add: unat_word_ariths)
  ultimately show ?thesis by (simp add: mod_mod_cancel)
qed

lemma unat_double: "2 * unat (w :: size_t) < 2 ^ 64 \<Longrightarrow> unat (w * 2) = 2 * unat w"
  by (simp add: unat_word_ariths(2))

subsection \<open>The invariant\<close>

definition entry_home :: "'e entry_ops \<Rightarrow> nat \<Rightarrow> 'e \<Rightarrow> nat" where
  "entry_home ops n e = unat (the (eo_hash ops e)) mod n"

text \<open>No empty cell lies between the home of an element and its cell.\<close>

definition reachable_cells :: "'e entry_ops \<Rightarrow> 'e list \<Rightarrow> bool" where
  "reachable_cells ops cs \<longleftrightarrow>
     (\<forall>p < length cs. \<forall>q < length cs. \<not> eo_empty ops (cs ! p) \<longrightarrow>
        ring_dist (length cs) (entry_home ops (length cs) (cs ! p)) q <
        ring_dist (length cs) (entry_home ops (length cs) (cs ! p)) p \<longrightarrow> \<not> eo_empty ops (cs ! q))"

definition entries :: "'e entry_ops \<Rightarrow> 'e list \<Rightarrow> 'e list" where
  "entries ops cs = filter (\<lambda>e. \<not> eo_empty ops e) cs"

definition cells_ok :: "'e entry_ops \<Rightarrow> ('e \<Rightarrow> 'k) \<Rightarrow> 'e list \<Rightarrow> bool" where
  "cells_ok ops key cs \<longleftrightarrow> reachable_cells ops cs \<and> distinct (map key (entries ops cs)) \<and>
     (\<forall>e \<in> set cs. eo_empty ops e \<longrightarrow> e = eo_null ops)"

definition hmap_ok :: "'e entry_ops \<Rightarrow> ('e \<Rightarrow> 'k) \<Rightarrow> 'e hmap \<Rightarrow> bool" where
  "hmap_ok ops key m \<longleftrightarrow> (\<exists>k. unat (hm_capacity m) = 2 ^ k) \<and> length (hm_cells m) = unat (hm_capacity m) \<and>
     cells_ok ops key (hm_cells m) \<and> unat (hm_count m) = length (entries ops (hm_cells m)) \<and>
     2 * length (entries ops (hm_cells m)) \<le> unat (hm_capacity m) \<and> hm_block m \<noteq> None"

text \<open>What the table stands for.\<close>

definition hm_map :: "'e entry_ops \<Rightarrow> ('e \<Rightarrow> 'k) \<Rightarrow> 'e list \<Rightarrow> 'k \<Rightarrow> 'e option" where
  "hm_map ops key cs = map_of (map (\<lambda>e. (key e, e)) (entries ops cs))"

lemma distinct_keys_nth:
  assumes "distinct (map key (filter P cs))" and "p < length cs" and "q < length cs"
    and "P (cs ! p)" and "P (cs ! q)" and "key (cs ! p) = key (cs ! q)"
  shows "p = q"
  using assms
proof (induction cs arbitrary: p q)
  case (Cons c cs)
  have in_keys: "key (cs ! r) \<in> key ` set (filter P cs)" if "r < length cs" "P (cs ! r)" for r
    using that by (intro imageI) simp
  show ?case
  proof (cases p)
    case 0
    then show ?thesis using Cons.prems in_keys by (cases q) (auto simp: image_iff)
  next
    case (Suc p')
    then show ?thesis using Cons.prems Cons.IH [of p'] in_keys [of p'] by (cases q) (auto split: if_splits)
  qed
qed simp

lemma hm_map_Some:
  assumes "distinct (map key (entries ops cs))"
  shows "hm_map ops key cs k = Some e \<longleftrightarrow> e \<in> set cs \<and> \<not> eo_empty ops e \<and> key e = k"
proof -
  have "distinct (map fst (map (\<lambda>e. (key e, e)) (entries ops cs)))" using assms by (simp add: comp_def)
  then show ?thesis by (auto simp: hm_map_def entries_def)
qed

lemma hm_map_entries:
  assumes "distinct (map key (entries ops cs))"
  shows "hm_map ops key cs k = Some e \<longleftrightarrow> e \<in> set (entries ops cs) \<and> key e = k"
  using hm_map_Some [OF assms] by (simp add: entries_def)

lemma hm_map_None: "hm_map ops key cs k = None \<longleftrightarrow> (\<forall>e \<in> set cs. \<not> eo_empty ops e \<longrightarrow> key e \<noteq> k)"
  by (auto simp: hm_map_def entries_def map_of_eq_None_iff image_image)

lemma hm_map_Cons: "\<not> eo_empty ops e \<Longrightarrow> hm_map ops key (e # es) = (hm_map ops key es)(key e \<mapsto> e)"
  by (simp add: hm_map_def entries_def)

lemma hm_map_replicate: "eo_empty ops e \<Longrightarrow> hm_map ops key (replicate n e) = (\<lambda>_. None)"
  by (auto simp: fun_eq_iff hm_map_None)

lemma entries_update:
  assumes "p < length cs"
  shows "mset (entries ops (cs[p := x])) + mset (entries ops [cs ! p]) = mset (entries ops cs) + mset (entries ops [x])"
proof -
  have "mset (cs[p := x]) + {#cs ! p#} = mset cs + {#x#}"
    using assms by (simp add: mset_update nth_mem_mset)
  then have "filter_mset (\<lambda>e. \<not> eo_empty ops e) (mset (cs[p := x]) + {#cs ! p#}) =
      filter_mset (\<lambda>e. \<not> eo_empty ops e) (mset cs + {#x#})" by simp
  then show ?thesis by (auto simp: entries_def split: if_splits)
qed

text \<open>The table's block is live, besides those of \<open>others\<close>.\<close>

definition owns_block :: "nat set \<Rightarrow> heap \<Rightarrow> 'e hmap \<Rightarrow> bool" where
  "owns_block others h m \<longleftrightarrow> (\<exists>b. hm_block m = Some b \<and> b \<notin> others \<and> set (h_live h) = insert b others \<and>
     (\<forall>i \<in> set (h_live h). i < h_next h))"

lemma owns_same: "hm_block m' = hm_block m \<Longrightarrow> owns_block others h m \<Longrightarrow> owns_block others h m'"
  by (simp add: owns_block_def)

lemma entries_replicate [simp]: "eo_empty ops e \<Longrightarrow> entries ops (replicate n e) = []"
  by (simp add: entries_def)

text \<open>
  Erasing: \<open>i\<close> is a hole, and the cells from it to \<open>j\<close> are full of elements that do not need it.
\<close>

definition hole_ok :: "'e entry_ops \<Rightarrow> 'e list \<Rightarrow> nat \<Rightarrow> nat \<Rightarrow> bool" where
  "hole_ok ops cs i j \<longleftrightarrow> i < length cs \<and> j < length cs \<and> reachable_cells ops cs \<and>
     (\<forall>q < length cs. ring_dist (length cs) i q \<le> ring_dist (length cs) i j \<longrightarrow> \<not> eo_empty ops (cs ! q)) \<and>
     (\<forall>q < length cs. q \<noteq> i \<longrightarrow> ring_dist (length cs) i q \<le> ring_dist (length cs) i j \<longrightarrow>
        \<not> ring_dist (length cs) (entry_home ops (length cs) (cs ! q)) i < ring_dist (length cs) (entry_home ops (length cs) (cs ! q)) q)"

lemma reachableD:
  assumes "reachable_cells ops cs" and "p < length cs" and "q < length cs" and "\<not> eo_empty ops (cs ! p)"
    and "ring_dist (length cs) (entry_home ops (length cs) (cs ! p)) q < ring_dist (length cs) (entry_home ops (length cs) (cs ! p)) p"
  shows "\<not> eo_empty ops (cs ! q)"
  using assms unfolding reachable_cells_def by blast

lemma hole_okD:
  assumes "hole_ok ops cs i j"
  shows "i < length cs" and "j < length cs" and "reachable_cells ops cs"
    and "q < length cs \<Longrightarrow> ring_dist (length cs) i q \<le> ring_dist (length cs) i j \<Longrightarrow> \<not> eo_empty ops (cs ! q)"
    and "q < length cs \<Longrightarrow> q \<noteq> i \<Longrightarrow> ring_dist (length cs) i q \<le> ring_dist (length cs) i j \<Longrightarrow>
      \<not> ring_dist (length cs) (entry_home ops (length cs) (cs ! q)) i < ring_dist (length cs) (entry_home ops (length cs) (cs ! q)) q"
  using assms unfolding hole_ok_def by blast+

lemma move_cell:
  "\<lbrakk>i < length xs; j < length xs; i \<noteq> j\<rbrakk> \<Longrightarrow>
   xs[i := z, j := xs[i := z] ! i, i := xs[i := z] ! j] = xs[i := xs ! j, j := z]"
  by (rule nth_equalityI) (auto simp: nth_list_update)

subsection \<open>What the table needs of its elements\<close>

locale hash_entries =
  fixes ops :: "'e entry_ops" and key :: "'e \<Rightarrow> 'k"
  assumes null_empty: "eo_empty ops (eo_null ops)"
    and hash_defined: "\<not> eo_empty ops x \<Longrightarrow> eo_hash ops x \<noteq> None"
    and equal_key: "\<not> eo_empty ops x \<Longrightarrow> \<not> eo_empty ops y \<Longrightarrow> eo_equal ops x y \<longleftrightarrow> key x = key y"
    and hash_key: "\<not> eo_empty ops x \<Longrightarrow> \<not> eo_empty ops y \<Longrightarrow> key x = key y \<Longrightarrow> eo_hash ops x = eo_hash ops y"
begin

text \<open>Where the search for \<open>x\<close> stops.\<close>

lemma probe_steps:
  assumes "unat (hm_capacity m) = 2 ^ k" and "length (hm_cells m) = unat (hm_capacity m)"
    and "unat i mod unat (hm_capacity m) = a"
    and "\<forall>e < d. \<not> eo_empty ops (hm_cells m ! ((a + e) mod length (hm_cells m))) \<and>
      \<not> eo_equal ops (hm_cells m ! ((a + e) mod length (hm_cells m))) x"
    and "eo_empty ops (hm_cells m ! ((a + d) mod length (hm_cells m))) \<or>
      eo_equal ops (hm_cells m ! ((a + d) mod length (hm_cells m))) x"
  shows "\<exists>p. probe ops x m i = Some p \<and> unat p = (a + d) mod length (hm_cells m)"
  using assms
proof (induction d arbitrary: i a)
  case 0
  have i: "unat (i AND (hm_capacity m - 1)) = a" using unat_and_capacity [OF "0.prems"(1)] "0.prems"(3) by simp
  have "a < length (hm_cells m)" using "0.prems"(1-3) by auto
  then show ?case
    using i "0.prems"(5) by (subst probe.simps) (simp add: map_element_def Let_def)
next
  case (Suc d)
  let ?n = "length (hm_cells m)"
  have i: "unat (i AND (hm_capacity m - 1)) = a" using unat_and_capacity [OF Suc.prems(1)] Suc.prems(3) by simp
  have a: "a < ?n" using Suc.prems(1-3) by auto
  have here: "\<not> eo_empty ops (hm_cells m ! a)" "\<not> eo_equal ops (hm_cells m ! a) x"
    using spec [OF Suc.prems(4), of 0] a by simp_all
  let ?i = "(i AND (hm_capacity m - 1)) + 1" and ?a = "(a + 1) mod ?n"
  have shift: "(?a + e) mod ?n = (a + Suc e) mod ?n" for e by (simp add: mod_simps)
  have next_i: "unat ?i mod unat (hm_capacity m) = ?a"
    using unat_next_mod [OF Suc.prems(1), of "i AND (hm_capacity m - 1)"] i Suc.prems(2) by simp
  have before: "\<forall>e < d. \<not> eo_empty ops (hm_cells m ! ((?a + e) mod ?n)) \<and> \<not> eo_equal ops (hm_cells m ! ((?a + e) mod ?n)) x"
    using Suc.prems(4) by (auto simp only: shift)
  have stop: "eo_empty ops (hm_cells m ! ((?a + d) mod ?n)) \<or> eo_equal ops (hm_cells m ! ((?a + d) mod ?n)) x"
    using Suc.prems(5) by (simp only: shift)
  obtain p where "probe ops x m ?i = Some p" "unat p = (?a + d) mod ?n"
    using Suc.IH [OF Suc.prems(1,2) next_i before stop] by blast
  moreover have "probe ops x m i = probe ops x m ?i"
    using here i a by (subst probe.simps) (simp add: map_element_def Let_def)
  ultimately show ?case by (simp only: shift option.inject ex_simps simp_thms)
qed

lemma home_key: "\<not> eo_empty ops x \<Longrightarrow> \<not> eo_empty ops y \<Longrightarrow> key x = key y \<Longrightarrow> entry_home ops n x = entry_home ops n y"
  using hash_key [of x y] by (simp add: entry_home_def)

lemma search_stops:
  assumes ok: "cells_ok ops key cs" and x: "\<not> eo_empty ops x" and gap: "q0 < length cs" "eo_empty ops (cs ! q0)"
  defines "n \<equiv> length cs" and "a \<equiv> entry_home ops (length cs) x"
  shows "\<exists>d < n. (eo_empty ops (cs ! ((a + d) mod n)) \<or> eo_equal ops (cs ! ((a + d) mod n)) x) \<and>
    (\<forall>e < d. \<not> eo_empty ops (cs ! ((a + e) mod n)) \<and> \<not> eo_equal ops (cs ! ((a + e) mod n)) x) \<and>
    (case hm_map ops key cs (key x) of None \<Rightarrow> eo_empty ops (cs ! ((a + d) mod n)) | Some y \<Rightarrow> cs ! ((a + d) mod n) = y)"
proof -
  let ?stop = "\<lambda>d. eo_empty ops (cs ! ((a + d) mod n)) \<or> eo_equal ops (cs ! ((a + d) mod n)) x"
  have n: "0 < n" "q0 < n" using gap(1) by (auto simp: n_def)
  then have a: "a < n" by (simp add: a_def entry_home_def flip: n_def)
  have dist: "distinct (map key (filter (\<lambda>e. \<not> eo_empty ops e) cs))" and reach: "reachable_cells ops cs"
    using ok by (simp_all add: cells_ok_def entries_def)
  have "?stop (ring_dist n a q0)" using gap(2) ring_at [OF a n(2)] by simp
  then obtain d where d: "?stop d" "\<And>e. e < d \<Longrightarrow> \<not> ?stop e" "d \<le> ring_dist n a q0"
    using LeastI [of ?stop] Least_le [of ?stop] not_less_Least [of _ ?stop] by blast
  then have dn: "d < n" using ring_dist_less [OF a n(2)] by linarith
  let ?p = "(a + d) mod n"
  have p: "?p < n" "ring_dist n a ?p = d" using n(1) ring_step [OF a dn] by simp_all
  have "case hm_map ops key cs (key x) of None \<Rightarrow> eo_empty ops (cs ! ?p) | Some y \<Rightarrow> cs ! ?p = y"
  proof (cases "hm_map ops key cs (key x)")
    case None
    then have "key (cs ! ?p) \<noteq> key x" if "\<not> eo_empty ops (cs ! ?p)"
      using that p(1) by (simp add: hm_map_None n_def)
    then show ?thesis using None d(1) x equal_key by auto
  next
    case (Some y)
    then have y: "y \<in> set cs" "\<not> eo_empty ops y" "key y = key x"
      using dist by (simp_all add: hm_map_Some entries_def)
    obtain q where q: "q < n" "cs ! q = y" using y(1) by (auto simp: in_set_conv_nth n_def)
    have home: "entry_home ops n (cs ! q) = a" using home_key [OF y(2) x y(3)] by (simp add: q(2) a_def n_def)
    have "?stop (ring_dist n a q)" using ring_at [OF a q(1)] q(2) y x equal_key by simp
    then have le: "d \<le> ring_dist n a q" using d(2) not_less by blast
    have occ: "\<not> eo_empty ops (cs ! ?p)"
    proof (cases "d = ring_dist n a q")
      case True
      then show ?thesis using ring_at [OF a q(1)] q(2) y(2) by simp
    next
      case False
      then have "ring_dist n a ?p < ring_dist n a q" using le p(2) by simp
      then show ?thesis
        using reach q p(1) y(2) home by (simp add: reachable_cells_def n_def [symmetric])
    qed
    then have "key (cs ! ?p) = key (cs ! q)" using d(1) x equal_key y(3) q(2) by simp
    then have "?p = q"
      using distinct_keys_nth [OF dist, of ?p q] p(1) q occ y(2) by (simp add: n_def)
    then show ?thesis using Some q(2) by simp
  qed
  then show ?thesis using dn d(1,2) by blast
qed

text \<open>A table that is in order has an empty cell.\<close>

lemma has_gap:
  assumes "hmap_ok ops key m"
  shows "\<exists>q < length (hm_cells m). eo_empty ops (hm_cells m ! q)"
proof (rule ccontr)
  assume "\<not> ?thesis"
  then have "entries ops (hm_cells m) = hm_cells m" by (auto simp: entries_def filter_id_conv in_set_conv_nth)
  moreover have "0 < unat (hm_capacity m)" using assms by (auto simp: hmap_ok_def)
  ultimately show False using assms by (simp add: hmap_ok_def)
qed

lemma at_stops:
  assumes ok: "hmap_ok ops key m" and x: "\<not> eo_empty ops x"
  shows "\<exists>i d. map_at ops x m = Some i \<and> d < length (hm_cells m) \<and>
    unat i = (entry_home ops (length (hm_cells m)) x + d) mod length (hm_cells m) \<and>
    (\<forall>e < d. \<not> eo_empty ops (hm_cells m ! ((entry_home ops (length (hm_cells m)) x + e) mod length (hm_cells m)))) \<and>
    (case hm_map ops key (hm_cells m) (key x) of None \<Rightarrow> eo_empty ops (hm_cells m ! unat i)
     | Some y \<Rightarrow> hm_cells m ! unat i = y)"
proof -
  obtain k where k: "unat (hm_capacity m) = 2 ^ k" and len: "length (hm_cells m) = unat (hm_capacity m)"
    and cs: "cells_ok ops key (hm_cells m)" using ok by (auto simp: hmap_ok_def)
  obtain q where q: "q < length (hm_cells m)" "eo_empty ops (hm_cells m ! q)" using has_gap [OF ok] by blast
  obtain d where d: "d < length (hm_cells m)"
    "eo_empty ops (hm_cells m ! ((entry_home ops (length (hm_cells m)) x + d) mod length (hm_cells m))) \<or>
     eo_equal ops (hm_cells m ! ((entry_home ops (length (hm_cells m)) x + d) mod length (hm_cells m))) x"
    "\<forall>e < d. \<not> eo_empty ops (hm_cells m ! ((entry_home ops (length (hm_cells m)) x + e) mod length (hm_cells m))) \<and>
     \<not> eo_equal ops (hm_cells m ! ((entry_home ops (length (hm_cells m)) x + e) mod length (hm_cells m))) x"
    "case hm_map ops key (hm_cells m) (key x) of
       None \<Rightarrow> eo_empty ops (hm_cells m ! ((entry_home ops (length (hm_cells m)) x + d) mod length (hm_cells m)))
     | Some y \<Rightarrow> hm_cells m ! ((entry_home ops (length (hm_cells m)) x + d) mod length (hm_cells m)) = y"
    using search_stops [OF cs x q] by blast
  obtain w where w: "eo_hash ops x = Some w" using hash_defined [OF x] by auto
  have "unat w mod unat (hm_capacity m) = entry_home ops (length (hm_cells m)) x"
    by (simp add: entry_home_def w len)
  from probe_steps [OF k len this d(3,2)] obtain p where
    "probe ops x m w = Some p" "unat p = (entry_home ops (length (hm_cells m)) x + d) mod length (hm_cells m)" by blast
  then show ?thesis
    using d by (intro exI [of _ p] exI [of _ d]) (simp add: map_at_def w split: option.splits)
qed

text \<open>Writing an element into the empty cell its search stops at.\<close>

lemma cells_insert:
  assumes ok: "cells_ok ops key cs" and x: "\<not> eo_empty ops x" and none: "hm_map ops key cs (key x) = None"
    and d: "d < length cs" and p: "p = (entry_home ops (length cs) x + d) mod length cs"
    and path: "\<forall>e < d. \<not> eo_empty ops (cs ! ((entry_home ops (length cs) x + e) mod length cs))"
    and free: "eo_empty ops (cs ! p)"
  shows "cells_ok ops key (cs[p := x]) \<and> hm_map ops key (cs[p := x]) = (hm_map ops key cs)(key x \<mapsto> x) \<and>
    length (entries ops (cs[p := x])) = Suc (length (entries ops cs))"
proof -
  let ?n = "length cs" and ?h = "entry_home ops (length cs) x" and ?cs = "cs[p := x]"
  have n0: "0 < ?n" by (rule le_less_trans [OF le0 d])
  then have n: "0 < ?n" "p < ?n" "?h < ?n" unfolding p entry_home_def by (blast intro: mod_less_divisor)+
  have dist_p: "ring_dist ?n ?h p = d" using ring_step [OF n(3) d] p by simp
  have ms: "mset (entries ops ?cs) = add_mset x (mset (entries ops cs))"
    using entries_update [OF n(2), of ops x] free x by (simp add: entries_def)
  then have set: "set (entries ops ?cs) = insert x (set (entries ops cs))"
    by (metis set_mset_add_mset_insert set_mset_mset)
  have new: "key x \<notin> key ` set (entries ops cs)" using none by (auto simp: hm_map_None entries_def)
  moreover have "mset (map key (entries ops ?cs)) = mset (key x # map key (entries ops cs))" using ms by simp
  ultimately have dist: "distinct (map key (entries ops ?cs))"
    using ok mset_eq_imp_distinct_iff [of "map key (entries ops ?cs)" "key x # map key (entries ops cs)"]
    by (auto simp: cells_ok_def)
  have "reachable_cells ops ?cs"
    unfolding reachable_cells_def
  proof (intro allI impI)
    fix r q
    assume r: "r < length ?cs" and q: "q < length ?cs" and occ: "\<not> eo_empty ops (?cs ! r)"
      and way: "ring_dist (length ?cs) (entry_home ops (length ?cs) (?cs ! r)) q < ring_dist (length ?cs) (entry_home ops (length ?cs) (?cs ! r)) r"
    show "\<not> eo_empty ops (?cs ! q)"
    proof (cases "q = p")
      case True
      then show ?thesis using x n(2) by simp
    next
      case qp: False
      show ?thesis
      proof (cases "r = p")
        case True
        then have "ring_dist ?n ?h q < d" using way n(2) dist_p by simp
        then have "\<not> eo_empty ops (cs ! ((?h + ring_dist ?n ?h q) mod ?n))" using path by blast
        moreover have "(?h + ring_dist ?n ?h q) mod ?n = q" using q by (intro ring_at [OF n(3)]) simp
        ultimately show ?thesis using qp by simp
      next
        case False
        have len: "length ?cs = ?n" by simp
        have same: "?cs ! r = cs ! r" "?cs ! q = cs ! q" using False qp by simp_all
        have reach: "\<forall>p<?n. \<forall>q<?n. \<not> eo_empty ops (cs ! p) \<longrightarrow>
            ring_dist ?n (entry_home ops ?n (cs ! p)) q < ring_dist ?n (entry_home ops ?n (cs ! p)) p \<longrightarrow>
            \<not> eo_empty ops (cs ! q)"
          using ok unfolding cells_ok_def reachable_cells_def by blast
        show ?thesis using reach r q occ way unfolding len same by blast
      qed
    qed
  qed
  moreover have "hm_map ops key ?cs = (hm_map ops key cs)(key x \<mapsto> x)"
  proof (rule ext)
    fix k
    have dist0: "distinct (map key (entries ops cs))" using ok by (simp add: cells_ok_def)
    have some: "hm_map ops key ?cs k = Some e \<longleftrightarrow> ((hm_map ops key cs)(key x \<mapsto> x)) k = Some e" for e
    proof (cases "k = key x")
      case True
      have "key e \<noteq> key x" if "e \<in> set (entries ops cs)" for e using new that by (metis imageI)
      then show ?thesis unfolding hm_map_entries [OF dist] set True by (simp, metis)
    next
      case False
      then have "((hm_map ops key cs)(key x \<mapsto> x)) k = Some e \<longleftrightarrow> e \<in> set (entries ops cs) \<and> key e = k"
        using hm_map_entries [OF dist0, of k e] by simp
      then show ?thesis unfolding hm_map_entries [OF dist] set using False by blast
    qed
    then show "hm_map ops key ?cs k = ((hm_map ops key cs)(key x \<mapsto> x)) k"
      by (metis not_Some_eq)
  qed
  moreover have "length (entries ops ?cs) = Suc (length (entries ops cs))"
    using arg_cong [OF ms, of size] by simp
  moreover have "\<forall>e \<in> set ?cs. eo_empty ops e \<longrightarrow> e = eo_null ops"
    using ok x set_update_subset_insert [of cs p x] unfolding cells_ok_def by blast
  ultimately show ?thesis using dist by (simp add: cells_ok_def)
qed

lemma count_next:
  assumes ok: "hmap_ok ops key m" and room: "2 * Suc (length (entries ops (hm_cells m))) \<le> unat (hm_capacity m)"
  shows "unat (hm_count m + 1) = Suc (length (entries ops (hm_cells m)))"
  using assms unsigned_less [of "hm_capacity m", where 'a = nat]
  by (subst unat_size_add) (simp_all add: hmap_ok_def)

lemma reserve_enough:
  assumes ok: "hmap_ok ops key m" and room: "2 * Suc (length (entries ops (hm_cells m))) \<le> unat (hm_capacity m)"
  shows "map_reserve mem ops ins (hm_count m + 1) (h, out, m) = Some (h, out, m)"
proof -
  have "unat (hm_capacity m) < 2 ^ 64" using unsigned_less [of "hm_capacity m", where 'a = nat] by simp
  then have "unat ((hm_count m + 1) * 2) = 2 * Suc (length (entries ops (hm_cells m)))"
    using room count_next [OF assms] unat_double [of "hm_count m + 1"] by simp
  then show ?thesis using room by (simp add: map_reserve_def Let_def word_less_nat_alt)
qed

lemma insert_here:
  assumes ok: "hmap_ok ops key m" and x: "\<not> eo_empty ops x"
    and room: "2 * Suc (length (entries ops (hm_cells m))) \<le> unat (hm_capacity m)"
  shows "\<exists>m'. map_insert mem ops (Suc n) release x (h, out, m) =
      Some (h, if hm_map ops key (hm_cells m) (key x) \<noteq> None \<and> release then out @ [x] else out, m') \<and>
    hmap_ok ops key m' \<and> hm_block m' = hm_block m \<and> hm_capacity m' = hm_capacity m \<and>
    hm_element_size m' = hm_element_size m \<and>
    hm_map ops key (hm_cells m') = (case hm_map ops key (hm_cells m) (key x) of
      None \<Rightarrow> (hm_map ops key (hm_cells m))(key x \<mapsto> x) | Some _ \<Rightarrow> hm_map ops key (hm_cells m))"
proof -
  have m: "length (hm_cells m) = unat (hm_capacity m)" "cells_ok ops key (hm_cells m)"
    "unat (hm_count m) = length (entries ops (hm_cells m))" using ok by (auto simp: hmap_ok_def)
  note c1 = count_next [OF ok room] and res = reserve_enough [OF ok room]
  obtain i d where i: "map_at ops x m = Some i" and d: "d < length (hm_cells m)"
    "unat i = (entry_home ops (length (hm_cells m)) x + d) mod length (hm_cells m)"
    "\<forall>e < d. \<not> eo_empty ops (hm_cells m ! ((entry_home ops (length (hm_cells m)) x + e) mod length (hm_cells m)))"
    and at: "case hm_map ops key (hm_cells m) (key x) of None \<Rightarrow> eo_empty ops (hm_cells m ! unat i)
     | Some y \<Rightarrow> hm_cells m ! unat i = y"
    using at_stops [OF ok x] by blast
  have "0 < length (hm_cells m)" by (rule le_less_trans [OF le0 d(1)])
  then have "unat i < length (hm_cells m)" unfolding d(2) by (rule mod_less_divisor)
  then have el: "map_element m i = Some (hm_cells m ! unat i)" by (simp add: map_element_def)
  show ?thesis
  proof (cases "hm_map ops key (hm_cells m) (key x)")
    case None
    then have free: "eo_empty ops (hm_cells m ! unat i)" using at by simp
    note ins = cells_insert [OF m(2) x None d(1,2,3) free]
    have "2 * length (entries ops (hm_cells m)) \<le> unat (hm_capacity m)" using room by simp
    then show ?thesis
      using None res i el free ins ok room c1 by (simp add: hmap_ok_def)
  next
    case (Some y)
    then have "\<not> eo_empty ops (hm_cells m ! unat i)"
      using at m(2) by (simp add: hm_map_Some cells_ok_def)
    then show ?thesis using Some res i el ok by simp
  qed
qed

lemma entries_length:
  assumes "distinct (map key (entries ops cs))"
  shows "length (entries ops cs) = card (dom (hm_map ops key cs))"
proof -
  have "dom (hm_map ops key cs) = set (map key (entries ops cs))"
    by (simp add: hm_map_def dom_map_of_conv_image_fst image_image)
  then show ?thesis using distinct_card [OF assms] by simp
qed

text \<open>The elements of the old block go into the new one.\<close>

lemma reinserts:
  assumes "hmap_ok ops key m" and "distinct (map key (entries ops es))"
    and "\<forall>e \<in> set (entries ops es). hm_map ops key (hm_cells m) (key e) = None"
    and "2 * (length (entries ops (hm_cells m)) + length (entries ops es)) \<le> unat (hm_capacity m)"
  shows "\<exists>m'. run_all (\<lambda>e s. if eo_empty ops e then Some s else map_insert mem ops (Suc n) False e s) es (h, out, m) =
      Some (h, out, m') \<and> hmap_ok ops key m' \<and> hm_block m' = hm_block m \<and> hm_capacity m' = hm_capacity m \<and>
    hm_element_size m' = hm_element_size m \<and>
    hm_map ops key (hm_cells m') = hm_map ops key (hm_cells m) ++ hm_map ops key es"
  using assms
proof (induction es arbitrary: m)
  case Nil
  then show ?case by (simp add: hm_map_def entries_def)
next
  case (Cons e es)
  show ?case
  proof (cases "eo_empty ops e")
    case True
    then have "entries ops (e # es) = entries ops es" by (simp add: entries_def)
    then show ?thesis using Cons.IH [of m] Cons.prems True by (simp add: hm_map_def)
  next
    case False
    then have es: "entries ops (e # es) = e # entries ops es" by (simp add: entries_def)
    have new: "hm_map ops key (hm_cells m) (key e) = None" using Cons.prems(3) by (simp add: es)
    have room: "2 * Suc (length (entries ops (hm_cells m))) \<le> unat (hm_capacity m)"
      using Cons.prems(4) by (simp add: es)
    obtain m1 where m1: "map_insert mem ops (Suc n) False e (h, out, m) = Some (h, out, m1)" "hmap_ok ops key m1"
      "hm_block m1 = hm_block m" "hm_capacity m1 = hm_capacity m" "hm_element_size m1 = hm_element_size m"
      "hm_map ops key (hm_cells m1) = (hm_map ops key (hm_cells m))(key e \<mapsto> e)"
      using insert_here [OF Cons.prems(1) False room, of mem n False h out] new by auto
    have "distinct (map key (entries ops (hm_cells m1)))" "distinct (map key (entries ops (hm_cells m)))"
      using m1(2) Cons.prems(1) by (auto simp: hmap_ok_def cells_ok_def)
    note lens = this [THEN entries_length]
    have "finite (dom (hm_map ops key (hm_cells m)))" by (simp add: hm_map_def finite_dom_map_of)
    then have len: "length (entries ops (hm_cells m1)) = Suc (length (entries ops (hm_cells m)))"
      using new by (simp add: lens m1(6) domIff)
    have fresh: "key e \<notin> key ` set (entries ops es)" using Cons.prems(2) by (simp add: es)
    have rest: "\<forall>x \<in> set (entries ops es). hm_map ops key (hm_cells m1) (key x) = None"
    proof
      fix x
      assume x: "x \<in> set (entries ops es)"
      then have "key x \<noteq> key e" using fresh by (metis imageI)
      then show "hm_map ops key (hm_cells m1) (key x) = None" using Cons.prems(3) x by (simp add: m1(6) es)
    qed
    obtain m2 where m2: "run_all (\<lambda>e s. if eo_empty ops e then Some s else map_insert mem ops (Suc n) False e s) es (h, out, m1) =
        Some (h, out, m2)" "hmap_ok ops key m2" "hm_block m2 = hm_block m1" "hm_capacity m2 = hm_capacity m1"
      "hm_element_size m2 = hm_element_size m1"
      "hm_map ops key (hm_cells m2) = hm_map ops key (hm_cells m1) ++ hm_map ops key es"
      using Cons.IH [OF m1(2) _ rest] Cons.prems(2,4) by (auto simp: es len m1(4))
    have "key e \<notin> dom (hm_map ops key es)"
      using fresh by (auto simp: hm_map_def dom_map_of_conv_image_fst image_image)
    then have "hm_map ops key (hm_cells m2) = hm_map ops key (hm_cells m) ++ hm_map ops key (e # es)"
      by (simp add: m2(6) m1(6) map_add_upd_left hm_map_Cons [OF False])
    then show ?thesis using False m1 m2 by (simp del: map_insert.simps)
  qed
qed

lemma roundup_table:
  assumes "0 < s" and "2 * s * (e + 1) < 2 ^ 63"
  shows "\<exists>k. unat (map_roundup (of_nat s)) = 2 ^ k \<and> s \<le> 2 ^ k \<and> 2 ^ k * e < 2 ^ 64"
proof -
  have "s * 1 \<le> s * (e + 1)" by (rule mult_le_mono2) simp
  then have s: "s \<le> 2 ^ 62" using assms(2) by simp
  then have u: "unat (of_nat s :: size_t) = s" by (intro unat_size_of_nat) simp
  have r: "unat (map_roundup (of_nat s)) = 2 ^ bit_len (s - 1)"
    using map_roundup_power [of "of_nat s"] assms(1) s by (simp add: u)
  have "s \<le> 2 ^ bit_len (s - 1)"
    using bit_len_le_iff [of "s - 1" "bit_len (s - 1)"] assms(1) by simp
  moreover have "2 ^ bit_len (s - 1) \<le> 2 * s"
  proof (cases "s = 1")
    case False
    then have "2 ^ (bit_len (s - 1) - 1) \<le> s - 1" "bit_len (s - 1) \<noteq> 0"
      using bit_len_bounds [of "s - 1"] assms(1) bit_len_le_iff [of "s - 1" 0] by simp_all
    then show ?thesis by (cases "bit_len (s - 1)") simp_all
  qed (use bit_len_le_iff [of 0 0] in simp)
  then have le1: "2 ^ bit_len (s - 1) * e \<le> 2 * s * e" by (rule mult_le_mono1)
  have le2: "2 * s * e \<le> 2 * s * (e + 1)" by simp
  have "2 ^ bit_len (s - 1) * e < 2 ^ 63" by (rule le_less_trans [OF order_trans [OF le1 le2] assms(2)])
  then have "2 ^ bit_len (s - 1) * e < 2 ^ 64" by (rule order.strict_trans) simp
  ultimately show ?thesis using r by blast
qed

lemma rehash_run:
  assumes ok: "hmap_ok ops key m" and own: "owns_block others h m"
    and s: "2 * length (entries ops (hm_cells m)) \<le> s" "0 < s" "2 * s * (unat (hm_element_size m) + 1) < 2 ^ 63"
  shows "\<exists>h' m'. map_rehash (\<lambda>_. True) ops (map_insert (\<lambda>_. True) ops (Suc n) False) (of_nat s) (h, out, m) = Some (h', out, m') \<and>
    hmap_ok ops key m' \<and> owns_block others h' m' \<and> hm_element_size m' = hm_element_size m \<and> s \<le> unat (hm_capacity m') \<and>
    hm_map ops key (hm_cells m') = hm_map ops key (hm_cells m) \<and> hm_count m' = hm_count m"
proof -
  let ?e = "unat (hm_element_size m)" and ?c = "map_roundup (of_nat s)"
  obtain k where k: "unat ?c = 2 ^ k" "s \<le> 2 ^ k" "2 ^ k * ?e < 2 ^ 64" using roundup_table [OF s(2,3)] by blast
  obtain b where b: "hm_block m = Some b" "b \<notin> others" "set (h_live h) = insert b others" "\<forall>i \<in> set (h_live h). i < h_next h"
    using own by (auto simp: owns_block_def)
  let ?h = "h\<lparr>h_next := Suc (h_next h), h_live := h_next h # h_live h\<rparr>"
    and ?new = "m\<lparr>hm_block := Some (h_next h), hm_cells := replicate (unat ?c) (eo_null ops), hm_count := 0, hm_capacity := ?c\<rparr>"
  have new: "hmap_ok ops key ?new"
    using k(1) null_empty by (auto simp: hmap_ok_def cells_ok_def reachable_cells_def)
  have m: "distinct (map key (entries ops (hm_cells m)))" "length (hm_cells m) = unat (hm_capacity m)"
    "unat (hm_count m) = length (entries ops (hm_cells m))"
    using ok by (auto simp: hmap_ok_def cells_ok_def)
  have none: "\<forall>e \<in> set (entries ops (hm_cells m)). hm_map ops key (hm_cells ?new) (key e) = None"
    using null_empty by (simp add: hm_map_replicate)
  have room: "2 * (length (entries ops (hm_cells ?new)) + length (entries ops (hm_cells m))) \<le> unat (hm_capacity ?new)"
    using s(1) k(1,2) null_empty by simp
  obtain m' where m': "run_all (\<lambda>e s. if eo_empty ops e then Some s else map_insert (\<lambda>_. True) ops (Suc n) False e s)
      (hm_cells m) (?h, out, ?new) = Some (?h, out, m')" "hmap_ok ops key m'" "hm_block m' = Some (h_next h)"
    "hm_capacity m' = ?c" "hm_element_size m' = hm_element_size m"
    "hm_map ops key (hm_cells m') = hm_map ops key (hm_cells m)"
    using reinserts [OF new m(1) none room, of "\<lambda>_. True" n ?h out] null_empty
    by (auto simp: hm_map_replicate simp del: map_insert.simps)
  have run: "map_rehash (\<lambda>_. True) ops (map_insert (\<lambda>_. True) ops (Suc n) False) (of_nat s) (h, out, m) =
      Some (mem_free (Some b) ?h, out, m')"
    using k(1,3) b(1) m(2) m'(1)
    by (simp add: map_rehash_def Let_def mem_alloc_def read_n_def del: map_insert.simps)
  have "owns_block others (mem_free (Some b) ?h) m'"
    using b m'(3) by (auto simp: owns_block_def mem_free_def)
  moreover have "hm_count m' = hm_count m"
  proof -
    have d: "distinct (map key (entries ops (hm_cells m')))" and c: "unat (hm_count m') = length (entries ops (hm_cells m'))"
      using m'(2) by (auto simp: hmap_ok_def cells_ok_def)
    show ?thesis using entries_length [OF d] entries_length [OF m(1)] m'(6) c m(3) by (simp add: word_unat_eq_iff)
  qed
  ultimately show ?thesis using run m' k(1,2) by auto
qed

lemma table_insert_run:
  assumes ok: "hmap_ok ops key m" and own: "owns_block others h m" and x: "\<not> eo_empty ops x"
    and bound: "4 * (unat (hm_count m) + 1) * (unat (hm_element_size m) + 1) < 2 ^ 63"
  shows "\<exists>h' m'. map_insert (\<lambda>_. True) ops (Suc (Suc n)) release x (h, out, m) =
      Some (h', if hm_map ops key (hm_cells m) (key x) \<noteq> None \<and> release then out @ [x] else out, m') \<and>
    hmap_ok ops key m' \<and> owns_block others h' m' \<and> hm_element_size m' = hm_element_size m \<and>
    hm_map ops key (hm_cells m') = (case hm_map ops key (hm_cells m) (key x) of
      None \<Rightarrow> (hm_map ops key (hm_cells m))(key x \<mapsto> x) | Some _ \<Rightarrow> hm_map ops key (hm_cells m))"
proof (cases "2 * Suc (length (entries ops (hm_cells m))) \<le> unat (hm_capacity m)")
  case True
  from insert_here [OF ok x True, of "\<lambda>_. True" "Suc n" release h out] show ?thesis
    by (elim exE conjE, intro exI [of _ h]) (auto simp del: map_insert.simps intro: owns_same [OF _ own])
next
  case False
  let ?s = "2 * (unat (hm_count m) + 1)"
  have occ: "unat (hm_count m) = length (entries ops (hm_cells m))" using ok by (simp add: hmap_ok_def)
  have "?s * 1 \<le> ?s * (unat (hm_element_size m) + 1)" by (rule mult_le_mono2) simp
  then have small: "?s < 2 ^ 62" using bound by simp
  have c1: "unat (hm_count m + 1) = unat (hm_count m) + 1"
    using small by (subst unat_size_add) simp_all
  then have u: "unat ((hm_count m + 1) * 2) = ?s" using unat_double [of "hm_count m + 1"] small by simp
  moreover have "unat (of_nat ?s :: size_t) = ?s" by (rule unat_size_of_nat) (use small in simp)
  ultimately have size: "(hm_count m + 1) * 2 = of_nat ?s" by (simp only: word_unat_eq_iff)
  have grow: "hm_capacity m < (hm_count m + 1) * 2"
    unfolding word_less_nat_alt u using False occ by simp
  have p1: "2 * length (entries ops (hm_cells m)) \<le> ?s" "0 < ?s" using occ by simp_all
  have "2 * ?s = 4 * (unat (hm_count m) + 1)" by simp
  then have p3: "2 * ?s * (unat (hm_element_size m) + 1) < 2 ^ 63" using bound by (simp only:)
  obtain h1 m1 where r: "map_rehash (\<lambda>_. True) ops (map_insert (\<lambda>_. True) ops (Suc n) False) (of_nat ?s) (h, out, m) = Some (h1, out, m1)"
    and m1: "hmap_ok ops key m1" "owns_block others h1 m1" "hm_element_size m1 = hm_element_size m" "?s \<le> unat (hm_capacity m1)"
      "hm_map ops key (hm_cells m1) = hm_map ops key (hm_cells m)" "hm_count m1 = hm_count m"
    using rehash_run [OF ok own p1 p3, of n out] by blast
  have room: "2 * Suc (length (entries ops (hm_cells m1))) \<le> unat (hm_capacity m1)"
    using m1(1,4,6) by (simp add: hmap_ok_def)
  have "map_reserve (\<lambda>_. True) ops (map_insert (\<lambda>_. True) ops (Suc n) False) (hm_count m + 1) (h, out, m) = Some (h1, out, m1)"
    by (simp only: map_reserve_def Let_def snd_conv grow if_True r [folded size])
  then have "map_insert (\<lambda>_. True) ops (Suc (Suc n)) release x (h, out, m) =
      map_insert (\<lambda>_. True) ops (Suc (Suc n)) release x (h1, out, m1)"
    using reserve_enough [OF m1(1) room] by (subst (1 2) map_insert.simps) (simp del: map_insert.simps)
  with insert_here [OF m1(1) x room, of "\<lambda>_. True" "Suc n" release h1 out] show ?thesis
    unfolding m1(5) using m1(2,3) owns_same by metis
qed

lemma home_less: "0 < n \<Longrightarrow> entry_home ops n e < n"
  by (simp add: entry_home_def)

text \<open>When the next cell is empty, nothing behind the hole needs it.\<close>

lemma close_hole:
  assumes hole: "hole_ok ops cs i j" and gap: "eo_empty ops (cs ! ((j + 1) mod length cs))"
  shows "reachable_cells ops (cs[i := eo_null ops])"
  unfolding reachable_cells_def
proof (intro allI impI)
  fix p q
  let ?n = "length cs" and ?cs = "cs[i := eo_null ops]"
  assume p: "p < length ?cs" and q: "q < length ?cs" and occ: "\<not> eo_empty ops (?cs ! p)"
    and way: "ring_dist (length ?cs) (entry_home ops (length ?cs) (?cs ! p)) q < ring_dist (length ?cs) (entry_home ops (length ?cs) (?cs ! p)) p"
  note i = hole_okD(1,2) [OF hole] and reach = hole_okD(3) [OF hole] and scan = hole_okD(5) [OF hole]
  have n: "0 < ?n" by (rule le_less_trans [OF le0 i(1)])
  have pi: "p \<noteq> i" using occ null_empty i(1) by auto
  let ?h = "entry_home ops ?n (cs ! p)" and ?e = "(j + 1) mod ?n"
  have pn: "p < ?n" "q < ?n" and occ': "\<not> eo_empty ops (cs ! p)" and way': "ring_dist ?n ?h q < ring_dist ?n ?h p"
    using p q occ way pi by simp_all
  have h: "?h < ?n" by (rule home_less [OF n])
  have e: "?e < ?n" using n by simp
  have "\<not> eo_empty ops (cs ! q)" by (rule reachableD [OF reach pn occ' way'])
  moreover have "q \<noteq> i"
  proof
    assume "q = i"
    then have hi: "ring_dist ?n ?h i < ring_dist ?n ?h p" using way' by simp
    have "ring_dist ?n i j < ring_dist ?n i p" using scan [OF pn(1) pi] hi by linarith
    moreover have "ring_dist ?n i ?e = ring_dist ?n i j + 1"
      using ring_next [OF i pn(1) calculation] by simp
    ultimately have "ring_dist ?n i ?e \<le> ring_dist ?n i p" by simp
    then have le: "ring_dist ?n ?h ?e \<le> ring_dist ?n ?h p"
      using ring_between [OF h i(1) pn(1) e] hi by simp
    have "\<not> eo_empty ops (cs ! ?e)"
    proof (cases "?e = p")
      case True
      then show ?thesis using occ' by simp
    next
      case False
      have "ring_dist ?n ?h ?e \<noteq> ring_dist ?n ?h p" using ring_at [OF h e] ring_at [OF h pn(1)] False by metis
      then have "ring_dist ?n ?h ?e < ring_dist ?n ?h p" using le by simp
      then show ?thesis by (rule reachableD [OF reach pn(1) e occ'])
    qed
    then show False using gap by simp
  qed
  ultimately show "\<not> eo_empty ops (?cs ! q)" by simp
qed

lemma move_hole:
  assumes hole: "hole_ok ops cs i j" and j1: "j1 < length cs" "\<not> eo_empty ops (cs ! j1)" "j1 \<noteq> i"
    and way: "ring_dist (length cs) (entry_home ops (length cs) (cs ! j1)) i <
      ring_dist (length cs) (entry_home ops (length cs) (cs ! j1)) j1"
  shows "hole_ok ops (cs[i := cs ! j1]) j1 j1"
proof -
  let ?n = "length cs" and ?cs = "cs[i := cs ! j1]"
  note i = hole_okD(1) [OF hole] and reach = reachableD [OF hole_okD(3) [OF hole]]
  have occ_i: "\<not> eo_empty ops (cs ! i)" by (rule hole_okD(4) [OF hole i]) simp
  have same: "eo_empty ops (?cs ! q) = eo_empty ops (cs ! q)" if "q < ?n" for q
    using that j1(2) occ_i by (cases "q = i") simp_all
  have "reachable_cells ops ?cs"
    unfolding reachable_cells_def length_list_update
  proof (intro allI impI)
    fix p q
    assume p: "p < ?n" and q: "q < ?n" and occ: "\<not> eo_empty ops (?cs ! p)"
      and w: "ring_dist ?n (entry_home ops ?n (?cs ! p)) q < ring_dist ?n (entry_home ops ?n (?cs ! p)) p"
    have "\<not> eo_empty ops (cs ! q)"
    proof (cases "p = i")
      case True
      then have "ring_dist ?n (entry_home ops ?n (cs ! j1)) q < ring_dist ?n (entry_home ops ?n (cs ! j1)) j1"
        using w way i by simp
      then show ?thesis by (rule reach [OF j1(1) q j1(2)])
    next
      case False
      then show ?thesis using reach [OF p q] occ w by simp
    qed
    then show "\<not> eo_empty ops (?cs ! q)" using same [OF q] by simp
  qed
  moreover have only: "q = j1" if "q < ?n" "ring_dist ?n j1 q \<le> ring_dist ?n j1 j1" for q using that j1(1) by simp
  moreover have "\<not> eo_empty ops (?cs ! j1)" using j1(2) same [OF j1(1)] by simp
  ultimately show ?thesis unfolding hole_ok_def length_list_update using j1(1) by metis
qed

lemma extend_hole:
  assumes hole: "hole_ok ops cs i j" and j1: "j1 < length cs" "\<not> eo_empty ops (cs ! j1)"
    and next_cell: "ring_dist (length cs) i j1 = ring_dist (length cs) i j + 1"
    and way: "\<not> ring_dist (length cs) (entry_home ops (length cs) (cs ! j1)) i <
      ring_dist (length cs) (entry_home ops (length cs) (cs ! j1)) j1"
  shows "hole_ok ops cs i j1"
proof -
  let ?n = "length cs"
  have i: "i < ?n" using hole by (simp add: hole_ok_def)
  have split: "q = j1 \<or> ring_dist ?n i q \<le> ring_dist ?n i j" if "q < ?n" "ring_dist ?n i q \<le> ring_dist ?n i j1" for q
  proof (cases "ring_dist ?n i q = ring_dist ?n i j1")
    case True
    then show ?thesis using ring_at [OF i that(1)] ring_at [OF i j1(1)] by metis
  qed (use that next_cell in simp)
  show ?thesis
    using hole j1 way split unfolding hole_ok_def by metis
qed

lemma shift_run:
  assumes "unat (hm_capacity m) = 2 ^ k" and "length (hm_cells m) = unat (hm_capacity m)"
    and "hole_ok ops (hm_cells m) (unat i) (unat j)" and "g < length (hm_cells m)" and "eo_empty ops (hm_cells m ! g)"
  shows "\<exists>cs' i'. shift_back ops m i j = Some (m\<lparr>hm_cells := cs'\<rparr>, i') \<and> length cs' = length (hm_cells m) \<and>
    unat i' < length cs' \<and> reachable_cells ops (cs'[unat i' := eo_null ops]) \<and>
    mset (cs'[unat i' := eo_null ops]) = mset ((hm_cells m)[unat i := eo_null ops])"
  using assms
proof (induction "ring_dist (length (hm_cells m)) (unat j) g" arbitrary: m i j rule: less_induct)
  case less
  let ?cs = "hm_cells m" and ?n = "length (hm_cells m)" and ?mask = "hm_capacity m - 1"
  let ?j = "(j + 1) AND ?mask"
  note hole = less.prems(3) and cap = less.prems(1) and len = less.prems(2)
  note i = hole_okD(1,2) [OF hole]
  have j1: "unat ?j = (unat j + 1) mod ?n"
    using unat_and_capacity [OF cap, of "j + 1"] unat_next_mod [OF cap, of j] len by simp
  have n: "0 < ?n" by (rule le_less_trans [OF le0 i(1)])
  have jn: "unat ?j < ?n" using n by (simp add: j1)
  have el: "map_element m ?j = Some (?cs ! unat ?j)" using jn by (simp add: map_element_def)
  have step: "shift_back ops m i j =
      (if eo_empty ops (?cs ! unat ?j) then Some (m, i)
       else Option.bind (eo_hash ops (?cs ! unat ?j)) (\<lambda>w.
         let k = w AND ?mask
         in if (i < ?j \<and> (k \<le> i \<or> k > ?j)) \<or> (i > ?j \<and> (k \<le> i \<and> k > ?j))
            then shift_back ops (m\<lparr>hm_cells := ?cs[unat i := ?cs ! unat ?j]\<rparr>) ?j ?j
            else shift_back ops m i ?j))"
    by (subst shift_back.simps) (simp only: Let_def el bind.bind_lunit)
  show ?case
  proof (cases "eo_empty ops (?cs ! unat ?j)")
    case True
    then have "reachable_cells ops (?cs[unat i := eo_null ops])" using close_hole [OF hole] by (simp only: j1)
    then show ?thesis using step True i(1) by (intro exI [of _ ?cs] exI [of _ i]) simp
  next
    case False
    have occ_g: "\<not> ring_dist ?n (unat i) g \<le> ring_dist ?n (unat i) (unat j)"
      using hole_okD(4) [OF hole less.prems(4)] less.prems(5) by blast
    then have next_cell: "ring_dist ?n (unat i) (unat ?j) = ring_dist ?n (unat i) (unat j) + 1"
      and closer: "ring_dist ?n (unat ?j) g < ring_dist ?n (unat j) g"
      using ring_next [OF i less.prems(4)] by (simp_all only: j1 not_le)
    have ij: "unat i \<noteq> unat ?j" using next_cell by auto
    obtain w where w: "eo_hash ops (?cs ! unat ?j) = Some w" using hash_defined [OF False] by auto
    let ?k = "w AND ?mask"
    have home: "unat ?k = entry_home ops ?n (?cs ! unat ?j)"
      using unat_and_capacity [OF cap, of w] len by (simp add: entry_home_def w)
    have kn: "unat ?k < ?n" using n by (simp add: home home_less)
    have cond: "((i < ?j \<and> (?k \<le> i \<or> ?k > ?j)) \<or> (i > ?j \<and> (?k \<le> i \<and> ?k > ?j))) \<longleftrightarrow>
        ring_dist ?n (entry_home ops ?n (?cs ! unat ?j)) (unat i) < ring_dist ?n (entry_home ops ?n (?cs ! unat ?j)) (unat ?j)"
      using moves_back_iff [OF i(1) jn kn ij] by (simp only: word_less_nat_alt word_le_nat_alt home)
    show ?thesis
    proof (cases "ring_dist ?n (entry_home ops ?n (?cs ! unat ?j)) (unat i) < ring_dist ?n (entry_home ops ?n (?cs ! unat ?j)) (unat ?j)")
      case True
      let ?m = "m\<lparr>hm_cells := ?cs[unat i := ?cs ! unat ?j]\<rparr>"
      have hole': "hole_ok ops (hm_cells ?m) (unat ?j) (unat ?j)"
        using move_hole [OF hole jn False ij [symmetric] True] by simp
      have "unat i \<noteq> g" using occ_g by auto
      then have gap: "eo_empty ops (hm_cells ?m ! g)" using less.prems(5) by simp
      obtain cs' i' where r: "shift_back ops ?m ?j ?j = Some (?m\<lparr>hm_cells := cs'\<rparr>, i')" "length cs' = length (hm_cells ?m)"
        "unat i' < length cs'" "reachable_cells ops (cs'[unat i' := eo_null ops])"
        "mset (cs'[unat i' := eo_null ops]) = mset ((hm_cells ?m)[unat ?j := eo_null ops])"
        using less.hyps [of ?m ?j ?j] cap len hole' gap less.prems(4) closer by fastforce
      have "mset ((hm_cells ?m)[unat ?j := eo_null ops]) = mset (?cs[unat i := eo_null ops])"
      proof -
        let ?ys = "?cs[unat i := eo_null ops]"
        have "?ys[unat ?j := ?ys ! unat i, unat i := ?ys ! unat ?j] = (hm_cells ?m)[unat ?j := eo_null ops]"
          using move_cell [OF i(1) jn ij, of "eo_null ops"] by simp
        then show ?thesis using mset_swap [of "unat i" ?ys "unat ?j"] i(1) jn by simp
      qed
      moreover have "shift_back ops m i j = shift_back ops ?m ?j ?j"
        by (simp only: step False w cond True Let_def bind.bind_lunit if_False if_True)
      ultimately show ?thesis using r by (intro exI [of _ cs'] exI [of _ i']) simp
    next
      case stay: False
      have hole': "hole_ok ops ?cs (unat i) (unat ?j)" by (rule extend_hole [OF hole jn False next_cell stay])
      have "shift_back ops m i j = shift_back ops m i ?j"
        by (simp only: step False w cond stay Let_def bind.bind_lunit if_False)
      then show ?thesis using less.hyps [of m ?j i, OF closer cap len hole' less.prems(4,5)] by simp
    qed
  qed
qed

lemma table_erase_run:
  assumes ok: "hmap_ok ops key m" and x: "\<not> eo_empty ops x"
  shows "\<exists>m'. map_erase ops release x (h, out, m) =
      Some (h, (case hm_map ops key (hm_cells m) (key x) of None \<Rightarrow> out | Some y \<Rightarrow> if release then out @ [y] else out), m') \<and>
    hmap_ok ops key m' \<and> hm_block m' = hm_block m \<and> hm_element_size m' = hm_element_size m \<and>
    hm_map ops key (hm_cells m') = (hm_map ops key (hm_cells m))(key x := None)"
proof -
  let ?cs = "hm_cells m"
  obtain k where k: "unat (hm_capacity m) = 2 ^ k" and len: "length ?cs = unat (hm_capacity m)" and cs: "cells_ok ops key ?cs"
    and count: "unat (hm_count m) = length (entries ops ?cs)" and load: "2 * length (entries ops ?cs) \<le> unat (hm_capacity m)"
    and blk: "hm_block m \<noteq> None" using ok by (auto simp: hmap_ok_def)
  have dist: "distinct (map key (entries ops ?cs))" and reach: "reachable_cells ops ?cs" using cs by (simp_all add: cells_ok_def)
  obtain i d where i: "map_at ops x m = Some i" and d: "d < length ?cs"
    "unat i = (entry_home ops (length ?cs) x + d) mod length ?cs"
    and at: "case hm_map ops key ?cs (key x) of None \<Rightarrow> eo_empty ops (?cs ! unat i) | Some y \<Rightarrow> ?cs ! unat i = y"
    using at_stops [OF ok x] by blast
  have "0 < length ?cs" by (rule le_less_trans [OF le0 d(1)])
  then have il: "unat i < length ?cs" unfolding d(2) by (rule mod_less_divisor)
  then have el: "map_element m i = Some (?cs ! unat i)" by (simp add: map_element_def)
  show ?thesis
  proof (cases "hm_map ops key ?cs (key x)")
    case None
    moreover have "(hm_map ops key ?cs)(key x := None) = hm_map ops key ?cs" using None by (simp add: fun_upd_idem)
    ultimately show ?thesis using at i el ok by (simp add: map_erase_def)
  next
    case (Some y)
    have y: "?cs ! unat i = y" "\<not> eo_empty ops y" "key y = key x"
      using at Some hm_map_Some [OF dist, of "key x" y] by simp_all
    obtain g where g: "g < length ?cs" "eo_empty ops (?cs ! g)" using has_gap [OF ok] by blast
    let ?m = "m\<lparr>hm_count := hm_count m - 1\<rparr>"
    have "q = unat i" if "q < length ?cs" "ring_dist (length ?cs) (unat i) q \<le> ring_dist (length ?cs) (unat i) (unat i)" for q
      using that il by simp
    then have hole: "hole_ok ops (hm_cells ?m) (unat i) (unat i)"
      unfolding hole_ok_def using il reach y by simp
    obtain cs' i' where r: "shift_back ops ?m i i = Some (?m\<lparr>hm_cells := cs'\<rparr>, i')" "length cs' = length ?cs"
      "unat i' < length cs'" "reachable_cells ops (cs'[unat i' := eo_null ops])"
      "mset (cs'[unat i' := eo_null ops]) = mset (?cs[unat i := eo_null ops])"
      using shift_run [of ?m k i i g] k len hole g by auto
    let ?cs' = "cs'[unat i' := eo_null ops]"
    have "mset (entries ops ?cs') = mset (entries ops (?cs[unat i := eo_null ops]))"
      using r(5) unfolding entries_def by (metis mset_filter)
    moreover have "mset (entries ops (?cs[unat i := eo_null ops])) + {#y#} = mset (entries ops ?cs)"
      using entries_update [OF il, of ops "eo_null ops"] y(1,2) null_empty by (simp add: entries_def)
    ultimately have ms: "mset (entries ops ?cs) = add_mset y (mset (entries ops ?cs'))" by simp
    then have "mset (map key (entries ops ?cs)) = mset (key y # map key (entries ops ?cs'))" by simp
    then have "distinct (key y # map key (entries ops ?cs'))"
      using dist mset_eq_imp_distinct_iff by metis
    then have dist': "distinct (map key (entries ops ?cs'))" and new: "key y \<notin> key ` set (entries ops ?cs')" by simp_all
    have set: "set (entries ops ?cs) = insert y (set (entries ops ?cs'))"
      using ms by (metis set_mset_add_mset_insert set_mset_mset)
    have map: "hm_map ops key ?cs' = (hm_map ops key ?cs)(key x := None)"
    proof (rule ext)
      fix k
      have "hm_map ops key ?cs' k = Some e \<longleftrightarrow> ((hm_map ops key ?cs)(key x := None)) k = Some e" for e
      proof (cases "k = key x")
        case True
        have "key e \<noteq> key y" if "e \<in> set (entries ops ?cs')" for e using new that by (metis imageI)
        then show ?thesis unfolding hm_map_entries [OF dist'] True by (simp, metis y(3))
      next
        case False
        then have "((hm_map ops key ?cs)(key x := None)) k = Some e \<longleftrightarrow> e \<in> insert y (set (entries ops ?cs')) \<and> key e = k"
          using hm_map_entries [OF dist, of k e] set by simp
        then show ?thesis unfolding hm_map_entries [OF dist'] using False y(3) by blast
      qed
      then show "hm_map ops key ?cs' k = ((hm_map ops key ?cs)(key x := None)) k" by (metis not_Some_eq)
    qed
    have lens: "length (entries ops ?cs) = Suc (length (entries ops ?cs'))"
      using arg_cong [OF ms, of size] by simp
    then have "unat (hm_count m - 1) = length (entries ops ?cs')" using count by (simp add: unat_minus_1)
    moreover have "\<forall>e \<in> set ?cs'. eo_empty ops e \<longrightarrow> e = eo_null ops"
    proof -
      have "set ?cs' = set (?cs[unat i := eo_null ops])" using r(5) by (rule mset_eq_setD)
      then show ?thesis
        using cs set_update_subset_insert [of ?cs "unat i" "eo_null ops"] unfolding cells_ok_def by blast
    qed
    ultimately have "hmap_ok ops key (?m\<lparr>hm_cells := ?cs'\<rparr>)"
      using k len r(2,4) dist' load lens blk by (simp add: hmap_ok_def cells_ok_def)
    moreover have "map_erase ops release x (h, out, m) =
        Some (h, if release then out @ [y] else out, ?m\<lparr>hm_cells := ?cs'\<rparr>)"
      using i el y(1,2) r(1) by (simp add: map_erase_def)
    ultimately show ?thesis using Some map by simp
  qed
qed

lemma construct_run:
  assumes "map_construct (\<lambda>_. True) ops n (h, out) = Some (h', out', m)"
    and "set (h_live h) = others" and "\<forall>i \<in> others. i < h_next h"
  shows "hmap_ok ops key m \<and> owns_block others h' m \<and> hm_element_size m = n \<and>
    hm_map ops key (hm_cells m) = (\<lambda>_. None) \<and> hm_count m = 0 \<and> out' = out"
proof -
  have "map_roundup 16 = 16" by code_simp
  then have s: "m = \<lparr>hm_block = Some (h_next h), hm_cells = replicate 16 (eo_null ops), hm_count = 0, hm_capacity = 16,
      hm_element_size = n\<rparr>" "h' = h\<lparr>h_next := Suc (h_next h), h_live := h_next h # h_live h\<rparr>" "out' = out"
    using assms(1) by (auto simp: map_construct_def map_rehash_def MAP_ELEMENTS_CAPACITY_MIN_def mem_alloc_def Let_def split: if_splits)
  have "\<exists>k. (16 :: nat) = 2 ^ k" by (rule exI [of _ 4]) simp
  then have "hmap_ok ops key m"
    using null_empty by (auto simp: s(1) hmap_ok_def cells_ok_def reachable_cells_def)
  moreover have "owns_block others h' m" using assms(2,3) by (auto simp: owns_block_def s)
  ultimately show ?thesis using null_empty by (simp add: s hm_map_replicate)
qed

lemma construct_defined:
  assumes "16 * unat e < 2 ^ 64"
  shows "\<exists>h' m. map_construct (\<lambda>_. True) ops e (h, out) = Some (h', out, m)"
proof -
  have "map_roundup 16 = 16" by code_simp
  then show ?thesis using assms by (simp add: map_construct_def map_rehash_def MAP_ELEMENTS_CAPACITY_MIN_def mem_alloc_def)
qed

text \<open>What a lookup finds: the element, or an empty cell with nothing in it.\<close>

lemma at_finds:
  assumes ok: "hmap_ok ops key m" and x: "\<not> eo_empty ops x"
  shows "Option.bind (map_at ops x m) (map_element m) =
    Some (case hm_map ops key (hm_cells m) (key x) of None \<Rightarrow> eo_null ops | Some y \<Rightarrow> y)"
proof -
  obtain i d where i: "map_at ops x m = Some i" and d: "d < length (hm_cells m)"
    "unat i = (entry_home ops (length (hm_cells m)) x + d) mod length (hm_cells m)"
    and at: "case hm_map ops key (hm_cells m) (key x) of None \<Rightarrow> eo_empty ops (hm_cells m ! unat i)
     | Some y \<Rightarrow> hm_cells m ! unat i = y"
    using at_stops [OF ok x] by blast
  have "0 < length (hm_cells m)" by (rule le_less_trans [OF le0 d(1)])
  then have "unat i < length (hm_cells m)" unfolding d(2) by (rule mod_less_divisor)
  moreover have "\<forall>e \<in> set (hm_cells m). eo_empty ops e \<longrightarrow> e = eo_null ops"
    using ok unfolding hmap_ok_def cells_ok_def by blast
  ultimately show ?thesis using at by (simp add: i map_element_def split: option.splits)
qed

lemma entries_mset:
  assumes "distinct (map key (entries ops cs))"
  shows "mset (entries ops cs) =
    image_mset (\<lambda>k. the (hm_map ops key cs k)) (mset_set (dom (hm_map ops key cs)))"
proof -
  have "dom (hm_map ops key cs) = set (map key (entries ops cs))"
    by (simp add: hm_map_def dom_map_of_conv_image_fst image_image)
  then have "mset_set (dom (hm_map ops key cs)) = mset (map key (entries ops cs))"
    using mset_set_set [OF assms] by simp
  moreover have "map (\<lambda>k. the (hm_map ops key cs k)) (map key (entries ops cs)) = entries ops cs"
  proof -
    have "the (hm_map ops key cs (key e)) = e" if "e \<in> set (entries ops cs)" for e
    proof -
      have "hm_map ops key cs (key e) = Some e" by (rule hm_map_entries [OF assms, THEN iffD2]) (simp add: that)
      then show ?thesis by simp
    qed
    then show ?thesis unfolding map_map comp_def by (rule map_idI)
  qed
  ultimately show ?thesis by (simp only: mset_map [symmetric])
qed

lemma table_release_run:
  assumes "hmap_ok ops key m"
  shows "map_release_all ops True (h, out, m) = Some (h, out @ entries ops (hm_cells m), m)"
  using assms by (simp add: map_release_all_def read_n_def hmap_ok_def entries_def)

end

end
