(* ===== verification/Hash.thy ===== *)
theory Hash
  imports Prelude "HOL-Library.Monad_Syntax"
begin

text \<open>
  Component \<open>third_party/libreactor/src/reactor/hash.c\<close>: the hash functions of the tables, on the bytes of an
  object. A load outside the object is undefined; \<open>hash_reads_inside\<close> shows that none happens. Loads are
  in the order of a little-endian machine.
\<close>

unbundle bit_operations_syntax

type_synonym u64 = "64 word"

definition hash_prime_0 :: u64 where "hash_prime_0 = 0xc3a5c85c97cb3127"
definition hash_prime_1 :: u64 where "hash_prime_1 = 0xb492b66fbe98f273"
definition hash_prime_2 :: u64 where "hash_prime_2 = 0x9ae16a3b2f90404f"

subsection \<open>Loads\<close>

definition byte_at :: "byte list \<Rightarrow> nat \<Rightarrow> byte option" where
  "byte_at s i = (if i < length s then Some (s ! i) else None)"

definition load_le :: "byte list \<Rightarrow> 'a :: len word" where
  "load_le bs = foldr (\<lambda>b w. ucast b + 256 * w) bs 0"

definition fetch32 :: "byte list \<Rightarrow> nat \<Rightarrow> u32 option" where
  "fetch32 s i = (if i + 4 \<le> length s then Some (load_le (take 4 (drop i s))) else None)"

definition fetch64 :: "byte list \<Rightarrow> nat \<Rightarrow> u64 option" where
  "fetch64 s i = (if i + 8 \<le> length s then Some (load_le (take 8 (drop i s))) else None)"

subsection \<open>Mixing\<close>

definition shift_mix :: "u64 \<Rightarrow> u64" where
  "shift_mix v = v XOR drop_bit 47 v"

definition rotate64 :: "u64 \<Rightarrow> nat \<Rightarrow> u64" where
  "rotate64 v shift = drop_bit shift v OR push_bit (64 - shift) v"

definition hash_len_16 :: "u64 \<Rightarrow> u64 \<Rightarrow> u64 \<Rightarrow> u64" where
  "hash_len_16 u v mul =
     (let a = (u XOR v) * mul; a = a XOR drop_bit 47 a;
          b = (v XOR a) * mul; b = b XOR drop_bit 47 b
      in b * mul)"

definition hash_uint64 :: "u64 \<Rightarrow> u64" where
  "hash_uint64 v =
     (let v = v XOR drop_bit 33 v; v = v * 0xff51afd7ed558ccd;
          v = v XOR drop_bit 33 v; v = v * 0xc4ceb9fe1a85ec53
      in v XOR drop_bit 33 v)"

subsection \<open>Short objects\<close>

definition hash_len_0_to_16 :: "byte list \<Rightarrow> nat \<Rightarrow> u64 option" where
  "hash_len_0_to_16 s len =
     (if len \<ge> 8 then
        do { f \<leftarrow> fetch64 s 0;
             b \<leftarrow> fetch64 s (len - 8);
             let mul = hash_prime_2 + of_nat len * 2;
             let a = f + hash_prime_2;
             let c = rotate64 b 37 * mul + a;
             let d = (rotate64 a 25 + b) * mul;
             Some (hash_len_16 c d mul) }
      else if len \<ge> 4 then
        do { a \<leftarrow> fetch32 s 0;
             b \<leftarrow> fetch32 s (len - 4);
             let mul = hash_prime_2 + of_nat len * 2;
             Some (hash_len_16 (of_nat len + push_bit 3 (ucast a)) (ucast b) mul) }
      else if len > 0 then
        do { a \<leftarrow> byte_at s 0;
             b \<leftarrow> byte_at s (len div 2);
             c \<leftarrow> byte_at s (len - 1);
             let y = (ucast a + push_bit 8 (ucast b) :: u32);
             let z = (ucast (of_nat len + ucast (push_bit 2 (ucast c :: u32)) :: u64) :: u32);
             Some (shift_mix ((ucast y * hash_prime_2) XOR (ucast z * hash_prime_0)) * hash_prime_2) }
      else Some hash_prime_2)"

definition hash_len_17_to_32 :: "byte list \<Rightarrow> nat \<Rightarrow> u64 option" where
  "hash_len_17_to_32 s len =
     do { f0 \<leftarrow> fetch64 s 0;
          b \<leftarrow> fetch64 s 8;
          f2 \<leftarrow> fetch64 s (len - 8);
          f3 \<leftarrow> fetch64 s (len - 16);
          let mul = hash_prime_2 + of_nat len * 2;
          let a = f0 * hash_prime_1;
          let c = f2 * mul;
          let d = f3 * hash_prime_2;
          Some (hash_len_16 (rotate64 (a + b) 43 + rotate64 c 30 + d) (a + rotate64 (b + hash_prime_2) 18 + c) mul) }"

definition hash_len_33_to_64 :: "byte list \<Rightarrow> nat \<Rightarrow> u64 option" where
  "hash_len_33_to_64 s len =
     do { f0 \<leftarrow> fetch64 s 0;
          b \<leftarrow> fetch64 s 8;
          f2 \<leftarrow> fetch64 s (len - 8);
          f3 \<leftarrow> fetch64 s (len - 16);
          f4 \<leftarrow> fetch64 s 16;
          f \<leftarrow> fetch64 s 24;
          f6 \<leftarrow> fetch64 s (len - 32);
          f7 \<leftarrow> fetch64 s (len - 24);
          let mul = hash_prime_2 + of_nat len * 2;
          let a = f0 * hash_prime_2;
          let c = f2 * mul;
          let d = f3 * hash_prime_2;
          let y = rotate64 (a + b) 43 + rotate64 c 30 + d;
          let z = hash_len_16 y (a + rotate64 (b + hash_prime_2) 18 + c) mul;
          let e = f4 * mul;
          let g = (y + f6) * mul;
          let h = (z + f7) * mul;
          Some (hash_len_16 (rotate64 (e + f) 43 + rotate64 g 30 + h) (e + rotate64 (f + a) 18 + g) mul) }"

subsection \<open>Long objects\<close>

definition weak_hash_len_32_with_seeds2 :: "u64 \<Rightarrow> u64 \<Rightarrow> u64 \<Rightarrow> u64 \<Rightarrow> u64 \<Rightarrow> u64 \<Rightarrow> u64 \<times> u64" where
  "weak_hash_len_32_with_seeds2 w x y z a b =
     (let a = a + w;
          b = rotate64 (b + a + z) 21;
          c = a;
          a = a + x;
          a = a + y;
          b = b + rotate64 a 44
      in (a + z, b + c))"

definition weak_hash_len_32_with_seeds :: "byte list \<Rightarrow> nat \<Rightarrow> u64 \<Rightarrow> u64 \<Rightarrow> (u64 \<times> u64) option" where
  "weak_hash_len_32_with_seeds s i a b =
     do { w \<leftarrow> fetch64 s i;
          x \<leftarrow> fetch64 s (i + 8);
          y \<leftarrow> fetch64 s (i + 16);
          z \<leftarrow> fetch64 s (i + 24);
          Some (weak_hash_len_32_with_seeds2 w x y z a b) }"

text \<open>The variables \<open>x\<close>, \<open>y\<close>, \<open>z\<close>, \<open>v\<close>, \<open>w\<close>; the macro \<open>swap\<close> exchanges by three exclusive ors.\<close>

type_synonym farm = "u64 \<times> u64 \<times> u64 \<times> (u64 \<times> u64) \<times> (u64 \<times> u64)"

definition xor_swap :: "u64 \<Rightarrow> u64 \<Rightarrow> u64 \<times> u64" where
  "xor_swap x y = (let x = x XOR y; y = x XOR y; x = x XOR y in (x, y))"

text \<open>The body of the loop, at the offset \<open>i\<close>.\<close>

definition farm_round :: "byte list \<Rightarrow> nat \<Rightarrow> farm \<Rightarrow> farm option" where
  "farm_round s i st =
     (case st of (x, y, z, v, w) \<Rightarrow>
        do { f8 \<leftarrow> fetch64 s (i + 8);
             f48 \<leftarrow> fetch64 s (i + 48);
             f40 \<leftarrow> fetch64 s (i + 40);
             let x = rotate64 (x + y + fst v + f8) 37 * hash_prime_1;
             let y = rotate64 (y + snd v + f48) 42 * hash_prime_1;
             let x = x XOR snd w;
             let y = y + fst v + f40;
             let z = rotate64 (z + fst w) 33 * hash_prime_1;
             v \<leftarrow> weak_hash_len_32_with_seeds s i (snd v * hash_prime_1) (x + fst w);
             f16 \<leftarrow> fetch64 s (i + 16);
             w \<leftarrow> weak_hash_len_32_with_seeds s (i + 32) (z + snd w) (y + f16);
             (case xor_swap z x of (z, x) \<Rightarrow> Some (x, y, z, v, w)) })"

fun farm_loop :: "byte list \<Rightarrow> nat \<Rightarrow> nat \<Rightarrow> farm \<Rightarrow> farm option" where
  "farm_loop s 0 i st = Some st"
| "farm_loop s (Suc n) i st = Option.bind (farm_round s i st) (farm_loop s n (i + 64))"

text \<open>After the loop: the last 64 bytes, which may overlap those of the last round.\<close>

definition farm_last :: "byte list \<Rightarrow> nat \<Rightarrow> nat \<Rightarrow> farm \<Rightarrow> u64 option" where
  "farm_last s len i st =
     (case st of (x, y, z, v, w) \<Rightarrow>
        do { f8 \<leftarrow> fetch64 s (i + 8);
             f48 \<leftarrow> fetch64 s (i + 48);
             f40 \<leftarrow> fetch64 s (i + 40);
             let mul = hash_prime_1 + push_bit 1 (z AND 0xff);
             let w = (fst w + (of_nat (len - 1) AND 63), snd w);
             let v = (fst v + fst w, snd v);
             let w = (fst w + fst v, snd w);
             let x = rotate64 (x + y + fst v + f8) 37 * mul;
             let y = rotate64 (y + snd v + f48) 42 * mul;
             let x = x XOR (snd w * 9);
             let y = y + fst v * 9 + f40;
             let z = rotate64 (z + fst w) 33 * mul;
             v \<leftarrow> weak_hash_len_32_with_seeds s i (snd v * mul) (x + fst w);
             f16 \<leftarrow> fetch64 s (i + 16);
             w \<leftarrow> weak_hash_len_32_with_seeds s (i + 32) (z + snd w) (y + f16);
             (case xor_swap z x of (z, x) \<Rightarrow>
                Some (hash_len_16 (hash_len_16 (fst v) (fst w) mul + shift_mix y * hash_prime_0 + z)
                        (hash_len_16 (snd v) (snd w) mul + x) mul)) })"

definition cfarmhash :: "byte list \<Rightarrow> nat \<Rightarrow> u64 option" where
  "cfarmhash s len =
     (if len \<le> 16 then hash_len_0_to_16 s len
      else if len \<le> 32 then hash_len_17_to_32 s len
      else if len \<le> 64 then hash_len_33_to_64 s len
      else
        let seed = 81; x = seed; y = seed * hash_prime_1 + 113;
            z = shift_mix (y * hash_prime_2 + 113) * hash_prime_2;
            rounds = (len - 1) div 64; last64 = rounds * 64 + (len - 1) mod 64 - 63
        in do { f \<leftarrow> fetch64 s 0;
                st \<leftarrow> farm_loop s rounds 0 (x * hash_prime_2 + f, y, z, (0, 0), (0, 0));
                farm_last s len last64 st })"

definition hash_data :: "byte list \<Rightarrow> nat \<Rightarrow> u64 option" where
  "hash_data s n = cfarmhash s n"

text \<open>The object is a string and the NUL behind it.\<close>

definition hash_string :: "string \<Rightarrow> u64 option" where
  "hash_string m = hash_data (map of_char (c_str m) @ [0]) (length (c_str m))"

subsection \<open>Every load is inside\<close>

lemma xor_swap_eq: "xor_swap x y = (y, x)"
proof -
  have "(x XOR y) XOR y = x" "(x XOR y) XOR x = y"
    by (simp_all add: xor.assoc, metis xor.commute xor.assoc xor_self_eq xor.right_neutral)
  then show ?thesis by (simp add: xor_swap_def Let_def)
qed

lemma fetch64_inside: "i + 8 \<le> length s \<Longrightarrow> \<exists>v. fetch64 s i = Some v"
  by (simp add: fetch64_def)

lemma fetch32_inside: "i + 4 \<le> length s \<Longrightarrow> \<exists>v. fetch32 s i = Some v"
  by (simp add: fetch32_def)

lemma byte_at_inside: "i < length s \<Longrightarrow> \<exists>v. byte_at s i = Some v"
  by (simp add: byte_at_def)

lemma let_defined: "(\<And>x. f x \<noteq> None) \<Longrightarrow> Let a f \<noteq> None"
  by (simp add: Let_def)

lemma bind_defined: "\<exists>v. a = Some v \<Longrightarrow> (\<And>v. f v \<noteq> None) \<Longrightarrow> Option.bind a f \<noteq> None"
  by auto

lemma if_defined: "(P \<Longrightarrow> a \<noteq> None) \<Longrightarrow> (\<not> P \<Longrightarrow> b \<noteq> None) \<Longrightarrow> (if P then a else b) \<noteq> None"
  by simp

lemmas defined = let_defined if_defined bind_defined option.distinct(2) fetch64_inside fetch32_inside byte_at_inside

lemma short_inside:
  assumes "n \<le> length s"
  shows "n \<le> 16 \<Longrightarrow> hash_len_0_to_16 s n \<noteq> None"
    and "16 < n \<Longrightarrow> hash_len_17_to_32 s n \<noteq> None"
    and "32 < n \<Longrightarrow> hash_len_33_to_64 s n \<noteq> None"
proof -
  show "hash_len_0_to_16 s n \<noteq> None" if "n \<le> 16"
    unfolding hash_len_0_to_16_def
    by (intro defined) (use assms in auto)
  show "hash_len_17_to_32 s n \<noteq> None" if "16 < n"
    unfolding hash_len_17_to_32_def by (intro defined) (use assms that in simp_all)
  show "hash_len_33_to_64 s n \<noteq> None" if "32 < n"
    unfolding hash_len_33_to_64_def by (intro defined) (use assms that in simp_all)
qed

lemma weak_inside: "i + 32 \<le> length s \<Longrightarrow> \<exists>v. weak_hash_len_32_with_seeds s i a b = Some v"
proof -
  assume i: "i + 32 \<le> length s"
  have "weak_hash_len_32_with_seeds s i a b \<noteq> None"
    unfolding weak_hash_len_32_with_seeds_def by (intro defined) (use i in simp_all)
  then show ?thesis by auto
qed

lemma round_inside: "i + 64 \<le> length s \<Longrightarrow> farm_round s i st \<noteq> None"
  unfolding farm_round_def xor_swap_eq
  by (cases st) (simp only: prod.case, (intro defined weak_inside; simp))

lemma last_inside: "i + 64 \<le> length s \<Longrightarrow> farm_last s n i st \<noteq> None"
  unfolding farm_last_def xor_swap_eq
  by (cases st) (simp only: prod.case, (intro defined weak_inside; simp))

lemma loop_inside: "i + 64 * n \<le> length s \<Longrightarrow> farm_loop s n i st \<noteq> None"
proof (induction n arbitrary: i st)
  case (Suc n)
  then have "farm_round s i st \<noteq> None" by (intro round_inside) simp
  then show ?case using Suc.IH [of "i + 64"] Suc.prems by auto
qed simp

theorem hash_reads_inside:
  assumes "n \<le> length s"
  shows "hash_data s n \<noteq> None"
proof (cases "n \<le> 64")
  case True
  then show ?thesis using short_inside [OF assms] by (simp add: hash_data_def cfarmhash_def)
next
  case False
  let ?r = "(n - 1) div 64"
  have r: "?r * 64 + (n - 1) mod 64 = n - 1" by simp
  have "64 * ?r \<le> n - 1" using r by simp
  then have "\<exists>st'. farm_loop s ?r 0 st = Some st'" for st
    using loop_inside [of 0 ?r s st] assms by auto
  moreover have "?r * 64 + (n - 1) mod 64 - 63 + 64 \<le> length s" using False assms by (simp only: r)
  note last = last_inside [OF this]
  ultimately have "cfarmhash s n \<noteq> None"
    unfolding cfarmhash_def Let_def
    by (intro if_defined bind_defined fetch64_inside short_inside) (use assms False last in simp_all)
  then show ?thesis by (simp add: hash_data_def)
qed

lemma string_hash_defined: "hash_string m \<noteq> None"
  unfolding hash_string_def by (rule hash_reads_inside) simp

end
