(* ===== verification/Hash_Tables.thy ===== *)
theory Hash_Tables
  imports Hash_Map Hash
begin

text \<open>
  Components \<open>third_party/libreactor/src/reactor/mapi.c\<close> and \<open>maps.c\<close>: tables from words, and from strings, to
  words. Both are shown to be finite maps, whatever is done with them, by one locale.
\<close>

subsection \<open>mapi.c\<close>

record mapi_entry =
  mie_key :: size_t
  mie_value :: size_t

definition mapi_hash :: "mapi_entry \<Rightarrow> size_t option" where
  "mapi_hash e = Some (hash_uint64 (mie_key e))"

definition mapi_ops :: "mapi_entry entry_ops" where
  "mapi_ops = \<lparr>eo_hash = mapi_hash, eo_equal = (\<lambda>a b. mie_key a = mie_key b), eo_empty = (\<lambda>a. mie_key a = 0),
               eo_null = \<lparr>mie_key = 0, mie_value = 0\<rparr>\<rparr>"

definition mapi_construct :: "(nat \<Rightarrow> bool) \<Rightarrow> heap \<times> mapi_entry list \<Rightarrow> mapi_entry mstate option" where
  "mapi_construct ok = map_construct ok mapi_ops 16"

definition mapi_destruct :: "bool \<Rightarrow> mapi_entry mstate \<Rightarrow> (heap \<times> mapi_entry list) option" where
  "mapi_destruct = map_destruct mapi_ops"

definition mapi_size :: "mapi_entry hmap \<Rightarrow> size_t" where
  "mapi_size = map_size"

text \<open>An insertion may rehash; the insertions of a rehash do not.\<close>

definition mapi_reserve :: "(nat \<Rightarrow> bool) \<Rightarrow> size_t \<Rightarrow> mapi_entry mstate \<Rightarrow> mapi_entry mstate option" where
  "mapi_reserve ok = map_reserve ok mapi_ops (map_insert ok mapi_ops (Suc 0) False)"

definition mapi_at :: "mapi_entry hmap \<Rightarrow> size_t \<Rightarrow> size_t option" where
  "mapi_at m key = map_option mie_value
     (Option.bind (map_at mapi_ops \<lparr>mie_key = key, mie_value = 0\<rparr> m) (map_element m))"

definition mapi_insert ::
  "(nat \<Rightarrow> bool) \<Rightarrow> size_t \<Rightarrow> size_t \<Rightarrow> bool \<Rightarrow> mapi_entry mstate \<Rightarrow> mapi_entry mstate option" where
  "mapi_insert ok key value release =
     map_insert ok mapi_ops (Suc (Suc 0)) release \<lparr>mie_key = key, mie_value = value\<rparr>"

definition mapi_erase :: "size_t \<Rightarrow> bool \<Rightarrow> mapi_entry mstate \<Rightarrow> mapi_entry mstate option" where
  "mapi_erase key release = map_erase mapi_ops release \<lparr>mie_key = key, mie_value = 0\<rparr>"

definition mapi_clear :: "(nat \<Rightarrow> bool) \<Rightarrow> bool \<Rightarrow> mapi_entry mstate \<Rightarrow> mapi_entry mstate option" where
  "mapi_clear ok = map_clear ok mapi_ops"

subsection \<open>maps.c\<close>

text \<open>The table keeps the pointer; the string it points to is taken to stay as it is.\<close>

record maps_entry =
  mse_key :: "string option"
  mse_value :: size_t

text \<open>\<open>strlen\<close> of NULL is undefined, and it comes before any \<open>strcmp\<close>.\<close>

definition maps_hash :: "maps_entry \<Rightarrow> size_t option" where
  "maps_hash e = Option.bind (mse_key e) hash_string"

definition maps_ops :: "maps_entry entry_ops" where
  "maps_ops = \<lparr>eo_hash = maps_hash, eo_equal = (\<lambda>a b. map_option c_str (mse_key a) = map_option c_str (mse_key b)),
               eo_empty = (\<lambda>a. mse_key a = None), eo_null = \<lparr>mse_key = None, mse_value = 0\<rparr>\<rparr>"

definition maps_construct :: "(nat \<Rightarrow> bool) \<Rightarrow> heap \<times> maps_entry list \<Rightarrow> maps_entry mstate option" where
  "maps_construct ok = map_construct ok maps_ops 16"

definition maps_destruct :: "bool \<Rightarrow> maps_entry mstate \<Rightarrow> (heap \<times> maps_entry list) option" where
  "maps_destruct = map_destruct maps_ops"

definition maps_size :: "maps_entry hmap \<Rightarrow> size_t" where
  "maps_size = map_size"

definition maps_reserve :: "(nat \<Rightarrow> bool) \<Rightarrow> size_t \<Rightarrow> maps_entry mstate \<Rightarrow> maps_entry mstate option" where
  "maps_reserve ok = map_reserve ok maps_ops (map_insert ok maps_ops (Suc 0) False)"

definition maps_at :: "maps_entry hmap \<Rightarrow> string option \<Rightarrow> size_t option" where
  "maps_at m key = map_option mse_value
     (Option.bind (map_at maps_ops \<lparr>mse_key = key, mse_value = 0\<rparr> m) (map_element m))"

definition maps_insert ::
  "(nat \<Rightarrow> bool) \<Rightarrow> string option \<Rightarrow> size_t \<Rightarrow> bool \<Rightarrow> maps_entry mstate \<Rightarrow> maps_entry mstate option" where
  "maps_insert ok key value release =
     map_insert ok maps_ops (Suc (Suc 0)) release \<lparr>mse_key = key, mse_value = value\<rparr>"

definition maps_erase :: "string option \<Rightarrow> bool \<Rightarrow> maps_entry mstate \<Rightarrow> maps_entry mstate option" where
  "maps_erase key release = map_erase maps_ops release \<lparr>mse_key = key, mse_value = 0\<rparr>"

definition maps_clear :: "(nat \<Rightarrow> bool) \<Rightarrow> bool \<Rightarrow> maps_entry mstate \<Rightarrow> maps_entry mstate option" where
  "maps_clear ok = map_clear ok maps_ops"

subsection \<open>The abstract table\<close>

datatype 'k table_call = Put 'k size_t | Remove 'k | Reserve size_t | Clear

text \<open>A finite map, and the entries that were handed back to the caller.\<close>

type_synonym 'k table_view = "('k \<Rightarrow> size_t option) \<times> ('k \<times> size_t) multiset"

definition contents :: "('k \<Rightarrow> size_t option) \<Rightarrow> ('k \<times> size_t) multiset" where
  "contents M = image_mset (\<lambda>k. (k, the (M k))) (mset_set (dom M))"

fun table_spec :: "'k table_call \<Rightarrow> 'k table_view \<Rightarrow> 'k table_view" where
  "table_spec (Put k v) (M, R) = (case M k of None \<Rightarrow> (M(k \<mapsto> v), R) | Some _ \<Rightarrow> (M, add_mset (k, v) R))"
| "table_spec (Remove k) (M, R) = (case M k of None \<Rightarrow> (M, R) | Some v \<Rightarrow> (M(k := None), add_mset (k, v) R))"
| "table_spec (Reserve n) (M, R) = (M, R)"
| "table_spec Clear (M, R) = (Map.empty, R + contents M)"

fun call_fits :: "('k \<Rightarrow> bool) \<Rightarrow> 'k table_call \<Rightarrow> bool" where
  "call_fits valid (Put k v) = valid k"
| "call_fits valid (Remove k) = valid k"
| "call_fits valid (Reserve n) = (unat n < 2 ^ 56)"
| "call_fits valid Clear = True"

fun do_call :: "'e entry_ops \<Rightarrow> ('k \<Rightarrow> size_t \<Rightarrow> 'e) \<Rightarrow> 'k table_call \<Rightarrow> 'e mstate \<Rightarrow> 'e mstate option" where
  "do_call ops mk (Put k v) s = map_insert (\<lambda>_. True) ops (Suc (Suc 0)) True (mk k v) s"
| "do_call ops mk (Remove k) s = map_erase ops True (mk k 0) s"
| "do_call ops mk (Reserve n) s = map_reserve (\<lambda>_. True) ops (map_insert (\<lambda>_. True) ops (Suc 0) False) n s"
| "do_call ops mk Clear s = map_clear (\<lambda>_. True) ops True s"

text \<open>The table is in order, owns its block, and stands for the view.\<close>

definition table_shows ::
  "'e entry_ops \<Rightarrow> ('e \<Rightarrow> 'k) \<Rightarrow> ('e \<Rightarrow> size_t) \<Rightarrow> nat set \<Rightarrow> 'e mstate \<Rightarrow> 'k table_view \<Rightarrow> bool" where
  "table_shows ops key val others s v \<longleftrightarrow>
     (case s of (h, out, m) \<Rightarrow> hmap_ok ops key m \<and> owns_block others h m \<and> hm_element_size m = 16 \<and>
        v = ((\<lambda>k. map_option val (hm_map ops key (hm_cells m) k)), image_mset (\<lambda>e. (key e, val e)) (mset out)))"

locale keyed_table = hash_entries ops key
  for ops :: "'e entry_ops" and key :: "'e \<Rightarrow> 'k" +
  fixes val :: "'e \<Rightarrow> size_t" and valid :: "'k \<Rightarrow> bool" and mk :: "'k \<Rightarrow> size_t \<Rightarrow> 'e"
  assumes mk_entry: "valid k \<Longrightarrow> \<not> eo_empty ops (mk k v)"
    and key_mk: "valid k \<Longrightarrow> key (mk k v) = k"
    and val_mk: "val (mk k v) = v"
    and null_val: "val (eo_null ops) = 0"
begin

lemma contents_entries:
  assumes "distinct (map key (entries ops cs))"
  shows "image_mset (\<lambda>e. (key e, val e)) (mset (entries ops cs)) =
    contents (\<lambda>k. map_option val (hm_map ops key cs k))"
proof -
  let ?M = "hm_map ops key cs"
  have "image_mset (\<lambda>e. (key e, val e)) (mset (entries ops cs)) =
      image_mset (\<lambda>k. (key (the (?M k)), val (the (?M k)))) (mset_set (dom ?M))"
    by (subst entries_mset [OF assms]) (simp add: image_mset.compositionality comp_def)
  also have "\<dots> = image_mset (\<lambda>k. (k, the (map_option val (?M k)))) (mset_set (dom ?M))"
  proof (rule image_mset_cong)
    fix k
    assume "k \<in># mset_set (dom ?M)"
    then have "k \<in> dom ?M" by (simp add: hm_map_def finite_dom_map_of)
    then obtain e where e: "?M k = Some e" by auto
    then show "(key (the (?M k)), val (the (?M k))) = (k, the (map_option val (?M k)))"
      using hm_map_Some [OF assms, of k e] by simp
  qed
  also have "dom ?M = dom (\<lambda>k. map_option val (?M k))" by (auto simp: dom_def)
  finally show ?thesis by (simp add: contents_def)
qed

lemma put_shows:
  assumes s: "table_shows ops key val others s v" and k: "valid k"
    and bound: "unat (hm_count (snd (snd s))) < 2 ^ 56"
  shows "\<exists>s'. do_call ops mk (Put k w) s = Some s' \<and> table_shows ops key val others s' (table_spec (Put k w) v)"
proof -
  obtain h out m where m: "s = (h, out, m)" by (cases s)
  have ok: "hmap_ok ops key m" and own: "owns_block others h m" and e: "hm_element_size m = 16"
    and v: "v = ((\<lambda>k. map_option val (hm_map ops key (hm_cells m) k)), image_mset (\<lambda>e. (key e, val e)) (mset out))"
    using s by (simp_all add: table_shows_def m)
  have b: "4 * (unat (hm_count m) + 1) * (unat (hm_element_size m) + 1) < 2 ^ 63" using bound by (simp add: m e)
  obtain h' m' where r: "map_insert (\<lambda>_. True) ops (Suc (Suc 0)) True (mk k w) (h, out, m) =
      Some (h', if hm_map ops key (hm_cells m) k \<noteq> None \<and> True then out @ [mk k w] else out, m')"
    "hmap_ok ops key m'" "owns_block others h' m'" "hm_element_size m' = hm_element_size m"
    "hm_map ops key (hm_cells m') = (case hm_map ops key (hm_cells m) k of
      None \<Rightarrow> (hm_map ops key (hm_cells m))(k \<mapsto> mk k w) | Some _ \<Rightarrow> hm_map ops key (hm_cells m))"
    using table_insert_run [OF ok own mk_entry [OF k] b, of 0 True w out] unfolding key_mk [OF k] by blast
  show ?thesis
    using r e by (cases "hm_map ops key (hm_cells m) k")
      (auto simp: m v table_shows_def key_mk [OF k] val_mk simp del: map_insert.simps)
qed

lemma remove_shows:
  assumes s: "table_shows ops key val others s v" and k: "valid k"
  shows "\<exists>s'. do_call ops mk (Remove k) s = Some s' \<and> table_shows ops key val others s' (table_spec (Remove k) v)"
proof -
  obtain h out m where m: "s = (h, out, m)" by (cases s)
  have ok: "hmap_ok ops key m" and own: "owns_block others h m" and e: "hm_element_size m = 16"
    and v: "v = ((\<lambda>k. map_option val (hm_map ops key (hm_cells m) k)), image_mset (\<lambda>e. (key e, val e)) (mset out))"
    using s by (simp_all add: table_shows_def m)
  have dist: "distinct (map key (entries ops (hm_cells m)))" using ok by (auto simp: hmap_ok_def cells_ok_def)
  obtain m' where r: "map_erase ops True (mk k 0) (h, out, m) =
      Some (h, (case hm_map ops key (hm_cells m) k of None \<Rightarrow> out | Some y \<Rightarrow> if True then out @ [y] else out), m')"
    "hmap_ok ops key m'" "hm_block m' = hm_block m" "hm_element_size m' = hm_element_size m"
    "hm_map ops key (hm_cells m') = (hm_map ops key (hm_cells m))(k := None)"
    using table_erase_run [OF ok mk_entry [OF k], of True 0 h out] unfolding key_mk [OF k] by blast
  have own': "owns_block others h m'" by (rule owns_same [OF r(3) own])
  show ?thesis
  proof (cases "hm_map ops key (hm_cells m) k")
    case None
    then have "(hm_map ops key (hm_cells m))(k := None) = hm_map ops key (hm_cells m)" by (simp add: fun_upd_idem)
    then show ?thesis using r e own' None by (simp add: m v table_shows_def)
  next
    case (Some y)
    then have "key y = k" using hm_map_Some [OF dist] by blast
    moreover have "(\<lambda>j. map_option val (((hm_map ops key (hm_cells m))(k := None)) j)) =
        (\<lambda>j. map_option val (hm_map ops key (hm_cells m) j))(k := None)" by auto
    ultimately show ?thesis using r e own' Some by (simp add: m v table_shows_def)
  qed
qed

lemma reserve_shows:
  assumes s: "table_shows ops key val others s v" and n: "unat n < 2 ^ 56"
  shows "\<exists>s'. do_call ops mk (Reserve n) s = Some s' \<and> table_shows ops key val others s' (table_spec (Reserve n) v)"
proof -
  obtain h out m where m: "s = (h, out, m)" by (cases s)
  have ok: "hmap_ok ops key m" and own: "owns_block others h m" and e: "hm_element_size m = 16"
    and v: "v = ((\<lambda>k. map_option val (hm_map ops key (hm_cells m) k)), image_mset (\<lambda>e. (key e, val e)) (mset out))"
    using s by (simp_all add: table_shows_def m)
  show ?thesis
  proof (cases "hm_capacity m < n * 2")
    case False
    then show ?thesis using s by (cases v) (simp add: m map_reserve_def Let_def)
  next
    case True
    have u: "unat (n * 2) = 2 * unat n" using n by (intro unat_double) simp
    have "unat (of_nat (2 * unat n) :: size_t) = 2 * unat n" by (rule unat_size_of_nat) (use n in simp)
    then have size: "n * 2 = of_nat (2 * unat n)" using u by (simp only: word_unat_eq_iff)
    have grow: "unat (hm_capacity m) < 2 * unat n" using True u by (simp add: word_less_nat_alt)
    have p: "2 * length (entries ops (hm_cells m)) \<le> 2 * unat n" "0 < 2 * unat n"
      "2 * (2 * unat n) * (unat (hm_element_size m) + 1) < 2 ^ 63"
      using ok grow n by (auto simp: hmap_ok_def e)
    obtain h' m' where r: "map_rehash (\<lambda>_. True) ops (map_insert (\<lambda>_. True) ops (Suc 0) False) (of_nat (2 * unat n)) (h, out, m) =
        Some (h', out, m')" "hmap_ok ops key m'" "owns_block others h' m'" "hm_element_size m' = hm_element_size m"
      "hm_map ops key (hm_cells m') = hm_map ops key (hm_cells m)"
      using rehash_run [OF ok own p, of 0 out] by blast
    have "do_call ops mk (Reserve n) s = Some (h', out, m')"
      unfolding do_call.simps map_reserve_def Let_def m using True r(1) [folded size]
      by (simp del: map_insert.simps)
    then show ?thesis using r(2-5) e by (simp add: v table_shows_def)
  qed
qed

lemma clear_shows:
  assumes s: "table_shows ops key val others s v"
  shows "\<exists>s'. do_call ops mk Clear s = Some s' \<and> table_shows ops key val others s' (table_spec Clear v)"
proof -
  obtain h out m where m: "s = (h, out, m)" by (cases s)
  have ok: "hmap_ok ops key m" and own: "owns_block others h m" and e: "hm_element_size m = 16"
    and v: "v = ((\<lambda>k. map_option val (hm_map ops key (hm_cells m) k)), image_mset (\<lambda>e. (key e, val e)) (mset out))"
    using s by (simp_all add: table_shows_def m)
  have dist: "distinct (map key (entries ops (hm_cells m)))" using ok by (auto simp: hmap_ok_def cells_ok_def)
  let ?h = "mem_free (hm_block m) h" and ?out = "out @ entries ops (hm_cells m)"
  have h: "set (h_live ?h) = others" "\<forall>i \<in> others. i < h_next ?h"
    using own by (auto simp: owns_block_def mem_free_def)
  obtain h' m' where c: "map_construct (\<lambda>_. True) ops 16 (?h, ?out) = Some (h', ?out, m')"
    using construct_defined [of 16 ?h ?out] by auto
  note new = construct_run [OF c h]
  have "do_call ops mk Clear s = Some (h', ?out, m')"
    using c by (simp add: m map_clear_def table_release_run [OF ok] e)
  then show ?thesis using new contents_entries [OF dist] by (simp add: v table_shows_def)
qed

lemma shows_count:
  assumes "table_shows ops key val others s v"
  shows "unat (hm_count (snd (snd s))) = card (dom (fst v)) \<and> finite (dom (fst v))"
proof -
  obtain h out m where m: "s = (h, out, m)" by (cases s)
  have ok: "hmap_ok ops key m" and v: "fst v = (\<lambda>k. map_option val (hm_map ops key (hm_cells m) k))"
    using assms by (simp_all add: table_shows_def m)
  have dist: "distinct (map key (entries ops (hm_cells m)))" and "unat (hm_count m) = length (entries ops (hm_cells m))"
    using ok by (auto simp: hmap_ok_def cells_ok_def)
  moreover have "dom (fst v) = dom (hm_map ops key (hm_cells m))" by (auto simp: v dom_def)
  ultimately show ?thesis using entries_length [OF dist] by (simp add: m hm_map_def finite_dom_map_of)
qed

lemma call_shows:
  assumes s: "table_shows ops key val others s v" and c: "call_fits valid c" and n: "card (dom (fst v)) < 2 ^ 56"
  shows "\<exists>s'. do_call ops mk c s = Some s' \<and> table_shows ops key val others s' (table_spec c v)"
proof (cases c)
  case (Put k w)
  then show ?thesis using put_shows [OF s, of k w] shows_count [OF s] c n by simp
next
  case (Remove k)
  then show ?thesis using remove_shows [OF s, of k] c by simp
next
  case (Reserve m)
  then show ?thesis using reserve_shows [OF s, of m] c by simp
next
  case Clear
  then show ?thesis using clear_shows [OF s] by simp
qed

lemma spec_grows:
  assumes "finite (dom (fst v))"
  shows "card (dom (fst (table_spec c v))) \<le> Suc (card (dom (fst v)))"
proof (cases v)
  case (Pair M R)
  show ?thesis
  proof (cases c)
    case (Put k w)
    then show ?thesis using Pair assms card_insert_le_m1 [of "Suc (card (dom M))" "dom M" k]
      by (simp split: option.splits)
  next
    case (Remove k)
    then show ?thesis using Pair assms by (simp add: le_SucI card_Diff1_le split: option.splits)
  qed (simp_all add: Pair)
qed

lemma calls_show:
  assumes "table_shows ops key val others s v" and "\<forall>c \<in> set cs. call_fits valid c"
    and "card (dom (fst v)) + length cs < 2 ^ 56"
  shows "\<exists>s'. run_all (do_call ops mk) cs s = Some s' \<and> table_shows ops key val others s' (fold table_spec cs v)"
  using assms
proof (induction cs arbitrary: s v)
  case (Cons c cs)
  have fits: "call_fits valid c" "\<forall>c \<in> set cs. call_fits valid c" using Cons.prems(2) by simp_all
  have n: "card (dom (fst v)) < 2 ^ 56" using Cons.prems(3) by simp
  obtain s1 where s1: "do_call ops mk c s = Some s1" "table_shows ops key val others s1 (table_spec c v)"
    using call_shows [OF Cons.prems(1) fits(1) n] by blast
  have "card (dom (fst (table_spec c v))) + length cs < 2 ^ 56"
    using spec_grows [of v c] shows_count [OF Cons.prems(1)] Cons.prems(3) by simp
  from Cons.IH [OF s1(2) fits(2) this] show ?case using s1(1) by simp
qed simp

text \<open>A new table, any calls, then lookups and the end.\<close>

lemma table_refines:
  assumes "\<forall>c \<in> set cs. call_fits valid c" and "length cs < 2 ^ 56" and "\<forall>i \<in> set (h_live h). i < h_next h"
  shows "\<exists>s h' out. Option.bind (map_construct (\<lambda>_. True) ops 16 (h, [])) (run_all (do_call ops mk) cs) = Some s \<and>
    map_destruct ops True s = Some (h', out) \<and> set (h_live h') = set (h_live h) \<and>
    (case fold table_spec cs (Map.empty, {#}) of (M, R) \<Rightarrow>
       unat (map_size (snd (snd s))) = card (dom M) \<and>
       (\<forall>k. valid k \<longrightarrow> map_option val (Option.bind (map_at ops (mk k 0) (snd (snd s))) (map_element (snd (snd s)))) =
          Some (case M k of None \<Rightarrow> 0 | Some w \<Rightarrow> w)) \<and>
       image_mset (\<lambda>e. (key e, val e)) (mset out) = R + contents M)"
proof -
  obtain h0 m0 where c: "map_construct (\<lambda>_. True) ops 16 (h, []) = Some (h0, [], m0)"
    using construct_defined [of 16 h "[]"] by auto
  have "table_shows ops key val (set (h_live h)) (h0, [], m0) (Map.empty, {#})"
    using construct_run [OF c refl assms(3)] by (simp add: table_shows_def)
  then obtain s where s: "run_all (do_call ops mk) cs (h0, [], m0) = Some s"
    "table_shows ops key val (set (h_live h)) s (fold table_spec cs (Map.empty, {#}))"
    using calls_show [of "set (h_live h)" "(h0, [], m0)" "(Map.empty, {#})" cs] assms(1,2) by auto
  obtain h1 out m where m: "s = (h1, out, m)" by (cases s)
  have ok: "hmap_ok ops key m" and own: "owns_block (set (h_live h)) h1 m"
    and v: "fold table_spec cs (Map.empty, {#}) =
      ((\<lambda>k. map_option val (hm_map ops key (hm_cells m) k)), image_mset (\<lambda>e. (key e, val e)) (mset out))"
    using s(2) by (simp_all add: table_shows_def m)
  have dist: "distinct (map key (entries ops (hm_cells m)))" using ok by (auto simp: hmap_ok_def cells_ok_def)
  have "map_option val (Option.bind (map_at ops (mk k 0) m) (map_element m)) =
      Some (case map_option val (hm_map ops key (hm_cells m) k) of None \<Rightarrow> 0 | Some w \<Rightarrow> w)" if "valid k" for k
    unfolding at_finds [OF ok mk_entry [OF that]] key_mk [OF that]
    by (simp add: null_val split: option.splits)
  moreover have "set (h_live (mem_free (hm_block m) h1)) = set (h_live h)"
    using own by (auto simp: owns_block_def mem_free_def)
  moreover have "map_destruct ops True s = Some (mem_free (hm_block m) h1, out @ entries ops (hm_cells m))"
    by (simp add: map_destruct_def m table_release_run [OF ok])
  moreover have "unat (map_size m) = card (dom (fst (fold table_spec cs (Map.empty, {#}))))"
    using shows_count [OF s(2)] by (simp add: m map_size_def)
  ultimately show ?thesis
    using c s(1) contents_entries [OF dist]
    by (intro exI [of _ s] exI [of _ "mem_free (hm_block m) h1"] exI [of _ "out @ entries ops (hm_cells m)"])
      (simp add: v m)
qed

end

interpretation mapi_table:
  keyed_table mapi_ops mie_key mie_value "\<lambda>k. k \<noteq> 0" "\<lambda>k v. \<lparr>mie_key = k, mie_value = v\<rparr>"
  by unfold_locales (simp_all add: mapi_ops_def mapi_hash_def)

interpretation maps_table:
  keyed_table maps_ops "\<lambda>e. c_str (the (mse_key e))" mse_value c_string "\<lambda>k v. \<lparr>mse_key = Some k, mse_value = v\<rparr>"
proof unfold_locales
  fix x y
  show "eo_hash maps_ops x \<noteq> None" if "\<not> eo_empty maps_ops x"
    using that string_hash_defined by (cases "mse_key x") (simp_all add: maps_ops_def maps_hash_def)
  show "eo_hash maps_ops x = eo_hash maps_ops y"
    if "\<not> eo_empty maps_ops x" "\<not> eo_empty maps_ops y" "c_str (the (mse_key x)) = c_str (the (mse_key y))"
    using that by (auto simp: maps_ops_def maps_hash_def hash_string_def)
qed (auto simp: maps_ops_def)

subsection \<open>Calls\<close>

fun mapi_call :: "size_t table_call \<Rightarrow> mapi_entry mstate \<Rightarrow> mapi_entry mstate option" where
  "mapi_call (Put k v) s = mapi_insert (\<lambda>_. True) k v True s"
| "mapi_call (Remove k) s = mapi_erase k True s"
| "mapi_call (Reserve n) s = mapi_reserve (\<lambda>_. True) n s"
| "mapi_call Clear s = mapi_clear (\<lambda>_. True) True s"

fun maps_call :: "string table_call \<Rightarrow> maps_entry mstate \<Rightarrow> maps_entry mstate option" where
  "maps_call (Put k v) s = maps_insert (\<lambda>_. True) (Some k) v True s"
| "maps_call (Remove k) s = maps_erase (Some k) True s"
| "maps_call (Reserve n) s = maps_reserve (\<lambda>_. True) n s"
| "maps_call Clear s = maps_clear (\<lambda>_. True) True s"

lemma mapi_call_do: "mapi_call = do_call mapi_ops (\<lambda>k v. \<lparr>mie_key = k, mie_value = v\<rparr>)"
proof (intro ext)
  fix c s
  show "mapi_call c s = do_call mapi_ops (\<lambda>k v. \<lparr>mie_key = k, mie_value = v\<rparr>) c s"
    by (cases c) (simp_all only: mapi_call.simps do_call.simps mapi_insert_def mapi_erase_def mapi_reserve_def mapi_clear_def)
qed

lemma maps_call_do: "maps_call = do_call maps_ops (\<lambda>k v. \<lparr>mse_key = Some k, mse_value = v\<rparr>)"
proof (intro ext)
  fix c s
  show "maps_call c s = do_call maps_ops (\<lambda>k v. \<lparr>mse_key = Some k, mse_value = v\<rparr>) c s"
    by (cases c) (simp_all only: maps_call.simps do_call.simps maps_insert_def maps_erase_def maps_reserve_def maps_clear_def)
qed

text \<open>
  While memory lasts, a table of words is a finite map, whatever sequence of insertions, erasures,
  reservations and clearings is applied to it: a lookup returns the value of the first insertion that is
  still there, or zero; the size is the number of entries; every entry is released exactly once,
  when it is erased, when it is cleared, when the table ends, or when its key was there already; and nothing
  but the blocks of before stays allocated.
\<close>

theorem mapi_is_a_finite_map:
  assumes "\<forall>c \<in> set calls. call_fits (\<lambda>k. k \<noteq> 0) c" and "length calls < 2 ^ 56" and "\<forall>i \<in> set (h_live h). i < h_next h"
  shows "\<exists>s h' out. Option.bind (mapi_construct (\<lambda>_. True) (h, [])) (run_all mapi_call calls) = Some s \<and>
    mapi_destruct True s = Some (h', out) \<and> set (h_live h') = set (h_live h) \<and>
    (case fold table_spec calls (Map.empty, {#}) of (M, R) \<Rightarrow>
       unat (mapi_size (snd (snd s))) = card (dom M) \<and>
       (\<forall>k. k \<noteq> 0 \<longrightarrow> mapi_at (snd (snd s)) k = Some (case M k of None \<Rightarrow> 0 | Some w \<Rightarrow> w)) \<and>
       image_mset (\<lambda>e. (mie_key e, mie_value e)) (mset out) = R + contents M)"
  using mapi_table.table_refines [OF assms]
  unfolding mapi_call_do mapi_construct_def mapi_destruct_def mapi_size_def mapi_at_def .

lemma mapi_is_a_finite_map_witness:
  "\<exists>s h' out. Option.bind (mapi_construct (\<lambda>_. True) (\<lparr>h_next = 1, h_live = [0]\<rparr>, []))
      (run_all mapi_call [Put 1 10, Put 17 20, Put 1 30, Remove 17]) = Some s \<and>
    mapi_destruct True s = Some (h', out) \<and> set (h_live h') = {0} \<and> unat (mapi_size (snd (snd s))) = 1 \<and>
    mapi_at (snd (snd s)) 1 = Some 10 \<and> mapi_at (snd (snd s)) 17 = Some 0 \<and>
    image_mset (\<lambda>e. (mie_key e, mie_value e)) (mset out) = {#(1, 30), (17, 20), (1, 10)#}"
proof -
  have "\<forall>c \<in> set [Put 1 10, Put 17 20, Put 1 30, Remove 17]. call_fits (\<lambda>k. k \<noteq> (0 :: size_t)) c"
    and "length [Put (1 :: size_t) 10, Put 17 20, Put 1 30, Remove 17] < 2 ^ 56"
    and "\<forall>i \<in> set (h_live \<lparr>h_next = 1, h_live = [0]\<rparr>). i < h_next \<lparr>h_next = 1, h_live = [0]\<rparr>" by simp_all
  note run = mapi_is_a_finite_map [OF this]
  have "dom [(1 :: size_t) \<mapsto> (10 :: size_t)] = {1}" by auto
  then have "fold table_spec [Put 1 10, Put 17 20, Put 1 30, Remove (17 :: size_t)] (Map.empty, {#}) =
      ([1 \<mapsto> 10], {#(17, 20), (1, 30)#})" and "contents [(1 :: size_t) \<mapsto> (10 :: size_t)] = {#(1, 10)#}"
    by (simp_all add: contents_def fun_upd_twist)
  with run show ?thesis by (auto simp: add_mset_commute)
qed

text \<open>The same for the table of strings, with string keys that end at their NUL.\<close>

theorem maps_is_a_finite_map:
  assumes "\<forall>c \<in> set calls. call_fits c_string c" and "length calls < 2 ^ 56" and "\<forall>i \<in> set (h_live h). i < h_next h"
  shows "\<exists>s h' out. Option.bind (maps_construct (\<lambda>_. True) (h, [])) (run_all maps_call calls) = Some s \<and>
    maps_destruct True s = Some (h', out) \<and> set (h_live h') = set (h_live h) \<and>
    (case fold table_spec calls (Map.empty, {#}) of (M, R) \<Rightarrow>
       unat (maps_size (snd (snd s))) = card (dom M) \<and>
       (\<forall>k. c_string k \<longrightarrow> maps_at (snd (snd s)) (Some k) = Some (case M k of None \<Rightarrow> 0 | Some w \<Rightarrow> w)) \<and>
       image_mset (\<lambda>e. (c_str (the (mse_key e)), mse_value e)) (mset out) = R + contents M)"
  using maps_table.table_refines [OF assms]
  unfolding maps_call_do maps_construct_def maps_destruct_def maps_size_def maps_at_def .

lemma zero_key_at:
  assumes "hm_capacity m = 16" and "length (hm_cells m) = 16" and "mie_key (hm_cells m ! 0) = 0"
  shows "map_at mapi_ops \<lparr>mie_key = 0, mie_value = v\<rparr> m = Some 0 \<and> map_element m 0 = Some (hm_cells m ! 0)"
proof -
  have "hash_uint64 0 = 0" by (simp add: hash_uint64_def Let_def)
  then show ?thesis
    using assms by (simp add: map_at_def mapi_ops_def mapi_hash_def, subst probe.simps, simp add: map_element_def Let_def)
qed

lemma zero_key_put:
  assumes m: "hm_capacity m = 16" "length (hm_cells m) = 16" "mie_key (hm_cells m ! 0) = 0" and c: "hm_count m < 8"
  shows "mapi_call (Put 0 v) (h, out, m) = Some (h, out,
    m\<lparr>hm_cells := (hm_cells m)[0 := \<lparr>mie_key = 0, mie_value = v\<rparr>], hm_count := hm_count m + 1\<rparr>)"
proof -
  have "unat (hm_count m) < 8" using c by (simp add: word_less_nat_alt)
  then have "unat ((hm_count m + 1) * 2) \<le> 16"
    using unat_double [of "hm_count m + 1"] unat_size_add [of "hm_count m" 1] by simp
  then have "\<not> hm_capacity m < (hm_count m + 1) * 2" using m(1) by (simp add: word_less_nat_alt)
  then show ?thesis
    using zero_key_at [OF m] m(3) by (simp add: mapi_insert_def map_reserve_def Let_def, simp add: mapi_ops_def)
qed

text \<open>
  The key zero marks an empty cell: entries with this key are counted, but each overwrites the one before,
  and none is ever released.
\<close>

theorem zero_keys_are_lost:
  "\<exists>s h'. Option.bind (mapi_construct (\<lambda>_. True) (h, []))
      (run_all mapi_call [Put 0 v, Put 0 w, Remove 0]) = Some s \<and>
    mapi_size (snd (snd s)) = 2 \<and> mapi_at (snd (snd s)) 0 = Some w \<and> mapi_destruct True s = Some (h', [])"
proof -
  define h1 where "h1 = h\<lparr>h_next := Suc (h_next h), h_live := h_next h # h_live h\<rparr>"
  define m where "m = (\<lambda>e c. \<lparr>hm_block = Some (h_next h),
    hm_cells = (replicate 16 \<lparr>mie_key = 0, mie_value = 0\<rparr>)[0 := e], hm_count = c, hm_capacity = 16, hm_element_size = 16\<rparr>)"
  have fields: "hm_capacity (m e c) = 16" "length (hm_cells (m e c)) = 16" "hm_cells (m e c) ! 0 = e" "hm_count (m e c) = c"
    "(m e c)\<lparr>hm_cells := (hm_cells (m e c))[0 := e'], hm_count := c'\<rparr> = m e' c'" for e c e' c'
    by (simp_all add: m_def)
  have "(replicate 16 z)[0 := z] = replicate 16 z" for z :: mapi_entry
    by (rule list_update_same_conv [THEN iffD2]) simp_all
  moreover have "map_roundup 16 = 16" by code_simp
  ultimately have new: "mapi_construct (\<lambda>_. True) (h, []) = Some (h1, [], m \<lparr>mie_key = 0, mie_value = 0\<rparr> 0)"
    by (simp add: mapi_construct_def map_construct_def map_rehash_def MAP_ELEMENTS_CAPACITY_MIN_def mem_alloc_def
      mapi_ops_def h1_def m_def)
  have put: "mapi_call (Put 0 u) (h1, [], m e c) = Some (h1, [], m \<lparr>mie_key = 0, mie_value = u\<rparr> (c + 1))"
    if "mie_key e = 0" "c < 8" for e c u
    using zero_key_put [of "m e c" u h1 "[]"] that by (simp only: fields)
  have remove: "mapi_call (Remove 0) (h1, [], m e c) = Some (h1, [], m e c)" if "mie_key e = 0" for e c
    using zero_key_at [of "m e c" 0] that fields by (simp add: mapi_erase_def map_erase_def, simp add: mapi_ops_def)
  let ?w = "\<lparr>mie_key = 0, mie_value = w\<rparr>"
  have at: "mapi_at (m ?w 2) 0 = Some w" using zero_key_at [of "m ?w 2" 0] fields by (simp add: mapi_at_def)
  have "filter (\<lambda>e. \<not> eo_empty mapi_ops e) (hm_cells (m ?w 2)) = []"
    by (auto simp: m_def mapi_ops_def filter_empty_conv dest!: set_update_subset_insert [THEN subsetD])
  then have free: "mapi_destruct True (h1, [], m ?w 2) = Some (mem_free (hm_block (m ?w 2)) h1, [])"
    by (simp add: mapi_destruct_def map_destruct_def map_release_all_def read_n_def fields)
  have run: "run_all mapi_call [Put 0 v, Put 0 w, Remove 0] (h1, [], m \<lparr>mie_key = 0, mie_value = 0\<rparr> 0) = Some (h1, [], m ?w 2)"
    by (simp add: put remove del: mapi_call.simps)
  show ?thesis
    using at free by (intro exI [of _ "(h1, [], m ?w 2)"] exI) (simp only: new run bind.bind_lunit snd_conv mapi_size_def
      map_size_def fields simp_thms)
qed

end
