(* ===== verification/Spec2Isabelle.thy ===== *)
theory Spec2Isabelle
  imports Binary_Properties Reactor_Properties Http_Reactor_Properties Linked_List Mem_Pool Loadgen_Uring Http_Main
    Buffer_Roundup Utility_U32 Hash_Tables
begin

text \<open>
  A model of the two servers of this repository, of the load generators that drive the second one,
  and of the parts of the vendored library libreactor they run on.

  \<^bold>\<open>The program.\<close> \<open>src/src/main/libreactor-server.c\<close> (with \<open>libreactor.c\<close>, its smaller sibling) is an
  HTTP server: it reads its options, detects the CPUs, and forks one worker for every CPU. The
  workers start one after the other, each signalling the parent through an event descriptor; every
  worker opens a listening socket on the same port and runs the reactor's HTTP server, which calls
  back into the routes of \<open>domain/http_server.c\<close> for every request. The parent waits for a signal or
  for the exit of a child. \<open>src/src/main/libreactor-binary-server.c\<close> does the same for a binary
  protocol of length-prefixed packets (a MessagePack map or seven raw bytes) over
  \<open>infrastructure/binary_server.c\<close>. \<open>bench/binary_loadgen.c\<close> and \<open>bench/binary_loadgen_uring.c\<close> are the
  clients of the binary protocol.

  \<^bold>\<open>Theories and sources.\<close>

  \<^item> \<open>Prelude\<close>: the C vocabulary (size_t and its wrap-around, NUL-terminated strings, snprintf into an
    object, early returns), collections of facts. \<open>Decimal\<close>: decimal text, with the locale
    \<open>decimal_printer\<close>. \<open>C_Time\<close>: the broken-down time and the texts made of it. \<open>Framing\<close>: the
    abstract server of framed packets, \<open>drain\<close>, and the locale \<open>incremental_parser\<close>.
  \<^item> \<open>Http_Response\<close>: \<open>domain/http_response.c\<close>, the response writer over a bounded buffer.
    \<open>Http_Server\<close>: \<open>domain/http_server.c\<close>, creation, route parsing and the handlers.
    \<open>Data_Segment\<close>: the reactor's \<open>data.c\<close>.
  \<^item> \<open>Log\<close>, \<open>Signals\<close>, \<open>System\<close>, \<open>Process\<close>, \<open>Socket\<close>: the files of \<open>src/src/platform\<close> of the same names.
    \<open>Worker_Startup\<close>: the parent and its workers as a step relation, each event descriptor a counter.
  \<^item> \<open>Server_Infra\<close>: \<open>infrastructure/server_infrastructure.c\<close>, which composes the modules above on one
    world of allocations, processes and handlers. \<open>Silence\<close>: no operation of it touches a disabled
    logger. \<open>Http_Main\<close>: the two HTTP programs around it.
  \<^item> \<open>Utility_U32\<close>, \<open>Buffer_Roundup\<close>, \<open>Buffer\<close>, \<open>Descriptor\<close>, \<open>Stream\<close>: the reactor's \<open>utility.c\<close>,
    \<open>buffer.c\<close>, \<open>descriptor.c\<close> and \<open>stream.c\<close>. \<open>Buffer\<close> states the locale \<open>byte_queue\<close>, \<open>Stream\<close> the
    locale \<open>byte_stream\<close> on top of it.
  \<^item> \<open>Picohttp\<close>: the request parser of \<open>picohttpparser.c\<close> on the received bytes and the memory behind
    them. \<open>Picohttp_Spec\<close>: the same parser as an incremental parser. \<open>Http_Protocol\<close>: \<open>http.c\<close> and
    \<open>pointer.c\<close>. \<open>Http_Connection\<close>: \<open>server.c\<close> and the use it makes of \<open>timer.c\<close>. \<open>Http_Serving\<close> and
    \<open>Http_Properties\<close>: the connections running the routes of \<open>Http_Server\<close>.
  \<^item> \<open>Reactor_Core\<close>: the reactor's \<open>core.c\<close>, the table of polled descriptors, the rings and the loop.
    \<open>Reactor_Ok\<close>: its invariants and what every call does to them. \<open>Reactor_Loop\<close>: the locale
    \<open>reactor_program\<close>, what holds for every program on the loop. \<open>Reactor_Rounds\<close>: single rounds of
    it, and registering. \<open>Mem_Pool\<close>: the memory pools of \<open>core.c\<close>. \<open>Linked_List\<close>: \<open>list.c\<close> on a store of
    cells, with the locale \<open>object_list\<close>.
  \<^item> \<open>Binary_Codec\<close>, \<open>Binary_Server\<close>, \<open>Binary_Properties\<close>: \<open>infrastructure/binary_server.c\<close>, the packets,
    the connections, what they do. \<open>Binary_Main\<close>: the program around them.
  \<^item> \<open>Binary_Reactor\<close>, \<open>Reactor_Serving\<close>, \<open>Reactor_Properties\<close>: the binary server on the event loop, and the
    properties of the loop. \<open>Http_Reactor\<close>, \<open>Http_Reactor_Serving\<close>, \<open>Http_Reactor_Properties\<close>: the HTTP
    server, with its timer, on the event loop, as a refinement of an abstract server.
  \<^item> \<open>Loadgen\<close>, \<open>Loadgen_Uring\<close>: the two load generators.
  \<^item> \<open>Hash\<close>: the reactor's \<open>hash.c\<close>. \<open>Hash_Map\<close>: \<open>map.c\<close>, a hash table that knows its elements through
    callbacks. \<open>Hash_Tables\<close>: \<open>mapi.c\<close> and \<open>maps.c\<close>, which supply the callbacks. The servers do not use them.

  \<^bold>\<open>Conventions.\<close> A function of the source is a definition of the same name. It takes and returns the
  state it changes; a struct is a record, an enum a datatype, a \<open>size_t\<close> or \<open>uint32_t\<close> a word. At the
  outermost level of a result, \<open>None\<close> always means that the run has no defined outcome: an access to
  freed or foreign memory, a failed assertion, a lock taken twice. An error the source reports is a
  value below that. What the kernel
  answers is an argument, a script: \<open>recv\<close> and \<open>send\<close> results, accepted descriptors, fork and wait
  results, the times of the clock. The ring of liburing is the list of entries that were submitted, the
  list of operations the kernel has taken and the list of completions; what the kernel completes before
  and during a round of the loop is the script of the round. Every theorem quantifies over the
  scripts or names the ones it is about. An object on the heap that only its owner refers to is a value of
  its owner; where the links between objects matter (\<open>Linked_List\<close>) or their addresses
  (\<open>Mem_Pool\<close>), the store is explicit.

  \<^bold>\<open>Loops.\<close> Loops over lists, counters and bytes are structural or have a measure. The request loop of
  an HTTP connection runs on fuel, the number of received bytes plus three; \<open>update_terminates\<close>
  proves that this is enough, whatever the bytes are. The loops that wait for the outside world
  run over the finite script of what the world does.

  \<^bold>\<open>Interfaces.\<close> \<open>decimal_printer\<close> is interpreted on the printer of the C library (\<open>c_dec\<close>) and on
  \<open>utility_u32_sprint\<close> (\<open>u32_printer\<close>); \<open>byte_queue\<close> on the buffers (\<open>buffer_queue\<close>); \<open>byte_stream\<close> on
  plain streams (\<open>socket_stream\<close>); \<open>incremental_parser\<close> on the packet parsers of the binary server
  and of its client (\<open>binary_parser\<close>, \<open>client_parser\<close>) and on the HTTP requests (\<open>request_parser\<close>);
  \<open>reactor_program\<close>, the contract between the event loop and a handler (it keeps its invariant, and ends
  with a new poll of its descriptor or with deleting it), on the handlers of the binary
  server (\<open>binary_loop\<close>) and of the HTTP server (\<open>http_loop\<close>); \<open>object_list\<close> on the list of the binary
  server's connections (\<open>conns\<close>); \<open>hash_entries\<close>, what the hash table needs of the callbacks, extended by
  \<open>keyed_table\<close> for elements of a key and a value, on both kinds of table (\<open>mapi_table\<close>, \<open>maps_table\<close>).

  \<^bold>\<open>What the lemmas show.\<close> The buffers hold what was put into them, in order, for every sequence of
  operations; streams deliver and send all bytes whatever the socket takes at a time. Both servers
  are refinements of \<open>drain\<close>: their answers are those of the specification, in the order of the
  requests, independent of how the bytes arrive. On the event loop, whatever the order of the events
  of different clients, every client sees the answers to its own requests and nothing else; a
  registered descriptor always has a poll in flight, the requests on the server's list are at rest
  between events, and a signal ends the loop. The list of the connections never touches freed
  memory, and the pools are sound for as many operations as stated. Responses and requests that are
  written can be read back. Creating and destroying the server balances every allocation, handler
  and descriptor; the start-up of the workers is sequential, and comes to rest after a bounded number of
  steps, with all workers started, at the first error of a system call, or waiting for a worker that was lost
  or could not signal. The parent leaves its loop only when a worker ends: \<open>wait\<close> is restarted after a
  signal (\<open>SA_RESTART\<close>). The hash tables are finite maps under every sequence of calls, and release
  every entry once; the key zero of \<open>mapi.c\<close> is lost. Sizes that are calculated in advance are enough exactly under the bounds stated.
  Several theorems describe undefined or unintended behaviour as it is: the connection that is used
  after it was freed, the handler that logs while the log is locked, the response that is not
  finished before the connection is closed, the parser that looks behind its input, the descriptor
  that is not registered because the table is full, the completion that reaches the next owner
  of a slot, the object that drifts through its block with every reuse.

  \<^bold>\<open>Not modelled.\<close> Of \<open>core.c\<close>, the functions that return a constant or wrap one system call, the entry
  points that are kept for compatibility, and the locks of the pools; \<open>event.c\<close>, \<open>notify.c\<close> and
  \<open>async.c\<close>, which no server uses; the containers \<open>vector.c\<close> and \<open>string.c\<close>; name resolution and the opening of sockets; TLS, since the programs pass no context; the response
  parser and the chunked decoder, which no server calls; \<open>libreactor_postgres\<close>, \<open>libclo\<close>, \<open>libdynamic\<close>
  and the test framework. The load generators' printed floating-point statistics and clocks are
  left out; the counters they are computed from are modelled.
\<close>

end
